(* ===== verification/Oap_Prelude.thy ===== *)
theory Oap_Prelude
  imports Main "HOL-Library.Word" "HOL-Library.Char_ord" "HOL-Library.List_Lexorder"
begin

text \<open>
  What the components share: the type names of the Go values the sources use, the few
  functions of Go's \<^verbatim>\<open>strings\<close>, \<^verbatim>\<open>bytes\<close> and \<^verbatim>\<open>sort\<close> packages that several files
  call, the collections of simplification rules the component theories fill, and generic
  lemmas on lists, options and maps.

  A Go \<^verbatim>\<open>string\<close> or \<^verbatim>\<open>[]byte\<close> is a list of bytes; HOL's \<^typ>\<open>char\<close> has exactly the
  256 byte values, so \<^typ>\<open>string\<close> is used for both, and \<^const>\<open>length\<close> counts bytes as
  Go's \<^verbatim>\<open>len\<close> does.  A Go \<^verbatim>\<open>int\<close> or \<^verbatim>\<open>int64\<close> is an \<^typ>\<open>int\<close> (the ranges are stated
  where a theorem needs them), a nil-able pointer is an \<^typ>\<open>'a option\<close>, and an error
  return is the left side of a sum.
\<close>

section \<open>Collections of rules\<close>

named_theorems stream_simps \<open>what a send to an event sink does\<close>
named_theorems agent_simps \<open>what the primitives of a run do to its fields\<close>
named_theorems serve_simps \<open>what the primitives of a server session do to its fields\<close>
named_theorems journal_simps \<open>the invariants of the followers of a journal\<close>

section \<open>Bytes, strings and their Go library functions\<close>

type_synonym byte = char
type_synonym bytes = "char list"

abbreviation LF :: byte where "LF \<equiv> CHR 0x0A"
abbreviation CR :: byte where "CR \<equiv> CHR 0x0D"
abbreviation NUL :: byte where "NUL \<equiv> CHR 0x00"
abbreviation SP :: byte where "SP \<equiv> CHR 0x20"

text \<open>A float64 is kept as its bit pattern; arithmetic on it is a parameter
  (record \<open>float_unit\<close> in the provider theories), so no rounding rule is assumed.\<close>

type_synonym float64 = "64 word"

text \<open>\<^verbatim>\<open>strings.Cut\<close> and \<^verbatim>\<open>bytes.Cut\<close> at a one-byte separator: what precedes the first
  occurrence, what follows it, and whether there is one.\<close>

definition go_cut :: "byte \<Rightarrow> bytes \<Rightarrow> bytes \<times> bytes \<times> bool" where
  "go_cut sep s =
     (if sep \<in> set s then (takeWhile (\<lambda>c. c \<noteq> sep) s, tl (dropWhile (\<lambda>c. c \<noteq> sep) s), True)
      else (s, [], False))"

text \<open>\<^verbatim>\<open>strings.HasPrefix\<close> and \<^verbatim>\<open>strings.Contains\<close>.\<close>

fun has_prefix :: "bytes \<Rightarrow> bytes \<Rightarrow> bool" where
  "has_prefix s [] = True"
| "has_prefix [] (p # ps) = False"
| "has_prefix (c # s) (p # ps) = (c = p \<and> has_prefix s ps)"

fun contains_sub :: "bytes \<Rightarrow> bytes \<Rightarrow> bool" where
  "contains_sub [] sub = (sub = [])"
| "contains_sub (c # s) sub = (has_prefix (c # s) sub \<or> contains_sub s sub)"

text \<open>\<^verbatim>\<open>bytes.TrimPrefix\<close>.\<close>

definition trim_prefix :: "bytes \<Rightarrow> bytes \<Rightarrow> bytes" where
  "trim_prefix s p = (if has_prefix s p then drop (length p) s else s)"

lemma takeWhile_neq_hit: "sep \<notin> set a \<Longrightarrow> takeWhile (\<lambda>c. c \<noteq> sep) (a @ sep # b) = a"
  by (induction a) auto

lemma dropWhile_neq_hit:
  "sep \<notin> set a \<Longrightarrow> dropWhile (\<lambda>c. c \<noteq> sep) (a @ sep # b) = sep # b"
  by (induction a) auto

lemma go_cut_hit [simp]:
  "sep \<notin> set a \<Longrightarrow> go_cut sep (a @ sep # b) = (a, b, True)"
  by (simp add: go_cut_def takeWhile_neq_hit dropWhile_neq_hit)

lemma go_cut_miss [simp]: "sep \<notin> set a \<Longrightarrow> go_cut sep a = (a, [], False)"
  by (simp add: go_cut_def)

lemma go_cut_parts:
  assumes "go_cut sep s = (a, b, True)"
  shows "s = a @ sep # b \<and> sep \<notin> set a"
proof -
  from assms have "sep \<in> set s" by (auto simp: go_cut_def split: if_splits)
  then obtain x y where "s = x @ sep # y" "sep \<notin> set x" by (meson split_list_first)
  with assms show ?thesis by simp
qed

lemma go_cut_none: "go_cut sep s = (a, b, False) \<Longrightarrow> a = s \<and> b = [] \<and> sep \<notin> set s"
  by (auto simp: go_cut_def split: if_splits)

lemma go_cut_lengths:
  "go_cut sep s = (a, b, f) \<Longrightarrow> length a \<le> length s \<and> length b \<le> length s"
  by (cases f) (auto dest!: go_cut_parts, auto simp: go_cut_def split: if_splits)

lemma has_prefix_iff: "has_prefix s p \<longleftrightarrow> (\<exists>t. s = p @ t)"
  by (induction s p rule: has_prefix.induct) auto

lemma has_prefix_append [simp]: "has_prefix (p @ t) p"
  by (simp add: has_prefix_iff)

lemma contains_sub_iff: "contains_sub s p \<longleftrightarrow> (\<exists>a b. s = a @ p @ b)"
proof (induction s)
  case Nil
  then show ?case by auto
next
  case (Cons c s)
  show ?case
  proof
    assume "contains_sub (c # s) p"
    then consider "has_prefix (c # s) p" | "contains_sub s p" by auto
    then show "\<exists>a b. c # s = a @ p @ b"
    proof cases
      case 1
      then show ?thesis by (metis append_Nil has_prefix_iff)
    next
      case 2
      with Cons.IH obtain a b where "s = a @ p @ b" by blast
      then have "c # s = (c # a) @ p @ b" by simp
      then show ?thesis by blast
    qed
  next
    assume "\<exists>a b. c # s = a @ p @ b"
    then obtain a b where ab: "c # s = a @ p @ b" by blast
    show "contains_sub (c # s) p"
    proof (cases a)
      case Nil
      with ab show ?thesis by (metis append_Nil contains_sub.simps(2) has_prefix_iff)
    next
      case (Cons x xs)
      with ab have "s = xs @ p @ b" by simp
      with Cons.IH show ?thesis by auto
    qed
  qed
qed

section \<open>Generic lemmas\<close>

lemma snoc_eq_iff_butlast: "xs \<noteq> [] \<Longrightarrow> butlast xs @ [last xs] = xs"
  by simp

lemma takeWhile_all_neq: "x \<notin> set xs \<Longrightarrow> takeWhile (\<lambda>c. c \<noteq> x) xs = xs"
  by (induction xs) auto

lemma map_of_SomeD_set: "map_of xs k = Some v \<Longrightarrow> (k, v) \<in> set xs"
  by (rule map_of_SomeD)

end
