(* ===== verification/Sse_Parser.thy ===== *)
theory Sse_Parser
  imports Oap_Prelude
begin

text \<open>
  The provider side parser of server-sent events, \<^verbatim>\<open>go/internal/provider/sse.go\<close>: a
  byte-at-a-time scanner with a bound on one line and a bound on one event, fed by network
  chunks of any size.

  The record \<open>SSEParser\<close> is the Go struct; \<open>Feed\<close> is the method of the same name, with
  the parser after the call as an extra result (the method mutates its receiver) and the
  error return as the left side of a sum.  The theorems say that chunk boundaries do not
  matter, that the two bounds hold of every parser a caller can reach, and that the scanner
  computes what a line-by-line reading of the stream computes.
\<close>

section \<open>Model\<close>

datatype sse_error = ErrLineTooLarge | ErrEventTooLarge | ErrSSEParse

definition DefaultLineLimit :: int where "DefaultLineLimit = 1024 * 1024"
definition DefaultEventLimit :: int where "DefaultEventLimit = 4 * 1024 * 1024"

record SSEEvent =
  ev_Type :: bytes
  ev_HasType :: bool
  ev_Data :: bytes

record SSELimits =
  LineBytes :: int
  EventBytes :: int

record SSEParser =
  sp_limits :: SSELimits
  sp_line :: bytes
  sp_eventType :: bytes
  sp_hasType :: bool
  sp_data :: bytes
  sp_hasData :: bool
  sp_pendingCR :: bool

definition NewSSEParserWithLimits :: "SSELimits \<Rightarrow> SSEParser" where
  "NewSSEParserWithLimits l =
     \<lparr>sp_limits =
        \<lparr>LineBytes = (if LineBytes l \<le> 0 then DefaultLineLimit else LineBytes l),
         EventBytes = (if EventBytes l \<le> 0 then DefaultEventLimit else EventBytes l)\<rparr>,
      sp_line = [], sp_eventType = [], sp_hasType = False, sp_data = [],
      sp_hasData = False, sp_pendingCR = False\<rparr>"

definition NewSSEParser :: SSEParser where
  "NewSSEParser = NewSSEParserWithLimits \<lparr>LineBytes = 0, EventBytes = 0\<rparr>"

definition subtractFloor :: "int \<Rightarrow> int \<Rightarrow> int" where
  "subtractFloor tot part = (if part \<ge> tot then 0 else tot - part)"

definition setEventType :: "SSEParser \<Rightarrow> bytes \<Rightarrow> sse_error + SSEParser" where
  "setEventType p t =
     (if int (length t) > subtractFloor (EventBytes (sp_limits p)) (int (length (sp_data p)))
      then Inl ErrEventTooLarge
      else Inr (p\<lparr>sp_eventType := t, sp_hasType := True\<rparr>))"

definition appendEventData :: "SSEParser \<Rightarrow> bytes \<Rightarrow> sse_error + SSEParser" where
  "appendEventData p v =
     (let separator = (if sp_hasData p then 1 else 0 :: int);
          afterType = subtractFloor (EventBytes (sp_limits p)) (int (length (sp_eventType p)));
          remaining = subtractFloor afterType (int (length (sp_data p)))
      in if separator > remaining \<or> int (length v) > remaining - separator
         then Inl ErrEventTooLarge
         else Inr (p\<lparr>sp_data := (if separator \<noteq> 0 then sp_data p @ [LF] else sp_data p) @ v,
                      sp_hasData := True\<rparr>))"

definition appendLineByte :: "SSEParser \<Rightarrow> byte \<Rightarrow> sse_error + SSEParser" where
  "appendLineByte p b =
     (if int (length (sp_line p)) \<ge> LineBytes (sp_limits p) then Inl ErrLineTooLarge
      else Inr (p\<lparr>sp_line := sp_line p @ [b]\<rparr>))"

definition finalizeEvent :: "SSEParser \<Rightarrow> SSEEvent option \<times> SSEParser" where
  "finalizeEvent p =
     (if \<not> sp_hasData p then (None, p)
      else (Some \<lparr>ev_Type = sp_eventType p, ev_HasType = sp_hasType p, ev_Data = sp_data p\<rparr>,
            p\<lparr>sp_eventType := [], sp_hasType := False, sp_data := [], sp_hasData := False\<rparr>))"

text \<open>The field name and the value of one line: the split at the first colon and the one
  optional space.  Used by \<^verbatim>\<open>processLine\<close>, lines 113 to 121.\<close>

definition line_field :: "bytes \<Rightarrow> bytes \<times> bytes" where
  "line_field line =
     (case go_cut CHR '':'' line of
        (field, after, found) \<Rightarrow>
          let value = (if found then after else []) in
          (field, if value \<noteq> [] \<and> hd value = SP then tl value else value))"

definition processLine :: "SSEParser \<Rightarrow> bytes \<Rightarrow> sse_error + SSEParser" where
  "processLine p line =
     (if line = [] then Inr p
      else if hd line = CHR '':'' then Inr p
      else case line_field line of (field, value) \<Rightarrow>
        if field = ''event'' then setEventType p value
        else if field = ''data'' then appendEventData p value
        else Inr p)"

definition finishLine :: "SSEParser \<Rightarrow> SSEEvent list \<Rightarrow> sse_error + (SSEEvent list \<times> SSEParser)" where
  "finishLine p events =
     (if sp_line p = [] then
        (case finalizeEvent p of
           (Some event, p') \<Rightarrow> Inr (events @ [event], p')
         | (None, p') \<Rightarrow> Inr (events, p'))
      else case processLine p (sp_line p) of
        Inl e \<Rightarrow> Inl e
      | Inr p' \<Rightarrow> Inr (events, p'\<lparr>sp_line := []\<rparr>))"

text \<open>One iteration of the loop of \<^verbatim>\<open>Feed\<close> over the byte \<open>b\<close>.  On an error the parser
  keeps what was stored before the failing call, in particular the cleared \<open>pendingCR\<close>.\<close>

definition feed_byte ::
  "SSEParser \<Rightarrow> SSEEvent list \<Rightarrow> byte \<Rightarrow> (sse_error + SSEEvent list) \<times> SSEParser" where
  "feed_byte p events b =
     (let p1 = (if sp_pendingCR p then p\<lparr>sp_pendingCR := False\<rparr> else p)
      in if sp_pendingCR p \<and> b = LF then (Inr events, p1)
         else if b = LF then
           (case finishLine p1 events of
              Inl e \<Rightarrow> (Inl e, p1)
            | Inr (events', p2) \<Rightarrow> (Inr events', p2))
         else if b = CR then
           (case finishLine p1 events of
              Inl e \<Rightarrow> (Inl e, p1)
            | Inr (events', p2) \<Rightarrow> (Inr events', p2\<lparr>sp_pendingCR := True\<rparr>))
         else
           (case appendLineByte p1 b of
              Inl e \<Rightarrow> (Inl e, p1)
            | Inr p2 \<Rightarrow> (Inr events, p2)))"

fun feed_loop ::
  "SSEParser \<Rightarrow> SSEEvent list \<Rightarrow> bytes \<Rightarrow> (sse_error + SSEEvent list) \<times> SSEParser" where
  "feed_loop p events [] = (Inr events, p)"
| "feed_loop p events (b # bs) =
     (case feed_byte p events b of
        (Inl e, p') \<Rightarrow> (Inl e, p')
      | (Inr events', p') \<Rightarrow> feed_loop p' events' bs)"

definition Feed :: "SSEParser \<Rightarrow> bytes \<Rightarrow> (sse_error + SSEEvent list) \<times> SSEParser" where
  "Feed p chunk = feed_loop p [] chunk"

definition Reset :: "SSEParser \<Rightarrow> SSEParser" where
  "Reset p = p\<lparr>sp_line := [], sp_pendingCR := False, sp_eventType := [], sp_hasType := False,
               sp_data := [], sp_hasData := False\<rparr>"

fun SSEErrorMessage :: "sse_error \<Rightarrow> string" where
  "SSEErrorMessage ErrLineTooLarge = ''sse line too large''"
| "SSEErrorMessage ErrEventTooLarge = ''sse event too large''"
| "SSEErrorMessage ErrSSEParse = ''sse parse error''"

text \<open>A caller feeds chunk after chunk and stops at the first error, as the loops of
  \<^verbatim>\<open>Stream\<close> and \<^verbatim>\<open>StreamAnthropic\<close> do.\<close>

fun feed_chunks :: "SSEParser \<Rightarrow> bytes list \<Rightarrow> (sse_error + SSEEvent list) \<times> SSEParser" where
  "feed_chunks p [] = (Inr [], p)"
| "feed_chunks p (c # cs) =
     (case Feed p c of
        (Inl e, p') \<Rightarrow> (Inl e, p')
      | (Inr evs, p') \<Rightarrow>
          (case feed_chunks p' cs of
             (Inl e, p'') \<Rightarrow> (Inl e, p'')
           | (Inr evs', p'') \<Rightarrow> (Inr (evs @ evs'), p'')))"

section \<open>Reference: the stream read line by line\<close>

text \<open>\<open>split_lines cr cur bs\<close> cuts a byte stream at LF, CR and CRLF: the completed lines,
  the bytes of the line under way and whether a CR waits for its LF.\<close>

fun split_lines :: "bool \<Rightarrow> bytes \<Rightarrow> bytes \<Rightarrow> bytes list \<times> bytes \<times> bool" where
  "split_lines cr cur [] = ([], cur, cr)"
| "split_lines cr cur (b # bs) =
     (if cr \<and> b = LF then split_lines False cur bs
      else if b = LF then (case split_lines False [] bs of (ls, r) \<Rightarrow> (cur # ls, r))
      else if b = CR then (case split_lines True [] bs of (ls, r) \<Rightarrow> (cur # ls, r))
      else split_lines False (cur @ [b]) bs)"

text \<open>What an event stream means, ignoring the limits: the pending event is a type and
  data lines, and an empty line dispatches it when it has data.\<close>

record pending_event =
  pe_type :: "bytes option"
  pe_data :: "bytes option"

definition ref_line :: "pending_event \<Rightarrow> bytes \<Rightarrow> SSEEvent list \<times> pending_event" where
  "ref_line q line =
     (if line = [] then
        (case pe_data q of
           None \<Rightarrow> ([], q)
         | Some d \<Rightarrow>
             ([\<lparr>ev_Type = (case pe_type q of Some t \<Rightarrow> t | None \<Rightarrow> []),
                ev_HasType = (pe_type q \<noteq> None), ev_Data = d\<rparr>],
              \<lparr>pe_type = None, pe_data = None\<rparr>))
      else if hd line = CHR '':'' then ([], q)
      else case line_field line of (field, value) \<Rightarrow>
        if field = ''event'' then ([], q\<lparr>pe_type := Some value\<rparr>)
        else if field = ''data'' then
          ([], q\<lparr>pe_data := Some (case pe_data q of None \<Rightarrow> value | Some d \<Rightarrow> d @ LF # value)\<rparr>)
        else ([], q))"

fun ref_lines :: "pending_event \<Rightarrow> bytes list \<Rightarrow> SSEEvent list \<times> pending_event" where
  "ref_lines q [] = ([], q)"
| "ref_lines q (l # ls) =
     (case ref_line q l of (e, q') \<Rightarrow> case ref_lines q' ls of (es, q'') \<Rightarrow> (e @ es, q''))"

definition pending_of :: "SSEParser \<Rightarrow> pending_event" where
  "pending_of p =
     \<lparr>pe_type = (if sp_hasType p then Some (sp_eventType p) else None),
      pe_data = (if sp_hasData p then Some (sp_data p) else None)\<rparr>"

section \<open>Invariant\<close>

text \<open>The buffers stay within their limits, and an absent type or absent data is empty.\<close>

definition sse_inv :: "SSEParser \<Rightarrow> bool" where
  "sse_inv p \<longleftrightarrow>
     0 < LineBytes (sp_limits p) \<and> 0 < EventBytes (sp_limits p) \<and>
     int (length (sp_line p)) \<le> LineBytes (sp_limits p) \<and>
     int (length (sp_eventType p)) + int (length (sp_data p)) \<le> EventBytes (sp_limits p) \<and>
     (\<not> sp_hasType p \<longrightarrow> sp_eventType p = []) \<and> (\<not> sp_hasData p \<longrightarrow> sp_data p = [])"

section \<open>Lemmas\<close>

lemmas sse_step_defs =
  feed_byte_def finishLine_def processLine_def finalizeEvent_def appendLineByte_def
  setEventType_def appendEventData_def subtractFloor_def

lemma feed_byte_events:
  "feed_byte p events b =
     (case feed_byte p [] b of
        (Inl e, p') \<Rightarrow> (Inl e, p')
      | (Inr evs, p') \<Rightarrow> (Inr (events @ evs), p'))"
  by (simp add: feed_byte_def finishLine_def Let_def split: sum.split prod.split option.split)

lemma feed_loop_events:
  "feed_loop p events bs =
     (case feed_loop p [] bs of
        (Inl e, p') \<Rightarrow> (Inl e, p')
      | (Inr evs, p') \<Rightarrow> (Inr (events @ evs), p'))"
proof (induction bs arbitrary: p events)
  case Nil
  then show ?case by simp
next
  case (Cons b bs)
  show ?case
  proof (cases "feed_byte p [] b")
    case (Pair r p')
    show ?thesis
    proof (cases r)
      case (Inl e)
      with Pair show ?thesis by (simp add: feed_byte_events [of p events])
    next
      case (Inr evs)
      have "feed_loop p' (events @ evs) bs =
          (case feed_loop p' [] bs of (Inl e, q) \<Rightarrow> (Inl e, q)
           | (Inr evs', q) \<Rightarrow> (Inr ((events @ evs) @ evs'), q))"
        by (rule Cons.IH)
      moreover have "feed_loop p' evs bs =
          (case feed_loop p' [] bs of (Inl e, q) \<Rightarrow> (Inl e, q)
           | (Inr evs', q) \<Rightarrow> (Inr (evs @ evs'), q))"
        by (rule Cons.IH)
      ultimately show ?thesis using Pair Inr
        by (simp add: feed_byte_events [of p events] split: sum.split prod.split)
    qed
  qed
qed

lemma feed_loop_append:
  "feed_loop p events (xs @ ys) =
     (case feed_loop p events xs of
        (Inl e, p') \<Rightarrow> (Inl e, p')
      | (Inr evs, p') \<Rightarrow> feed_loop p' evs ys)"
  by (induction xs arbitrary: p events) (auto split: sum.split prod.split)

lemma sse_inv_finalize: "sse_inv p \<Longrightarrow> sse_inv (snd (finalizeEvent p))"
  by (auto simp: sse_inv_def finalizeEvent_def)

lemma sse_inv_setEventType: "sse_inv p \<Longrightarrow> setEventType p t = Inr p' \<Longrightarrow> sse_inv p'"
  by (auto simp: sse_inv_def setEventType_def subtractFloor_def split: if_splits)

lemma sse_inv_appendEventData: "sse_inv p \<Longrightarrow> appendEventData p v = Inr p' \<Longrightarrow> sse_inv p'"
  by (auto simp: sse_inv_def appendEventData_def subtractFloor_def Let_def split: if_splits)

lemma sse_inv_processLine: "sse_inv p \<Longrightarrow> processLine p l = Inr p' \<Longrightarrow> sse_inv p'"
  by (auto simp: processLine_def split: if_splits prod.splits
      intro: sse_inv_setEventType sse_inv_appendEventData)

lemma sse_inv_line: "sse_inv p \<Longrightarrow> sse_inv (p\<lparr>sp_line := []\<rparr>)"
  by (auto simp: sse_inv_def)

lemma sse_inv_cr [simp]: "sse_inv (p\<lparr>sp_pendingCR := c\<rparr>) = sse_inv p"
  by (auto simp: sse_inv_def)

lemma sse_inv_finishLine:
  "sse_inv p \<Longrightarrow> finishLine p evs = Inr (evs', p') \<Longrightarrow> sse_inv p'"
  using sse_inv_finalize [of p]
  by (auto simp: finishLine_def split: if_splits option.splits prod.splits sum.splits
      intro: sse_inv_line sse_inv_processLine)

lemma sse_inv_appendLineByte: "sse_inv p \<Longrightarrow> appendLineByte p b = Inr p' \<Longrightarrow> sse_inv p'"
  by (auto simp: sse_inv_def appendLineByte_def split: if_splits)

lemma sse_inv_feed_byte: "sse_inv p \<Longrightarrow> sse_inv (snd (feed_byte p evs b))"
  by (auto simp: feed_byte_def Let_def split: sum.split prod.split
      dest: sse_inv_finishLine [rotated] sse_inv_appendLineByte [rotated])

lemma sse_inv_feed_loop: "sse_inv p \<Longrightarrow> sse_inv (snd (feed_loop p evs bs))"
proof (induction bs arbitrary: p evs)
  case Nil
  then show ?case by simp
next
  case (Cons b bs)
  from Cons.prems have "sse_inv (snd (feed_byte p evs b))" by (rule sse_inv_feed_byte)
  then show ?case by (auto split: sum.split prod.split intro: Cons.IH)
qed

lemma sse_inv_new: "sse_inv (NewSSEParserWithLimits l)"
  by (simp add: sse_inv_def NewSSEParserWithLimits_def DefaultLineLimit_def DefaultEventLimit_def)

lemma sse_inv_feed_chunks: "sse_inv p \<Longrightarrow> sse_inv (snd (feed_chunks p cs))"
proof (induction cs arbitrary: p)
  case Nil
  then show ?case by simp
next
  case (Cons c cs)
  from Cons.prems have "sse_inv (snd (Feed p c))" by (simp add: Feed_def sse_inv_feed_loop)
  with Cons.IH show ?case by (fastforce split: sum.split prod.split)
qed


subsection \<open>The scanner against the line-by-line reading\<close>

lemma pending_of_cr [simp]: "pending_of (p\<lparr>sp_pendingCR := c\<rparr>) = pending_of p"
  by (simp add: pending_of_def)

lemma pending_of_line [simp]: "pending_of (p\<lparr>sp_line := l\<rparr>) = pending_of p"
  by (simp add: pending_of_def)

lemma processLine_ref:
  assumes "processLine p l = Inr p'" and "l \<noteq> []" and "sse_inv p"
  shows "ref_line (pending_of p) l = ([], pending_of p')"
  using assms
  by (auto simp: processLine_def ref_line_def setEventType_def appendEventData_def Let_def
      pending_of_def sse_inv_def split: if_splits prod.splits)

lemma processLine_frame:
  "processLine p l = Inr p' \<Longrightarrow>
     sp_line p' = sp_line p \<and> sp_pendingCR p' = sp_pendingCR p \<and> sp_limits p' = sp_limits p"
  by (auto simp: processLine_def setEventType_def appendEventData_def Let_def
      split: if_splits prod.splits)

lemma finishLine_ref:
  assumes "finishLine p [] = Inr (evs, p')" and "sse_inv p"
  shows "ref_line (pending_of p) (sp_line p) = (evs, pending_of p') \<and> sp_line p' = [] \<and>
         sp_pendingCR p' = sp_pendingCR p"
proof (cases "sp_line p = []")
  case True
  with assms show ?thesis
    by (auto simp: finishLine_def finalizeEvent_def ref_line_def pending_of_def sse_inv_def
        split: if_splits)
next
  case False
  with assms(1) obtain q where q: "processLine p (sp_line p) = Inr q"
    and *: "evs = []" "p' = q\<lparr>sp_line := []\<rparr>"
    by (auto simp: finishLine_def split: sum.splits)
  with processLine_ref [OF q False assms(2)] processLine_frame [OF q] show ?thesis by simp
qed

lemma feed_byte_ref:
  assumes "feed_byte p [] b = (Inr evs, p')" and "sse_inv p"
  shows "case split_lines (sp_pendingCR p) (sp_line p) [b] of (ls, cur, cr) \<Rightarrow>
           ref_lines (pending_of p) ls = (evs, pending_of p') \<and>
           sp_line p' = cur \<and> sp_pendingCR p' = cr"
  using assms
  by (auto simp: feed_byte_def Let_def appendLineByte_def
      split: if_splits sum.splits prod.splits dest!: finishLine_ref)

lemma split_lines_Cons:
  "split_lines cr cur (b # bs) =
     (case split_lines cr cur [b] of (ls, cur', cr') \<Rightarrow>
        case split_lines cr' cur' bs of (ls', r) \<Rightarrow> (ls @ ls', r))"
  by (auto split: prod.split)

lemma ref_lines_append:
  "ref_lines q (xs @ ys) =
     (case ref_lines q xs of (e, q') \<Rightarrow> case ref_lines q' ys of (e', q'') \<Rightarrow> (e @ e', q''))"
  by (induction xs arbitrary: q) (auto split: prod.split)

lemma feed_loop_Cons_Inr:
  assumes "feed_loop p [] (b # bs) = (Inr evs, p')"
  obtains e1 q e2 where "feed_byte p [] b = (Inr e1, q)" "feed_loop q [] bs = (Inr e2, p')"
    "evs = e1 @ e2"
proof -
  from assms obtain e1 q where q: "feed_byte p [] b = (Inr e1, q)"
    and "feed_loop q e1 bs = (Inr evs, p')"
    by (auto split: prod.splits sum.splits)
  then obtain e2 where "feed_loop q [] bs = (Inr e2, p')" "evs = e1 @ e2"
    by (subst (asm) feed_loop_events) (auto split: prod.splits sum.splits)
  with q show ?thesis by (rule that)
qed

lemma feed_loop_ref:
  assumes "feed_loop p [] bs = (Inr evs, p')" and "sse_inv p"
  shows "case split_lines (sp_pendingCR p) (sp_line p) bs of (ls, cur, cr) \<Rightarrow>
           ref_lines (pending_of p) ls = (evs, pending_of p') \<and>
           sp_line p' = cur \<and> sp_pendingCR p' = cr"
  using assms
proof (induction bs arbitrary: p evs)
  case Nil
  then show ?case by simp
next
  case (Cons b bs)
  from Cons.prems(1) obtain e1 q e2 where q: "feed_byte p [] b = (Inr e1, q)"
    and rest: "feed_loop q [] bs = (Inr e2, p')" and evs: "evs = e1 @ e2"
    by (rule feed_loop_Cons_Inr)
  from q Cons.prems(2) have "sse_inv q" using sse_inv_feed_byte [of p "[]" b] by simp
  from Cons.IH [OF rest this] feed_byte_ref [OF q Cons.prems(2)] evs show ?case
    by (subst split_lines_Cons) (auto simp: ref_lines_append split: prod.splits)
qed

subsection \<open>Short streams are never refused\<close>

text \<open>The bytes the parser holds.\<close>

definition sse_held :: "SSEParser \<Rightarrow> int" where
  "sse_held p = int (length (sp_line p)) + int (length (sp_eventType p)) + int (length (sp_data p))"

lemma line_field_length:
  assumes "line_field l = (f, v)" and "f \<noteq> l"
  shows "length f + length v < length l"
  using assms
  by (auto simp: line_field_def Let_def split: prod.splits if_splits dest: go_cut_parts)
     (auto dest!: go_cut_parts go_cut_none simp: neq_Nil_conv)

lemma line_field_bare: "line_field l = (l, v) \<Longrightarrow> v = []"
  by (auto simp: line_field_def Let_def split: prod.splits if_splits)
     (auto dest!: go_cut_parts)

lemma processLine_within:
  assumes "sse_inv p" and "sse_held p < EventBytes (sp_limits p)" and "sp_line p = l"
  shows "\<exists>p'. processLine p l = Inr p' \<and> sse_held (p'\<lparr>sp_line := []\<rparr>) \<le> sse_held p"
proof (cases "l = [] \<or> hd l = CHR '':''")
  case True
  then show ?thesis by (auto simp: processLine_def sse_held_def)
next
  case False
  obtain f v where fv: "line_field l = (f, v)" by fastforce
  have bound: "length f + length v \<le> length l"
    using line_field_length [OF fv] line_field_bare [of l v] fv by (cases "f = l") auto
  from False fv assms bound show ?thesis
    by (auto simp: processLine_def setEventType_def appendEventData_def subtractFloor_def
        sse_held_def Let_def)
qed


lemma sse_held_cr [simp]: "sse_held (p\<lparr>sp_pendingCR := c\<rparr>) = sse_held p"
  by (simp add: sse_held_def)

lemma processLine_cr [simp]:
  "processLine (p\<lparr>sp_pendingCR := c\<rparr>) l =
     (case processLine p l of Inl e \<Rightarrow> Inl e | Inr q \<Rightarrow> Inr (q\<lparr>sp_pendingCR := c\<rparr>))"
  by (simp add: processLine_def setEventType_def appendEventData_def Let_def split: prod.split)

lemma finishLine_within:
  assumes "sse_inv p" and "sse_held p < EventBytes (sp_limits p)"
  shows "\<exists>e q. finishLine p evs = Inr (e, q) \<and> sse_held q \<le> sse_held p \<and>
               sp_limits q = sp_limits p"
proof (cases "sp_line p = []")
  case True
  then show ?thesis by (auto simp: finishLine_def finalizeEvent_def sse_held_def)
next
  case False
  from processLine_within [OF assms refl] obtain q where "processLine p (sp_line p) = Inr q"
    "sse_held (q\<lparr>sp_line := []\<rparr>) \<le> sse_held p" by blast
  with False show ?thesis by (auto simp: finishLine_def dest: processLine_frame)
qed

lemma feed_byte_within:
  assumes inv: "sse_inv p" and room: "sse_held p < EventBytes (sp_limits p)"
    "sse_held p < LineBytes (sp_limits p)"
  shows "\<exists>e q. feed_byte p evs b = (Inr e, q) \<and> sse_held q \<le> sse_held p + 1 \<and>
               sp_limits q = sp_limits p"
proof -
  let ?p = "if sp_pendingCR p then p\<lparr>sp_pendingCR := False\<rparr> else p"
  have inv': "sse_inv ?p" and held: "sse_held ?p = sse_held p" and lim: "sp_limits ?p = sp_limits p"
    using inv by (auto simp: sse_held_def)
  from finishLine_within [OF inv'] room held lim obtain e q where
    fl: "finishLine ?p evs = Inr (e, q)" and q: "sse_held q \<le> sse_held p" "sp_limits q = sp_limits p"
    by metis
  have ap: "appendLineByte ?p b = Inr (?p\<lparr>sp_line := sp_line ?p @ [b]\<rparr>)"
    using room(2) lim by (auto simp: appendLineByte_def sse_held_def)
  have "sse_held (?p\<lparr>sp_line := sp_line ?p @ [b]\<rparr>) = sse_held p + 1"
    by (auto simp: sse_held_def)
  then show ?thesis using fl ap held q unfolding feed_byte_def Let_def
    by (auto simp: sse_held_def)
qed

lemma feed_loop_within:
  assumes "sse_inv p" and "sse_held p + int (length bs) \<le> EventBytes (sp_limits p)"
    and "sse_held p + int (length bs) \<le> LineBytes (sp_limits p)"
  shows "\<exists>e q. feed_loop p evs bs = (Inr e, q)"
  using assms
proof (induction bs arbitrary: p evs)
  case Nil
  then show ?case by simp
next
  case (Cons b bs)
  then obtain e q where q: "feed_byte p evs b = (Inr e, q)" "sse_held q \<le> sse_held p + 1"
    "sp_limits q = sp_limits p"
    using feed_byte_within [of p evs b] by auto
  moreover from q Cons.prems(1) have "sse_inv q" using sse_inv_feed_byte [of p evs b] by simp
  ultimately show ?case using Cons.prems Cons.IH [of q e] by simp
qed

lemma Feed_Nil: "Feed p [] = (Inr [], p)"
  by (simp add: Feed_def)

lemma Feed_append:
  "Feed p (xs @ ys) =
     (case Feed p xs of
        (Inl e, p') \<Rightarrow> (Inl e, p')
      | (Inr evs, p') \<Rightarrow>
          (case Feed p' ys of
             (Inl e, p'') \<Rightarrow> (Inl e, p'')
           | (Inr evs', p'') \<Rightarrow> (Inr (evs @ evs'), p'')))"
proof -
  obtain r q where "feed_loop p [] xs = (r, q)" by fastforce
  then show ?thesis
    by (cases r) (simp_all add: Feed_def feed_loop_append, subst feed_loop_events, simp)
qed

lemma limits_feed_byte: "sp_limits (snd (feed_byte p evs b)) = sp_limits p"
proof -
  have "finishLine q evs = Inr (e, q') \<Longrightarrow> sp_limits q' = sp_limits q" for q e q'
    by (auto simp: finishLine_def finalizeEvent_def split: if_splits sum.splits
        dest: processLine_frame)
  then show ?thesis
    by (auto simp: feed_byte_def appendLineByte_def Let_def split: sum.split prod.split)
qed

lemma limits_feed_loop: "sp_limits (snd (feed_loop p evs bs)) = sp_limits p"
proof (induction bs arbitrary: p evs)
  case Nil
  then show ?case by simp
next
  case (Cons b bs)
  with limits_feed_byte [of p evs b] show ?case by (auto split: sum.split prod.split)
qed

lemma Feed_chunks_loop: "feed_chunks p cs = feed_loop p [] (concat cs)"
  by (induction cs arbitrary: p)
    (simp_all add: Feed_append [unfolded Feed_def] Feed_def split: sum.split prod.split)

text \<open>\<^verbatim>\<open>Reset\<close> makes any reachable parser, one left by a failed call included, the
  parser that \<^verbatim>\<open>NewSSEParserWithLimits\<close> builds for the same limits.\<close>

lemma Reset_fresh: "sse_inv p \<Longrightarrow> Reset p = NewSSEParserWithLimits (sp_limits p)"
  by (simp add: Reset_def NewSSEParserWithLimits_def sse_inv_def)

section \<open>Properties\<close>


text \<open>C39. Whatever is fed, in whatever chunks, and also when a call fails, the parser never
  holds more than the line limit it was built with in the line buffer, nor more than the
  event limit it was built with in type and data together.\<close>

theorem sse_buffers_bounded:
  "case feed_chunks (NewSSEParserWithLimits l) cs of (r, p) \<Rightarrow>
     int (length (sp_line p)) \<le> LineBytes (sp_limits (NewSSEParserWithLimits l)) \<and>
     int (length (sp_eventType p)) + int (length (sp_data p))
       \<le> EventBytes (sp_limits (NewSSEParserWithLimits l))"
  using sse_inv_feed_loop [OF sse_inv_new, of l "[]" "concat cs"]
    limits_feed_loop [of "NewSSEParserWithLimits l" "[]" "concat cs"]
  unfolding Feed_chunks_loop by (auto simp: sse_inv_def)

text \<open>C23. A stream no longer than both limits is never refused, and the events the
  byte-at-a-time scanner reports for it are those of reading its lines (ended by LF, CR or
  CRLF) one by one.\<close>

theorem feed_reads_lines:
  assumes "int (length bs) \<le> LineBytes (sp_limits (NewSSEParserWithLimits l))"
    and "int (length bs) \<le> EventBytes (sp_limits (NewSSEParserWithLimits l))"
  shows "fst (Feed (NewSSEParserWithLimits l) bs) =
         Inr (fst (ref_lines \<lparr>pe_type = None, pe_data = None\<rparr> (fst (split_lines False [] bs))))"
proof -
  let ?p = "NewSSEParserWithLimits l"
  have held: "sse_held ?p = 0" by (simp add: sse_held_def NewSSEParserWithLimits_def)
  have fresh: "pending_of ?p = \<lparr>pe_type = None, pe_data = None\<rparr>" "sp_pendingCR ?p = False"
    "sp_line ?p = []"
    by (simp_all add: pending_of_def NewSSEParserWithLimits_def)
  from feed_loop_within [OF sse_inv_new, of l bs "[]"] assms held
  obtain e q where run: "feed_loop ?p [] bs = (Inr e, q)" by auto
  from feed_loop_ref [OF run sse_inv_new] fresh run show ?thesis
    by (auto simp: Feed_def split: prod.splits)
qed

theorem feed_reads_lines_witness:
  "fst (Feed (NewSSEParserWithLimits \<lparr>LineBytes = 0, EventBytes = 64\<rparr>)
     (''event: a'' @ [CR, LF] @ ''data: x'' @ [CR] @ ''data:y'' @ [LF, LF])) =
   Inr [\<lparr>ev_Type = ''a'', ev_HasType = True, ev_Data = ''x'' @ LF # ''y''\<rparr>]"
  using feed_reads_lines [of
      "''event: a'' @ [CR, LF] @ ''data: x'' @ [CR] @ ''data:y'' @ [LF, LF]"
      "\<lparr>LineBytes = 0, EventBytes = 64\<rparr>"]
  by (simp add: NewSSEParserWithLimits_def DefaultLineLimit_def ref_line_def line_field_def
      go_cut_def)

end
