(* ===== verification/Protocol_Types.thy ===== *)
theory Protocol_Types
  imports Oap_Prelude
begin

text \<open>
  The envelope of \<^verbatim>\<open>go/protocol/envelope.go\<close>, which the client, the adapters and the server
  pass on.  Raw JSON is kept as its bytes; sequence numbers are 64 bit words.
\<close>

type_synonym seq = "64 word"

record Envelope =
  env_Protocol :: bytes
  env_Version :: bytes
  env_Profile :: bytes
  env_Type :: bytes
  env_ID :: bytes
  env_Payload :: bytes
  env_Sequence :: "seq option"
  env_TimestampMS :: "int option"
  env_InReplyTo :: bytes
  env_SessionID :: bytes
  env_RunID :: bytes
  env_TurnID :: bytes
  env_ToolCallID :: bytes
  env_CapabilityRevision :: bytes
  env_Extensions :: "(bytes \<rightharpoonup> bytes) option"
  env_Unknown :: "(bytes \<rightharpoonup> bytes) option"

definition Envelope_zero :: Envelope where
  "Envelope_zero = \<lparr>env_Protocol = [], env_Version = [], env_Profile = [], env_Type = [], env_ID = [],
     env_Payload = [], env_Sequence = None, env_TimestampMS = None, env_InReplyTo = [], env_SessionID = [],
     env_RunID = [], env_TurnID = [], env_ToolCallID = [], env_CapabilityRevision = [], env_Extensions = None,
     env_Unknown = None\<rparr>"

end
