(* ===== verification/Journal.thy ===== *)
theory Journal
  imports Protocol_Types
begin

text \<open>
  \<^verbatim>\<open>go/adapter/internal/journal/journal.go\<close>: the bounded log of a session's events and the
  goroutines that follow it, one per consumer.

  The mutex makes every locked section one step; what happens between two of them, a send
  that waits for room and the unlocked waits, are steps of their own, so the step relation
  \<open>journal_step\<close> has every interleaving of the appending adapter, the followers, the consumers
  and \<^verbatim>\<open>Close\<close>.  A follower carries its channel: the number of results buffered, what has been
  sent in all, and whether the channel is closed.  A send on a closed channel and a second
  close, which panic in Go, set \<open>fo_panic\<close>.  The wake-up channel \<^verbatim>\<open>changed\<close> only says when a
  waiting goroutine looks again; a step of a waiting goroutine is always possible here.  The
  set \<^verbatim>\<open>followers\<close> is the followers that are not done.  \<open>fo_after\<close> remembers where a follower
  began; no step reads it.
\<close>

section \<open>Data\<close>

definition followerBuffer :: nat where "followerBuffer = 64"

datatype jresult = REnvelope Envelope | ROverflow

text \<open>Where the goroutine of a follower stands between two locked sections.\<close>

datatype follow_pc =
    Looking | SendingEvent Envelope nat | SentEvent nat | DroppedEvent | SendingOverflow | AfterOverflow | Exited

record follower =
  fo_run :: bytes
  fo_cursor :: seq
  fo_position :: nat
  fo_inflight :: bool
  fo_done :: bool
  fo_unbound :: bool
  fo_queue :: nat
  fo_sent :: "jresult list"
  fo_closed :: bool
  fo_panic :: bool
  fo_pc :: follow_pc
  fo_after :: seq

record Journal =
  jo_capacity :: nat
  jo_entries :: "Envelope list"
  jo_evicted :: nat
  jo_latest :: "bytes \<Rightarrow> seq"
  jo_ended :: "bytes \<Rightarrow> bool"
  jo_stopped :: bool
  jo_followers :: "nat \<rightharpoonup> follower"

definition New :: "nat \<Rightarrow> Journal" where
  "New capacity = \<lparr>jo_capacity = capacity, jo_entries = [], jo_evicted = 0, jo_latest = (\<lambda>_. 0),
     jo_ended = (\<lambda>_. False), jo_stopped = False, jo_followers = Map.empty\<rparr>"

definition follower_new :: "bytes \<Rightarrow> seq \<Rightarrow> bool \<Rightarrow> follower" where
  "follower_new run after unbound = \<lparr>fo_run = run, fo_cursor = after, fo_position = 0, fo_inflight = False,
     fo_done = False, fo_unbound = unbound, fo_queue = 0, fo_sent = [], fo_closed = False, fo_panic = False,
     fo_pc = Looking, fo_after = after\<rparr>"

section \<open>Locked operations\<close>

fun find_loop :: "bytes \<Rightarrow> seq \<Rightarrow> Envelope list \<Rightarrow> nat \<Rightarrow> (Envelope \<times> nat) option" where
  "find_loop run sequence [] index = None"
| "find_loop run sequence (e # es) index =
     (if env_RunID e = run \<and> env_Sequence e = Some sequence then Some (e, index)
      else find_loop run sequence es (Suc index))"

definition findLocked :: "Journal \<Rightarrow> bytes \<Rightarrow> seq \<Rightarrow> nat \<Rightarrow> (Envelope \<times> nat) option" where
  "findLocked j run sequence position =
     (let start = position - jo_evicted j
      in map_option (\<lambda>(e, index). (e, jo_evicted j + index + 1))
           (find_loop run sequence (drop start (jo_entries j)) start))"

text \<open>A send that has room, and \<^verbatim>\<open>close(f.out)\<close>.\<close>

definition fo_send :: "follower \<Rightarrow> jresult \<Rightarrow> follower" where
  "fo_send f r = f\<lparr>fo_sent := fo_sent f @ [r], fo_queue := Suc (fo_queue f), fo_panic := fo_panic f \<or> fo_closed f\<rparr>"

definition fo_close :: "follower \<Rightarrow> follower" where
  "fo_close f = f\<lparr>fo_closed := True, fo_panic := fo_panic f \<or> fo_closed f\<rparr>"

definition finishLocked :: "follower \<Rightarrow> follower" where
  "finishLocked f = (if fo_done f then f else fo_close (f\<lparr>fo_done := True\<rparr>))"

definition advanceLocked :: "Journal \<Rightarrow> follower \<Rightarrow> nat \<Rightarrow> follower" where
  "advanceLocked j f nxt =
     (let f1 = f\<lparr>fo_cursor := fo_cursor f + 1, fo_position := nxt\<rparr>
      in if jo_ended j (fo_run f1) \<and> jo_latest j (fo_run f1) \<le> fo_cursor f1 then finishLocked f1 else f1)"

definition pumpLocked :: "Journal \<Rightarrow> follower \<Rightarrow> bool \<times> follower" where
  "pumpLocked j f =
     (if fo_done f \<or> fo_inflight f \<or> fo_unbound f then (False, f)
      else case findLocked j (fo_run f) (fo_cursor f + 1) (fo_position f) of
        None \<Rightarrow> (False, f)
      | Some (envelope, nxt) \<Rightarrow>
          if fo_queue f < followerBuffer
          then let f1 = advanceLocked j (fo_send f (REnvelope envelope)) nxt in (\<not> fo_done f1, f1)
          else (False, f))"

text \<open>\<^verbatim>\<open>for j.pumpLocked(f) {}\<close>: the buffer fills, so the loop ends.\<close>

lemma advance_queue [simp]: "fo_queue (advanceLocked j f n) = fo_queue f"
  by (simp add: advanceLocked_def finishLocked_def fo_close_def Let_def)

function pump :: "Journal \<Rightarrow> follower \<Rightarrow> follower" where
  "pump j f = (case pumpLocked j f of (again, f1) \<Rightarrow> if again then pump j f1 else f1)"
  by pat_completeness auto
termination
  by (relation "measure (\<lambda>(j, f). followerBuffer - fo_queue f)")
    (auto simp: pumpLocked_def fo_send_def Let_def split: if_splits option.splits prod.splits)

declare pump.simps [simp del]

definition Append :: "Journal \<Rightarrow> Envelope \<Rightarrow> bool \<Rightarrow> Journal" where
  "Append j envelope terminal =
     (let entries = jo_entries j @ [envelope];
          j1 = (if length entries > jo_capacity j
                then j\<lparr>jo_entries := tl entries, jo_evicted := Suc (jo_evicted j)\<rparr>
                else j\<lparr>jo_entries := entries\<rparr>);
          j2 = (case env_Sequence envelope of
                  None \<Rightarrow> j1
                | Some s \<Rightarrow> j1\<lparr>jo_latest := (jo_latest j1)(env_RunID envelope := s),
                              jo_ended := (jo_ended j1)(env_RunID envelope := terminal \<or> jo_ended j1 (env_RunID envelope))\<rparr>)
      in j2\<lparr>jo_followers := (\<lambda>i. map_option (pump j2) (jo_followers j2 i))\<rparr>)"

definition Ended :: "Journal \<Rightarrow> bytes \<Rightarrow> seq option" where
  "Ended j run = (if \<not> jo_ended j run then None else Some (jo_latest j run))"

text \<open>\<^verbatim>\<open>Resume\<close>: what it reports, and whether it follows.\<close>

record Recovery =
  rc_ReplayedFrom :: seq
  rc_ReplayedThrough :: seq
  rc_OldestAvailable :: seq
  rc_Gap :: bool

definition scan_entry :: "bytes \<Rightarrow> seq \<Rightarrow> seq \<times> seq \<times> seq \<Rightarrow> Envelope \<Rightarrow> seq \<times> seq \<times> seq" where
  "scan_entry run after acc e =
     (case acc of (oldest, first, newest) \<Rightarrow>
        case env_Sequence e of
          None \<Rightarrow> acc
        | Some s \<Rightarrow>
            if env_RunID e \<noteq> run then acc
            else (if oldest = 0 then s else oldest,
                  if s > after then (if first = 0 then s else first) else first,
                  if s > after then s else newest))"

definition Resume :: "Journal \<Rightarrow> bytes \<Rightarrow> seq \<Rightarrow> seq \<Rightarrow> Recovery" where
  "Resume j run after latest =
     (case foldl (scan_entry run after) (0, 0, 0) (jo_entries j) of (oldest, first, newest) \<Rightarrow>
        if after < latest \<and> (oldest = 0 \<or> after + 1 < oldest)
        then \<lparr>rc_ReplayedFrom = 0, rc_ReplayedThrough = 0, rc_OldestAvailable = oldest, rc_Gap = True\<rparr>
        else if first \<noteq> 0
        then \<lparr>rc_ReplayedFrom = first, rc_ReplayedThrough = newest, rc_OldestAvailable = oldest, rc_Gap = False\<rparr>
        else \<lparr>rc_ReplayedFrom = after, rc_ReplayedThrough = after, rc_OldestAvailable = oldest, rc_Gap = False\<rparr>)"

definition Follow :: "Journal \<Rightarrow> nat \<Rightarrow> bytes \<Rightarrow> seq \<Rightarrow> Journal" where
  "Follow j i run after = j\<lparr>jo_followers := (jo_followers j)(i \<mapsto> pump j (follower_new run after False))\<rparr>"

definition Reserve :: "Journal \<Rightarrow> nat \<Rightarrow> Journal" where
  "Reserve j i = j\<lparr>jo_followers := (jo_followers j)(i \<mapsto> follower_new [] 0 True)\<rparr>"

definition Bind :: "Journal \<Rightarrow> follower \<Rightarrow> bytes \<Rightarrow> follower" where
  "Bind j f run =
     (if fo_done f \<or> \<not> fo_unbound f then f else pump j (f\<lparr>fo_run := run, fo_unbound := False\<rparr>))"

definition Release :: "follower \<Rightarrow> follower" where
  "Release f = (if fo_unbound f then finishLocked f else f)"

definition Close :: "Journal \<Rightarrow> Journal" where
  "Close j = j\<lparr>jo_stopped := True\<rparr>"

text \<open>One turn of \<^verbatim>\<open>follow\<close>, from taking the lock to the next wait.\<close>

definition follow_turn :: "Journal \<Rightarrow> follower \<Rightarrow> follower" where
  "follow_turn j f =
     (let f1 = pump j f in
      if fo_done f1 then f1\<lparr>fo_pc := Exited\<rparr>
      else if fo_unbound f1 then (if jo_stopped j then (finishLocked f1)\<lparr>fo_pc := Exited\<rparr> else f1)
      else
        let hit = findLocked j (fo_run f1) (fo_cursor f1 + 1) (fo_position f1);
            behind = (hit = None \<and> jo_latest j (fo_run f1) > fo_cursor f1);
            finished = (hit = None \<and> jo_ended j (fo_run f1) \<and> jo_latest j (fo_run f1) \<le> fo_cursor f1)
        in if behind
           then (if fo_queue f1 < followerBuffer then (finishLocked (fo_send f1 ROverflow))\<lparr>fo_pc := Exited\<rparr>
                 else if \<not> jo_stopped j then f1\<lparr>fo_inflight := True, fo_pc := SendingOverflow\<rparr>
                 else (finishLocked f1)\<lparr>fo_pc := Exited\<rparr>)
           else if finished \<or> jo_stopped j then (finishLocked f1)\<lparr>fo_pc := Exited\<rparr>
           else case hit of
             Some (envelope, nxt) \<Rightarrow> f1\<lparr>fo_inflight := True, fo_pc := SendingEvent envelope nxt\<rparr>
           | None \<Rightarrow> f1)"

section \<open>Steps\<close>

text \<open>What a follower or its consumer may do next in a journal.\<close>

inductive follower_step :: "Journal \<Rightarrow> follower \<Rightarrow> follower \<Rightarrow> bool" where
  turn: "fo_pc f = Looking \<Longrightarrow> follower_step j f (follow_turn j f)"
| sent: "fo_pc f = SendingEvent e n \<Longrightarrow> fo_queue f < followerBuffer \<Longrightarrow>
     follower_step j f ((fo_send f (REnvelope e))\<lparr>fo_pc := SentEvent n\<rparr>)"
| settled: "fo_pc f = SentEvent n \<Longrightarrow>
     follower_step j f (advanceLocked j (f\<lparr>fo_inflight := False, fo_pc := Looking\<rparr>) n)"
| stop_sending: "fo_pc f = SendingEvent e n \<Longrightarrow> jo_stopped j \<Longrightarrow> follower_step j f (f\<lparr>fo_pc := DroppedEvent\<rparr>)"
| stop_settled: "fo_pc f = DroppedEvent \<Longrightarrow> follower_step j f (f\<lparr>fo_inflight := False, fo_pc := Looking\<rparr>)"
| overflow_sent: "fo_pc f = SendingOverflow \<Longrightarrow> fo_queue f < followerBuffer \<Longrightarrow>
     follower_step j f ((fo_send f ROverflow)\<lparr>fo_pc := AfterOverflow\<rparr>)"
| overflow_stop: "fo_pc f = SendingOverflow \<Longrightarrow> jo_stopped j \<Longrightarrow> follower_step j f (f\<lparr>fo_pc := AfterOverflow\<rparr>)"
| overflow_settled: "fo_pc f = AfterOverflow \<Longrightarrow>
     follower_step j f ((finishLocked (f\<lparr>fo_inflight := False\<rparr>))\<lparr>fo_pc := Exited\<rparr>)"
| taken: "fo_queue f > 0 \<Longrightarrow> follower_step j f (f\<lparr>fo_queue := fo_queue f - 1\<rparr>)"
| bound: "follower_step j f (Bind j f run)"
| released: "follower_step j f (Release f)"

text \<open>The adapter's side: what \<open>adm\<close> admits is appended.\<close>

inductive journal_step :: "(Journal \<Rightarrow> Envelope \<Rightarrow> bool \<Rightarrow> bool) \<Rightarrow> Journal \<Rightarrow> Journal \<Rightarrow> bool" for adm where
  appended: "adm j e terminal \<Longrightarrow> journal_step adm j (Append j e terminal)"
| followed: "jo_followers j i = None \<Longrightarrow> journal_step adm j (Follow j i run after)"
| reserved: "jo_followers j i = None \<Longrightarrow> journal_step adm j (Reserve j i)"
| closed: "journal_step adm j (Close j)"
| moved: "jo_followers j i = Some f \<Longrightarrow> follower_step j f f' \<Longrightarrow>
     journal_step adm j (j\<lparr>jo_followers := (jo_followers j)(i \<mapsto> f')\<rparr>)"

inductive reachable_journal :: "(Journal \<Rightarrow> Envelope \<Rightarrow> bool \<Rightarrow> bool) \<Rightarrow> nat \<Rightarrow> Journal \<Rightarrow> bool" for adm capacity where
  fresh: "reachable_journal adm capacity (New capacity)"
| stepped: "reachable_journal adm capacity j \<Longrightarrow> journal_step adm j j' \<Longrightarrow> reachable_journal adm capacity j'"

inductive_cases turnE: "follower_step j f f'"

section \<open>What a follower has sent\<close>

definition consecutive :: "bytes \<Rightarrow> seq \<Rightarrow> Envelope list \<Rightarrow> bool" where
  "consecutive run after es \<longleftrightarrow>
     (\<forall>i < length es. env_RunID (es ! i) = run \<and> env_Sequence (es ! i) = Some (after + 1 + of_nat i))"

lemma consecutive_snoc:
  "consecutive run after (es @ [e]) \<longleftrightarrow>
     consecutive run after es \<and> env_RunID e = run \<and> env_Sequence e = Some (after + of_nat (length es) + 1)"
  by (auto simp: consecutive_def nth_append less_Suc_eq add_ac)

text \<open>The results sent so far, the number \<open>c\<close> of the last event among them, and whether an
  overflow closed them.\<close>

definition sent_ok :: "bytes \<Rightarrow> seq \<Rightarrow> jresult list \<Rightarrow> seq \<Rightarrow> bool \<Rightarrow> bool" where
  "sent_ok run after sent c ov \<longleftrightarrow>
     (\<exists>es. sent = map REnvelope es @ (if ov then [ROverflow] else []) \<and> consecutive run after es \<and>
           c = after + of_nat (length es))"

lemma sent_ok_event:
  assumes "sent_ok run after sent c False" "env_RunID e = run" "env_Sequence e = Some (c + 1)"
  shows "sent_ok run after (sent @ [REnvelope e]) (c + 1) False"
proof -
  from assms(1) obtain es where "sent = map REnvelope es" "consecutive run after es" "c = after + of_nat (length es)"
    by (auto simp: sent_ok_def)
  with assms(2,3) show ?thesis
    unfolding sent_ok_def by (intro exI [of _ "es @ [e]"]) (simp add: consecutive_snoc add_ac)
qed

lemma sent_ok_overflow: "sent_ok run after sent c False \<Longrightarrow> sent_ok run after (sent @ [ROverflow]) c True"
  by (auto simp: sent_ok_def)

lemma sent_ok_nil: "sent_ok run after [] after False"
  by (simp add: sent_ok_def consecutive_def)

fun sending :: "follow_pc \<Rightarrow> bool" where
  "sending Looking = False"
| "sending Exited = False"
| "sending _ = True"

fun sent_cursor :: "follow_pc \<Rightarrow> seq \<Rightarrow> seq" where
  "sent_cursor (SentEvent n) c = c + 1"
| "sent_cursor _ c = c"

definition overflowed :: "follower \<Rightarrow> bool" where
  "overflowed f \<longleftrightarrow> ROverflow \<in> set (fo_sent f)"

lemma sent_ok_overflowed: "sent_ok run after (fo_sent f) c ov \<Longrightarrow> ov = overflowed f"
  by (auto simp: sent_ok_def overflowed_def split: if_splits)

definition fo_inv :: "follower \<Rightarrow> bool" where
  "fo_inv f \<longleftrightarrow>
     \<not> fo_panic f \<and> fo_closed f = fo_done f \<and> fo_queue f \<le> followerBuffer \<and>
     fo_inflight f = sending (fo_pc f) \<and> (sending (fo_pc f) \<longrightarrow> \<not> fo_done f \<and> \<not> fo_unbound f) \<and>
     (fo_pc f = Exited \<longrightarrow> fo_done f) \<and> (fo_unbound f \<longrightarrow> fo_sent f = [] \<and> fo_cursor f = fo_after f) \<and>
     (\<forall>e n. fo_pc f = SendingEvent e n \<longrightarrow> env_RunID e = fo_run f \<and> env_Sequence e = Some (fo_cursor f + 1)) \<and>
     sent_ok (fo_run f) (fo_after f) (fo_sent f) (sent_cursor (fo_pc f) (fo_cursor f)) (overflowed f) \<and>
     (overflowed f \<longrightarrow> fo_done f \<or> fo_pc f = AfterOverflow)"

lemma find_loop_hit:
  "find_loop run sequence es i = Some (e, k) \<Longrightarrow> i \<le> k \<and> k - i < length es \<and> es ! (k - i) = e \<and>
     env_RunID e = run \<and> env_Sequence e = Some sequence"
proof (induction es arbitrary: i)
  case (Cons a es)
  show ?case
  proof (cases "env_RunID a = run \<and> env_Sequence a = Some sequence")
    case True
    with Cons.prems show ?thesis by auto
  next
    case False
    with Cons.prems have "find_loop run sequence es (Suc i) = Some (e, k)" by auto
    from Cons.IH [OF this] show ?thesis by (auto simp: nth_Cons' Suc_diff_Suc)
  qed
qed simp

lemma findLocked_hit:
  "findLocked j run sequence position = Some (e, n) \<Longrightarrow> env_RunID e = run \<and> env_Sequence e = Some sequence"
  by (auto simp: findLocked_def Let_def dest: find_loop_hit)

text \<open>The bookkeeping of a follower that has just sent event \<open>cursor + 1\<close>.\<close>

lemma advance_inv:
  assumes "\<not> fo_panic f" "\<not> fo_closed f" "\<not> fo_done f" "\<not> fo_unbound f" "\<not> fo_inflight f" "fo_pc f = Looking"
    and "fo_queue f \<le> followerBuffer" "sent_ok (fo_run f) (fo_after f) (fo_sent f) (fo_cursor f + 1) False"
  shows "fo_inv (advanceLocked j f n)"
proof -
  have "\<not> overflowed f" using assms(8) by (auto simp: sent_ok_def overflowed_def)
  with assms show ?thesis
    by (simp add: advanceLocked_def finishLocked_def fo_close_def fo_inv_def overflowed_def Let_def)
qed

lemma fo_inv_looking:
  "fo_inv f \<Longrightarrow> \<not> fo_done f \<Longrightarrow> \<not> fo_inflight f \<Longrightarrow> fo_pc f = Looking"
  by (cases "fo_pc f") (auto simp: fo_inv_def)

lemma pumpLocked_inv: "fo_inv f \<Longrightarrow> fo_inv (snd (pumpLocked j f))"
proof -
  assume inv: "fo_inv f"
  show ?thesis
  proof (cases "fo_done f \<or> fo_inflight f \<or> fo_unbound f \<or> fo_queue f \<ge> followerBuffer \<or>
      findLocked j (fo_run f) (fo_cursor f + 1) (fo_position f) = None")
    case True
    with inv show ?thesis by (auto simp: pumpLocked_def split: option.splits)
  next
    case False
    then obtain e n where h: "findLocked j (fo_run f) (fo_cursor f + 1) (fo_position f) = Some (e, n)" by auto
    note hit = findLocked_hit [OF h]
    from False inv have look: "fo_pc f = Looking" by (auto intro: fo_inv_looking)
    with inv False have "sent_ok (fo_run f) (fo_after f) (fo_sent f) (fo_cursor f) False"
      by (auto simp: fo_inv_def)
    from sent_ok_event [OF this conjunct1 [OF hit] conjunct2 [OF hit]]
    have "fo_inv (advanceLocked j (fo_send f (REnvelope e)) n)"
      using inv False look by (intro advance_inv) (auto simp: fo_inv_def fo_send_def)
    with False h show ?thesis by (simp add: pumpLocked_def Let_def)
  qed
qed

lemma pump_induct:
  assumes "P f" and step: "\<And>f. P f \<Longrightarrow> P (snd (pumpLocked j f))"
  shows "P (pump j f)"
proof -
  have "P f \<Longrightarrow> (\<And>f. P f \<Longrightarrow> P (snd (pumpLocked j f))) \<Longrightarrow> P (pump j f)"
  proof (induction j f rule: pump.induct)
    case (1 j f)
    obtain again f1 where p: "pumpLocked j f = (again, f1)" by fastforce
    have "P f1" using 1(3) [OF 1(2)] p by simp
    then have "again \<Longrightarrow> P (pump j f1)" using 1(1) [OF p [symmetric]] 1(3) by simp
    with \<open>P f1\<close> p show ?case by (subst pump.simps) simp
  qed
  with assms show ?thesis by blast
qed

lemma pump_inv: "fo_inv f \<Longrightarrow> fo_inv (pump j f)"
  by (rule pump_induct [where P = fo_inv]) (simp_all add: pumpLocked_inv)

lemma finish_inv: "fo_inv f \<Longrightarrow> \<not> fo_inflight f \<Longrightarrow> fo_inv (finishLocked f)"
  by (auto simp: fo_inv_def finishLocked_def fo_close_def overflowed_def)

lemma exit_inv: "fo_inv f \<Longrightarrow> fo_done f \<Longrightarrow> \<not> fo_inflight f \<Longrightarrow> fo_inv (f\<lparr>fo_pc := Exited\<rparr>)"
  by (cases "fo_pc f") (auto simp: fo_inv_def overflowed_def)

lemma finish_fields [simp]:
  "fo_done (finishLocked f)" "fo_inflight (finishLocked f) = fo_inflight f" "fo_run (finishLocked f) = fo_run f"
  "fo_cursor (finishLocked f) = fo_cursor f" "fo_sent (finishLocked f) = fo_sent f" "fo_pc (finishLocked f) = fo_pc f"
  "fo_unbound (finishLocked f) = fo_unbound f" "fo_position (finishLocked f) = fo_position f"
  "fo_after (finishLocked f) = fo_after f" "fo_queue (finishLocked f) = fo_queue f"
  by (simp_all add: finishLocked_def fo_close_def)

lemma finish_exit_inv: "fo_inv f \<Longrightarrow> \<not> fo_inflight f \<Longrightarrow> fo_inv ((finishLocked f)\<lparr>fo_pc := Exited\<rparr>)"
  by (rule exit_inv) (simp_all add: finish_inv)

lemma pump_idle: "\<not> fo_inflight f \<Longrightarrow> \<not> fo_inflight (pump j f)"
  by (rule pump_induct [where P = "\<lambda>f. \<not> fo_inflight f"])
    (auto simp: pumpLocked_def advanceLocked_def finishLocked_def fo_close_def fo_send_def Let_def split: option.splits prod.splits)

lemma overflow_exit_inv:
  assumes "fo_inv f" "fo_pc f = Looking" "\<not> fo_done f" "\<not> fo_unbound f" "fo_queue f < followerBuffer"
  shows "fo_inv ((finishLocked (fo_send f ROverflow))\<lparr>fo_pc := Exited\<rparr>)"
proof -
  from assms have "sent_ok (fo_run f) (fo_after f) (fo_sent f) (fo_cursor f) False" by (auto simp: fo_inv_def)
  from sent_ok_overflow [OF this] assms show ?thesis
    by (auto simp: fo_inv_def finishLocked_def fo_close_def fo_send_def overflowed_def)
qed

lemma follow_turn_inv:
  assumes "fo_inv f" "fo_pc f = Looking"
  shows "fo_inv (follow_turn j f)"
proof -
  let ?f = "pump j f"
  have inv: "fo_inv ?f" using assms(1) by (rule pump_inv)
  have "\<not> fo_inflight f" using assms by (simp add: fo_inv_def)
  then have idle: "\<not> fo_inflight ?f" by (rule pump_idle)
  show ?thesis
  proof (cases "fo_done ?f \<or> fo_unbound ?f")
    case True
    with inv idle show ?thesis by (auto simp: follow_turn_def Let_def exit_inv finish_exit_inv)
  next
    case False
    with inv idle have look: "fo_pc ?f = Looking" by (auto intro: fo_inv_looking)
    have send: "fo_inv (?f\<lparr>fo_inflight := True, fo_pc := SendingOverflow\<rparr>)"
      using inv False look by (auto simp: fo_inv_def overflowed_def)
    have event: "fo_inv (?f\<lparr>fo_inflight := True, fo_pc := SendingEvent e n\<rparr>)"
      if "findLocked j (fo_run ?f) (fo_cursor ?f + 1) (fo_position ?f) = Some (e, n)" for e n
      using inv False look findLocked_hit [OF that] by (auto simp: fo_inv_def overflowed_def)
    show ?thesis
      using False inv idle look send event finish_exit_inv [OF inv idle] overflow_exit_inv [OF inv look]
      by (auto simp: follow_turn_def Let_def split: option.split)
  qed
qed

lemma follower_step_inv: "follower_step j f f' \<Longrightarrow> fo_inv f \<Longrightarrow> fo_inv f'"
proof (induction rule: follower_step.induct)
  case (turn f j)
  then show ?case by (simp add: follow_turn_inv)
next
  case (sent f e n j)
  then have "sent_ok (fo_run f) (fo_after f) (fo_sent f) (fo_cursor f) False" by (auto simp: fo_inv_def)
  from sent_ok_event [OF this, of e] sent show ?case
    by (auto simp: fo_inv_def fo_send_def overflowed_def)
next
  case (settled f n j)
  then show ?case by (intro advance_inv) (auto simp: fo_inv_def)
next
  case (stop_sending f e n j)
  then show ?case by (auto simp: fo_inv_def overflowed_def)
next
  case (stop_settled f j)
  then show ?case by (auto simp: fo_inv_def overflowed_def)
next
  case (overflow_sent f j)
  then have "sent_ok (fo_run f) (fo_after f) (fo_sent f) (fo_cursor f) False" by (auto simp: fo_inv_def)
  from sent_ok_overflow [OF this] overflow_sent show ?case
    by (auto simp: fo_inv_def fo_send_def overflowed_def)
next
  case (overflow_stop f j)
  then show ?case by (auto simp: fo_inv_def overflowed_def)
next
  case (overflow_settled f j)
  then show ?case by (auto simp: fo_inv_def finishLocked_def fo_close_def overflowed_def)
next
  case (taken f j)
  then show ?case by (auto simp: fo_inv_def overflowed_def)
next
  case (bound j f run)
  have "fo_inv (f\<lparr>fo_run := run, fo_unbound := False\<rparr>)" if "fo_unbound f"
    using bound that by (auto simp: fo_inv_def overflowed_def sent_ok_def consecutive_def split: if_splits)
  then show ?case using bound by (auto simp: Bind_def pump_inv)
next
  case (released j f)
  then show ?case by (auto simp: Release_def fo_inv_def finishLocked_def fo_close_def overflowed_def)
qed

definition followers_ok :: "Journal \<Rightarrow> bool" where
  "followers_ok j \<longleftrightarrow> (\<forall>i f. jo_followers j i = Some f \<longrightarrow> fo_inv f)"

lemma new_follower_inv: "fo_inv (follower_new run after unbound)"
  by (simp add: follower_new_def fo_inv_def sent_ok_nil overflowed_def)

lemma journal_step_followers: "journal_step adm j j' \<Longrightarrow> followers_ok j \<Longrightarrow> followers_ok j'"
proof (induction rule: journal_step.induct)
  case (appended j e terminal)
  then show ?case
    by (auto simp: followers_ok_def Append_def Let_def pump_inv split: option.split)
next
  case (followed j i run after)
  then show ?case by (auto simp: followers_ok_def Follow_def intro: pump_inv new_follower_inv)
next
  case (reserved j i)
  then show ?case by (auto simp: followers_ok_def Reserve_def intro: new_follower_inv)
next
  case (closed j)
  then show ?case by (auto simp: followers_ok_def Close_def)
next
  case (moved j i f f')
  then show ?case by (auto simp: followers_ok_def intro: follower_step_inv)
qed

lemma reachable_followers_ok: "reachable_journal adm capacity j \<Longrightarrow> followers_ok j"
  by (induction rule: reachable_journal.induct) (auto simp: followers_ok_def New_def intro: journal_step_followers [unfolded followers_ok_def, rule_format])

text \<open>C12. Whatever the adapter appends and however its goroutines interleave with appends, binds,
  releases and a close, a follower never sends on a closed channel and never closes it twice;
  what it sends are the events of its run, numbered without a gap from where it began, and at
  most one overflow after them, which ends it; it never buffers more than its channel holds.\<close>

theorem follower_sends_consecutive:
  assumes "reachable_journal adm capacity j" and "jo_followers j i = Some f"
  shows "\<not> fo_panic f \<and> fo_queue f \<le> followerBuffer \<and>
    (\<exists>es ov. fo_sent f = map REnvelope es @ (if ov then [ROverflow] else []) \<and>
       (\<forall>k < length es. env_RunID (es ! k) = fo_run f \<and> env_Sequence (es ! k) = Some (fo_after f + 1 + of_nat k)) \<and>
       (ov \<longrightarrow> fo_done f \<or> fo_pc f = AfterOverflow))"
proof -
  from reachable_followers_ok [OF assms(1)] assms(2) have "fo_inv f" by (auto simp: followers_ok_def)
  then show ?thesis unfolding fo_inv_def sent_ok_def consecutive_def by blast
qed

section \<open>An adapter that numbers its events\<close>

text \<open>The events of a run are appended in order, numbered from one, and none after the terminal
  one.\<close>

definition in_order :: "Journal \<Rightarrow> Envelope \<Rightarrow> bool \<Rightarrow> bool" where
  "in_order j e terminal \<longleftrightarrow>
     (case env_Sequence e of
        None \<Rightarrow> True
      | Some s \<Rightarrow> s = jo_latest j (env_RunID e) + 1 \<and> s \<noteq> 0 \<and> \<not> jo_ended j (env_RunID e))"

definition seqs_of :: "bytes \<Rightarrow> Envelope list \<Rightarrow> nat list" where
  "seqs_of run es = map (\<lambda>e. unat (the (env_Sequence e))) (filter (\<lambda>e. env_RunID e = run \<and> env_Sequence e \<noteq> None) es)"

text \<open>The journal retains the last events of every run.\<close>

definition log_inv :: "Journal \<Rightarrow> bool" where
  "log_inv j \<longleftrightarrow> length (jo_entries j) \<le> jo_capacity j \<and>
     (\<forall>run. \<exists>m. 1 \<le> m \<and> m \<le> Suc (unat (jo_latest j run)) \<and>
        seqs_of run (jo_entries j) = [m..<Suc (unat (jo_latest j run))])"

lemma seqs_of_simps [simp]:
  "seqs_of run [] = []" "seqs_of run (xs @ ys) = seqs_of run xs @ seqs_of run ys"
  "seqs_of run [e] = (case env_Sequence e of None \<Rightarrow> [] | Some s \<Rightarrow> if env_RunID e = run then [unat s] else [])"
  by (auto simp: seqs_of_def split: option.split)

lemma unat_suc: "(x :: seq) + 1 \<noteq> 0 \<Longrightarrow> unat (x + 1) = Suc (unat x)"
  by (simp add: unatSuc add.commute)

lemma seqs_of_mem:
  "s \<in> set (seqs_of run es) \<longleftrightarrow> (\<exists>e \<in> set es. env_RunID e = run \<and> (\<exists>w. env_Sequence e = Some w \<and> s = unat w))"
  by (auto simp: seqs_of_def) force

text \<open>The two effects of an append on the log.\<close>

lemma log_append:
  assumes "seqs_of run es = [m..<Suc (unat l)]" "1 \<le> m" "m \<le> Suc (unat l)" "(l :: seq) + 1 \<noteq> 0"
  shows "seqs_of run es @ [unat (l + 1)] = [m..<Suc (unat (l + 1))]"
  using assms by (simp add: unat_suc)

lemma log_evict:
  assumes "seqs_of run es = [m..<k]" "1 \<le> m" "m \<le> k" "es \<noteq> []"
  shows "\<exists>m'. 1 \<le> m' \<and> m' \<le> k \<and> m \<le> m' \<and> seqs_of run (tl es) = [m'..<k]"
proof -
  have split: "seqs_of run es = seqs_of run [hd es] @ seqs_of run (tl es)"
    using seqs_of_simps(2) [of run "[hd es]" "tl es"] assms(4) by simp
  show ?thesis
  proof (cases "seqs_of run [hd es] = []")
    case True
    with split assms show ?thesis by auto
  next
    case False
    then obtain s where "seqs_of run [hd es] = [s]" by (auto split: option.splits if_splits)
    with split assms(1) have e: "[m..<k] = s # seqs_of run (tl es)" by simp
    then have "m < k" by (cases "m < k") auto
    with e have "seqs_of run (tl es) = [Suc m..<k]" by (auto simp: upt_conv_Cons)
    with \<open>m < k\<close> assms(2) show ?thesis by (intro exI [of _ "Suc m"]) simp
  qed
qed

text \<open>The journal after an append, before the followers are pumped.\<close>

definition appended_log :: "Journal \<Rightarrow> Envelope \<Rightarrow> bool \<Rightarrow> Journal" where
  "appended_log j e terminal =
     (let entries = jo_entries j @ [e];
          j1 = (if length entries > jo_capacity j
                then j\<lparr>jo_entries := tl entries, jo_evicted := Suc (jo_evicted j)\<rparr>
                else j\<lparr>jo_entries := entries\<rparr>)
      in case env_Sequence e of
           None \<Rightarrow> j1
         | Some s \<Rightarrow> j1\<lparr>jo_latest := (jo_latest j1)(env_RunID e := s),
                       jo_ended := (jo_ended j1)(env_RunID e := terminal \<or> jo_ended j1 (env_RunID e))\<rparr>)"

lemma Append_log:
  "Append j e terminal = (appended_log j e terminal)\<lparr>jo_followers := (\<lambda>i. map_option (pump (appended_log j e terminal)) (jo_followers j i))\<rparr>"
  by (auto simp: Append_def appended_log_def Let_def split: option.split)

lemma appended_fields [simp]:
  "jo_capacity (appended_log j e t) = jo_capacity j" "jo_stopped (appended_log j e t) = jo_stopped j"
  "jo_followers (appended_log j e t) = jo_followers j"
  "jo_latest (appended_log j e t) run = (case env_Sequence e of None \<Rightarrow> jo_latest j run | Some s \<Rightarrow> if run = env_RunID e then s else jo_latest j run)"
  "jo_ended (appended_log j e t) run = (jo_ended j run \<or> (env_Sequence e \<noteq> None \<and> run = env_RunID e \<and> t))"
  "jo_entries (appended_log j e t) = (if length (jo_entries j) < jo_capacity j then jo_entries j @ [e] else tl (jo_entries j @ [e]))"
  "jo_evicted (appended_log j e t) = (if length (jo_entries j) < jo_capacity j then jo_evicted j else Suc (jo_evicted j))"
  by (auto simp: appended_log_def Let_def split: option.split)

lemma appended_log_inv:
  assumes "log_inv j" and "in_order j e terminal"
  shows "log_inv (appended_log j e terminal)"
  unfolding log_inv_def
proof (intro conjI allI)
  show "length (jo_entries (appended_log j e terminal)) \<le> jo_capacity (appended_log j e terminal)"
    using assms(1) by (auto simp: log_inv_def)
  fix run
  from assms(1) obtain m where m: "1 \<le> m" "m \<le> Suc (unat (jo_latest j run))"
    "seqs_of run (jo_entries j) = [m..<Suc (unat (jo_latest j run))]" by (auto simp: log_inv_def)
  let ?l = "jo_latest (appended_log j e terminal) run"
  have all: "seqs_of run (jo_entries j @ [e]) = [m..<Suc (unat ?l)]" "m \<le> Suc (unat ?l)"
    using m assms(2) log_append [OF m(3,1,2)] by (auto simp: in_order_def unat_suc split: option.splits)
  have "\<exists>m'. 1 \<le> m' \<and> m' \<le> Suc (unat ?l) \<and> m \<le> m' \<and> seqs_of run (tl (jo_entries j @ [e])) = [m'..<Suc (unat ?l)]"
    by (rule log_evict [OF all(1) m(1) all(2)]) simp
  then obtain m' where m': "1 \<le> m'" "m' \<le> Suc (unat ?l)" "seqs_of run (tl (jo_entries j @ [e])) = [m'..<Suc (unat ?l)]" by blast
  show "\<exists>m'. 1 \<le> m' \<and> m' \<le> Suc (unat ?l) \<and> seqs_of run (jo_entries (appended_log j e terminal)) = [m'..<Suc (unat ?l)]"
  proof (cases "length (jo_entries j) < jo_capacity j")
    case True
    with all m(1) show ?thesis by (intro exI [of _ m]) simp
  next
    case False
    with m' show ?thesis by (intro exI [of _ m']) simp
  qed
qed

subsection \<open>Positions\<close>

text \<open>Every event of the run in the log before absolute position \<open>n\<close> has a number up to \<open>c\<close>.\<close>

definition seen_upto :: "Journal \<Rightarrow> bytes \<Rightarrow> nat \<Rightarrow> nat \<Rightarrow> bool" where
  "seen_upto j run n c \<longleftrightarrow> n \<le> jo_evicted j + length (jo_entries j) \<and>
     (\<forall>s \<in> set (seqs_of run (take (n - jo_evicted j) (jo_entries j))). s \<le> c)"

lemma seen_upto_0 [simp]: "seen_upto j run 0 c"
  by (simp add: seen_upto_def)

lemma seqs_of_mono: "set xs \<subseteq> set ys \<Longrightarrow> set (seqs_of run xs) \<subseteq> set (seqs_of run ys)"
  by (auto simp: seqs_of_def)

lemma seen_upto_appended: "seen_upto j run n c \<Longrightarrow> seen_upto (appended_log j e t) run n c"
proof -
  assume s: "seen_upto j run n c"
  let ?k = "n - jo_evicted j" and ?es = "jo_entries j"
  have le: "?k \<le> length ?es" using s by (auto simp: seen_upto_def)
  have same: "take ?k (?es @ [e]) = take ?k ?es" using le by simp
  have "set (take (?k - 1) (tl (?es @ [e]))) \<subseteq> set (take ?k (?es @ [e]))"
  proof (cases ?k)
    case (Suc k)
    then show ?thesis using le by (cases ?es) (auto dest: in_set_takeD)
  qed simp
  with same have "set (seqs_of run (take (?k - 1) (tl (?es @ [e])))) \<subseteq> set (seqs_of run (take ?k ?es))"
    by (metis seqs_of_mono)
  moreover have k: "n - Suc (jo_evicted j) = ?k - 1" by simp
  moreover have old: "\<forall>x \<in> set (seqs_of run (take ?k ?es)). x \<le> c" using s unfolding seen_upto_def by blast
  ultimately have tl_ok: "\<forall>x \<in> set (seqs_of run (take (n - Suc (jo_evicted j)) (tl (?es @ [e])))). x \<le> c"
    by (simp only: k) blast
  show ?thesis
  proof (cases "length ?es < jo_capacity j")
    case True
    with s same show ?thesis by (simp add: seen_upto_def)
  next
    case False
    with s tl_ok show ?thesis by (simp add: seen_upto_def)
  qed
qed

lemma find_loop_miss:
  "find_loop run sequence es i = None \<Longrightarrow> e \<in> set es \<Longrightarrow> env_RunID e = run \<Longrightarrow> env_Sequence e \<noteq> Some sequence"
  by (induction es arbitrary: i) (auto split: if_splits)

text \<open>The search that starts at the follower's position misses nothing.\<close>

lemma findLocked_miss:
  assumes "log_inv j" "seen_upto j run position (unat c)" "findLocked j run (c + 1) position = None"
  shows "Suc (unat c) \<notin> set (seqs_of run (jo_entries j))"
proof
  assume "Suc (unat c) \<in> set (seqs_of run (jo_entries j))"
  then obtain e w where e: "e \<in> set (jo_entries j)" "env_RunID e = run" "env_Sequence e = Some w" "unat w = Suc (unat c)"
    by (auto simp: seqs_of_mem)
  have w: "w = c + 1"
  proof -
    have "w = of_nat (unat w)" by simp
    also have "\<dots> = c + 1" using e(4) by simp
    finally show ?thesis .
  qed
  let ?k = "position - jo_evicted j"
  from e(1) consider "e \<in> set (take ?k (jo_entries j))" | "e \<in> set (drop ?k (jo_entries j))"
    by (metis Un_iff append_take_drop_id set_append)
  then show False
  proof cases
    case 1
    with e have "Suc (unat c) \<in> set (seqs_of run (take ?k (jo_entries j)))" by (auto simp: seqs_of_mem)
    with assms(2) show False by (auto simp: seen_upto_def)
  next
    case 2
    have "find_loop run (c + 1) (drop ?k (jo_entries j)) ?k = None" using assms(3) by (simp add: findLocked_def Let_def)
    from find_loop_miss [OF this 2 e(2)] e(3) w show False by simp
  qed
qed

text \<open>What it finds is the next event, and the position moves just past it.\<close>

lemma findLocked_next:
  assumes "log_inv j" "findLocked j run (c + 1) position = Some (e, n)"
  shows "c + 1 \<noteq> 0" "seen_upto j run n (Suc (unat c))" "Suc (unat c) \<in> set (seqs_of run (jo_entries j))"
proof -
  let ?k = "position - jo_evicted j" and ?es = "jo_entries j"
  from assms(2) obtain i where f: "find_loop run (c + 1) (drop ?k ?es) ?k = Some (e, i)" "n = jo_evicted j + i + 1"
    by (auto simp: findLocked_def Let_def)
  note h = find_loop_hit [OF f(1)]
  then have i: "i < length ?es" "?es ! i = e" by (auto simp: nth_drop)
  then have el: "e \<in> set ?es" by auto
  from assms(1) obtain m k where m: "1 \<le> m" "seqs_of run ?es = [m..<k]" unfolding log_inv_def by blast
  have mem: "unat (c + 1) \<in> set (seqs_of run ?es)" using el h by (auto simp: seqs_of_mem)
  with m have "unat (c + 1) \<noteq> 0" by auto
  then show nz: "c + 1 \<noteq> 0" by auto
  with mem show "Suc (unat c) \<in> set (seqs_of run ?es)" by (simp add: unat_suc)
  have "seqs_of run ?es = seqs_of run (take (Suc i) ?es) @ seqs_of run (drop (Suc i) ?es)"
    by (metis append_take_drop_id seqs_of_simps(2))
  moreover have "seqs_of run (take (Suc i) ?es) = seqs_of run (take i ?es) @ [unat (c + 1)]"
    using i h by (simp add: take_Suc_conv_app_nth)
  ultimately have "sorted (seqs_of run (take i ?es) @ [unat (c + 1)])" "seqs_of run (take (Suc i) ?es) = seqs_of run (take i ?es) @ [unat (c + 1)]"
    using m(2) by (metis sorted_append sorted_upt, simp)
  then have "\<forall>s \<in> set (seqs_of run (take (Suc i) ?es)). s \<le> Suc (unat c)"
    using nz by (auto simp: sorted_append unat_suc)
  with f(2) i show "seen_upto j run n (Suc (unat c))" by (simp add: seen_upto_def)
qed

subsection \<open>Followers of an orderly adapter\<close>

definition fell_behind :: "Journal \<Rightarrow> follower \<Rightarrow> bool" where
  "fell_behind j f \<longleftrightarrow> fo_cursor f < jo_latest j (fo_run f) \<and> Suc (unat (fo_cursor f)) \<notin> set (seqs_of (fo_run f) (jo_entries j))"

definition caught_up :: "Journal \<Rightarrow> follower \<Rightarrow> bool" where
  "caught_up j f \<longleftrightarrow> jo_ended j (fo_run f) \<and> jo_latest j (fo_run f) \<le> fo_cursor f"

definition fd_inv :: "Journal \<Rightarrow> follower \<Rightarrow> bool" where
  "fd_inv j f \<longleftrightarrow>
     (fo_unbound f \<longrightarrow> fo_position f = 0) \<and>
     (\<not> fo_unbound f \<longrightarrow>
        seen_upto j (fo_run f) (fo_position f) (unat (fo_cursor f)) \<and>
        (\<forall>e n. fo_pc f = SendingEvent e n \<or> fo_pc f = SentEvent n \<longrightarrow>
           fo_cursor f + 1 \<noteq> 0 \<and> seen_upto j (fo_run f) n (Suc (unat (fo_cursor f)))) \<and>
        (fo_done f \<and> \<not> overflowed f \<longrightarrow> jo_stopped j \<or> caught_up j f) \<and>
        (fo_pc f = AfterOverflow \<and> \<not> overflowed f \<longrightarrow> jo_stopped j) \<and>
        (overflowed f \<or> fo_pc f = SendingOverflow \<longrightarrow> fell_behind j f))"

lemma fd_appended:
  assumes "log_inv j" "in_order j e t" "fd_inv j f"
  shows "fd_inv (appended_log j e t) f"
proof -
  have behind: "fell_behind (appended_log j e t) f" if "fell_behind j f"
  proof -
    have "Suc (unat (fo_cursor f)) \<le> unat (jo_latest j (fo_run f))"
      using that by (simp add: fell_behind_def word_less_nat_alt)
    moreover have "set (seqs_of (fo_run f) (jo_entries (appended_log j e t))) \<subseteq> set (seqs_of (fo_run f) (jo_entries j @ [e]))"
      by (rule seqs_of_mono) (simp del: tl_append, metis append_is_Nil_conv list.distinct(1) list.set_sel(2) set_append subsetI list.simps(15) Un_insert_right list.set(1) sup_bot_right)
    moreover have "unat (jo_latest j (fo_run f)) \<le> unat (jo_latest (appended_log j e t) (fo_run f))"
      "Suc (unat (fo_cursor f)) \<notin> set (seqs_of (fo_run f) (jo_entries j @ [e]))"
      using that assms(2) calculation(1)
      by (auto simp: fell_behind_def in_order_def unat_suc split: option.splits)
    ultimately show ?thesis unfolding fell_behind_def word_less_nat_alt by (meson Suc_le_lessD less_le_trans subsetD)
  qed
  have up: "caught_up (appended_log j e t) f" if "caught_up j f"
    using that assms(2) by (auto simp: caught_up_def in_order_def split: option.splits)
  show ?thesis using assms(3) behind up seen_upto_appended by (auto simp: fd_inv_def)
qed

text \<open>The facts that the moves of a follower keep.\<close>

definition both_inv :: "Journal \<Rightarrow> follower \<Rightarrow> bool" where
  "both_inv j f \<longleftrightarrow> fo_inv f \<and> fd_inv j f"

lemma fd_advance:
  assumes "fo_cursor f + 1 \<noteq> 0" "seen_upto j (fo_run f) n (Suc (unat (fo_cursor f)))"
    and "\<not> fo_unbound f" "fo_pc f = Looking" "\<not> fo_done f" "\<not> overflowed f"
  shows "fd_inv j (advanceLocked j f n)"
  using assms by (auto simp: fd_inv_def advanceLocked_def caught_up_def overflowed_def unat_suc Let_def)

lemma pumpLocked_fd:
  assumes "log_inv j" "both_inv j f"
  shows "both_inv j (snd (pumpLocked j f))"
proof -
  have "fd_inv j (snd (pumpLocked j f))"
  proof (cases "fo_done f \<or> fo_inflight f \<or> fo_unbound f \<or> fo_queue f \<ge> followerBuffer \<or>
      findLocked j (fo_run f) (fo_cursor f + 1) (fo_position f) = None")
    case True
    with assms show ?thesis by (auto simp: pumpLocked_def both_inv_def split: option.splits)
  next
    case False
    then obtain e n where h: "findLocked j (fo_run f) (fo_cursor f + 1) (fo_position f) = Some (e, n)" by auto
    note nxt = findLocked_next [OF assms(1) h]
    from False assms(2) have look: "fo_pc f = Looking" "\<not> overflowed f"
      by (auto simp: both_inv_def fo_inv_def intro: fo_inv_looking)
    have "fd_inv j (advanceLocked j (fo_send f (REnvelope e)) n)"
      using nxt False look by (intro fd_advance) (auto simp: fo_send_def overflowed_def)
    with False h show ?thesis by (simp add: pumpLocked_def Let_def)
  qed
  with assms(2) pumpLocked_inv show ?thesis by (simp add: both_inv_def)
qed

lemma pump_both: "log_inv j \<Longrightarrow> both_inv j f \<Longrightarrow> both_inv j (pump j f)"
  by (rule pump_induct [where P = "both_inv j"]) (simp_all add: pumpLocked_fd)

lemma pump_unbound [simp]: "fo_unbound (pump j f) = fo_unbound f"
  by (rule pump_induct [where P = "\<lambda>g. fo_unbound g = fo_unbound f"])
    (auto simp: pumpLocked_def advanceLocked_def fo_send_def Let_def split: option.splits prod.splits)

lemma fd_exit:
  assumes "fd_inv j f" "\<not> fo_unbound f \<Longrightarrow> \<not> overflowed f \<Longrightarrow> jo_stopped j \<or> caught_up j f"
  shows "fd_inv j ((finishLocked f)\<lparr>fo_pc := Exited\<rparr>)"
  using assms by (auto simp: fd_inv_def caught_up_def fell_behind_def overflowed_def)

lemma follow_turn_both:
  assumes "log_inv j" "both_inv j f" "fo_pc f = Looking"
  shows "both_inv j (follow_turn j f)"
proof -
  let ?f = "pump j f"
  have b: "both_inv j ?f" using assms(1,2) by (rule pump_both)
  then have fd: "fd_inv j ?f" and inv: "fo_inv ?f" by (simp_all add: both_inv_def)
  have "\<not> fo_inflight f" using assms by (simp add: both_inv_def fo_inv_def)
  then have idle: "\<not> fo_inflight ?f" by (rule pump_idle)
  have "fd_inv j (follow_turn j f)"
  proof (cases "fo_done ?f \<or> fo_unbound ?f")
    case True
    have "fd_inv j (?f\<lparr>fo_pc := Exited\<rparr>)" if "fo_done ?f"
      using fd that by (auto simp: fd_inv_def overflowed_def caught_up_def fell_behind_def)
    moreover have "fd_inv j ((finishLocked ?f)\<lparr>fo_pc := Exited\<rparr>)" if "fo_unbound ?f"
      using that by (intro fd_exit fd) simp
    ultimately show ?thesis using True fd by (auto simp: follow_turn_def Let_def)
  next
    case False
    with inv idle have look: "fo_pc ?f = Looking" by (auto intro: fo_inv_looking)
    with False inv have no: "\<not> overflowed ?f" by (auto simp: fo_inv_def)
    have upto: "seen_upto j (fo_run ?f) (fo_position ?f) (unat (fo_cursor ?f))" using fd False by (simp add: fd_inv_def)
    let ?hit = "findLocked j (fo_run ?f) (fo_cursor ?f + 1) (fo_position ?f)"
    have behind: "fell_behind j ?f" if "?hit = None" "jo_latest j (fo_run ?f) > fo_cursor ?f"
      using that findLocked_miss [OF assms(1) upto] by (simp add: fell_behind_def)
    have event: "fd_inv j (?f\<lparr>fo_inflight := True, fo_pc := SendingEvent e n\<rparr>)" if "?hit = Some (e, n)" for e n
      using fd no False findLocked_next [OF assms(1) that] by (auto simp: fd_inv_def overflowed_def caught_up_def)
    have over: "fd_inv j (?f\<lparr>fo_inflight := True, fo_pc := SendingOverflow\<rparr>)"
      "fd_inv j ((finishLocked (fo_send ?f ROverflow))\<lparr>fo_pc := Exited\<rparr>)" if "fell_behind j ?f"
      using fd False that by (auto simp: fd_inv_def overflowed_def caught_up_def fell_behind_def fo_send_def)
    have exit: "fd_inv j ((finishLocked ?f)\<lparr>fo_pc := Exited\<rparr>)" if "jo_stopped j \<or> caught_up j ?f"
      using that by (intro fd_exit fd)
    show ?thesis
      using False fd behind event over exit
      by (auto simp: follow_turn_def Let_def caught_up_def split: option.split)
  qed
  with follow_turn_inv [of f j] assms show ?thesis by (simp add: both_inv_def)
qed

declare both_inv_def [journal_simps] fo_inv_def [journal_simps] fd_inv_def [journal_simps]
  overflowed_def [journal_simps] caught_up_def [journal_simps] fell_behind_def [journal_simps]

lemma follower_step_fd:
  "follower_step j f f' \<Longrightarrow> log_inv j \<Longrightarrow> both_inv j f \<Longrightarrow> fd_inv j f'"
proof (induction rule: follower_step.induct)
  case (turn f j)
  then show ?case using follow_turn_both by (auto simp: both_inv_def)
next
  case (sent f e n j)
  then show ?case by (auto simp: journal_simps fo_send_def)
next
  case (settled f n j)
  then show ?case
    by (intro fd_advance) (auto simp: both_inv_def fo_inv_def fd_inv_def overflowed_def)
next
  case (stop_sending f e n j)
  then show ?case by (auto simp: journal_simps)
next
  case (stop_settled f j)
  then show ?case by (auto simp: journal_simps)
next
  case (overflow_sent f j)
  then show ?case by (auto simp: journal_simps fo_send_def)
next
  case (overflow_stop f j)
  then show ?case by (auto simp: journal_simps)
next
  case (overflow_settled f j)
  have "fd_inv j ((finishLocked (f\<lparr>fo_inflight := False\<rparr>))\<lparr>fo_pc := Exited\<rparr>)"
    by (rule fd_exit) (use overflow_settled in \<open>auto simp: both_inv_def fd_inv_def overflowed_def caught_up_def fell_behind_def\<close>)
  then show ?case .
next
  case (taken f j)
  then show ?case by (auto simp: both_inv_def fd_inv_def overflowed_def caught_up_def fell_behind_def)
next
  case (bound j f run)
  have "both_inv j (f\<lparr>fo_run := run, fo_unbound := False\<rparr>)" if "fo_unbound f" "\<not> fo_done f"
  proof -
    from bound that have f: "fo_sent f = []" "fo_cursor f = fo_after f" "fo_position f = 0" "fo_pc f = Looking"
      by (auto simp: both_inv_def fo_inv_def fd_inv_def intro: fo_inv_looking)
    with bound that show ?thesis
      by (auto simp: both_inv_def fo_inv_def fd_inv_def overflowed_def sent_ok_nil)
  qed
  with bound show ?case using pump_both by (auto simp: Bind_def both_inv_def)
next
  case (released j f)
  then show ?case by (auto simp: Release_def both_inv_def fd_inv_def overflowed_def)
qed

definition journal_inv :: "Journal \<Rightarrow> bool" where
  "journal_inv j \<longleftrightarrow> log_inv j \<and> (\<forall>i f. jo_followers j i = Some f \<longrightarrow> both_inv j f)"

lemma inv_frame [simp]:
  "log_inv (j\<lparr>jo_followers := fs\<rparr>) = log_inv j" "both_inv (j\<lparr>jo_followers := fs\<rparr>) f = both_inv j f"
  by (simp_all add: log_inv_def both_inv_def fd_inv_def seen_upto_def caught_up_def fell_behind_def)

lemma new_follower_both: "both_inv j (follower_new run after unbound)"
  using new_follower_inv [of run after unbound]
  by (auto simp: both_inv_def fd_inv_def follower_new_def overflowed_def)

lemma close_inv: "log_inv (Close j) = log_inv j" "both_inv j f \<Longrightarrow> both_inv (Close j) f"
  by (auto simp: Close_def log_inv_def both_inv_def fd_inv_def seen_upto_def caught_up_def fell_behind_def)

lemma journal_step_inv: "journal_step in_order j j' \<Longrightarrow> journal_inv j \<Longrightarrow> journal_inv j'"
proof (induction rule: journal_step.induct)
  case (appended j e terminal)
  then have "log_inv (appended_log j e terminal)" by (auto simp: journal_inv_def intro: appended_log_inv)
  moreover have "both_inv (appended_log j e terminal) f" if "jo_followers j i = Some f" for i f
    using appended that fd_appended by (auto simp: journal_inv_def both_inv_def)
  ultimately show ?case by (auto simp: journal_inv_def Append_log intro: pump_both)
next
  case (followed j i run after)
  then show ?case by (auto simp: journal_inv_def Follow_def intro: pump_both new_follower_both)
next
  case (reserved j i)
  then show ?case by (auto simp: journal_inv_def Reserve_def intro: new_follower_both)
next
  case (closed j)
  then have "jo_followers (Close j) = jo_followers j" by (simp add: Close_def)
  with closed show ?case by (auto simp: journal_inv_def close_inv)
next
  case (moved j i f f')
  then have "both_inv j f'"
    using follower_step_fd follower_step_inv by (auto simp: journal_inv_def both_inv_def)
  with moved show ?case by (auto simp: journal_inv_def)
qed

lemma reachable_inv: "reachable_journal in_order capacity j \<Longrightarrow> journal_inv j"
proof (induction rule: reachable_journal.induct)
  case fresh
  have "\<exists>m. 1 \<le> m \<and> m \<le> Suc 0 \<and> [] = [m..<Suc 0]" by (intro exI [of _ 1]) simp
  then show ?case by (simp add: journal_inv_def log_inv_def New_def)
next
  case (stepped j j')
  then show ?case by (blast intro: journal_step_inv)
qed


text \<open>A journal for the witnesses: room for one event, a follower from the start of a run of two
  events, the second terminal.\<close>

definition demo_event :: "seq \<Rightarrow> Envelope" where
  "demo_event n = Envelope_zero\<lparr>env_RunID := ''r'', env_Sequence := Some n\<rparr>"

definition demo_journal :: Journal where
  "demo_journal = Append (Append (Follow (New 1) 0 ''r'' 0) (demo_event 1) False) (demo_event 2) True"

lemma demo_reachable:
  assumes "\<And>j e t. in_order j e t \<Longrightarrow> adm j e t"
  shows "reachable_journal adm 1 demo_journal"
proof -
  let ?j1 = "Follow (New 1) 0 ''r'' 0" and ?j2 = "Append (Follow (New 1) 0 ''r'' 0) (demo_event 1) False"
  have "jo_followers (New 1) 0 = None" by (simp add: New_def)
  then have r1: "reachable_journal adm 1 ?j1" by (rule reachable_journal.stepped [OF reachable_journal.fresh followed])
  have "in_order ?j1 (demo_event 1) False" by (simp add: in_order_def demo_event_def Envelope_zero_def Follow_def New_def)
  then have r2: "reachable_journal adm 1 ?j2" by (intro reachable_journal.stepped [OF r1] appended assms)
  have "in_order ?j2 (demo_event 2) True"
    by (simp add: Append_log in_order_def demo_event_def Envelope_zero_def Follow_def New_def)
  then show ?thesis unfolding demo_journal_def by (intro reachable_journal.stepped [OF r2] appended assms)
qed

lemma demo_follower:
  "map_option (\<lambda>f. (fo_sent f, fo_closed f, fo_unbound f, fo_cursor f)) (jo_followers demo_journal 0) =
     Some ([REnvelope (demo_event 1), REnvelope (demo_event 2)], True, False, 2)"
  by (simp add: demo_journal_def Append_log Follow_def New_def demo_event_def Envelope_zero_def follower_new_def
      pump.simps pumpLocked_def findLocked_def fo_send_def advanceLocked_def finishLocked_def fo_close_def
      followerBuffer_def appended_log_def Let_def)

theorem follower_sends_consecutive_witness:
  "\<exists>f. reachable_journal (\<lambda>_ _ _. True) 1 demo_journal \<and> jo_followers demo_journal 0 = Some f \<and> \<not> fo_panic f \<and>
     length (fo_sent f) = 2"
proof -
  from demo_follower obtain f where f: "jo_followers demo_journal 0 = Some f" "length (fo_sent f) = 2" by auto
  have r: "reachable_journal (\<lambda>_ _ _. True) 1 demo_journal" by (rule demo_reachable) simp
  from follower_sends_consecutive [OF r f(1)] r f show ?thesis by blast
qed


subsection \<open>Resuming\<close>

definition words_of :: "bytes \<Rightarrow> Envelope list \<Rightarrow> seq list" where
  "words_of run es = map (\<lambda>e. the (env_Sequence e)) (filter (\<lambda>e. env_RunID e = run \<and> env_Sequence e \<noteq> None) es)"

definition scan_word :: "seq \<Rightarrow> seq \<times> seq \<times> seq \<Rightarrow> seq \<Rightarrow> seq \<times> seq \<times> seq" where
  "scan_word after acc s =
     (case acc of (oldest, first, newest) \<Rightarrow>
        (if oldest = 0 then s else oldest, if s > after then (if first = 0 then s else first) else first,
         if s > after then s else newest))"

lemma scan_words: "foldl (scan_entry run after) acc es = foldl (scan_word after) acc (words_of run es)"
  by (induction es arbitrary: acc) (auto simp: words_of_def scan_entry_def scan_word_def split: prod.splits option.splits)

lemma of_nat_seq_nz: "0 < n \<Longrightarrow> n < 2 ^ 64 \<Longrightarrow> (of_nat n :: seq) \<noteq> 0"
  by (auto simp: word_of_nat_eq_0_iff dest: nat_dvd_not_less)

lemma scan_result:
  "map unat ws = [m..<k] \<Longrightarrow> 1 \<le> m \<Longrightarrow> m \<le> k \<Longrightarrow>
   foldl (scan_word after) (0, 0, 0) ws =
     (if m < k then of_nat m else 0,
      if m < k \<and> Suc (unat after) < k then of_nat (max m (Suc (unat after))) else 0,
      if m < k \<and> Suc (unat after) < k then of_nat (k - 1) else 0)"
proof (induction ws arbitrary: k rule: rev_induct)
  case Nil
  then have "[m..<k] = []" by simp
  then have "\<not> m < k" by (simp only: upt_eq_Nil_conv) auto
  then show ?case by simp
next
  case (snoc w ws)
  from snoc.prems(1) have "m < k" by (cases "m < k") auto
  then obtain k' where k': "k = Suc k'" "m \<le> k'" by (cases k) auto
  with snoc.prems(1) have ws: "map unat ws = [m..<k']" "unat w = k'" by simp_all
  note ih = snoc.IH [OF ws(1) snoc.prems(2) k'(2)]
  have w: "w = of_nat k'" "after < w \<longleftrightarrow> unat after < k'" using ws(2) by (auto simp: word_less_nat_alt)
  have "unat w < 2 ^ LENGTH(64)" by (rule unsigned_less)
  then have bound: "k' < 2 ^ 64" using ws(2) by simp
  have nz: "(of_nat m :: seq) \<noteq> 0" if "m < k'" using that bound snoc.prems(2) by (intro of_nat_seq_nz) auto
  have nz2: "(of_nat (max m (Suc (unat after))) :: seq) \<noteq> 0" if "m < k'" "Suc (unat after) < k'"
    using that bound by (intro of_nat_seq_nz) auto
  have eq: "of_nat k' = 1 + after" if "\<not> Suc (unat after) < k'" "unat after < k'"
  proof -
    have "k' = Suc (unat after)" using that by simp
    then show ?thesis by simp
  qed
  show ?case using ih w k' nz nz2 eq by (auto simp: scan_word_def max_def)
qed

lemma words_unat: "map unat (words_of run es) = seqs_of run es"
  by (simp add: words_of_def seqs_of_def)

text \<open>A resumption reports a gap exactly when there is one: for a run whose events the adapter
  numbered in order, a request to resume after event \<open>n\<close> is refused if and only if event
  \<open>n + 1\<close> exists and is no longer retained; otherwise the report names exactly the events the
  follower is about to replay, from \<open>n + 1\<close> through the latest.\<close>

lemma resume_gap_exact:
  assumes "reachable_journal in_order capacity j" and "after \<le> jo_latest j run"
  shows "(rc_Gap (Resume j run after (jo_latest j run)) \<longleftrightarrow>
            after < jo_latest j run \<and>
            (\<forall>e \<in> set (jo_entries j). env_RunID e = run \<longrightarrow> env_Sequence e \<noteq> Some (after + 1))) \<and>
         (\<not> rc_Gap (Resume j run after (jo_latest j run)) \<longrightarrow>
            rc_ReplayedThrough (Resume j run after (jo_latest j run)) = jo_latest j run \<and>
            rc_ReplayedFrom (Resume j run after (jo_latest j run)) =
              (if after < jo_latest j run then after + 1 else after))"
proof -
  let ?l = "jo_latest j run" and ?a = "unat after"
  from reachable_inv [OF assms(1)] obtain m where m: "1 \<le> m" "m \<le> Suc (unat ?l)" "seqs_of run (jo_entries j) = [m..<Suc (unat ?l)]"
    unfolding journal_inv_def log_inv_def by blast
  have le: "?a \<le> unat ?l" using assms(2) by (simp add: word_le_nat_alt)
  have scan: "foldl (scan_entry run after) (0, 0, 0) (jo_entries j) =
     (if m \<le> unat ?l then of_nat m else 0, if m \<le> unat ?l \<and> ?a < unat ?l then of_nat (max m (Suc ?a)) else 0,
      if m \<le> unat ?l \<and> ?a < unat ?l then ?l else 0)"
    using scan_result [of "words_of run (jo_entries j)" m "Suc (unat ?l)" after] m
    by (simp add: scan_words words_unat less_Suc_eq_le)
  have "unat ?l < 2 ^ LENGTH(64)" by (rule unsigned_less)
  then have lt: "unat ?l < 2 ^ 64" by simp
  have nz: "(of_nat m :: seq) \<noteq> 0" "unat (of_nat m :: seq) = m" if "m \<le> unat ?l"
    using that m(1) lt of_nat_seq_nz [of m] by (auto simp: unat_of_nat)
  have suc: "after + 1 \<noteq> 0" "unat (after + 1) = Suc ?a" "after + 1 = of_nat (Suc ?a)" if "?a < unat ?l"
  proof -
    have "(of_nat (Suc ?a) :: seq) \<noteq> 0" using that lt by (intro of_nat_seq_nz) auto
    then show "after + 1 \<noteq> 0" by (simp add: add.commute)
    then show "unat (after + 1) = Suc ?a" by (rule unat_suc)
    show "after + 1 = of_nat (Suc ?a)" by simp
  qed
  have retained: "(\<exists>e \<in> set (jo_entries j). env_RunID e = run \<and> env_Sequence e = Some (after + 1)) \<longleftrightarrow> m \<le> Suc ?a"
    if "?a < unat ?l"
  proof -
    have w: "Suc ?a = unat w \<longleftrightarrow> w = after + 1" for w
      unfolding suc(2) [OF that, symmetric] word_unat_eq_iff by auto
    have "(\<exists>e \<in> set (jo_entries j). env_RunID e = run \<and> env_Sequence e = Some (after + 1)) \<longleftrightarrow>
        Suc ?a \<in> set (seqs_of run (jo_entries j))"
      unfolding seqs_of_mem w by simp
    then show ?thesis using m that by auto
  qed
  show ?thesis
  proof (cases "?a < unat ?l")
    case True
    have gap: "rc_Gap (Resume j run after ?l) \<longleftrightarrow> \<not> m \<le> Suc ?a"
      using True nz m by (auto simp: Resume_def scan word_less_nat_alt suc(2) [OF True])
    have "rc_ReplayedThrough (Resume j run after ?l) = ?l \<and> rc_ReplayedFrom (Resume j run after ?l) = after + 1" if "m \<le> Suc ?a"
    proof -
      have "m \<le> unat ?l" "max m (Suc ?a) = Suc ?a" using that True by auto
      then show ?thesis using True nz that suc(1) [OF True] suc(3) [OF True]
        by (simp add: Resume_def scan word_less_nat_alt suc(2) [OF True, unfolded suc(3) [OF True]] del: of_nat_Suc)
    qed
    with gap retained [OF True] True show ?thesis by (auto simp: word_less_nat_alt)
  next
    case False
    with le have eq: "?l = after" by (simp add: word_unat_eq_iff)
    from False have "\<not> rc_Gap (Resume j run after ?l)" "rc_ReplayedThrough (Resume j run after ?l) = after"
      "rc_ReplayedFrom (Resume j run after ?l) = after"
      by (simp_all add: Resume_def scan word_less_nat_alt)
    with eq show ?thesis by simp
  qed
qed

end
