(* ===== verification/Provider_Types.thy ===== *)
theory Provider_Types
  imports Oap_Prelude
begin

text \<open>
  The data of the provider package: \<^verbatim>\<open>go/internal/provider/types.go\<close> (messages, tool calls)
  and \<^verbatim>\<open>go/internal/provider/events.go\<close> (stream events, the sink, the tracker of tool calls),
  with the part of \<^verbatim>\<open>compat.go\<close>'s \<^verbatim>\<open>Model\<close> the streams read.

  JSON values are a datatype; \<^verbatim>\<open>json.Unmarshal\<close> into a map is a parameter of the parsers (from
  text to a value), and what the sources do with the decoded value is modelled.  Floating
  point arithmetic is a parameter, the record \<open>float_unit\<close>; no law of it is used.  A clock is
  read once per event that carries a time stamp, so it is a function of the number of events
  the sink has received.
\<close>

section \<open>JSON values\<close>

datatype json = JNull | JBool bool | JNum float64 | JStr bytes | JArr "json list" | JObj "(bytes \<times> json) list"

type_synonym json_object = "(bytes \<times> json) list"

record float_unit =
  fu_of_int :: "int \<Rightarrow> float64"
  fu_to_int :: "float64 \<Rightarrow> int"
  fu_million :: float64
  fu_div :: "float64 \<Rightarrow> float64 \<Rightarrow> float64"
  fu_mul :: "float64 \<Rightarrow> float64 \<Rightarrow> float64"
  fu_add :: "float64 \<Rightarrow> float64 \<Rightarrow> float64"
  fu_zero :: float64

text \<open>Go's map lookup: of equal keys in the text the last one counts, an absent key reads as
  \<^verbatim>\<open>nil\<close>, which no type assertion accepts.\<close>

definition jget :: "json_object \<Rightarrow> bytes \<Rightarrow> json" where
  "jget obj key = (case map_of (rev obj) key of None \<Rightarrow> JNull | Some v \<Rightarrow> v)"

definition jhas :: "json_object \<Rightarrow> bytes \<Rightarrow> bool" where
  "jhas obj key \<longleftrightarrow> map_of obj key \<noteq> None"

fun asString :: "json \<Rightarrow> bytes option" where
  "asString (JStr s) = Some s"
| "asString _ = None"

fun asArray :: "json \<Rightarrow> json list option" where
  "asArray (JArr xs) = Some xs"
| "asArray _ = None"

fun asObject :: "json \<Rightarrow> json_object option" where
  "asObject (JObj obj) = Some obj"
| "asObject _ = None"

fun asInt :: "float_unit \<Rightarrow> json \<Rightarrow> int option" where
  "asInt fu (JNum n) = Some (fu_to_int fu n)"
| "asInt fu _ = None"

text \<open>\<^verbatim>\<open>json.Unmarshal\<close> into a \<^verbatim>\<open>map[string]any\<close>: an object gives its members, \<^verbatim>\<open>null\<close> a nil
  map, anything else an error.\<close>

definition unmarshal_object :: "(bytes \<Rightarrow> json option) \<Rightarrow> bytes \<Rightarrow> json_object option" where
  "unmarshal_object parse data =
     (case parse data of
        Some (JObj obj) \<Rightarrow> Some obj
      | Some JNull \<Rightarrow> Some []
      | _ \<Rightarrow> None)"

section \<open>Messages\<close>

definition StopStop :: bytes where "StopStop = ''stop''"
definition StopLength :: bytes where "StopLength = ''length''"
definition StopToolUse :: bytes where "StopToolUse = ''tool_use''"
definition StopContentFilter :: bytes where "StopContentFilter = ''content_filter''"
definition StopAborted :: bytes where "StopAborted = ''aborted''"
definition StopError :: bytes where "StopError = ''error''"

lemmas stop_defs = StopStop_def StopLength_def StopToolUse_def StopContentFilter_def StopAborted_def
  StopError_def

record ImagePart =
  ip_Data :: bytes
  ip_MediaType :: bytes

definition DataURL :: "ImagePart \<Rightarrow> bytes" where
  "DataURL p = ''data:'' @ ip_MediaType p @ '';base64,'' @ ip_Data p"

record ThinkingPart =
  tp_Thinking :: bytes
  tp_Signature :: bytes

record ToolCall =
  tc_ID :: bytes
  tc_Name :: bytes
  tc_Arguments :: bytes
  tc_ThoughtSig :: bytes
  tc_HasThought :: bool

definition ToolCall_zero :: ToolCall where
  "ToolCall_zero = \<lparr>tc_ID = [], tc_Name = [], tc_Arguments = [], tc_ThoughtSig = [], tc_HasThought = False\<rparr>"

record ContentPart =
  cp_Text :: "bytes option"
  cp_Image :: "ImagePart option"
  cp_Thinking :: "ThinkingPart option"
  cp_ToolCall :: "ToolCall option"

definition text_content :: "bytes \<Rightarrow> ContentPart" where
  "text_content t = \<lparr>cp_Text = Some t, cp_Image = None, cp_Thinking = None, cp_ToolCall = None\<rparr>"

record UserContent =
  uc_Text :: bytes
  uc_HasText :: bool
  uc_Parts :: "ContentPart list"
  uc_UseParts :: bool

record AssistantContent =
  ac_Parts :: "ContentPart list"
  ac_StopReason :: bytes
  ac_API :: bytes
  ac_Provider :: bytes
  ac_Model :: bytes

record AssistantBlock =
  ab_Text :: "bytes option"
  ab_Thinking :: "ThinkingPart option"
  ab_ToolCall :: "ToolCall option"

record ToolResult =
  tr_ToolCallID :: bytes
  tr_ToolName :: bytes
  tr_Parts :: "ContentPart list"
  tr_IsError :: bool

record Message =
  m_User :: "UserContent option"
  m_Assistant :: "AssistantContent option"
  m_ToolResult :: "ToolResult option"

record Tool =
  t_Name :: bytes
  t_Description :: bytes
  t_Parameters :: bytes

text \<open>The two struct literals the sources build messages with.\<close>

definition result_message :: "ToolResult \<Rightarrow> Message" where
  "result_message r = \<lparr>m_User = None, m_Assistant = None, m_ToolResult = Some r\<rparr>"

definition assistant_message :: "AssistantContent \<Rightarrow> Message" where
  "assistant_message a = \<lparr>m_User = None, m_Assistant = Some a, m_ToolResult = None\<rparr>"

definition shouldSkipAssistant :: "Message \<Rightarrow> bool" where
  "shouldSkipAssistant msg =
     (case m_Assistant msg of
        None \<Rightarrow> False
      | Some a \<Rightarrow> ac_StopReason a = StopAborted \<or> ac_StopReason a = StopError)"

definition collectToolCallIDs :: "Message list \<Rightarrow> bytes set" where
  "collectToolCallIDs messages =
     foldl (\<lambda>ids msg.
       case m_Assistant msg of
         None \<Rightarrow> ids
       | Some a \<Rightarrow>
           foldl (\<lambda>ids part. case cp_ToolCall part of None \<Rightarrow> ids | Some call \<Rightarrow> insert (tc_ID call) ids)
             ids (ac_Parts a)) {} messages"

definition isOrphanedToolResult :: "Message \<Rightarrow> bytes set \<Rightarrow> bool" where
  "isOrphanedToolResult msg ids =
     (if ids = {} then False
      else case m_ToolResult msg of
        None \<Rightarrow> False
      | Some r \<Rightarrow> if tr_ToolCallID r \<noteq> [] then tr_ToolCallID r \<notin> ids else False)"

definition hasVisibleText :: "bytes \<Rightarrow> bool" where
  "hasVisibleText s \<longleftrightarrow> s \<noteq> [] \<and> (\<exists>c \<in> set s. c \<notin> {SP, CHR 0x09, CR, LF})"

definition partIsVisibleText :: "ContentPart \<Rightarrow> bool" where
  "partIsVisibleText part = (case cp_Text part of None \<Rightarrow> False | Some t \<Rightarrow> hasVisibleText t)"

definition partIsVisibleThinking :: "ContentPart \<Rightarrow> bool" where
  "partIsVisibleThinking part =
     (case cp_Thinking part of None \<Rightarrow> False | Some t \<Rightarrow> hasVisibleText (tp_Thinking t))"

section \<open>Events\<close>

datatype EventKind =
    EventStart | EventTextStart | EventTextDelta | EventTextEnd
  | EventThinkingStart | EventThinkingDelta | EventThinkingEnd
  | EventToolCallStart | EventToolCallDelta | EventToolCallEnd
  | EventDone | EventError | EventKeepalive

record Cost =
  c_Input :: float64
  c_Output :: float64
  c_CacheRead :: float64
  c_CacheWrite :: float64
  c_Total :: float64

record Usage =
  u_InputTokens :: int
  u_OutputTokens :: int
  u_TotalTokens :: int
  u_CacheReadTokens :: int
  u_CacheWriteTokens :: int
  u_Cost :: Cost

definition Cost_zero :: "float_unit \<Rightarrow> Cost" where
  "Cost_zero fu = \<lparr>c_Input = fu_zero fu, c_Output = fu_zero fu, c_CacheRead = fu_zero fu,
     c_CacheWrite = fu_zero fu, c_Total = fu_zero fu\<rparr>"

definition Usage_zero :: "float_unit \<Rightarrow> Usage" where
  "Usage_zero fu = \<lparr>u_InputTokens = 0, u_OutputTokens = 0, u_TotalTokens = 0, u_CacheReadTokens = 0,
     u_CacheWriteTokens = 0, u_Cost = Cost_zero fu\<rparr>"

record Model =
  md_ID :: bytes
  md_API :: bytes
  md_Provider :: bytes
  md_BaseURL :: bytes
  md_HasBaseURL :: bool
  md_Cost :: Cost

definition IsOpenRouterAnthropic :: "Model \<Rightarrow> bool" where
  "IsOpenRouterAnthropic model =
     (if \<not> md_HasBaseURL model \<or> md_BaseURL model = [] then False
      else if \<not> contains_sub (md_BaseURL model) ''openrouter'' then False
      else has_prefix (md_ID model) ''anthropic/'')"

definition IsKimiModel :: "Model \<Rightarrow> bool" where
  "IsKimiModel model \<longleftrightarrow> md_Provider model = ''kimi''"

record PartialMessage =
  pm_Content :: "AssistantBlock list"
  pm_API :: bytes
  pm_Provider :: bytes
  pm_Model :: bytes
  pm_Usage :: Usage
  pm_StopReason :: bytes
  pm_Timestamp :: int

text \<open>An \<^verbatim>\<open>AssistantMessage\<close> has the fields of a \<^verbatim>\<open>PartialMessage\<close>.\<close>

type_synonym AssistantMessage = PartialMessage

record Event =
  ev_Kind :: EventKind
  ev_ContentIndex :: nat
  ev_Delta :: bytes
  ev_ID :: bytes
  ev_Name :: bytes
  ev_ToolCall :: "ToolCall option"
  ev_Partial :: "PartialMessage option"
  ev_Reason :: bytes
  ev_Message :: "AssistantMessage option"

text \<open>An event of a kind and index, the other fields zero.\<close>

definition event :: "EventKind \<Rightarrow> nat \<Rightarrow> Event" where
  "event kind index = \<lparr>ev_Kind = kind, ev_ContentIndex = index, ev_Delta = [], ev_ID = [], ev_Name = [],
     ev_ToolCall = None, ev_Partial = None, ev_Reason = [], ev_Message = None\<rparr>"

record EventSink =
  sk_events :: "Event list"
  sk_err :: bytes
  sk_done :: bool

definition EventSink_new :: EventSink where
  "EventSink_new = \<lparr>sk_events = [], sk_err = [], sk_done = False\<rparr>"

definition emit :: "EventSink \<Rightarrow> Event \<Rightarrow> EventSink" where
  "emit s e = s\<lparr>sk_events := sk_events s @ [e]\<rparr>"

definition Drain :: "EventSink \<Rightarrow> Event list \<times> EventSink" where
  "Drain s = (sk_events s, s\<lparr>sk_events := []\<rparr>)"

definition sink_fail :: "EventSink \<Rightarrow> bytes \<Rightarrow> EventSink" where
  "sink_fail s reason =
     emit (s\<lparr>sk_err := reason, sk_done := True\<rparr>) ((event EventError 0)\<lparr>ev_Reason := reason\<rparr>)"

declare emit_def [stream_simps] sink_fail_def [stream_simps] event_def [stream_simps]

section \<open>The tracker of tool calls\<close>

record trackedCall =
  k_apiIndex :: int
  k_contentIndex :: nat
  k_id :: bytes
  k_name :: bytes
  k_arguments :: bytes
  k_signature :: bytes
  k_hasSignature :: bool

type_synonym toolTracker = "int \<rightharpoonup> trackedCall"

definition startCall :: "toolTracker \<Rightarrow> int \<Rightarrow> nat \<Rightarrow> bytes \<Rightarrow> bytes \<Rightarrow> toolTracker" where
  "startCall t apiIndex contentIndex i name =
     t(apiIndex \<mapsto> \<lparr>k_apiIndex = apiIndex, k_contentIndex = contentIndex, k_id = i, k_name = name,
                     k_arguments = [], k_signature = [], k_hasSignature = False\<rparr>)"

definition appendDelta :: "toolTracker \<Rightarrow> int \<Rightarrow> bytes \<Rightarrow> bool \<times> toolTracker" where
  "appendDelta t apiIndex delta =
     (case t apiIndex of
        None \<Rightarrow> (False, t)
      | Some call \<Rightarrow> (True, t(apiIndex \<mapsto> call\<lparr>k_arguments := k_arguments call @ delta\<rparr>)))"

definition contentIndex :: "toolTracker \<Rightarrow> int \<Rightarrow> nat option" where
  "contentIndex t apiIndex = map_option k_contentIndex (t apiIndex)"

definition setSignatureByID :: "toolTracker \<Rightarrow> bytes \<Rightarrow> bytes \<Rightarrow> toolTracker" where
  "setSignatureByID t i signature =
     (\<lambda>api. map_option (\<lambda>call. if k_id call = i then call\<lparr>k_signature := signature, k_hasSignature := True\<rparr>
                               else call) (t api))"

definition completeCall :: "toolTracker \<Rightarrow> int \<Rightarrow> ToolCall option" where
  "completeCall t apiIndex =
     map_option (\<lambda>call. \<lparr>tc_ID = k_id call, tc_Name = k_name call, tc_Arguments = k_arguments call,
                         tc_ThoughtSig = k_signature call, tc_HasThought = k_hasSignature call\<rparr>) (t apiIndex)"

section \<open>The protocol of the events\<close>

text \<open>What a consumer that only listens to the events knows: the blocks that have ended, and
  the one that is open, with what its deltas add up to.\<close>

datatype part_kind = KText | KThinking | KToolCall

datatype seen_block = SeenText bytes | SeenThinking bytes | SeenCall bytes bytes bytes

datatype seen_open = SeenOpen part_kind nat bytes bytes bytes

record seen =
  sn_blocks :: "seen_block list"
  sn_open :: "seen_open option"

definition start_of :: "EventKind \<Rightarrow> part_kind option" where
  "start_of k = (case k of EventTextStart \<Rightarrow> Some KText | EventThinkingStart \<Rightarrow> Some KThinking
     | EventToolCallStart \<Rightarrow> Some KToolCall | _ \<Rightarrow> None)"

definition delta_of :: "EventKind \<Rightarrow> part_kind option" where
  "delta_of k = (case k of EventTextDelta \<Rightarrow> Some KText | EventThinkingDelta \<Rightarrow> Some KThinking
     | EventToolCallDelta \<Rightarrow> Some KToolCall | _ \<Rightarrow> None)"

definition end_of :: "EventKind \<Rightarrow> part_kind option" where
  "end_of k = (case k of EventTextEnd \<Rightarrow> Some KText | EventThinkingEnd \<Rightarrow> Some KThinking
     | EventToolCallEnd \<Rightarrow> Some KToolCall | _ \<Rightarrow> None)"

text \<open>What an end event says of the block that ends.\<close>

definition ended_block :: "Event \<Rightarrow> seen_block option" where
  "ended_block e =
     (case ev_Kind e of
        EventTextEnd \<Rightarrow> Some (SeenText (ev_Delta e))
      | EventThinkingEnd \<Rightarrow> Some (SeenThinking (ev_Delta e))
      | EventToolCallEnd \<Rightarrow>
          map_option (\<lambda>c. SeenCall (tc_ID c) (tc_Name c) (tc_Arguments c)) (ev_ToolCall e)
      | _ \<Rightarrow> None)"

fun seen_value :: "seen_open \<Rightarrow> seen_block" where
  "seen_value (SeenOpen KText i ident name acc) = SeenText acc"
| "seen_value (SeenOpen KThinking i ident name acc) = SeenThinking acc"
| "seen_value (SeenOpen KToolCall i ident name acc) = SeenCall ident name acc"

text \<open>One event: a block starts at the next index when none is open, a delta and an end belong
  to the open block, and the end repeats what the deltas added up to.  Anything else is a
  violation.\<close>

definition see :: "seen \<Rightarrow> Event \<Rightarrow> seen option" where
  "see sn e =
     (if ev_Kind e = EventKeepalive then Some sn
      else case (start_of (ev_Kind e), delta_of (ev_Kind e), end_of (ev_Kind e), sn_open sn) of
        (Some k, _, _, None) \<Rightarrow>
          if ev_ContentIndex e = length (sn_blocks sn)
          then Some (sn\<lparr>sn_open := Some (SeenOpen k (ev_ContentIndex e) (ev_ID e) (ev_Name e) [])\<rparr>)
          else None
      | (_, Some k, _, Some (SeenOpen k' i ident name acc)) \<Rightarrow>
          if k = k' \<and> ev_ContentIndex e = i
          then Some (sn\<lparr>sn_open := Some (SeenOpen k' i ident name (acc @ ev_Delta e))\<rparr>) else None
      | (_, _, Some k, Some (SeenOpen k' i ident name acc)) \<Rightarrow>
          if k = k' \<and> ev_ContentIndex e = i \<and>
             ended_block e = Some (seen_value (SeenOpen k' i ident name acc))
          then Some \<lparr>sn_blocks = sn_blocks sn @ [seen_value (SeenOpen k' i ident name acc)], sn_open = None\<rparr>
          else None
      | _ \<Rightarrow> None)"

fun see_all :: "seen \<Rightarrow> Event list \<Rightarrow> seen option" where
  "see_all sn [] = Some sn"
| "see_all sn (e # es) = (case see sn e of None \<Rightarrow> None | Some sn' \<Rightarrow> see_all sn' es)"

text \<open>What a block of a message is to a consumer of the events: its text, or its call.\<close>

definition block_value :: "AssistantBlock \<Rightarrow> seen_block option" where
  "block_value b =
     (case (ab_Text b, ab_Thinking b, ab_ToolCall b) of
        (Some t, _, _) \<Rightarrow> Some (SeenText t)
      | (None, Some t, _) \<Rightarrow> Some (SeenThinking (tp_Thinking t))
      | (None, None, Some c) \<Rightarrow> Some (SeenCall (tc_ID c) (tc_Name c) (tc_Arguments c))
      | _ \<Rightarrow> None)"

lemma see_all_append:
  "see_all sn (xs @ ys) = (case see_all sn xs of None \<Rightarrow> None | Some sn' \<Rightarrow> see_all sn' ys)"
  by (induction xs arbitrary: sn) (auto split: option.split)

lemmas kind_defs = start_of_def delta_of_def end_of_def

end
