(* ===== verification/Go_Codec.thy ===== *)
theory Go_Codec
  imports Oap_Prelude
begin

text \<open>
  The encodings of Go's standard library that the sources call, written out so that round
  trips can be proved and evaluated: decimal integers (\<^verbatim>\<open>strconv.FormatInt\<close>,
  \<^verbatim>\<open>strconv.ParseInt\<close> at base 10 and 64 bits, \<^verbatim>\<open>%d\<close>), the unpadded URL alphabet of
  \<^verbatim>\<open>encoding/base64\<close>, the CRC-32 of \<^verbatim>\<open>hash/crc32\<close> and the \<^verbatim>\<open>%08x\<close> verb.
\<close>

unbundle bit_operations_syntax

section \<open>Decimal\<close>

definition digit_char :: "nat \<Rightarrow> char" where
  "digit_char d = char_of (48 + d)"

fun dec_nat :: "nat \<Rightarrow> bytes" where
  "dec_nat n = (if n < 10 then [digit_char n] else dec_nat (n div 10) @ [digit_char (n mod 10)])"

declare dec_nat.simps [simp del]

definition FormatInt :: "int \<Rightarrow> bytes" where
  "FormatInt i = (if i < 0 then CHR ''-'' # dec_nat (nat (- i)) else dec_nat (nat i))"

definition is_digit :: "char \<Rightarrow> bool" where
  "is_digit c \<longleftrightarrow> 48 \<le> (of_char c :: nat) \<and> (of_char c :: nat) \<le> 57"

definition digits_value :: "bytes \<Rightarrow> nat" where
  "digits_value s = foldl (\<lambda>acc c. acc * 10 + (of_char c - 48)) 0 s"

text \<open>\<^verbatim>\<open>ParseInt(s, 10, 64)\<close>: an optional sign, at least one digit, nothing else, and a
  value of the int64 range; every failure is \<^const>\<open>None\<close>.\<close>

definition ParseInt :: "bytes \<Rightarrow> int option" where
  "ParseInt s =
     (let neg = (s \<noteq> [] \<and> hd s = CHR ''-'');
          ds = (if s \<noteq> [] \<and> (hd s = CHR ''-'' \<or> hd s = CHR ''+'') then tl s else s);
          v = int (digits_value ds)
      in if ds = [] \<or> \<not> list_all is_digit ds then None
         else if neg then (if v \<le> 2 ^ 63 then Some (- v) else None)
         else (if v < 2 ^ 63 then Some v else None))"

definition int64_range :: "int \<Rightarrow> bool" where
  "int64_range i \<longleftrightarrow> - (2 ^ 63) \<le> i \<and> i < 2 ^ 63"

lemma of_digit_char: "d < 10 \<Longrightarrow> (of_char (digit_char d) :: nat) = 48 + d"
  by (simp add: digit_char_def)

lemma is_digit_digit_char: "d < 10 \<Longrightarrow> is_digit (digit_char d)"
  by (simp add: is_digit_def of_digit_char)

lemma dec_nat_nonempty [simp]: "dec_nat n \<noteq> []"
  by (subst dec_nat.simps) simp

lemma dec_nat_digits: "list_all is_digit (dec_nat n)"
proof (induction n rule: dec_nat.induct)
  case (1 n)
  then show ?case
    by (cases "n < 10") (simp_all add: dec_nat.simps [of n] is_digit_digit_char)
qed

lemma digits_value_snoc: "digits_value (s @ [c]) = digits_value s * 10 + (of_char c - 48)"
  by (simp add: digits_value_def)

lemma digits_value_dec_nat: "digits_value (dec_nat n) = n"
proof (induction n rule: dec_nat.induct)
  case (1 n)
  show ?case
  proof (cases "n < 10")
    case True
    then show ?thesis by (simp add: dec_nat.simps [of n] digits_value_def of_digit_char)
  next
    case False
    with 1 have "digits_value (dec_nat (n div 10)) = n div 10" by simp
    with False show ?thesis
      by (simp add: dec_nat.simps [of n] digits_value_snoc of_digit_char)
  qed
qed

lemma is_digit_not: "is_digit c \<Longrightarrow>
    c \<noteq> CHR '':'' \<and> c \<noteq> CHR ''-'' \<and> c \<noteq> CHR ''+'' \<and> c \<noteq> LF \<and> c \<noteq> CR \<and> c \<noteq> NUL \<and> c \<noteq> SP"
  by (auto simp: is_digit_def)

lemma dec_nat_hd: "is_digit (hd (dec_nat n))"
  using dec_nat_digits [of n] by (cases "dec_nat n") auto

lemma dec_nat_notin:
  "c \<in> {CHR '':'', CHR ''-'', CHR ''+'', LF, CR, NUL, SP} \<Longrightarrow> c \<notin> set (dec_nat n)"
  using dec_nat_digits [of n] is_digit_not [of c] by (auto simp: list_all_iff)

lemma ParseInt_FormatInt: "int64_range i \<Longrightarrow> ParseInt (FormatInt i) = Some i"
  using dec_nat_hd [of "nat i"] is_digit_not [of "hd (dec_nat (nat i))"]
  by (auto simp: ParseInt_def FormatInt_def Let_def dec_nat_digits digits_value_dec_nat
      int64_range_def)

lemma FormatInt_no_colon: "CHR '':'' \<notin> set (FormatInt i)"
  by (auto simp: FormatInt_def dec_nat_notin)

text \<open>\<^verbatim>\<open>ParseUint(s, 10, 64)\<close>\<close>

definition ParseUint :: "bytes \<Rightarrow> nat option" where
  "ParseUint s =
     (if s = [] \<or> \<not> list_all is_digit s \<or> digits_value s \<ge> 2 ^ 64 then None
      else Some (digits_value s))"

lemma ParseUint_dec_nat: "n < 2 ^ 64 \<Longrightarrow> ParseUint (dec_nat n) = Some n"
  by (simp add: ParseUint_def dec_nat_digits digits_value_dec_nat)

section \<open>Base64, URL alphabet without padding\<close>

definition b64_char :: "nat \<Rightarrow> char" where
  "b64_char v =
     (if v < 26 then char_of (65 + v)
      else if v < 52 then char_of (97 + (v - 26))
      else if v < 62 then char_of (48 + (v - 52))
      else if v = 62 then CHR ''-'' else CHR ''_'')"

definition b64_value :: "char \<Rightarrow> nat option" where
  "b64_value c =
     (let n = (of_char c :: nat) in
      if 65 \<le> n \<and> n \<le> 90 then Some (n - 65)
      else if 97 \<le> n \<and> n \<le> 122 then Some (n - 97 + 26)
      else if 48 \<le> n \<and> n \<le> 57 then Some (n - 48 + 52)
      else if c = CHR ''-'' then Some 62
      else if c = CHR ''_'' then Some 63
      else None)"

fun b64_encode_nats :: "nat list \<Rightarrow> nat list" where
  "b64_encode_nats [] = []"
| "b64_encode_nats [a] = [a div 4, (a mod 4) * 16]"
| "b64_encode_nats [a, b] = [a div 4, (a mod 4) * 16 + b div 16, (b mod 16) * 4]"
| "b64_encode_nats (a # b # c # rest) =
     [a div 4, (a mod 4) * 16 + b div 16, (b mod 16) * 4 + c div 64, c mod 64] @
     b64_encode_nats rest"

text \<open>The decoder is not strict: the spare low bits of a final group of two or three
  characters are dropped, and a final group of one is refused.\<close>

fun b64_decode_nats :: "nat list \<Rightarrow> nat list option" where
  "b64_decode_nats [] = Some []"
| "b64_decode_nats [p] = None"
| "b64_decode_nats [p, q] = Some [p * 4 + q div 16]"
| "b64_decode_nats [p, q, r] = Some [p * 4 + q div 16, (q mod 16) * 16 + r div 4]"
| "b64_decode_nats (p # q # r # s # rest) =
     map_option (\<lambda>bs. [p * 4 + q div 16, (q mod 16) * 16 + r div 4, (r mod 4) * 64 + s] @ bs)
       (b64_decode_nats rest)"

definition base64_EncodeToString :: "bytes \<Rightarrow> bytes" where
  "base64_EncodeToString s = map b64_char (b64_encode_nats (map of_char s))"

text \<open>\<^verbatim>\<open>DecodeString\<close> skips CR and LF, and fails at any other byte outside the alphabet.\<close>

definition base64_DecodeString :: "bytes \<Rightarrow> bytes option" where
  "base64_DecodeString s =
     (let vs = map b64_value (filter (\<lambda>c. c \<noteq> CR \<and> c \<noteq> LF) s) in
      if None \<in> set vs then None
      else map_option (map char_of) (b64_decode_nats (map the vs)))"

lemma b64_value_char: "v < 64 \<Longrightarrow> b64_value (b64_char v) = Some v"
  by (auto simp: b64_value_def b64_char_def Let_def)

lemma b64_char_not_newline: "v < 64 \<Longrightarrow> b64_char v \<noteq> CR \<and> b64_char v \<noteq> LF"
  using b64_value_char [of v] by (auto simp: b64_value_def)

lemma b64_encode_bound: "\<forall>a \<in> set xs. a < 256 \<Longrightarrow> \<forall>v \<in> set (b64_encode_nats xs). v < 64"
  by (induction xs rule: b64_encode_nats.induct) auto

lemma b64_decode_encode_nats:
  "\<forall>a \<in> set xs. a < 256 \<Longrightarrow> b64_decode_nats (b64_encode_nats xs) = Some xs"
  by (induction xs rule: b64_encode_nats.induct) auto

lemma of_char_less_256: "(of_char c :: nat) < 256"
  by simp

lemma base64_roundtrip: "base64_DecodeString (base64_EncodeToString s) = Some s"
proof -
  let ?vs = "b64_encode_nats (map of_char s)"
  have small: "\<forall>v \<in> set ?vs. v < 64" by (rule b64_encode_bound) simp
  then have keep: "filter (\<lambda>c. c \<noteq> CR \<and> c \<noteq> LF) (map b64_char ?vs) = map b64_char ?vs"
    using b64_char_not_newline by (simp add: filter_id_conv)
  from small have vals: "map b64_value (map b64_char ?vs) = map Some ?vs"
    by (simp add: b64_value_char)
  have "b64_decode_nats ?vs = Some (map of_char s)"
    by (rule b64_decode_encode_nats) simp
  moreover have "map the (map Some ?vs) = ?vs" by (simp add: comp_def)
  moreover have "map char_of (map of_char s :: nat list) = s" by (simp add: comp_def)
  ultimately show ?thesis
    by (simp add: base64_DecodeString_def base64_EncodeToString_def Let_def keep vals
        del: map_map)
qed

lemma base64_nonempty: "s \<noteq> [] \<Longrightarrow> base64_EncodeToString s \<noteq> []"
  by (cases "map of_char s :: nat list" rule: b64_encode_nats.cases)
    (auto simp: base64_EncodeToString_def)

section \<open>CRC-32 and hexadecimal\<close>

definition crc32_bit :: "32 word \<Rightarrow> 32 word" where
  "crc32_bit c = (if c AND 1 = 1 then drop_bit 1 c XOR 0xEDB88320 else drop_bit 1 c)"

definition crc32_byte :: "32 word \<Rightarrow> byte \<Rightarrow> 32 word" where
  "crc32_byte c b = (crc32_bit ^^ 8) (c XOR of_nat (of_char b))"

definition crc32_ChecksumIEEE :: "bytes \<Rightarrow> 32 word" where
  "crc32_ChecksumIEEE s = NOT (foldl crc32_byte (NOT 0) s)"

definition hex_digit :: "nat \<Rightarrow> char" where
  "hex_digit d = (if d < 10 then char_of (48 + d) else char_of (87 + d))"

text \<open>The \<^verbatim>\<open>%08x\<close> verb on a 32-bit value: eight lower-case digits, leading zeros kept.\<close>

definition hex8 :: "32 word \<Rightarrow> bytes" where
  "hex8 w = map (\<lambda>i. hex_digit (unat (take_bit 4 (drop_bit (4 * i) w)))) [7, 6, 5, 4, 3, 2, 1, 0]"

lemma hex_digit_plain: "d < 16 \<Longrightarrow> hex_digit d \<noteq> SP \<and> hex_digit d \<noteq> LF \<and> hex_digit d \<noteq> CR"
proof -
  assume d: "d < 16"
  then have "(of_char (hex_digit d) :: nat) = (if d < 10 then 48 + d else 87 + d)"
    by (simp add: hex_digit_def)
  with d show ?thesis by (auto split: if_splits)
qed

lemma hex8_plain: "SP \<notin> set (hex8 w)" "LF \<notin> set (hex8 w)" "CR \<notin> set (hex8 w)"
proof -
  have "unat (take_bit 4 v) < 16" for v :: "32 word"
    by (simp only: unsigned_take_bit_eq) (simp add: take_bit_eq_mod)
  then have "hex_digit (unat (take_bit 4 v)) \<noteq> c" if "c \<in> {SP, LF, CR}" for v :: "32 word" and c
    using hex_digit_plain [of "unat (take_bit 4 v)"] that by auto
  then show "SP \<notin> set (hex8 w)" "LF \<notin> set (hex8 w)" "CR \<notin> set (hex8 w)"
    unfolding hex8_def set_map image_iff by (metis insertCI)+
qed

lemma hex8_length [simp]: "length (hex8 w) = 8"
  by (simp add: hex8_def)

end
