(* ===== verification/Agent_Classify.thy ===== *)
theory Agent_Classify
  imports Go_Codec
begin

text \<open>
  \<^verbatim>\<open>go/internal/agent/classify.go\<close>: which refusals of a provider are worth another attempt.
  The two regular expressions are written out as matchers (leftmost match, greedy digits, a dot
  that stops at a line feed).  \<^verbatim>\<open>strings.ToLower\<close> over Unicode is the parameter \<open>lower\<close>.
\<close>

datatype errorClass = errorFatal | errorTransient | errorThrottled | errorContextOverflow

section \<open>The regular expressions\<close>

text \<open>\<^verbatim>\<open>.*\(no body\)\<close> at the head of a text.\<close>

fun no_body_tail :: "bytes \<Rightarrow> bool" where
  "no_body_tail [] = False"
| "no_body_tail (c # s) = (has_prefix (c # s) ''(no body)'' \<or> (c \<noteq> LF \<and> no_body_tail s))"

fun statusWithoutBody :: "bytes \<Rightarrow> bool" where
  "statusWithoutBody [] = False"
| "statusWithoutBody (c # s) =
     ((has_prefix (c # s) ''400'' \<or> has_prefix (c # s) ''413'') \<and> no_body_tail (drop 3 (c # s)) \<or>
      statusWithoutBody s)"

text \<open>\<^verbatim>\<open>HTTP (\d+)\<close>: the digits of the leftmost match.\<close>

fun httpStatus :: "bytes \<Rightarrow> bytes option" where
  "httpStatus [] = None"
| "httpStatus (c # s) =
     (if has_prefix (c # s) ''HTTP '' \<and> takeWhile is_digit (drop 5 (c # s)) \<noteq> []
      then Some (takeWhile is_digit (drop 5 (c # s))) else httpStatus s)"

text \<open>\<^verbatim>\<open>strconv.Atoi\<close> on digits, its error ignored: out of range it gives the largest int.\<close>

definition status_of :: "bytes \<Rightarrow> nat" where
  "status_of digits = min (digits_value digits) (2 ^ 63 - 1)"

section \<open>The classes\<close>

definition overflowTexts :: "bytes list" where
  "overflowTexts =
     [''prompt is too long'', ''input is too long for requested model'', ''exceeds the context window'',
      ''maximum prompt length is'', ''reduce the length of the messages'', ''maximum context length is'',
      ''exceeds the limit of'', ''exceeds the available context size'', ''greater than the context length'',
      ''context window exceeds limit'', ''exceeded model token limit'', ''constrlength_exceeded'',
      ''context length exceeded'', ''too many tokens'', ''token limit exceeded'']"

definition throttledTexts :: "bytes list" where
  "throttledTexts = [''rate limit'', ''ratelimit'', ''too many requests'', ''resource exhausted'']"

definition transientTexts :: "bytes list" where
  "transientTexts =
     [''overloaded'', ''service unavailable'', ''temporarily unavailable'', ''try again'', ''retry later'',
      ''other side closed'', ''read error'', ''read failed'', ''receive failed'', ''timed out'',
      ''connection reset'', ''unexpected eof'']"

fun containsAny :: "bytes \<Rightarrow> bytes list \<Rightarrow> bool" where
  "containsAny str [] = False"
| "containsAny str (needle # needles) = (contains_sub str needle \<or> containsAny str needles)"

definition overflows :: "bytes \<Rightarrow> bool" where
  "overflows str \<longleftrightarrow>
     containsAny str overflowTexts \<or> statusWithoutBody str \<or>
     contains_sub str ''input token count'' \<and> contains_sub str ''exceeds the maximum''"

definition classify :: "(bytes \<Rightarrow> bytes) \<Rightarrow> bytes \<Rightarrow> errorClass" where
  "classify lower reason =
     (let str = lower reason in
      if overflows str then errorContextOverflow
      else case httpStatus reason of
        Some digits \<Rightarrow>
          let status = status_of digits in
          if status = 429 then errorThrottled
          else if status \<in> {500, 502, 503, 504} then errorTransient
          else errorFatal
      | None \<Rightarrow>
          if containsAny str throttledTexts then errorThrottled
          else if containsAny str transientTexts then errorTransient
          else errorFatal)"

definition retryable :: "(bytes \<Rightarrow> bytes) \<Rightarrow> bytes \<Rightarrow> bool" where
  "retryable lower reason =
     (let cls = classify lower reason in cls = errorTransient \<or> cls = errorThrottled)"

section \<open>Properties\<close>

lemma httpStatus_skip: "CHR ''H'' \<notin> set pre \<Longrightarrow> httpStatus (pre @ s) = httpStatus s"
  by (induction pre) auto

lemma takeWhile_digits:
  "list_all is_digit ds \<Longrightarrow> (rest = [] \<or> \<not> is_digit (hd rest)) \<Longrightarrow> takeWhile is_digit (ds @ rest) = ds"
  by (induction ds) (cases rest, auto)

lemma httpStatus_hit:
  assumes "list_all is_digit ds" "ds \<noteq> []" "rest = [] \<or> \<not> is_digit (hd rest)"
  shows "httpStatus (''HTTP '' @ ds @ rest) = Some ds"
  using takeWhile_digits [OF assms(1,3)] assms(2) by simp

text \<open>A status decides: when a refusal that says nothing of the context window quotes an HTTP
  status, as \<^verbatim>\<open>HTTP 503\<close> does, it is retried exactly for 429, 500, 502, 503 and 504, whatever
  else its text says.\<close>

lemma status_decides_retry:
  assumes "CHR ''H'' \<notin> set pre" and "rest = [] \<or> \<not> is_digit (hd rest)"
    and "\<not> overflows (lower (pre @ ''HTTP '' @ dec_nat n @ rest))"
  shows "retryable lower (pre @ ''HTTP '' @ dec_nat n @ rest) \<longleftrightarrow> n \<in> {429, 500, 502, 503, 504}"
proof -
  have "httpStatus (pre @ ''HTTP '' @ dec_nat n @ rest) = Some (dec_nat n)"
    using httpStatus_skip [OF assms(1)] httpStatus_hit [OF dec_nat_digits dec_nat_nonempty assms(2)] by metis
  with assms(3) show ?thesis
    by (auto simp: retryable_def classify_def status_of_def digits_value_dec_nat Let_def)
qed

text \<open>\<^verbatim>\<open>strings.ToLower\<close> on ASCII.\<close>

definition ascii_lower :: "bytes \<Rightarrow> bytes" where
  "ascii_lower = map (\<lambda>c. if 65 \<le> (of_char c :: nat) \<and> (of_char c :: nat) \<le> 90 then char_of (of_char c + 32 :: nat) else c)"

end
