(* ===== verification/Agent_Loop.thy ===== *)
theory Agent_Loop
  imports Provider_Types Agent_Classify
begin

text \<open>
  \<^verbatim>\<open>go/internal/agent/run.go\<close>, \<^verbatim>\<open>outcome.go\<close> and \<^verbatim>\<open>event.go\<close>: one run of an agent, from the
  prompts through the turns of a model and the calls of its tools to the one event that ends
  it.

  A run is a goroutine that meets others: the consumer of its events, the callers of
  \<^verbatim>\<open>ResolveTool\<close> and \<^verbatim>\<open>Cancel\<close>, the timers, and the streamer.  Each meeting is a reading of
  the record \<open>agent_env\<close> at the run's next tick, and the theorems hold for every record: when
  the context is cancelled, how many events the consumer has taken, what a stream brings and
  whether the watchdog fired, which results are posted while a call waits, which of two ready
  cases a \<^verbatim>\<open>select\<close> takes, whether a retry timer fires.  A context that is cancelled stays
  cancelled: the run keeps the flag.  \<^verbatim>\<open>rn_requests\<close> and \<^verbatim>\<open>rn_waits\<close> record the calls of the
  streamer and the retry delays; no definition reads them.  \<^verbatim>\<open>strconv.Quote\<close> and
  \<^verbatim>\<open>strings.ToLower\<close> are parameters.
\<close>

section \<open>Events and outcomes\<close>

datatype AgentEventKind =
    AgentStart | TurnStart | TextDelta | ReasoningDelta | MessageStart | MessageEnd
  | ToolCallRequested | ToolCallResolved | ToolCallCancelled | TurnEnd | AgentEnd | RunFailed

datatype Termination = TerminationClean | TerminationMaxTurns | TerminationCanceled

record Result =
  rs_Messages :: "Message list"
  rs_FinalMessage :: AssistantContent
  rs_Turns :: nat
  rs_Termination :: Termination

definition AssistantContent_zero :: AssistantContent where
  "AssistantContent_zero = \<lparr>ac_Parts = [], ac_StopReason = [], ac_API = [], ac_Provider = [], ac_Model = []\<rparr>"

definition Result_zero :: Result where
  "Result_zero = \<lparr>rs_Messages = [], rs_FinalMessage = AssistantContent_zero, rs_Turns = 0,
     rs_Termination = TerminationClean\<rparr>"

record AgentEvent =
  av_Kind :: AgentEventKind
  av_Delta :: bytes
  av_Reason :: bytes
  av_Termination :: Termination
  av_Message :: "Message option"
  av_Assistant :: "AssistantContent option"
  av_Call :: "ToolCall option"
  av_ToolResult :: "ToolResult option"
  av_Result :: Result

definition agent_event :: "AgentEventKind \<Rightarrow> AgentEvent" where
  "agent_event kind = \<lparr>av_Kind = kind, av_Delta = [], av_Reason = [], av_Termination = TerminationClean,
     av_Message = None, av_Assistant = None, av_Call = None, av_ToolResult = None, av_Result = Result_zero\<rparr>"

definition IsTerminal :: "AgentEvent \<Rightarrow> bool" where
  "IsTerminal e \<longleftrightarrow> av_Kind e = AgentEnd \<or> av_Kind e = RunFailed"

definition MaxCutOffToolTurns :: nat where "MaxCutOffToolTurns = 3"

datatype Outcome = OutcomeFailed | OutcomeAnswered | OutcomeCalledTools

definition calls_of :: "AssistantContent \<Rightarrow> ToolCall list" where
  "calls_of a = List.map_filter cp_ToolCall (ac_Parts a)"

definition TurnOutcome :: "AssistantContent \<Rightarrow> nat \<Rightarrow> Outcome" where
  "TurnOutcome assistant cutOffToolTurns =
     (if ac_StopReason assistant = StopError \<or> ac_StopReason assistant = StopAborted then OutcomeFailed
      else if ac_StopReason assistant = StopContentFilter then OutcomeAnswered
      else if ac_StopReason assistant = StopLength \<and> cutOffToolTurns \<ge> MaxCutOffToolTurns then OutcomeAnswered
      else if list_ex (\<lambda>part. cp_ToolCall part \<noteq> None) (ac_Parts assistant) then OutcomeCalledTools
      else OutcomeAnswered)"

section \<open>The run\<close>

definition eventBuffer :: nat where "eventBuffer = 64"
definition maxTurnRetries :: nat where "maxTurnRetries = 2"
definition defaultRetryDelay :: int where "defaultRetryDelay = 1000000000"

definition firstByteFailure :: bytes where
  "firstByteFailure = ''the provider timed out before the first byte''"
definition idleFailure :: bytes where "idleFailure = ''the provider stream timed out''"
definition providerCancelled :: bytes where "providerCancelled = ''request cancelled''"
definition closedWithoutTerminal :: bytes where
  "closedWithoutTerminal = ''the provider stream closed without a terminal event''"

record Config =
  cf_Model :: Model
  cf_HasStreamer :: bool
  cf_MaxIterations :: int
  cf_RetryDelay :: int

record Run =
  rn_config :: Config
  rn_cancelled :: bool
  rn_tick :: nat
  rn_queue :: nat
  rn_events :: "AgentEvent list"
  rn_settled :: bool
  rn_result :: Result
  rn_err :: "bytes option"
  rn_pending :: "bytes \<rightharpoonup> ToolCall"
  rn_waiter :: "ToolResult option"
  rn_requests :: "Message list list"
  rn_waits :: "int list"

text \<open>The world of a run.  \<open>ag_taken\<close>: the events the consumer takes before the look at the
  channel that ends the wait for room.  \<open>ag_stream\<close>: the events of a stream until it closes,
  and whether the watchdog fired.  \<open>ag_resolves\<close>: the calls of \<^verbatim>\<open>ResolveTool\<close> made while a
  call waits.\<close>

record agent_env =
  ag_cancel :: "nat \<Rightarrow> bool"
  ag_taken :: "nat \<Rightarrow> nat"
  ag_stream :: "nat \<Rightarrow> Message list \<Rightarrow> Event list \<times> bool"
  ag_resolves :: "nat \<Rightarrow> (bytes \<times> ToolResult) list"
  ag_done_first :: "nat \<Rightarrow> bool"
  ag_timer :: "nat \<Rightarrow> bool"
  ag_quote :: "bytes \<Rightarrow> bytes"
  ag_lower :: "bytes \<Rightarrow> bytes"

definition Run_new :: "Config \<Rightarrow> Run" where
  "Run_new config = \<lparr>rn_config = config, rn_cancelled = False, rn_tick = 0, rn_queue = 0, rn_events = [],
     rn_settled = False, rn_result = Result_zero, rn_err = None, rn_pending = Map.empty, rn_waiter = None,
     rn_requests = [], rn_waits = []\<rparr>"

definition Cancel :: "Run \<Rightarrow> Run" where
  "Cancel r = r\<lparr>rn_cancelled := True\<rparr>"

abbreviation tick :: "Run \<Rightarrow> Run" where
  "tick r \<equiv> r\<lparr>rn_tick := Suc (rn_tick r)\<rparr>"

text \<open>\<^verbatim>\<open>r.ctx.Err() != nil\<close>.\<close>

definition ctx_err :: "agent_env \<Rightarrow> Run \<Rightarrow> bool \<times> Run" where
  "ctx_err env r =
     (let c = rn_cancelled r \<or> ag_cancel env (rn_tick r) in (c, (tick r)\<lparr>rn_cancelled := c\<rparr>))"

text \<open>A send on the channel, and \<^verbatim>\<open>emit\<close>: a terminal event is sent at once; any other waits
  until fewer than \<^verbatim>\<open>eventBuffer - 1\<close> events are buffered, and is dropped when the context
  is done first.\<close>

definition send :: "Run \<Rightarrow> AgentEvent \<Rightarrow> Run" where
  "send r e = r\<lparr>rn_events := rn_events r @ [e], rn_queue := Suc (rn_queue r)\<rparr>"

definition agent_emit :: "agent_env \<Rightarrow> Run \<Rightarrow> AgentEvent \<Rightarrow> Run" where
  "agent_emit env r e =
     (let r1 = (tick r)\<lparr>rn_queue := rn_queue r - ag_taken env (rn_tick r)\<rparr> in
      if IsTerminal e then send r1 e
      else if rn_queue r1 \<ge> eventBuffer - 1 then Cancel r1
      else send r1 e)"

definition settle :: "agent_env \<Rightarrow> Run \<Rightarrow> Result \<Rightarrow> Run" where
  "settle env r result =
     (if rn_settled r then r
      else agent_emit env (r\<lparr>rn_settled := True, rn_result := result\<rparr>)
             ((agent_event AgentEnd)\<lparr>av_Termination := rs_Termination result,
                av_Assistant := Some (rs_FinalMessage result), av_Result := result\<rparr>))"

definition run_fail :: "agent_env \<Rightarrow> Run \<Rightarrow> bytes \<Rightarrow> Run" where
  "run_fail env r reason =
     (if rn_settled r then r
      else agent_emit env (r\<lparr>rn_settled := True, rn_err := Some (''agent: '' @ reason)\<rparr>)
             ((agent_event RunFailed)\<lparr>av_Reason := reason\<rparr>))"

definition withinLimit :: "Config \<Rightarrow> nat \<Rightarrow> bool" where
  "withinLimit config turns =
     (if cf_MaxIterations config \<le> 0 then True else int turns < cf_MaxIterations config)"

section \<open>Tool calls\<close>

definition errorResult :: "ToolCall \<Rightarrow> bytes \<Rightarrow> ToolResult" where
  "errorResult call reason =
     \<lparr>tr_ToolCallID = tc_ID call, tr_ToolName = tc_Name call, tr_Parts = [text_content reason], tr_IsError = True\<rparr>"

definition cutOffResult :: "agent_env \<Rightarrow> ToolCall \<Rightarrow> ToolResult" where
  "cutOffResult env call = errorResult call (''Tool call '' @ ag_quote env (tc_Name call) @
     '' was not run: the reply hit the output token limit, so its arguments may be cut off. Call the tool again with complete arguments.'')"

definition quotedID :: "agent_env \<Rightarrow> ToolCall \<Rightarrow> bytes" where
  "quotedID env call = (if tc_ID call = [] then ''with no id'' else ag_quote env (tc_ID call))"

definition namelessResult :: "agent_env \<Rightarrow> ToolCall \<Rightarrow> ToolResult" where
  "namelessResult env call = errorResult call (''Tool call '' @ quotedID env call @
     '' was not run: the reply named no tool, so there is nothing to run. Call a tool by name.'')"

definition idlessResult :: "agent_env \<Rightarrow> ToolCall \<Rightarrow> ToolResult" where
  "idlessResult env call = errorResult call (''Tool call '' @ ag_quote env (tc_Name call) @
     '' was not run: the reply gave it no id, so no answer could be matched to it. Call the tool again.'')"

definition cancelledResult :: "agent_env \<Rightarrow> ToolCall \<Rightarrow> ToolResult" where
  "cancelledResult env call = errorResult call (''Tool call '' @ ag_quote env (tc_Name call) @
     '' was not run: the run was cancelled while it waited for a result.'')"

definition ResolveTool :: "agent_env \<Rightarrow> Run \<Rightarrow> bytes \<Rightarrow> ToolResult \<Rightarrow> bytes option \<times> Run" where
  "ResolveTool env r toolCallID result =
     (case rn_pending r toolCallID of
        None \<Rightarrow> (Some (''agent: no tool call '' @ ag_quote env toolCallID @ '' is waiting for a result''), r)
      | Some call \<Rightarrow>
          (None, r\<lparr>rn_pending := (rn_pending r)(toolCallID := None),
                  rn_waiter := Some (result\<lparr>tr_ToolCallID := tc_ID call, tr_ToolName := tc_Name call\<rparr>)\<rparr>))"

definition cancelCall :: "agent_env \<Rightarrow> Run \<Rightarrow> ToolCall \<Rightarrow> ToolResult \<times> Run" where
  "cancelCall env r call =
     (let result = cancelledResult env call in
      (result, agent_emit env r ((agent_event ToolCallCancelled)\<lparr>av_Call := Some call, av_ToolResult := Some result\<rparr>)))"

text \<open>The callers of \<^verbatim>\<open>ResolveTool\<close> while the run waits.\<close>

definition resolve_all :: "agent_env \<Rightarrow> Run \<Rightarrow> (bytes \<times> ToolResult) list \<Rightarrow> Run" where
  "resolve_all env r calls = foldl (\<lambda>r (i, result). snd (ResolveTool env r i result)) r calls"

definition request_call :: "agent_env \<Rightarrow> Run \<Rightarrow> ToolCall \<Rightarrow> Run" where
  "request_call env r call =
     (let r1 = agent_emit env (r\<lparr>rn_waiter := None, rn_pending := (rn_pending r)(tc_ID call \<mapsto> call)\<rparr>)
                 ((agent_event ToolCallRequested)\<lparr>av_Call := Some call\<rparr>)
      in tick (resolve_all env r1 (ag_resolves env (rn_tick r1))))"

definition awaitToolResult :: "agent_env \<Rightarrow> Run \<Rightarrow> ToolCall \<Rightarrow> (ToolResult \<times> bool) \<times> Run" where
  "awaitToolResult env r call =
     (case ctx_err env r of (c, r1) \<Rightarrow>
        if c then ((cancelledResult env call, False), r1)
        else
          let r4 = request_call env r1 call
          in case (rn_waiter r4, ag_done_first env (rn_tick r4)) of
               (Some result, False) \<Rightarrow>
                 (case ctx_err env r4 of (c, r5) \<Rightarrow>
                    if c then (case cancelCall env r5 call of (cancelled, r6) \<Rightarrow> ((cancelled, False), r6))
                    else ((result, True),
                          agent_emit env r5 ((agent_event ToolCallResolved)\<lparr>av_Call := Some call, av_ToolResult := Some result\<rparr>)))
             | _ \<Rightarrow>
                 (case cancelCall env (Cancel (r4\<lparr>rn_pending := (rn_pending r4)(tc_ID call := None)\<rparr>)) call of
                    (cancelled, r6) \<Rightarrow> ((cancelled, False), r6)))"

text \<open>One part of the reply, and the loop over them.\<close>

definition run_call ::
  "agent_env \<Rightarrow> AssistantContent \<Rightarrow> (ToolResult list \<times> bool) \<times> Run \<Rightarrow> ContentPart \<Rightarrow> (ToolResult list \<times> bool) \<times> Run" where
  "run_call env assistant acc part =
     (case acc of ((results, live), r) \<Rightarrow>
        case cp_ToolCall part of
          None \<Rightarrow> acc
        | Some call \<Rightarrow>
            if ac_StopReason assistant = StopLength then ((results @ [cutOffResult env call], live), r)
            else if tc_Name call = [] then ((results @ [namelessResult env call], live), r)
            else if tc_ID call = [] then ((results @ [idlessResult env call], live), r)
            else if \<not> live then ((results @ [cancelledResult env call], live), r)
            else case awaitToolResult env r call of
              ((result, answered), r1) \<Rightarrow> ((results @ [result], answered), r1))"

definition runToolCalls :: "agent_env \<Rightarrow> Run \<Rightarrow> AssistantContent \<Rightarrow> (ToolResult list \<times> bool) \<times> Run" where
  "runToolCalls env r assistant = foldl (run_call env assistant) (([], True), r) (ac_Parts assistant)"

section \<open>Turns\<close>

text \<open>The content a run makes up itself: \<^verbatim>\<open>errorContent\<close>, and the last assistant message or an
  empty one.\<close>

definition content_by :: "Config \<Rightarrow> bytes \<Rightarrow> bytes \<Rightarrow> AssistantContent" where
  "content_by config reason stop =
     \<lparr>ac_Parts = [text_content reason], ac_StopReason = stop, ac_API = md_API (cf_Model config),
      ac_Provider = md_Provider (cf_Model config), ac_Model = md_ID (cf_Model config)\<rparr>"

definition errorContent :: "Config \<Rightarrow> bytes \<Rightarrow> AssistantContent" where
  "errorContent config reason = content_by config reason StopError"

fun last_assistant_loop :: "Config \<Rightarrow> Message list \<Rightarrow> AssistantContent" where
  "last_assistant_loop config [] = content_by config [] StopStop"
| "last_assistant_loop config (m # ms) =
     (case m_Assistant m of Some a \<Rightarrow> a | None \<Rightarrow> last_assistant_loop config ms)"

definition lastAssistant :: "Config \<Rightarrow> Message list \<Rightarrow> AssistantContent" where
  "lastAssistant config history = last_assistant_loop config (rev history)"

definition contentOf :: "AssistantMessage \<Rightarrow> AssistantContent" where
  "contentOf message =
     \<lparr>ac_Parts = map (\<lambda>b. \<lparr>cp_Text = ab_Text b, cp_Image = None, cp_Thinking = ab_Thinking b,
                          cp_ToolCall = ab_ToolCall b\<rparr>) (pm_Content message),
      ac_StopReason = pm_StopReason message, ac_API = pm_API message, ac_Provider = pm_Provider message,
      ac_Model = pm_Model message\<rparr>"

record turnOutcome =
  to_assistant :: AssistantContent
  to_closedWithout :: bytes
  to_refusal :: bytes
  to_shown :: bool

text \<open>The locals of \<^verbatim>\<open>streamOnce\<close>, and its loop over the events of the stream.\<close>

record once =
  on_assistant :: "AssistantContent option"
  on_refusal :: bytes
  on_shown :: bool
  on_started :: bool

definition once_event :: "agent_env \<Rightarrow> once \<times> Run \<Rightarrow> Event \<Rightarrow> once \<times> Run" where
  "once_event env st e =
     (case st of (o0, r) \<Rightarrow>
        let o1 = (if ev_Kind e \<noteq> EventStart \<and> ev_Kind e \<noteq> EventKeepalive then o0\<lparr>on_started := True\<rparr> else o0)
        in case ev_Kind e of
             EventTextDelta \<Rightarrow>
               (o1\<lparr>on_shown := True\<rparr>, agent_emit env r ((agent_event TextDelta)\<lparr>av_Delta := ev_Delta e\<rparr>))
           | EventThinkingDelta \<Rightarrow>
               (o1\<lparr>on_shown := True\<rparr>, agent_emit env r ((agent_event ReasoningDelta)\<lparr>av_Delta := ev_Delta e\<rparr>))
           | EventDone \<Rightarrow>
               (case ev_Message e of None \<Rightarrow> (o1, r) | Some m \<Rightarrow> (o1\<lparr>on_assistant := Some (contentOf m)\<rparr>, r))
           | EventError \<Rightarrow> (o1\<lparr>on_refusal := ev_Reason e\<rparr>, r)
           | _ \<Rightarrow> (o1, r))"

definition once_new :: once where
  "once_new = \<lparr>on_assistant = None, on_refusal = [], on_shown = False, on_started = False\<rparr>"

definition stalled_refusal :: "once \<Rightarrow> bool \<Rightarrow> bytes" where
  "stalled_refusal o1 stalled =
     (if stalled \<and> (on_refusal o1 = [] \<or> on_refusal o1 = providerCancelled)
      then if on_started o1 then idleFailure else firstByteFailure
      else on_refusal o1)"

definition streamOnce :: "agent_env \<Rightarrow> Run \<Rightarrow> Message list \<Rightarrow> turnOutcome \<times> Run" where
  "streamOnce env r history =
     (case ag_stream env (rn_tick r) history of (events, stalled) \<Rightarrow>
      case foldl (once_event env) (once_new, (tick r)\<lparr>rn_requests := rn_requests r @ [history]\<rparr>) events of (o1, r1) \<Rightarrow>
        case on_assistant o1 of
          Some a \<Rightarrow> (\<lparr>to_assistant = a, to_closedWithout = [], to_refusal = [], to_shown = False\<rparr>, r1)
        | None \<Rightarrow>
            (case ctx_err env r1 of (c, r2) \<Rightarrow>
               if c then (\<lparr>to_assistant = errorContent (rn_config r) ''the run was cancelled'',
                           to_closedWithout = [], to_refusal = [], to_shown = False\<rparr>, r2)
               else
                 let refusal = stalled_refusal o1 stalled in
                 if refusal \<noteq> []
                 then (\<lparr>to_assistant = errorContent (rn_config r) refusal, to_closedWithout = [],
                        to_refusal = refusal, to_shown = on_shown o1\<rparr>, r2)
                 else (\<lparr>to_assistant = errorContent (rn_config r) closedWithoutTerminal,
                        to_closedWithout = closedWithoutTerminal, to_refusal = [], to_shown = False\<rparr>, r2)))"

text \<open>\<^verbatim>\<open>waitToRetry\<close>: the delay doubles with the attempt.\<close>

definition retry_delay :: "Config \<Rightarrow> nat \<Rightarrow> int" where
  "retry_delay config attempt =
     (if cf_RetryDelay config = 0 then defaultRetryDelay else cf_RetryDelay config) * 2 ^ attempt"

definition waitToRetry :: "agent_env \<Rightarrow> Run \<Rightarrow> nat \<Rightarrow> bool \<times> Run" where
  "waitToRetry env r attempt =
     (let r1 = (tick r)\<lparr>rn_waits := rn_waits r @ [retry_delay (rn_config r) attempt]\<rparr> in
      if ag_timer env (rn_tick r) then (True, r1) else (False, Cancel r1))"

function attempts :: "agent_env \<Rightarrow> Run \<Rightarrow> Message list \<Rightarrow> nat \<Rightarrow> (AssistantContent \<times> bytes) \<times> Run" where
  "attempts env r history attempt =
     (case streamOnce env r history of (outcome, r1) \<Rightarrow>
        if to_refusal outcome = [] \<or> to_shown outcome \<or> attempt \<ge> maxTurnRetries \<or>
           \<not> retryable (ag_lower env) (to_refusal outcome)
        then ((to_assistant outcome, to_closedWithout outcome), r1)
        else case waitToRetry env r1 attempt of (go, r2) \<Rightarrow>
          if \<not> go then ((errorContent (rn_config r) ''the run was cancelled'', []), r2)
          else attempts env r2 history (Suc attempt))"
  by pat_completeness auto
termination
  by (relation "measure (\<lambda>(env, r, history, attempt). maxTurnRetries - attempt)") auto

declare attempts.simps [simp del]

definition streamTurn :: "agent_env \<Rightarrow> Run \<Rightarrow> Message list \<Rightarrow> (AssistantContent \<times> bytes) \<times> Run" where
  "streamTurn env r history = attempts env r history 0"

section \<open>The loop\<close>

text \<open>The end of \<^verbatim>\<open>loop\<close>.\<close>

definition conclude :: "agent_env \<Rightarrow> Run \<Rightarrow> Message list \<Rightarrow> nat \<Rightarrow> Termination \<Rightarrow> Run" where
  "conclude env r history turns termination =
     (case ctx_err env r of (c, r1) \<Rightarrow>
        settle env r1 \<lparr>rs_Messages = history, rs_FinalMessage = lastAssistant (rn_config r) history,
          rs_Turns = turns, rs_Termination = (if c then TerminationCanceled else termination)\<rparr>)"

text \<open>A message that is announced and appended to the history: a prompt, a tool result.\<close>

definition announce :: "agent_env \<Rightarrow> Message list \<times> Run \<Rightarrow> Message \<Rightarrow> Message list \<times> Run" where
  "announce env hr message =
     (case hr of (history, r) \<Rightarrow>
        (history @ [message],
         agent_emit env (agent_emit env r ((agent_event MessageStart)\<lparr>av_Message := Some message\<rparr>))
           ((agent_event MessageEnd)\<lparr>av_Message := Some message\<rparr>)))"

record loop_state =
  ls_history :: "Message list"
  ls_turns :: nat
  ls_cutOff :: nat
  ls_run :: Run

definition turn_end :: "AssistantContent \<Rightarrow> AgentEvent" where
  "turn_end assistant = (agent_event TurnEnd)\<lparr>av_Assistant := Some assistant\<rparr>"

text \<open>What a turn does with the reply: \<^const>\<open>Inl\<close> when the run is over.\<close>

definition after_reply :: "agent_env \<Rightarrow> loop_state \<Rightarrow> AssistantContent \<Rightarrow> Run + loop_state" where
  "after_reply env s assistant =
     (let outcome = TurnOutcome assistant (ls_cutOff s);
          cut = (if outcome = OutcomeCalledTools \<and> ac_StopReason assistant = StopLength then Suc (ls_cutOff s) else 0)
      in if outcome \<noteq> OutcomeCalledTools
         then Inl (conclude env (agent_emit env (ls_run s) (turn_end assistant)) (ls_history s) (ls_turns s) TerminationClean)
         else case runToolCalls env (ls_run s) assistant of ((results, live), r1) \<Rightarrow>
           case foldl (announce env) (ls_history s, agent_emit env r1 (turn_end assistant)) (map result_message results) of
             (history, r2) \<Rightarrow>
               if \<not> live
               then Inl (settle env r2 \<lparr>rs_Messages = history, rs_FinalMessage = lastAssistant (rn_config r2) history,
                                        rs_Turns = ls_turns s, rs_Termination = TerminationCanceled\<rparr>)
               else Inr \<lparr>ls_history = history, ls_turns = ls_turns s, ls_cutOff = cut, ls_run = r2\<rparr>)"

definition one_turn :: "agent_env \<Rightarrow> loop_state \<Rightarrow> Run + loop_state" where
  "one_turn env s =
     (case ctx_err env (ls_run s) of (c, r0) \<Rightarrow>
        if c then Inl (conclude env r0 (ls_history s) (ls_turns s) TerminationCanceled)
        else
          case streamTurn env (agent_emit env r0 (agent_event TurnStart)) (ls_history s) of
            ((assistant, closedWithout), r2) \<Rightarrow>
              let turns = Suc (ls_turns s); history = ls_history s @ [assistant_message assistant] in
              if closedWithout \<noteq> []
              then (case ctx_err env (agent_emit env r2 (turn_end assistant)) of (c, r4) \<Rightarrow>
                      Inl (if c then settle env r4 \<lparr>rs_Messages = history, rs_FinalMessage = assistant,
                                       rs_Turns = turns, rs_Termination = TerminationCanceled\<rparr>
                           else run_fail env r4 closedWithout))
              else after_reply env \<lparr>ls_history = history, ls_turns = turns, ls_cutOff = ls_cutOff s, ls_run = r2\<rparr> assistant)"

text \<open>The turns; without a limit they may go on for ever, so there is fuel, one unit per turn.\<close>

fun turn_loop :: "nat \<Rightarrow> agent_env \<Rightarrow> loop_state \<Rightarrow> Run option" where
  "turn_loop 0 env s =
     (if withinLimit (rn_config (ls_run s)) (ls_turns s) then None
      else Some (conclude env (ls_run s) (ls_history s) (ls_turns s) TerminationMaxTurns))"
| "turn_loop (Suc fuel) env s =
     (if withinLimit (rn_config (ls_run s)) (ls_turns s)
      then case one_turn env s of Inl r \<Rightarrow> Some r | Inr s' \<Rightarrow> turn_loop fuel env s'
      else Some (conclude env (ls_run s) (ls_history s) (ls_turns s) TerminationMaxTurns))"

definition run_loop :: "nat \<Rightarrow> agent_env \<Rightarrow> Run \<Rightarrow> Message list \<Rightarrow> Run option" where
  "run_loop fuel env r prompts =
     (if \<not> cf_HasStreamer (rn_config r) then Some (run_fail env r ''a run needs a streamer to reach a model'')
      else case foldl (announce env) ([], r) prompts of (history, r1) \<Rightarrow>
        if history = [] then Some (run_fail env r1 ''a run needs at least one message to answer'')
        else turn_loop fuel env
               \<lparr>ls_history = history, ls_turns = 0, ls_cutOff = 0, ls_run = agent_emit env r1 (agent_event AgentStart)\<rparr>)"

definition Start :: "nat \<Rightarrow> agent_env \<Rightarrow> Config \<Rightarrow> Message list \<Rightarrow> Run option" where
  "Start fuel env config prompts = run_loop fuel env (Run_new config) prompts"

section \<open>Steps that do not end a run\<close>

text \<open>What every operation but the last one keeps: the events only grow, by events that are not
  terminal, the outcome stays as it is, a cancelled run stays cancelled, there is room for the
  terminal event, and no call is left waiting.\<close>

definition grows :: "Run \<Rightarrow> Run \<Rightarrow> bool" where
  "grows r r' \<longleftrightarrow>
     (\<exists>es. rn_events r' = rn_events r @ es \<and> list_all (\<lambda>e. \<not> IsTerminal e) es) \<and>
     rn_settled r' = rn_settled r \<and> rn_result r' = rn_result r \<and> rn_err r' = rn_err r \<and>
     rn_config r' = rn_config r \<and> (rn_cancelled r \<longrightarrow> rn_cancelled r') \<and>
     (rn_queue r < eventBuffer \<longrightarrow> rn_queue r' < eventBuffer)"

definition extends :: "Run \<Rightarrow> Run \<Rightarrow> bool" where
  "extends r r' \<longleftrightarrow> grows r r' \<and> (rn_pending r = Map.empty \<longrightarrow> rn_pending r' = Map.empty)"

lemma grows_refl [simp]: "grows r r"
  by (simp add: grows_def)

lemma grows_trans: "grows a b \<Longrightarrow> grows b c \<Longrightarrow> grows a c"
  by (auto simp: grows_def)

lemma extends_grows: "extends r r' \<Longrightarrow> grows r r'"
  by (simp add: extends_def)

lemma extends_refl [simp]: "extends r r"
  by (simp add: extends_def grows_def)

lemma extends_trans: "extends a b \<Longrightarrow> extends b c \<Longrightarrow> extends a c"
  by (auto simp: extends_def intro: grows_trans)

lemma extends_config: "extends r r' \<Longrightarrow> rn_config r' = rn_config r"
  by (simp add: extends_def grows_def)

lemma extends_cancelled: "extends r r' \<Longrightarrow> rn_cancelled r \<Longrightarrow> rn_cancelled r'"
  by (simp add: extends_def grows_def)

lemma extends_pending: "extends r r' \<Longrightarrow> rn_pending r = Map.empty \<Longrightarrow> rn_pending r' = Map.empty"
  by (simp add: extends_def)

declare ctx_err_def [agent_simps] agent_emit_def [agent_simps] send_def [agent_simps] Cancel_def [agent_simps] Let_def [agent_simps]

lemma ctx_err_extends: "ctx_err env r = (c, r') \<Longrightarrow> extends r r' \<and> rn_cancelled r' = c"
  by (auto simp: agent_simps extends_def grows_def)

lemma ctx_err_fields [simp]:
  "rn_requests (snd (ctx_err env r)) = rn_requests r" "rn_waiter (snd (ctx_err env r)) = rn_waiter r"
  "rn_pending (snd (ctx_err env r)) = rn_pending r" "rn_events (snd (ctx_err env r)) = rn_events r"
  "rn_config (snd (ctx_err env r)) = rn_config r"
  by (simp_all add: agent_simps)

lemma emit_fields [simp]:
  "rn_requests (agent_emit env r e) = rn_requests r" "rn_waiter (agent_emit env r e) = rn_waiter r"
  "rn_pending (agent_emit env r e) = rn_pending r" "rn_config (agent_emit env r e) = rn_config r"
  "rn_settled (agent_emit env r e) = rn_settled r" "rn_result (agent_emit env r e) = rn_result r"
  "rn_err (agent_emit env r e) = rn_err r"
  by (simp_all add: agent_simps)

lemma emit_extends: "\<not> IsTerminal e \<Longrightarrow> extends r (agent_emit env r e)"
  by (auto simp: agent_simps extends_def grows_def eventBuffer_def)

lemma kind_not_terminal [simp]:
  "IsTerminal ((agent_event k)\<lparr>av_Delta := d\<rparr>) = IsTerminal (agent_event k)"
  "IsTerminal ((agent_event k)\<lparr>av_Call := c\<rparr>) = IsTerminal (agent_event k)"
  "IsTerminal ((agent_event k)\<lparr>av_Call := c, av_ToolResult := t\<rparr>) = IsTerminal (agent_event k)"
  "IsTerminal ((agent_event k)\<lparr>av_Message := m\<rparr>) = IsTerminal (agent_event k)"
  "IsTerminal (agent_event k) \<longleftrightarrow> k = AgentEnd \<or> k = RunFailed"
  "\<not> IsTerminal (turn_end a)"
  by (auto simp: IsTerminal_def agent_event_def turn_end_def)

subsection \<open>Tool calls\<close>

text \<open>While one call waits, posted results either miss it or are its answer.\<close>

definition awaiting :: "ToolCall \<Rightarrow> Run \<Rightarrow> bool" where
  "awaiting call r \<longleftrightarrow>
     rn_pending r = [tc_ID call \<mapsto> call] \<and> rn_waiter r = None \<or>
     rn_pending r = Map.empty \<and>
       (\<exists>result. rn_waiter r = Some result \<and> tr_ToolCallID result = tc_ID call \<and> tr_ToolName result = tc_Name call)"

definition same_but_answer :: "Run \<Rightarrow> Run \<Rightarrow> bool" where
  "same_but_answer r r' \<longleftrightarrow> (\<exists>p w. r' = r\<lparr>rn_pending := p, rn_waiter := w\<rparr>)"

lemma same_but_answer_trans: "same_but_answer a b \<Longrightarrow> same_but_answer b c \<Longrightarrow> same_but_answer a c"
  by (auto simp: same_but_answer_def) (metis Run.unfold_congs(9,10))

lemma same_but_answer_refl: "same_but_answer r r"
  unfolding same_but_answer_def by (intro exI [of _ "rn_pending r"] exI [of _ "rn_waiter r"]) simp

lemma resolve_awaiting:
  "awaiting call r \<Longrightarrow> awaiting call (snd (ResolveTool env r i result)) \<and> same_but_answer r (snd (ResolveTool env r i result))"
proof -
  note same_but_answer_refl [of r]
  moreover have "same_but_answer r (r\<lparr>rn_pending := p, rn_waiter := w\<rparr>)" for p w
    unfolding same_but_answer_def by blast
  moreover assume "awaiting call r"
  ultimately show ?thesis
    by (auto simp: awaiting_def ResolveTool_def split: option.split if_splits)
qed

lemma resolve_all_awaiting:
  "awaiting call r \<Longrightarrow> awaiting call (resolve_all env r calls) \<and> same_but_answer r (resolve_all env r calls)"
proof (induction calls arbitrary: r)
  case Nil
  then show ?case by (simp add: resolve_all_def same_but_answer_refl)
next
  case (Cons c calls)
  obtain i result where c: "c = (i, result)" by fastforce
  let ?r1 = "snd (ResolveTool env r i result)"
  have "resolve_all env r (c # calls) = resolve_all env ?r1 calls" by (simp add: resolve_all_def c)
  moreover from resolve_awaiting [OF Cons.prems, of env i result] Cons.IH [of ?r1]
  have "awaiting call (resolve_all env ?r1 calls)" "same_but_answer r ?r1" "same_but_answer ?r1 (resolve_all env ?r1 calls)"
    by auto
  then have "same_but_answer r (resolve_all env ?r1 calls)" by (blast intro: same_but_answer_trans)
  ultimately show ?case using \<open>awaiting call (resolve_all env ?r1 calls)\<close> by simp
qed

definition answers_call :: "ToolCall \<Rightarrow> ToolResult \<Rightarrow> bool" where
  "answers_call call result \<longleftrightarrow> tr_ToolCallID result = tc_ID call \<and> tr_ToolName result = tc_Name call"

lemma own_results [simp]:
  "answers_call call (cutOffResult env call)" "answers_call call (namelessResult env call)"
  "answers_call call (idlessResult env call)" "answers_call call (cancelledResult env call)"
  by (simp_all add: answers_call_def cutOffResult_def namelessResult_def idlessResult_def cancelledResult_def errorResult_def)

lemma same_but_answer_grows: "same_but_answer r r' \<Longrightarrow> grows r (tick r')"
  by (auto simp: same_but_answer_def grows_def)

lemma same_but_answer_requests: "same_but_answer r r' \<Longrightarrow> rn_requests r' = rn_requests r"
  by (auto simp: same_but_answer_def)

lemma cancelCall_spec:
  assumes "cancelCall env r call = (result, r')"
  shows "answers_call call result" "extends r r'" "rn_requests r' = rn_requests r"
    "rn_pending r' = rn_pending r" "rn_cancelled r \<Longrightarrow> rn_cancelled r'"
proof -
  from assms have r': "result = cancelledResult env call"
    "r' = agent_emit env r ((agent_event ToolCallCancelled)\<lparr>av_Call := Some call, av_ToolResult := Some result\<rparr>)"
    by (auto simp: cancelCall_def Let_def)
  show e: "extends r r'" unfolding r'(2) by (rule emit_extends) simp
  show "answers_call call result" "rn_requests r' = rn_requests r" "rn_pending r' = rn_pending r" by (simp_all add: r')
  show "rn_cancelled r \<Longrightarrow> rn_cancelled r'" using e by (rule extends_cancelled)
qed

lemma await_spec:
  assumes "rn_pending r = Map.empty" and aw: "awaitToolResult env r call = ((result, answered), r')"
  shows "answers_call call result \<and> grows r r' \<and> rn_pending r' = Map.empty \<and>
         (\<not> answered \<longrightarrow> rn_cancelled r') \<and> rn_requests r' = rn_requests r"
proof -
  obtain c r1 where c: "ctx_err env r = (c, r1)" by fastforce
  note e1 = ctx_err_extends [OF c]
  from ctx_err_fields [of env r] c have f1: "rn_pending r1 = Map.empty" "rn_requests r1 = rn_requests r"
    using assms(1) by simp_all
  show ?thesis
  proof (cases c)
    case True
    with aw c e1 f1 show ?thesis by (auto simp: awaitToolResult_def extends_def)
  next
    case False
    define r2 where "r2 = r1\<lparr>rn_waiter := None, rn_pending := (rn_pending r1)(tc_ID call \<mapsto> call)\<rparr>"
    define r3 where "r3 = agent_emit env r2 ((agent_event ToolCallRequested)\<lparr>av_Call := Some call\<rparr>)"
    define r4 where "r4 = request_call env r1 call"
    have r4: "r4 = tick (resolve_all env r3 (ag_resolves env (rn_tick r3)))"
      by (simp add: r4_def request_call_def r3_def r2_def Let_def)
    have "grows r r2" using e1 by (auto simp: extends_def grows_def r2_def)
    moreover have "grows r2 r3" unfolding r3_def by (rule extends_grows, rule emit_extends) simp
    moreover have w3: "awaiting call r3" by (simp add: r3_def r2_def awaiting_def f1)
    then have w4: "awaiting call r4" "same_but_answer r3 (resolve_all env r3 (ag_resolves env (rn_tick r3)))"
      using resolve_all_awaiting [OF w3, of env "ag_resolves env (rn_tick r3)"] by (simp_all add: r4 awaiting_def)
    moreover from same_but_answer_grows [OF w4(2)] have "grows r3 r4" by (simp add: r4)
    ultimately have g4: "grows r r4" by (blast intro: grows_trans)
    have q4: "rn_requests r4 = rn_requests r"
      using same_but_answer_requests [OF w4(2)] by (simp add: r4 r3_def r2_def f1)
    show ?thesis
    proof (cases "rn_waiter r4 \<noteq> None \<and> \<not> ag_done_first env (rn_tick r4)")
      case True
      then obtain res where w: "rn_waiter r4 = Some res" by blast
      with w4(1) have a: "answers_call call res" "rn_pending r4 = Map.empty" by (auto simp: awaiting_def answers_call_def)
      obtain c5 r5 where c5: "ctx_err env r4 = (c5, r5)" by fastforce
      note e5 = ctx_err_extends [OF c5]
      from ctx_err_fields [of env r4] c5 have f5: "rn_pending r5 = Map.empty" "rn_requests r5 = rn_requests r"
        using a q4 by simp_all
      have g5: "grows r r5" using g4 e5 by (auto simp: extends_def intro: grows_trans)
      obtain x r6 where x: "cancelCall env r5 call = (x, r6)" by fastforce
      have e6: "extends r5 (agent_emit env r5 ((agent_event ToolCallResolved)\<lparr>av_Call := Some call, av_ToolResult := Some res\<rparr>))"
        by (rule emit_extends) simp
      have "awaitToolResult env r call =
          (if c5 then ((x, False), r6)
           else ((res, True), agent_emit env r5 ((agent_event ToolCallResolved)\<lparr>av_Call := Some call, av_ToolResult := Some res\<rparr>)))"
        using True False w c c5 x
        by (simp add: awaitToolResult_def r4_def [symmetric])
      with aw a f5 e5 g5 e6 cancelCall_spec [OF x] show ?thesis
        by (auto simp: extends_def dest: grows_trans split: if_splits)
    next
      case none: False
      let ?r5 = "Cancel (r4\<lparr>rn_pending := (rn_pending r4)(tc_ID call := None)\<rparr>)"
      obtain x r6 where x: "cancelCall env ?r5 call = (x, r6)" by fastforce
      have "awaitToolResult env r call = ((x, False), r6)"
        using none False c x
        by (auto simp: awaitToolResult_def r4_def [symmetric]
            split: option.split bool.split)
      moreover have "grows r ?r5" using g4 by (simp add: grows_def Cancel_def)
      moreover have "rn_pending ?r5 = Map.empty" using w4(1) by (auto simp: awaiting_def Cancel_def)
      moreover have "rn_cancelled ?r5" "rn_requests ?r5 = rn_requests r" by (simp_all add: Cancel_def q4)
      ultimately show ?thesis using aw cancelCall_spec [OF x] by (auto simp: extends_def dest: grows_trans)
    qed
  qed
qed

text \<open>The loop over the parts: one result per call, in order.\<close>

lemma run_call_spec:
  assumes "rn_pending r = Map.empty" and "run_call env assistant ((results, live), r) part = ((results', live'), r')"
  shows "extends r r' \<and> rn_requests r' = rn_requests r \<and> (live \<longrightarrow> \<not> live' \<longrightarrow> rn_cancelled r') \<and>
         (case cp_ToolCall part of None \<Rightarrow> results' = results
          | Some call \<Rightarrow> \<exists>result. results' = results @ [result] \<and> answers_call call result)"
  using assms await_spec [OF assms(1), of env]
  by (auto simp: run_call_def extends_def split: option.splits if_splits prod.splits)

lemma calls_of_parts: "calls_of a = List.map_filter cp_ToolCall (ac_Parts a)"
  by (simp add: calls_of_def)

lemma run_calls_spec:
  assumes "rn_pending r = Map.empty" "\<not> live \<longrightarrow> rn_cancelled r"
    and "foldl (run_call env assistant) ((results, live), r) parts = ((results', live'), r')"
  shows "extends r r' \<and> rn_requests r' = rn_requests r \<and> (\<not> live' \<longrightarrow> rn_cancelled r') \<and>
         (\<exists>new. results' = results @ new \<and> list_all2 answers_call (List.map_filter cp_ToolCall parts) new)"
  using assms
proof (induction parts arbitrary: results live r)
  case Nil
  then show ?case by (simp add: List.map_filter_def)
next
  case (Cons part parts)
  obtain results1 live1 r1 where s: "run_call env assistant ((results, live), r) part = ((results1, live1), r1)"
    by (metis prod.exhaust)
  note step = run_call_spec [OF Cons.prems(1) s]
  have p1: "rn_pending r1 = Map.empty" using step Cons.prems(1) by (auto simp: extends_def)
  have c1: "\<not> live1 \<longrightarrow> rn_cancelled r1"
    using step Cons.prems(2) extends_cancelled by blast
  from Cons.prems(3) s have "foldl (run_call env assistant) ((results1, live1), r1) parts = ((results', live'), r')" by simp
  from Cons.IH [OF p1 c1 this] obtain new where ih: "extends r1 r'" "rn_requests r' = rn_requests r1"
    "\<not> live' \<longrightarrow> rn_cancelled r'" "results' = results1 @ new"
    "list_all2 answers_call (List.map_filter cp_ToolCall parts) new" by blast
  show ?case
  proof (cases "cp_ToolCall part")
    case None
    with step ih show ?thesis by (auto simp: List.map_filter_simps intro: extends_trans)
  next
    case (Some call)
    with step obtain res where "results1 = results @ [res]" "answers_call call res" by auto
    with step ih Some show ?thesis
      by (auto simp: List.map_filter_simps intro: extends_trans intro!: exI [of _ "res # new"])
  qed
qed

lemma runToolCalls_spec:
  assumes "rn_pending r = Map.empty" and "runToolCalls env r assistant = ((results, live), r')"
  shows "extends r r' \<and> rn_requests r' = rn_requests r \<and> (\<not> live \<longrightarrow> rn_cancelled r') \<and>
         list_all2 answers_call (calls_of assistant) results"
  using run_calls_spec [OF assms(1), of True env assistant "[]" "ac_Parts assistant" results live r'] assms(2)
  by (auto simp: runToolCalls_def calls_of_def)

subsection \<open>Streams\<close>

definition replies :: "Event list \<Rightarrow> AssistantMessage list" where
  "replies events = List.map_filter (\<lambda>e. if ev_Kind e = EventDone then ev_Message e else None) events"

lemma once_event_spec:
  assumes "once_event env (o0, r) e = (o1, r1)"
  shows "extends r r1 \<and> rn_requests r1 = rn_requests r \<and> (on_shown o0 \<longrightarrow> on_shown o1) \<and>
         (\<not> on_shown o1 \<longrightarrow> rn_events r1 = rn_events r) \<and>
         on_assistant o1 = (if replies [e] = [] then on_assistant o0 else Some (contentOf (last (replies [e]))))"
  using assms emit_extends [of "(agent_event TextDelta)\<lparr>av_Delta := ev_Delta e\<rparr>" r env]
    emit_extends [of "(agent_event ReasoningDelta)\<lparr>av_Delta := ev_Delta e\<rparr>" r env]
  by (auto simp: once_event_def Let_def replies_def List.map_filter_simps split: EventKind.splits option.splits if_splits)

lemma replies_Cons: "replies (e # es) = replies [e] @ replies es"
  by (simp add: replies_def List.map_filter_def)

lemma once_loop_spec:
  assumes "foldl (once_event env) (o0, r) events = (o1, r1)"
  shows "extends r r1 \<and> rn_requests r1 = rn_requests r \<and> (on_shown o0 \<longrightarrow> on_shown o1) \<and>
         (\<not> on_shown o1 \<longrightarrow> rn_events r1 = rn_events r) \<and>
         on_assistant o1 = (if replies events = [] then on_assistant o0 else Some (contentOf (last (replies events))))"
  using assms
proof (induction events arbitrary: o0 r)
  case Nil
  then show ?case by (simp add: replies_def List.map_filter_simps)
next
  case (Cons e es)
  obtain o2 r2 where s: "once_event env (o0, r) e = (o2, r2)" by fastforce
  with Cons.prems have "foldl (once_event env) (o2, r2) es = (o1, r1)" by simp
  from Cons.IH [OF this] once_event_spec [OF s] show ?case
    unfolding replies_Cons [of e es] by (auto intro: extends_trans)
qed

lemma streamOnce_spec:
  assumes "streamOnce env r history = (outcome, r')"
  shows "extends r r' \<and> rn_requests r' = rn_requests r @ [history] \<and>
         (to_refusal outcome \<noteq> [] \<and> \<not> to_shown outcome \<longrightarrow> rn_events r' = rn_events r) \<and>
         (replies (fst (ag_stream env (rn_tick r) history)) \<noteq> [] \<longrightarrow>
            to_assistant outcome = contentOf (last (replies (fst (ag_stream env (rn_tick r) history)))) \<and>
            to_refusal outcome = [] \<and> to_closedWithout outcome = [])"
proof -
  obtain events stalled where st: "ag_stream env (rn_tick r) history = (events, stalled)" by fastforce
  let ?r0 = "(tick r)\<lparr>rn_requests := rn_requests r @ [history]\<rparr>"
  obtain o1 r1 where f: "foldl (once_event env) (once_new, ?r0) events = (o1, r1)" by fastforce
  have e0: "extends r ?r0" by (simp add: extends_def grows_def)
  have new: "on_assistant once_new = None" by (simp add: once_new_def)
  note loop = once_loop_spec [OF f]
  obtain c r2 where c: "ctx_err env r1 = (c, r2)" by fastforce
  note e2 = ctx_err_extends [OF c]
  from ctx_err_fields [of env r1] c have f2: "rn_requests r2 = rn_requests r1" "rn_events r2 = rn_events r1" by simp_all
  have "extends r r1" using e0 loop by (blast intro: extends_trans)
  moreover have "extends r r2" using calculation e2 by (blast intro: extends_trans)
  ultimately show ?thesis
    using assms loop f2
    by (auto simp: streamOnce_def st f c Let_def new split: option.splits if_splits)
qed

lemma waitToRetry_spec:
  assumes "waitToRetry env r attempt = (go, r')"
  shows "extends r r' \<and> rn_requests r' = rn_requests r \<and> rn_events r' = rn_events r \<and> (\<not> go \<longrightarrow> rn_cancelled r')"
  using assms by (auto simp: waitToRetry_def Let_def extends_def grows_def Cancel_def split: if_splits)

text \<open>A turn: at most three streams of the same history, and only the last may have shown
  anything.\<close>

lemma attempts_spec:
  assumes "attempts env r history attempt = ((assistant, closedWithout), r')" and "attempt \<le> maxTurnRetries"
  shows "extends r r' \<and>
         (\<exists>n. 1 \<le> n \<and> n + attempt \<le> Suc maxTurnRetries \<and> rn_requests r' = rn_requests r @ replicate n history) \<and>
         ((\<exists>r0 outcome. rn_events r0 = rn_events r \<and> streamOnce env r0 history = (outcome, r') \<and>
             assistant = to_assistant outcome \<and> closedWithout = to_closedWithout outcome) \<or>
          (rn_events r' = rn_events r \<and> rn_cancelled r' \<and> closedWithout = [] \<and>
           assistant = errorContent (rn_config r) ''the run was cancelled''))"
  using assms
proof (induction env r history attempt rule: attempts.induct)
  case (1 env r history attempt)
  obtain outcome r1 where o: "streamOnce env r history = (outcome, r1)" by fastforce
  note once = streamOnce_spec [OF o]
  show ?case
  proof (cases "to_refusal outcome = [] \<or> to_shown outcome \<or> attempt \<ge> maxTurnRetries \<or>
           \<not> retryable (ag_lower env) (to_refusal outcome)")
    case True
    with 1(2) o have r': "r' = r1" "assistant = to_assistant outcome" "closedWithout = to_closedWithout outcome"
      by (simp_all add: attempts.simps [of env r])
    have "\<exists>n. 1 \<le> n \<and> n + attempt \<le> Suc maxTurnRetries \<and> rn_requests r' = rn_requests r @ replicate n history"
      using once r' 1(3) by (intro exI [of _ 1]) simp
    with once r' o show ?thesis by blast
  next
    case retry: False
    then have quiet: "rn_events r1 = rn_events r" using once by blast
    obtain go r2 where w: "waitToRetry env r1 attempt = (go, r2)" by fastforce
    note wait = waitToRetry_spec [OF w]
    have e2: "extends r r2" "rn_events r2 = rn_events r" "rn_requests r2 = rn_requests r @ [history]"
      using once wait quiet by (auto intro: extends_trans)
    note cfg2 = extends_config [OF e2(1)]
    show ?thesis
    proof (cases go)
      case False
      with 1(2) o w retry have "r' = r2" "assistant = errorContent (rn_config r) ''the run was cancelled''" "closedWithout = []"
        by (simp_all add: attempts.simps [of env r])
      moreover have "\<exists>n. 1 \<le> n \<and> n + attempt \<le> Suc maxTurnRetries \<and> rn_requests r2 = rn_requests r @ replicate n history"
        using e2(3) 1(3) by (intro exI [of _ 1]) simp
      ultimately show ?thesis using e2 wait False by blast
    next
      case True
      with 1(2) o w retry have rec: "attempts env r2 history (Suc attempt) = ((assistant, closedWithout), r')"
        by (simp add: attempts.simps [of env r])
      from retry have le: "Suc attempt \<le> maxTurnRetries" by simp
      from True have nn: "\<not> \<not> go" by simp
      have ih: "extends r2 r' \<and>
         (\<exists>n. 1 \<le> n \<and> n + Suc attempt \<le> Suc maxTurnRetries \<and> rn_requests r' = rn_requests r2 @ replicate n history) \<and>
         ((\<exists>r0 outcome. rn_events r0 = rn_events r2 \<and> streamOnce env r0 history = (outcome, r') \<and>
             assistant = to_assistant outcome \<and> closedWithout = to_closedWithout outcome) \<or>
          (rn_events r' = rn_events r2 \<and> rn_cancelled r' \<and> closedWithout = [] \<and>
           assistant = errorContent (rn_config r2) ''the run was cancelled''))"
        by (rule 1(1) [OF o [symmetric] retry w [symmetric] nn rec le])
      then obtain n where n: "1 \<le> n" "n + Suc attempt \<le> Suc maxTurnRetries" "rn_requests r' = rn_requests r2 @ replicate n history"
        by blast
      have "\<exists>n. 1 \<le> n \<and> n + attempt \<le> Suc maxTurnRetries \<and> rn_requests r' = rn_requests r @ replicate n history"
        using n e2(3) by (intro exI [of _ "Suc n"]) simp
      moreover have "extends r r'" using ih e2(1) by (blast intro: extends_trans)
      ultimately show ?thesis using ih e2(2) cfg2 by metis
    qed
  qed
qed

lemma streamTurn_spec:
  assumes "streamTurn env r history = ((assistant, closedWithout), r')"
  shows "extends r r'" "length (rn_requests r') \<le> length (rn_requests r) + 3"
    "\<exists>n. 1 \<le> n \<and> n \<le> 3 \<and> rn_requests r' = rn_requests r @ replicate n history"
proof -
  from attempts_spec [of env r history 0 assistant closedWithout r'] assms
  have "extends r r' \<and> (\<exists>n. 1 \<le> n \<and> n \<le> 3 \<and> rn_requests r' = rn_requests r @ replicate n history)"
    by (auto simp: streamTurn_def maxTurnRetries_def)
  then show "extends r r'" "\<exists>n. 1 \<le> n \<and> n \<le> 3 \<and> rn_requests r' = rn_requests r @ replicate n history"
    "length (rn_requests r') \<le> length (rn_requests r) + 3" by auto
qed

section \<open>Runs\<close>

text \<open>A run that goes on, and a run that is over.\<close>

definition running :: "Run \<Rightarrow> bool" where
  "running r \<longleftrightarrow> \<not> rn_settled r \<and> rn_err r = None \<and> list_all (\<lambda>e. \<not> IsTerminal e) (rn_events r) \<and>
     rn_queue r < eventBuffer \<and> rn_pending r = Map.empty"

definition run_ended :: "Run \<Rightarrow> bool" where
  "run_ended r \<longleftrightarrow>
     (\<exists>es t. rn_events r = es @ [t] \<and> list_all (\<lambda>e. \<not> IsTerminal e) es \<and>
        (case rn_err r of
           None \<Rightarrow> av_Kind t = AgentEnd \<and> av_Result t = rn_result r \<and> av_Termination t = rs_Termination (rn_result r) \<and>
                   av_Assistant t = Some (rs_FinalMessage (rn_result r))
         | Some err \<Rightarrow> av_Kind t = RunFailed \<and> err = ''agent: '' @ av_Reason t)) \<and>
     rn_settled r \<and> rn_queue r \<le> eventBuffer \<and> rn_pending r = Map.empty"

lemma extends_running: "running r \<Longrightarrow> extends r r' \<Longrightarrow> running r'"
  by (auto simp: running_def extends_def grows_def)

lemma emit_terminal:
  assumes "IsTerminal e"
  shows "rn_events (agent_emit env r e) = rn_events r @ [e]" "rn_queue (agent_emit env r e) \<le> Suc (rn_queue r)"
    "rn_cancelled (agent_emit env r e) = rn_cancelled r"
  using assms by (simp_all add: agent_simps)

lemma settle_ends:
  assumes "running r"
  shows "run_ended (settle env r result)" "rn_result (settle env r result) = result"
    "rn_err (settle env r result) = None" "rn_cancelled (settle env r result) = rn_cancelled r"
    "rn_requests (settle env r result) = rn_requests r" "rn_config (settle env r result) = rn_config r"
proof -
  define e where "e = (agent_event AgentEnd)\<lparr>av_Termination := rs_Termination result,
                av_Assistant := Some (rs_FinalMessage result), av_Result := result\<rparr>"
  have ef: "av_Kind e = AgentEnd" "av_Termination e = rs_Termination result"
    "av_Assistant e = Some (rs_FinalMessage result)" "av_Result e = result" by (simp_all add: e_def agent_event_def)
  let ?r = "r\<lparr>rn_settled := True, rn_result := result\<rparr>"
  have t: "IsTerminal e" by (simp add: IsTerminal_def ef)
  have s: "settle env r result = agent_emit env ?r e" using assms by (simp add: settle_def running_def e_def)
  show "rn_result (settle env r result) = result" "rn_err (settle env r result) = None"
    "rn_cancelled (settle env r result) = rn_cancelled r" "rn_requests (settle env r result) = rn_requests r"
    "rn_config (settle env r result) = rn_config r"
    using assms by (simp_all add: s running_def emit_terminal [OF t])
  show "run_ended (settle env r result)"
    using assms emit_terminal(2) [OF t, of env ?r]
    by (auto simp: s run_ended_def running_def emit_terminal(1) [OF t] ef)
qed

lemma fail_ends:
  assumes "running r"
  shows "run_ended (run_fail env r reason)" "rn_err (run_fail env r reason) \<noteq> None"
    "rn_requests (run_fail env r reason) = rn_requests r" "rn_config (run_fail env r reason) = rn_config r"
proof -
  define e where "e = (agent_event RunFailed)\<lparr>av_Reason := reason\<rparr>"
  have ef: "av_Kind e = RunFailed" "av_Reason e = reason" by (simp_all add: e_def agent_event_def)
  let ?r = "r\<lparr>rn_settled := True, rn_err := Some (''agent: '' @ reason)\<rparr>"
  have t: "IsTerminal e" by (simp add: IsTerminal_def ef)
  have s: "run_fail env r reason = agent_emit env ?r e" using assms by (simp add: run_fail_def running_def e_def)
  show "rn_err (run_fail env r reason) \<noteq> None" "rn_requests (run_fail env r reason) = rn_requests r"
    "rn_config (run_fail env r reason) = rn_config r" by (simp_all add: s)
  show "run_ended (run_fail env r reason)"
    using assms emit_terminal(2) [OF t, of env ?r]
    by (auto simp: s run_ended_def running_def emit_terminal(1) [OF t] ef)
qed

subsection \<open>The history\<close>

text \<open>A turn that called tools: the reply and one answer per call, in the order of the calls.\<close>

definition turn_block :: "Message list \<Rightarrow> bool" where
  "turn_block ms \<longleftrightarrow> (\<exists>a results. ms = assistant_message a # map result_message results \<and>
     list_all2 answers_call (calls_of a) results)"

definition turn_history :: "Message list \<Rightarrow> nat \<Rightarrow> Message list \<Rightarrow> bool" where
  "turn_history prompts turns ms \<longleftrightarrow>
     (\<exists>blocks. ms = prompts @ concat blocks \<and> list_all turn_block blocks \<and> length blocks = turns)"

lemma turn_history_step:
  "turn_history prompts n ms \<Longrightarrow> list_all2 answers_call (calls_of a) results \<Longrightarrow>
   turn_history prompts (Suc n) (ms @ assistant_message a # map result_message results)"
proof -
  assume "turn_history prompts n ms" and r: "list_all2 answers_call (calls_of a) results"
  then obtain blocks where b: "ms = prompts @ concat blocks" "list_all turn_block blocks" "length blocks = n"
    by (auto simp: turn_history_def)
  let ?b = "assistant_message a # map result_message results"
  have "turn_block ?b" using r by (auto simp: turn_block_def)
  with b show ?thesis unfolding turn_history_def by (intro exI [of _ "blocks @ [?b]"]) simp
qed

lemma announce_all:
  "foldl (announce env) (history, r) ms = (history', r') \<Longrightarrow>
   history' = history @ ms \<and> extends r r' \<and> rn_requests r' = rn_requests r"
proof (induction ms arbitrary: history r)
  case (Cons m ms)
  let ?r1 = "agent_emit env r ((agent_event MessageStart)\<lparr>av_Message := Some m\<rparr>)"
  let ?r2 = "agent_emit env ?r1 ((agent_event MessageEnd)\<lparr>av_Message := Some m\<rparr>)"
  have "extends r ?r1" "extends ?r1 ?r2" by (rule emit_extends, simp)+
  moreover have "foldl (announce env) (history @ [m], ?r2) ms = (history', r')"
    using Cons.prems by (simp add: announce_def [of env "(history, r)" m])
  note Cons.IH [OF this]
  ultimately show ?case by (auto intro: extends_trans)
qed simp

lemma lastAssistant_snoc [simp]: "lastAssistant config (history @ [assistant_message a]) = a"
  by (simp add: lastAssistant_def assistant_message_def)

text \<open>What a result says: the history is the prompts, then turns that called tools with every call
  answered, then at most one reply without; the reason to stop is the true one; no turn took
  more than three streams and the limit was kept.\<close>

definition run_messages :: "Message list \<Rightarrow> Result \<Rightarrow> bool" where
  "run_messages prompts res \<longleftrightarrow>
     (\<exists>n ms tail. rs_Messages res = ms @ map assistant_message tail \<and> turn_history prompts n ms \<and>
        rs_Turns res = n + length tail \<and> length tail \<le> 1 \<and> (rs_Termination res = TerminationClean \<longrightarrow> tail \<noteq> []))"

definition good_result :: "Message list \<Rightarrow> Run \<Rightarrow> bool" where
  "good_result prompts r \<longleftrightarrow>
     run_messages prompts (rn_result r) \<and>
     rs_FinalMessage (rn_result r) = lastAssistant (rn_config r) (rs_Messages (rn_result r)) \<and>
     (rs_Termination (rn_result r) = TerminationCanceled \<longleftrightarrow> rn_cancelled r) \<and>
     (rs_Termination (rn_result r) = TerminationMaxTurns \<longrightarrow>
        int (rs_Turns (rn_result r)) = cf_MaxIterations (rn_config r)) \<and>
     (cf_MaxIterations (rn_config r) > 0 \<longrightarrow> int (rs_Turns (rn_result r)) \<le> cf_MaxIterations (rn_config r)) \<and>
     length (rn_requests r) \<le> 3 * rs_Turns (rn_result r)"

definition run_done :: "Config \<Rightarrow> Message list \<Rightarrow> Run \<Rightarrow> bool" where
  "run_done config prompts r \<longleftrightarrow>
     run_ended r \<and> rn_config r = config \<and> (rn_err r = None \<longrightarrow> good_result prompts r)"

definition loop_inv :: "Config \<Rightarrow> Message list \<Rightarrow> loop_state \<Rightarrow> bool" where
  "loop_inv config prompts s \<longleftrightarrow>
     running (ls_run s) \<and> rn_config (ls_run s) = config \<and> turn_history prompts (ls_turns s) (ls_history s) \<and>
     length (rn_requests (ls_run s)) \<le> 3 * ls_turns s \<and>
     (cf_MaxIterations config > 0 \<longrightarrow> int (ls_turns s) \<le> cf_MaxIterations config)"

text \<open>Every way to settle a run.\<close>

lemma settle_done:
  assumes "running r" "rn_config r = config" "run_messages prompts res"
    and "rs_FinalMessage res = lastAssistant config (rs_Messages res)"
    and "rs_Termination res = TerminationCanceled \<longleftrightarrow> rn_cancelled r"
    and "rs_Termination res = TerminationMaxTurns \<longrightarrow> int (rs_Turns res) = cf_MaxIterations config"
    and "cf_MaxIterations config > 0 \<longrightarrow> int (rs_Turns res) \<le> cf_MaxIterations config"
    and "length (rn_requests r) \<le> 3 * rs_Turns res"
  shows "run_done config prompts (settle env r res)"
  using assms settle_ends [OF assms(1), of env res] by (simp add: run_done_def good_result_def)

lemma fail_done: "running r \<Longrightarrow> rn_config r = config \<Longrightarrow> run_done config prompts (run_fail env r reason)"
  using fail_ends [of r env reason] by (auto simp: run_done_def)

lemma conclude_done:
  assumes "running r" "rn_config r = config" "turn_history prompts n ms" "length tail \<le> 1"
    and "termination = TerminationCanceled \<longrightarrow> rn_cancelled r"
    and "termination = TerminationMaxTurns \<longrightarrow> int (n + length tail) = cf_MaxIterations config"
    and "termination = TerminationClean \<longrightarrow> tail \<noteq> []"
    and "cf_MaxIterations config > 0 \<longrightarrow> int (n + length tail) \<le> cf_MaxIterations config"
    and "length (rn_requests r) \<le> 3 * (n + length tail)"
  shows "run_done config prompts (conclude env r (ms @ map assistant_message tail) (n + length tail) termination)"
proof -
  obtain c r1 where c: "ctx_err env r = (c, r1)" by fastforce
  note e = ctx_err_extends [OF c]
  have r1: "running r1" "rn_config r1 = config" "rn_requests r1 = rn_requests r"
    using extends_running [OF assms(1)] e extends_config ctx_err_fields [of env r] c assms(2) by auto
  let ?res = "\<lparr>rs_Messages = ms @ map assistant_message tail, rs_FinalMessage = lastAssistant (rn_config r) (ms @ map assistant_message tail),
          rs_Turns = n + length tail, rs_Termination = (if c then TerminationCanceled else termination)\<rparr>"
  have "run_messages prompts ?res"
    unfolding run_messages_def using assms(3,4,7) by (intro exI [of _ n] exI [of _ ms] exI [of _ tail]) simp
  moreover have "\<not> c \<Longrightarrow> termination \<noteq> TerminationCanceled" using assms(5) e extends_cancelled by blast
  ultimately have "run_done config prompts (settle env r1 ?res)"
    using assms r1 e by (intro settle_done) auto
  then show ?thesis by (simp add: conclude_def c)
qed

lemma turn_end_extends: "extends r (agent_emit env r (turn_end a))"
  by (rule emit_extends) simp

lemma after_reply_ok:
  assumes "running (ls_run s)" "rn_config (ls_run s) = config" "turn_history prompts n h"
    and "ls_history s = h @ [assistant_message a]" "ls_turns s = Suc n"
    and "length (rn_requests (ls_run s)) \<le> 3 * Suc n"
    and "cf_MaxIterations config > 0 \<longrightarrow> int (Suc n) \<le> cf_MaxIterations config"
  shows "case after_reply env s a of
           Inl r \<Rightarrow> run_done config prompts r
         | Inr s' \<Rightarrow> loop_inv config prompts s' \<and> ls_turns s' = Suc n \<and>
             TurnOutcome a (ls_cutOff s) = OutcomeCalledTools \<and>
             (ac_StopReason a = StopLength \<longrightarrow> ls_cutOff s' = Suc (ls_cutOff s))"
proof (cases "TurnOutcome a (ls_cutOff s) = OutcomeCalledTools")
  case False
  let ?r = "agent_emit env (ls_run s) (turn_end a)"
  have "running ?r" "rn_config ?r = config" "rn_requests ?r = rn_requests (ls_run s)"
    using extends_running [OF assms(1) turn_end_extends] assms(2) by simp_all
  then have "run_done config prompts (conclude env ?r (h @ map assistant_message [a]) (n + length [a]) TerminationClean)"
    using assms by (intro conclude_done) auto
  with False assms(4,5) show ?thesis by (simp add: after_reply_def)
next
  case True
  obtain results live r1 where t: "runToolCalls env (ls_run s) a = ((results, live), r1)" by (metis prod.exhaust)
  let ?r = "agent_emit env r1 (turn_end a)"
  obtain history r2 where an: "foldl (announce env) (ls_history s, ?r) (map result_message results) = (history, r2)" by fastforce
  have pend: "rn_pending (ls_run s) = Map.empty" using assms(1) by (simp add: running_def)
  note tools = runToolCalls_spec [OF pend t]
  note hist = announce_all [OF an]
  have e2: "extends (ls_run s) r2"
    using tools hist turn_end_extends [of r1 env a] by (blast intro: extends_trans)
  have run2: "running r2" "rn_config r2 = config" "rn_requests r2 = rn_requests (ls_run s)"
    using extends_running [OF assms(1) e2] extends_config [OF e2] assms(2) tools hist by simp_all
  have th: "turn_history prompts (Suc n) history"
    using turn_history_step [OF assms(3), of a results] tools hist assms(4) by simp
  let ?res = "\<lparr>rs_Messages = history, rs_FinalMessage = lastAssistant (rn_config r2) history,
                rs_Turns = ls_turns s, rs_Termination = TerminationCanceled\<rparr>"
  have "run_done config prompts (settle env r2 ?res)" if "\<not> live"
  proof -
    have "rn_cancelled r2"
      using that tools hist turn_end_extends [of r1 env a] extends_cancelled by blast
    moreover have "run_messages prompts ?res"
      unfolding run_messages_def using th assms(5)
      by (intro exI [of _ "Suc n"] exI [of _ history] exI [of _ "[]"]) simp
    ultimately show ?thesis using run2 assms by (intro settle_done) auto
  qed
  moreover have "loop_inv config prompts \<lparr>ls_history = history, ls_turns = ls_turns s, ls_cutOff = cut, ls_run = r2\<rparr>" for cut
    using run2 th assms by (simp add: loop_inv_def)
  ultimately show ?thesis using True assms(5) by (simp add: after_reply_def t an Let_def)
qed

lemma one_turn_ok:
  assumes "loop_inv config prompts s" and "withinLimit config (ls_turns s)"
  shows "case one_turn env s of
           Inl r \<Rightarrow> run_done config prompts r
         | Inr s' \<Rightarrow> loop_inv config prompts s' \<and> ls_turns s' = Suc (ls_turns s)"
proof -
  obtain c r0 where c: "ctx_err env (ls_run s) = (c, r0)" by fastforce
  note e0 = ctx_err_extends [OF c]
  have inv: "running (ls_run s)" "rn_config (ls_run s) = config" "turn_history prompts (ls_turns s) (ls_history s)"
    "length (rn_requests (ls_run s)) \<le> 3 * ls_turns s"
    "cf_MaxIterations config > 0 \<longrightarrow> int (ls_turns s) \<le> cf_MaxIterations config"
    using assms(1) by (auto simp: loop_inv_def)
  have r0: "running r0" "rn_config r0 = config" "rn_requests r0 = rn_requests (ls_run s)"
    using extends_running [OF inv(1)] e0 extends_config inv(2) ctx_err_fields [of env "ls_run s"] c by auto
  have max: "cf_MaxIterations config > 0 \<longrightarrow> int (Suc (ls_turns s)) \<le> cf_MaxIterations config"
    using assms(2) by (auto simp: withinLimit_def split: if_splits)
  show ?thesis
  proof (cases c)
    case True
    then have "run_done config prompts (conclude env r0 (ls_history s @ map assistant_message []) (ls_turns s + length ([] :: AssistantContent list)) TerminationCanceled)"
      using r0 inv e0 by (intro conclude_done) auto
    with True c show ?thesis by (simp add: one_turn_def)
  next
    case False
    let ?r1 = "agent_emit env r0 (agent_event TurnStart)"
    obtain a cw r2 where st: "streamTurn env ?r1 (ls_history s) = ((a, cw), r2)" by (metis prod.exhaust)
    have e1: "extends r0 ?r1" by (rule emit_extends) simp
    note turn = streamTurn_spec [OF st]
    have e2: "extends r0 r2" using e1 turn(1) by (rule extends_trans)
    have r2: "running r2" "rn_config r2 = config" "length (rn_requests r2) \<le> 3 * Suc (ls_turns s)"
      using extends_running [OF r0(1) e2] extends_config [OF e2] r0 turn(2) inv(4) by simp_all
    let ?h = "ls_history s @ [assistant_message a]"
    show ?thesis
    proof (cases "cw = []")
      case True
      let ?s = "\<lparr>ls_history = ?h, ls_turns = Suc (ls_turns s), ls_cutOff = ls_cutOff s, ls_run = r2\<rparr>"
      have "one_turn env s = after_reply env ?s a" using True False c st by (simp add: one_turn_def)
      with after_reply_ok [of ?s config prompts "ls_turns s" "ls_history s" a env] r2 inv max
      show ?thesis by (auto split: sum.splits)
    next
      case closed: False
      let ?r3 = "agent_emit env r2 (turn_end a)"
      obtain c4 r4 where c4: "ctx_err env ?r3 = (c4, r4)" by fastforce
      note e4 = ctx_err_extends [OF c4]
      have "extends r2 r4" using turn_end_extends [of r2 env a] e4 by (blast intro: extends_trans)
      then have r4: "running r4" "rn_config r4 = config" "rn_requests r4 = rn_requests r2"
        using extends_running [OF r2(1)] extends_config r2(2) ctx_err_fields [of env ?r3] c4 by auto
      let ?res = "\<lparr>rs_Messages = ?h, rs_FinalMessage = a, rs_Turns = Suc (ls_turns s), rs_Termination = TerminationCanceled\<rparr>"
      have "run_messages prompts ?res"
        unfolding run_messages_def using inv(3)
        by (intro exI [of _ "ls_turns s"] exI [of _ "ls_history s"] exI [of _ "[a]"]) simp
      then have "run_done config prompts (settle env r4 ?res)" if c4
        using that r4 r2(3) e4 max by (intro settle_done) auto
      moreover have "run_done config prompts (run_fail env r4 cw)" using r4 by (intro fail_done)
      moreover have "one_turn env s = Inl (if c4 then settle env r4 ?res else run_fail env r4 cw)"
        using closed False c st c4 by (simp add: one_turn_def Let_def)
      ultimately show ?thesis by simp
    qed
  qed
qed

lemma limit_reached_done:
  assumes "loop_inv config prompts s" and "\<not> withinLimit config (ls_turns s)"
  shows "run_done config prompts (conclude env (ls_run s) (ls_history s) (ls_turns s) TerminationMaxTurns)"
proof -
  have "run_done config prompts (conclude env (ls_run s) (ls_history s @ map assistant_message [])
      (ls_turns s + length ([] :: AssistantContent list)) TerminationMaxTurns)"
    using assms by (intro conclude_done) (auto simp: loop_inv_def withinLimit_def split: if_splits)
  then show ?thesis by simp
qed

lemma turn_loop_ok:
  "loop_inv config prompts s \<Longrightarrow> turn_loop fuel env s = Some r \<Longrightarrow> run_done config prompts r"
proof (induction fuel arbitrary: s)
  case 0
  then have "\<not> withinLimit config (ls_turns s)" "r = conclude env (ls_run s) (ls_history s) (ls_turns s) TerminationMaxTurns"
    by (auto simp: loop_inv_def split: if_splits)
  then show ?case using 0(1) limit_reached_done [of config prompts s] by simp
next
  case (Suc fuel)
  show ?case
  proof (cases "withinLimit config (ls_turns s)")
    case True
    with Suc.prems Suc.IH one_turn_ok [OF Suc.prems(1) True, of env] show ?thesis
      by (auto simp: loop_inv_def split: sum.splits)
  next
    case False
    with Suc.prems show ?thesis using limit_reached_done [of config prompts s env] by (auto simp: loop_inv_def)
  qed
qed

section \<open>Properties\<close>

lemma new_running: "running (Run_new config)"
  by (simp add: running_def Run_new_def eventBuffer_def)

text \<open>A run either fails before its first turn or enters the loop in a state that keeps the
  invariant.\<close>

lemma start_cases:
  "(\<exists>r. running r \<and> rn_config r = config \<and> (\<exists>reason. Start fuel env config prompts = Some (run_fail env r reason))) \<or>
   (\<exists>s. loop_inv config prompts s \<and> ls_cutOff s = 0 \<and> ls_turns s = 0 \<and> Start fuel env config prompts = turn_loop fuel env s)"
proof -
  let ?r = "Run_new config"
  have cfg: "rn_config ?r = config" "rn_requests ?r = []" by (simp_all add: Run_new_def)
  obtain h r1 where a: "foldl (announce env) ([], ?r) prompts = (h, r1)" by fastforce
  note all = announce_all [OF a]
  have r1: "running r1" "rn_config r1 = config" "rn_requests r1 = []"
    using extends_running [OF new_running] all extends_config cfg by auto
  let ?r2 = "agent_emit env r1 (agent_event AgentStart)"
  have e: "extends r1 ?r2" by (rule emit_extends) simp
  let ?s = "\<lparr>ls_history = h, ls_turns = 0, ls_cutOff = 0, ls_run = ?r2\<rparr>"
  have "loop_inv config prompts ?s"
    using extends_running [OF r1(1) e] r1 all by (auto simp: loop_inv_def turn_history_def)
  with new_running cfg r1 a show ?thesis
    unfolding Start_def run_loop_def by (cases "cf_HasStreamer config") (auto simp: exI [of _ ?s])
qed

lemma start_done: "Start fuel env config prompts = Some r \<Longrightarrow> run_done config prompts r"
  using start_cases [of config fuel env prompts] fail_done turn_loop_ok by (metis option.inject)

text \<open>C9. A run ends with exactly one terminal event, the last one, whatever the streamer brings and
  whenever the run is cancelled, its tools are answered or its consumer falls behind: either
  the run failed and the event carries the reason of its error, or it is settled and the event
  carries its result.  The channel has room for that event, and no tool call is left waiting.\<close>

theorem run_ends_once:
  assumes "Start fuel env config prompts = Some r"
  shows "\<exists>es t. rn_events r = es @ [t] \<and> filter IsTerminal (rn_events r) = [t] \<and>
     (case rn_err r of
        None \<Rightarrow> av_Kind t = AgentEnd \<and> av_Result t = rn_result r
      | Some err \<Rightarrow> av_Kind t = RunFailed \<and> err = ''agent: '' @ av_Reason t) \<and>
     rn_queue r \<le> eventBuffer \<and> rn_pending r = Map.empty"
proof -
  from start_done [OF assms] have "run_ended r" by (simp add: run_done_def)
  then obtain es t where e: "rn_events r = es @ [t]" "list_all (\<lambda>e. \<not> IsTerminal e) es"
    "case rn_err r of
       None \<Rightarrow> av_Kind t = AgentEnd \<and> av_Result t = rn_result r \<and> av_Termination t = rs_Termination (rn_result r) \<and>
               av_Assistant t = Some (rs_FinalMessage (rn_result r))
     | Some err \<Rightarrow> av_Kind t = RunFailed \<and> err = ''agent: '' @ av_Reason t"
    "rn_queue r \<le> eventBuffer" "rn_pending r = Map.empty" by (auto simp: run_ended_def)
  from e(2) have "filter IsTerminal es = []" by (simp add: filter_empty_conv list_all_iff)
  moreover from e(3) have "IsTerminal t" by (auto simp: IsTerminal_def split: option.splits)
  ultimately show ?thesis using e by (auto split: option.splits)
qed

text \<open>A small world for the witnesses: a model that calls one tool and then answers, a client
  that posts the result.\<close>

definition demo_call_reply :: Event where
  "demo_call_reply = (event EventDone 0)\<lparr>ev_Message := Some
     \<lparr>pm_Content = [\<lparr>ab_Text = None, ab_Thinking = None, ab_ToolCall = Some (ToolCall_zero\<lparr>tc_ID := ''c1'', tc_Name := ''ls''\<rparr>)\<rparr>],
      pm_API = [], pm_Provider = [], pm_Model = [], pm_Usage = Usage_zero (float_unit.make (\<lambda>_. 0) (\<lambda>_. 0) 0 (\<lambda>_ _. 0) (\<lambda>_ _. 0) (\<lambda>_ _. 0) 0),
      pm_StopReason = StopToolUse, pm_Timestamp = 0\<rparr>\<rparr>"

definition demo_answer :: "bytes \<Rightarrow> Event" where
  "demo_answer stop = (event EventDone 0)\<lparr>ev_Message := Some
     \<lparr>pm_Content = [\<lparr>ab_Text = Some ''ok'', ab_Thinking = None, ab_ToolCall = None\<rparr>],
      pm_API = [], pm_Provider = [], pm_Model = [], pm_Usage = Usage_zero (float_unit.make (\<lambda>_. 0) (\<lambda>_. 0) 0 (\<lambda>_ _. 0) (\<lambda>_ _. 0) (\<lambda>_ _. 0) 0),
      pm_StopReason = stop, pm_Timestamp = 0\<rparr>\<rparr>"

definition demo_result :: ToolResult where
  "demo_result = \<lparr>tr_ToolCallID = [], tr_ToolName = [], tr_Parts = [text_content ''file''], tr_IsError = False\<rparr>"

definition demo_world :: agent_env where
  "demo_world = \<lparr>ag_cancel = (\<lambda>_. False), ag_taken = (\<lambda>_. 1),
     ag_stream = (\<lambda>_ history. if length history = 1 then ([demo_call_reply], False) else ([demo_answer StopStop], False)),
     ag_resolves = (\<lambda>_. [(''other'', demo_result), (''c1'', demo_result)]), ag_done_first = (\<lambda>_. False),
     ag_timer = (\<lambda>_. True), ag_quote = (\<lambda>s. s), ag_lower = ascii_lower\<rparr>"

definition demo_agent :: Config where
  "demo_agent = \<lparr>cf_Model = \<lparr>md_ID = [], md_API = [], md_Provider = [], md_BaseURL = [], md_HasBaseURL = False,
       md_Cost = Cost_zero (float_unit.make (\<lambda>_. 0) (\<lambda>_. 0) 0 (\<lambda>_ _. 0) (\<lambda>_ _. 0) (\<lambda>_ _. 0) 0)\<rparr>,
     cf_HasStreamer = True, cf_MaxIterations = 5, cf_RetryDelay = 0\<rparr>"

definition demo_prompt :: Message where
  "demo_prompt = \<lparr>m_User = None, m_Assistant = None, m_ToolResult = None\<rparr>"

lemma demo_run: "Start 5 demo_world demo_agent [demo_prompt] \<noteq> None"
  by code_simp

theorem run_ends_once_witness:
  "\<exists>r es t. Start 5 demo_world demo_agent [demo_prompt] = Some r \<and> rn_events r = es @ [t] \<and>
     filter IsTerminal (rn_events r) = [t]"
proof -
  from demo_run obtain r where "Start 5 demo_world demo_agent [demo_prompt] = Some r" by blast
  from run_ends_once [OF this] this show ?thesis by blast
qed



lemma turn_loop_terminates:
  "loop_inv config prompts s \<Longrightarrow> cf_MaxIterations config > 0 \<Longrightarrow>
   cf_MaxIterations config - int (ls_turns s) \<le> int fuel \<Longrightarrow> \<exists>r. turn_loop fuel env s = Some r"
proof (induction fuel arbitrary: s)
  case 0
  then show ?case by (auto simp: withinLimit_def loop_inv_def)
next
  case (Suc fuel)
  show ?case
  proof (cases "withinLimit config (ls_turns s)")
    case True
    from one_turn_ok [OF Suc.prems(1) True, of env] Suc.prems True show ?thesis
      by (cases "one_turn env s") (auto simp: loop_inv_def intro!: Suc.IH)
  next
    case False
    with Suc.prems show ?thesis by (auto simp: loop_inv_def)
  qed
qed



text \<open>A model that is cut off at its token limit every time.\<close>

definition always_cut :: "agent_env \<Rightarrow> bool" where
  "always_cut env \<longleftrightarrow> (\<forall>t history. replies (fst (ag_stream env t history)) \<noteq> [] \<and>
     pm_StopReason (last (replies (fst (ag_stream env t history)))) = StopLength)"

lemma cut_turn:
  assumes "always_cut env" and "streamTurn env r history = ((assistant, closedWithout), r')"
  shows "ac_StopReason assistant = StopLength"
proof -
  obtain outcome r1 where o: "streamOnce env r history = (outcome, r1)" by fastforce
  from streamOnce_spec [OF o] assms(1) have "ac_StopReason (to_assistant outcome) = StopLength" "to_refusal outcome = []"
    by (auto simp: always_cut_def contentOf_def)
  with o assms(2) show ?thesis by (auto simp: streamTurn_def attempts.simps [of env r])
qed

lemma cut_one_turn:
  assumes "loop_inv config prompts s" "withinLimit config (ls_turns s)" "always_cut env" "one_turn env s = Inr s'"
  shows "ls_cutOff s < MaxCutOffToolTurns \<and> ls_cutOff s' = Suc (ls_cutOff s)"
proof -
  from assms(4) obtain r2 a where a: "ac_StopReason a = StopLength"
    "after_reply env \<lparr>ls_history = ls_history s @ [assistant_message a], ls_turns = Suc (ls_turns s),
        ls_cutOff = ls_cutOff s, ls_run = r2\<rparr> a = Inr s'"
    by (auto simp: one_turn_def Let_def split: prod.splits if_splits dest: cut_turn [OF assms(3)])
  then show ?thesis
    by (auto simp: after_reply_def Let_def TurnOutcome_def stop_defs split: prod.splits if_splits)
qed

lemma cut_loop_terminates:
  "loop_inv config prompts s \<Longrightarrow> always_cut env \<Longrightarrow> ls_cutOff s + fuel \<ge> Suc MaxCutOffToolTurns \<Longrightarrow>
   ls_cutOff s \<le> MaxCutOffToolTurns \<Longrightarrow> \<exists>r. turn_loop fuel env s = Some r"
proof (induction fuel arbitrary: s)
  case (Suc fuel)
  show ?case
  proof (cases "withinLimit config (ls_turns s)")
    case True
    show ?thesis
    proof (cases "one_turn env s")
      case (Inr s')
      from cut_one_turn [OF Suc.prems(1) True Suc.prems(2) Inr] one_turn_ok [OF Suc.prems(1) True, of env] Inr Suc.prems
      have "\<exists>r. turn_loop fuel env s' = Some r" by (intro Suc.IH) auto
      with Inr True Suc.prems show ?thesis by (simp add: loop_inv_def)
    qed (use True Suc.prems in \<open>simp add: loop_inv_def\<close>)
  next
    case False
    with Suc.prems show ?thesis by (auto simp: loop_inv_def)
  qed
qed simp

text \<open>A model that is cut off at its token limit in every turn does not keep a run alive: even
  with no limit on its turns the run ends after at most four.\<close>

lemma cut_off_run_terminates:
  assumes "always_cut env"
  shows "\<exists>r. Start (Suc MaxCutOffToolTurns) env config prompts = Some r"
  using start_cases [of config "Suc MaxCutOffToolTurns" env prompts]
    cut_loop_terminates [of config prompts _ env "Suc MaxCutOffToolTurns"] assms by fastforce

text \<open>A retry is invisible: a turn asks the model at most three times, always with the same
  history, and shows its consumer only what one stream brought, the one whose reply it
  returns; an attempt that showed anything is never repeated.\<close>

lemma retry_is_invisible:
  assumes "streamTurn env r history = ((assistant, closedWithout), r')"
  shows "(\<exists>n. 1 \<le> n \<and> n \<le> 3 \<and> rn_requests r' = rn_requests r @ replicate n history) \<and>
         ((\<exists>r0 outcome. rn_events r0 = rn_events r \<and> streamOnce env r0 history = (outcome, r') \<and>
             assistant = to_assistant outcome \<and> closedWithout = to_closedWithout outcome) \<or>
          (rn_events r' = rn_events r \<and> rn_cancelled r' \<and> closedWithout = [] \<and>
           assistant = errorContent (rn_config r) ''the run was cancelled''))"
  using streamTurn_spec(3) [OF assms] attempts_spec [of env r history 0 assistant closedWithout r'] assms
  by (simp add: streamTurn_def)

definition demo_busy :: agent_env where
  "demo_busy = demo_world\<lparr>ag_stream := (\<lambda>t _. if t < 2 then ([(event EventError 0)\<lparr>ev_Reason := ''overloaded''\<rparr>], False)
     else ([(event EventTextDelta 0)\<lparr>ev_Delta := ''ok''\<rparr>, demo_answer StopStop], False))\<rparr>"

end
