(* ===== verification/Chat_Stream.thy ===== *)
theory Chat_Stream
  imports Provider_Types Sse_Parser
begin

text \<open>
  The stream of a chat-completions provider, \<^verbatim>\<open>go/internal/provider/stream.go\<close>: the parsers
  of one chunk of JSON, the state a stream accumulates, the events it emits and the loop
  \<^verbatim>\<open>Stream\<close> that reads the body.  The body is a finite list of reads, then its end; the
  cancellation and both uses of the clock are arbitrary functions of a counter.

  \<open>abs_stream\<close> is what a consumer of the events should have seen of a state; every operation
  emits events that lead from the abstraction of the old state to that of the new one.  The
  theorems follow: a stream is one start event, well nested parts, and one terminal event,
  and the message of the last one is what the deltas add up to.
\<close>

section \<open>Parsing a chunk\<close>

definition reasoningFields :: "bytes list" where
  "reasoningFields = [''reasoning_content'', ''reasoning'', ''reasoning_text'']"

fun find_field :: "json_object \<Rightarrow> bytes list \<Rightarrow> (bytes \<times> bytes) option" where
  "find_field delta [] = None"
| "find_field delta (f # fs) =
     (case asString (jget delta f) of
        None \<Rightarrow> find_field delta fs
      | Some v \<Rightarrow> if v \<noteq> [] then Some (f, v) else find_field delta fs)"

definition findReasoningField :: "json_object \<Rightarrow> (bytes \<times> bytes) option" where
  "findReasoningField delta = find_field delta reasoningFields"

definition calculateCost :: "float_unit \<Rightarrow> Usage \<Rightarrow> Cost \<Rightarrow> Cost" where
  "calculateCost fu usage rates =
     (let perMillion = (\<lambda>tokens rate. fu_mul fu (fu_div fu (fu_of_int fu tokens) (fu_million fu)) rate);
          i = perMillion (u_InputTokens usage) (c_Input rates);
          o' = perMillion (u_OutputTokens usage) (c_Output rates);
          r = perMillion (u_CacheReadTokens usage) (c_CacheRead rates);
          w = perMillion (u_CacheWriteTokens usage) (c_CacheWrite rates)
      in \<lparr>c_Input = i, c_Output = o', c_CacheRead = r, c_CacheWrite = w,
          c_Total = fu_add fu (fu_add fu (fu_add fu i o') r) w\<rparr>)"

definition parseUsageInto :: "float_unit \<Rightarrow> json_object \<Rightarrow> Usage \<Rightarrow> Usage" where
  "parseUsageInto fu container usage =
     (let u1 = (case asInt fu (jget container ''prompt_tokens'') of
                  Some v \<Rightarrow> usage\<lparr>u_InputTokens := v\<rparr> | None \<Rightarrow> usage);
          u2 = (case asObject (jget container ''prompt_tokens_details'') of
                  None \<Rightarrow> u1
                | Some details \<Rightarrow>
                    (case asInt fu (jget details ''cached_tokens'') of
                       None \<Rightarrow> u1
                     | Some cached \<Rightarrow>
                         u1\<lparr>u_CacheReadTokens := cached,
                            u_InputTokens := (if u_InputTokens u1 > cached then u_InputTokens u1 - cached
                                              else u_InputTokens u1)\<rparr>));
          u3 = u2\<lparr>u_OutputTokens := (case asInt fu (jget container ''completion_tokens'') of
                                       Some v \<Rightarrow> v | None \<Rightarrow> 0)\<rparr>
      in case asInt fu (jget container ''total_tokens'') of
           Some v \<Rightarrow> u3\<lparr>u_TotalTokens := v\<rparr> | None \<Rightarrow> u3)"

definition stopReasonFor :: "bytes \<Rightarrow> bytes" where
  "stopReasonFor finish =
     (if finish = ''length'' then StopLength
      else if finish = ''tool_calls'' then StopToolUse
      else if finish = ''content_filter'' then StopError
      else StopStop)"

record toolCallEvent =
  te_apiIndex :: int
  te_isStart :: bool
  te_id :: bytes
  te_name :: bytes
  te_arguments :: bytes
  te_hasArguments :: bool

record reasoningDetail =
  rd_toolCallID :: bytes
  rd_detailJSON :: bytes

definition tool_call_events :: "float_unit \<Rightarrow> json \<Rightarrow> toolCallEvent list" where
  "tool_call_events fu entry =
     (case asObject entry of
        None \<Rightarrow> []
      | Some call \<Rightarrow>
          (let apiIndex = (case asInt fu (jget call ''index'') of Some v \<Rightarrow> v | None \<Rightarrow> 0);
               fn = asObject (jget call ''function'')
           in (case asString (jget call ''id'') of
                 Some i \<Rightarrow>
                   if i \<noteq> [] then
                     [\<lparr>te_apiIndex = apiIndex, te_isStart = True, te_id = i,
                       te_name = (case fn of
                                    Some f \<Rightarrow> (case asString (jget f ''name'') of Some v \<Rightarrow> v | None \<Rightarrow> [])
                                  | None \<Rightarrow> []),
                       te_arguments = [], te_hasArguments = False\<rparr>]
                   else []
               | None \<Rightarrow> []) @
              (case fn of
                 Some f \<Rightarrow>
                   (case asString (jget f ''arguments'') of
                      Some args \<Rightarrow>
                        if args \<noteq> [] then
                          [\<lparr>te_apiIndex = apiIndex, te_isStart = False, te_id = [], te_name = [],
                            te_arguments = args, te_hasArguments = True\<rparr>]
                        else []
                    | None \<Rightarrow> [])
               | None \<Rightarrow> [])))"

definition parseToolCallEvents :: "float_unit \<Rightarrow> json_object \<Rightarrow> toolCallEvent list" where
  "parseToolCallEvents fu delta =
     (case asArray (jget delta ''tool_calls'') of
        None \<Rightarrow> []
      | Some entries \<Rightarrow> concat (map (tool_call_events fu) entries))"

text \<open>\<open>encodeString\<close> is \<^verbatim>\<open>json.Marshal\<close> of a string, a parameter.\<close>

definition reasoning_detail :: "(bytes \<Rightarrow> bytes) \<Rightarrow> json \<Rightarrow> reasoningDetail list" where
  "reasoning_detail encodeString entry =
     (case asObject entry of
        None \<Rightarrow> []
      | Some detail \<Rightarrow>
          (case (asString (jget detail ''type''), asString (jget detail ''id''), asString (jget detail ''data'')) of
             (Some kind, Some i, Some data) \<Rightarrow>
               if kind \<noteq> ''reasoning.encrypted'' \<or> i = [] \<or> data = [] then []
               else [\<lparr>rd_toolCallID = i,
                      rd_detailJSON = ''{\"type\":\"reasoning.encrypted\",\"id\":'' @ encodeString i @
                                      '',\"data\":'' @ encodeString data @ ''}''\<rparr>]
           | _ \<Rightarrow> []))"

definition parseReasoningDetails :: "(bytes \<Rightarrow> bytes) \<Rightarrow> json_object \<Rightarrow> reasoningDetail list" where
  "parseReasoningDetails encodeString delta =
     (case asArray (jget delta ''reasoning_details'') of
        None \<Rightarrow> []
      | Some entries \<Rightarrow> concat (map (reasoning_detail encodeString) entries))"

record chunkResult =
  cr_usage :: "Usage option"
  cr_stopReason :: bytes
  cr_hasStop :: bool
  cr_toolCalls :: "toolCallEvent list"
  cr_details :: "reasoningDetail list"
  cr_hasToolCallsKey :: bool
  cr_textDelta :: bytes
  cr_thinkDelta :: bytes
  cr_signatureField :: bytes

definition chunkResult_zero :: chunkResult where
  "chunkResult_zero = \<lparr>cr_usage = None, cr_stopReason = [], cr_hasStop = False, cr_toolCalls = [],
     cr_details = [], cr_hasToolCallsKey = False, cr_textDelta = [], cr_thinkDelta = [],
     cr_signatureField = []\<rparr>"

text \<open>What the sources are given: the JSON decoder, the string encoder and the float unit.\<close>

record json_env =
  je_parse :: "bytes \<Rightarrow> json option"
  je_encodeString :: "bytes \<Rightarrow> bytes"
  je_float :: float_unit

definition chunk_delta :: "json_env \<Rightarrow> json_object \<Rightarrow> chunkResult \<Rightarrow> chunkResult" where
  "chunk_delta je delta r0 =
     (let r = r0\<lparr>cr_hasToolCallsKey := jhas delta ''tool_calls'',
                 cr_toolCalls := parseToolCallEvents (je_float je) delta,
                 cr_details := parseReasoningDetails (je_encodeString je) delta\<rparr>
      in if cr_hasToolCallsKey r then r
         else case findReasoningField delta of
           Some (f, v) \<Rightarrow> r\<lparr>cr_signatureField := f, cr_thinkDelta := v\<rparr>
         | None \<Rightarrow>
             (case asString (jget delta ''content'') of
                Some content \<Rightarrow> if content \<noteq> [] then r\<lparr>cr_textDelta := content\<rparr> else r
              | None \<Rightarrow> r))"

definition parseChunkWithUsage :: "json_env \<Rightarrow> bytes \<Rightarrow> Usage \<Rightarrow> chunkResult" where
  "parseChunkWithUsage je data current =
     (if data = ''[DONE]'' then chunkResult_zero
      else case unmarshal_object (je_parse je) data of
        None \<Rightarrow> chunkResult_zero
      | Some root \<Rightarrow>
          (let r1 = (case asObject (jget root ''usage'') of
                       Some container \<Rightarrow>
                         chunkResult_zero\<lparr>cr_usage := Some (parseUsageInto (je_float je) container current)\<rparr>
                     | None \<Rightarrow> chunkResult_zero)
           in case asArray (jget root ''choices'') of
                None \<Rightarrow> r1
              | Some [] \<Rightarrow> r1
              | Some (first # _) \<Rightarrow>
                  (case asObject first of
                     None \<Rightarrow> r1
                   | Some choice \<Rightarrow>
                       (let r2 = (case asString (jget choice ''finish_reason'') of
                                    Some finish \<Rightarrow> r1\<lparr>cr_stopReason := stopReasonFor finish, cr_hasStop := True\<rparr>
                                  | None \<Rightarrow> r1)
                        in case asObject (jget choice ''delta'') of
                             None \<Rightarrow> r2
                           | Some delta \<Rightarrow> chunk_delta je delta r2))))"

definition ParseChunk :: "json_env \<Rightarrow> bytes \<Rightarrow> chunkResult" where
  "ParseChunk je data = parseChunkWithUsage je data (Usage_zero (je_float je))"

section \<open>The state of a stream\<close>

record streamPart =
  sp_kind :: part_kind
  sp_start :: nat
  sp_end :: nat
  sp_apiIndex :: int

record streamState =
  ss_model :: Model
  ss_now :: "nat \<Rightarrow> int"
  ss_usage :: Usage
  ss_stopReason :: bytes
  ss_thinking :: bytes
  ss_text :: bytes
  ss_signature :: bytes
  ss_hasSig :: bool
  ss_parts :: "streamPart list"
  ss_open :: bool
  ss_lateArguments :: bool
  ss_toolCalls :: nat
  ss_tracker :: toolTracker
  ss_prevText :: nat
  ss_prevThink :: nat
  ss_lastToolCalls :: "toolCallEvent list"
  ss_lastDetails :: "reasoningDetail list"

definition newStreamState :: "float_unit \<Rightarrow> (nat \<Rightarrow> int) \<Rightarrow> Model \<Rightarrow> streamState" where
  "newStreamState fu now model =
     \<lparr>ss_model = model, ss_now = now, ss_usage = Usage_zero fu, ss_stopReason = StopStop, ss_thinking = [],
      ss_text = [], ss_signature = [], ss_hasSig = False, ss_parts = [], ss_open = False,
      ss_lateArguments = False, ss_toolCalls = 0, ss_tracker = Map.empty, ss_prevText = 0,
      ss_prevThink = 0, ss_lastToolCalls = [], ss_lastDetails = []\<rparr>"

definition st_partial :: "streamState \<Rightarrow> EventSink \<Rightarrow> AssistantBlock list \<Rightarrow> PartialMessage" where
  "st_partial s sink content =
     \<lparr>pm_Content = content, pm_API = md_API (ss_model s), pm_Provider = md_Provider (ss_model s),
      pm_Model = md_ID (ss_model s), pm_Usage = ss_usage s, pm_StopReason = ss_stopReason s,
      pm_Timestamp = ss_now s (length (sk_events sink))\<rparr>"

definition thinkingPart :: "streamState \<Rightarrow> ThinkingPart" where
  "thinkingPart s = \<lparr>tp_Thinking = ss_thinking s, tp_Signature = (if ss_hasSig s then ss_signature s else [])\<rparr>"

definition applyData :: "json_env \<Rightarrow> streamState \<Rightarrow> bytes \<Rightarrow> streamState" where
  "applyData je s data =
     (let r = parseChunkWithUsage je data (ss_usage s);
          s1 = (case cr_usage r of Some u \<Rightarrow> s\<lparr>ss_usage := u\<rparr> | None \<Rightarrow> s);
          s2 = (if cr_hasStop r then s1\<lparr>ss_stopReason := cr_stopReason r\<rparr> else s1);
          s3 = (if cr_signatureField r \<noteq> [] \<and> \<not> ss_hasSig s2
                then s2\<lparr>ss_signature := cr_signatureField r, ss_hasSig := True\<rparr> else s2)
      in s3\<lparr>ss_thinking := ss_thinking s3 @ cr_thinkDelta r, ss_text := ss_text s3 @ cr_textDelta r,
            ss_lastToolCalls := cr_toolCalls r, ss_lastDetails := cr_details r\<rparr>)"

definition LateArgumentsReason :: bytes where
  "LateArgumentsReason = ''the provider streamed arguments for a tool call after its part ended''"

definition openIndex :: "streamState \<Rightarrow> part_kind \<Rightarrow> nat option" where
  "openIndex s kind =
     (if \<not> ss_open s then None
      else let lst = length (ss_parts s) - 1 in
        if sp_kind (ss_parts s ! lst) \<noteq> kind then None else Some lst)"

definition openToolCall :: "streamState \<Rightarrow> int \<Rightarrow> nat option" where
  "openToolCall s apiIndex =
     (case openIndex s KToolCall of
        None \<Rightarrow> None
      | Some index \<Rightarrow> if sp_apiIndex (ss_parts s ! index) \<noteq> apiIndex then None else Some index)"

definition openToolCallNamed :: "streamState \<Rightarrow> bytes \<Rightarrow> bool" where
  "openToolCallNamed s i =
     (case openIndex s KToolCall of
        None \<Rightarrow> False
      | Some index \<Rightarrow>
          (case ss_tracker s (sp_apiIndex (ss_parts s ! index)) of
             None \<Rightarrow> False
           | Some call \<Rightarrow> k_id call = i))"

definition begin_part :: "streamState \<Rightarrow> streamPart \<Rightarrow> nat \<times> streamState" where
  "begin_part s part = (length (ss_parts s), s\<lparr>ss_parts := ss_parts s @ [part], ss_open := True\<rparr>)"

text \<open>A slice \<^verbatim>\<open>s[a:b]\<close>; that it is in range is a theorem below.\<close>

definition go_slice :: "bytes \<Rightarrow> nat \<Rightarrow> nat \<Rightarrow> bytes" where
  "go_slice xs a b = take (b - a) (drop a xs)"

definition block :: "streamState \<Rightarrow> streamPart \<Rightarrow> AssistantBlock" where
  "block s part =
     (case sp_kind part of
        KText \<Rightarrow>
          \<lparr>ab_Text = Some (go_slice (ss_text s) (sp_start part) (sp_end part)), ab_Thinking = None, ab_ToolCall = None\<rparr>
      | KThinking \<Rightarrow>
          \<lparr>ab_Text = None,
           ab_Thinking = Some \<lparr>tp_Thinking = go_slice (ss_thinking s) (sp_start part) (sp_end part),
                               tp_Signature = (if ss_hasSig s then ss_signature s else [])\<rparr>,
           ab_ToolCall = None\<rparr>
      | KToolCall \<Rightarrow>
          \<lparr>ab_Text = None, ab_Thinking = None,
           ab_ToolCall = Some (case completeCall (ss_tracker s) (sp_apiIndex part) of
                                 Some c \<Rightarrow> c | None \<Rightarrow> ToolCall_zero)\<rparr>)"

text \<open>The end of the open part, as \<^verbatim>\<open>close\<close> sets it.\<close>

definition end_part :: "streamState \<Rightarrow> streamPart \<Rightarrow> streamPart" where
  "end_part s part =
     (case sp_kind part of
        KText \<Rightarrow> part\<lparr>sp_end := length (ss_text s)\<rparr>
      | KThinking \<Rightarrow> part\<lparr>sp_end := length (ss_thinking s)\<rparr>
      | KToolCall \<Rightarrow> part)"

text \<open>The event of the end of part \<open>index\<close>, from the blocks of the parts up to it.\<close>

definition end_event :: "streamState \<Rightarrow> EventSink \<Rightarrow> part_kind \<Rightarrow> nat \<Rightarrow> AssistantBlock list \<Rightarrow> Event" where
  "end_event s sink kind index blocks =
     (let ended = blocks ! index in
      case kind of
        KText \<Rightarrow> (event EventTextEnd index)\<lparr>ev_Delta := the (ab_Text ended),
                    ev_Partial := Some (st_partial s sink blocks)\<rparr>
      | KThinking \<Rightarrow> (event EventThinkingEnd index)\<lparr>ev_Delta := tp_Thinking (the (ab_Thinking ended)),
                    ev_Partial := Some (st_partial s sink blocks)\<rparr>
      | KToolCall \<Rightarrow> (event EventToolCallEnd index)\<lparr>ev_ToolCall := ab_ToolCall ended,
                    ev_Partial := Some (st_partial s sink (take index blocks))\<rparr>)"

definition close_part :: "streamState \<times> EventSink \<Rightarrow> streamState \<times> EventSink" where
  "close_part sk =
     (case sk of (s, sink) \<Rightarrow>
        if \<not> ss_open s then (s, sink)
        else
          let index = length (ss_parts s) - 1;
              part = ss_parts s ! index;
              s' = s\<lparr>ss_open := False, ss_parts := (ss_parts s)[index := end_part s part]\<rparr>;
              blocks = map (block s') (take (Suc index) (ss_parts s'))
          in (s', emit sink (end_event s' sink (sp_kind part) index blocks)))"

definition continueOrBegin ::
  "streamState \<times> EventSink \<Rightarrow> part_kind \<Rightarrow> nat \<Rightarrow> nat \<times> streamState \<times> EventSink" where
  "continueOrBegin sk kind start =
     (case openIndex (fst sk) kind of
        Some index \<Rightarrow> (index, sk)
      | None \<Rightarrow>
          (case close_part sk of
             (s1, sink1) \<Rightarrow>
               (case begin_part s1 \<lparr>sp_kind = kind, sp_start = start, sp_end = 0, sp_apiIndex = 0\<rparr> of
                  (index, s2) \<Rightarrow>
                    (index, s2, emit sink1
                       ((event (if kind = KText then EventTextStart else EventThinkingStart) index)
                          \<lparr>ev_Partial := Some (st_partial s2 sink1 [])\<rparr>)))))"

definition covered :: "streamState \<Rightarrow> part_kind \<Rightarrow> nat" where
  "covered s kind = foldl (\<lambda>c part. if sp_kind part = kind then sp_end part else c) 0 (ss_parts s)"

definition finishThinkingTail :: "streamState \<times> EventSink \<Rightarrow> streamState \<times> EventSink" where
  "finishThinkingTail sk =
     (let start = covered (fst sk) KThinking in
      if length (ss_thinking (fst sk)) \<le> start then sk
      else
        case continueOrBegin sk KThinking start of
          (index, s1, sink1) \<Rightarrow>
            close_part (s1, emit sink1
              ((event EventThinkingDelta index)\<lparr>ev_Delta := drop start (ss_thinking s1),
                 ev_Partial := Some (st_partial s1 sink1 [])\<rparr>)))"

text \<open>The loop over the encrypted reasoning details, which occurs twice in \<^verbatim>\<open>emitFor\<close>.\<close>

definition apply_details :: "streamState \<Rightarrow> streamState" where
  "apply_details s =
     foldl (\<lambda>s detail. if openToolCallNamed s (rd_toolCallID detail)
                       then s\<lparr>ss_tracker := setSignatureByID (ss_tracker s) (rd_toolCallID detail) (rd_detailJSON detail)\<rparr>
                       else s) s (ss_lastDetails s)"

definition emit_thinking :: "streamState \<times> EventSink \<Rightarrow> streamState \<times> EventSink" where
  "emit_thinking sk =
     (let s = fst sk;
          (s1, sink1) =
            (if length (ss_thinking s) > ss_prevThink s \<and> \<not> IsKimiModel (ss_model s) then
               (case continueOrBegin sk KThinking (ss_prevThink s) of
                  (index, s1, sink1) \<Rightarrow>
                    (s1, emit sink1 ((event EventThinkingDelta index)
                       \<lparr>ev_Delta := drop (ss_prevThink s1) (ss_thinking s1),
                        ev_Partial := Some (st_partial s1 sink1 [])\<rparr>)))
             else sk)
      in (s1\<lparr>ss_prevThink := length (ss_thinking s1)\<rparr>, sink1))"

definition emit_text :: "streamState \<times> EventSink \<Rightarrow> streamState \<times> EventSink" where
  "emit_text sk =
     (let s = fst sk;
          (s1, sink1) =
            (if length (ss_text s) > ss_prevText s then
               (case continueOrBegin sk KText (ss_prevText s) of
                  (index, s1, sink1) \<Rightarrow>
                    (s1, emit sink1 ((event EventTextDelta index)
                       \<lparr>ev_Delta := drop (ss_prevText s1) (ss_text s1),
                        ev_Partial := Some (st_partial s1 sink1 [])\<rparr>)))
             else sk)
      in (s1\<lparr>ss_prevText := length (ss_text s1)\<rparr>, sink1))"

definition emit_call :: "streamState \<times> EventSink \<Rightarrow> toolCallEvent \<Rightarrow> streamState \<times> EventSink" where
  "emit_call sk call =
     (case sk of (s, sink) \<Rightarrow>
        if te_isStart call then
          (if ss_tracker s (te_apiIndex call) \<noteq> None then (s, sink)
           else
             case close_part (s, sink) of
               (s1, sink1) \<Rightarrow>
                 (case begin_part s1 \<lparr>sp_kind = KToolCall, sp_start = 0, sp_end = 0, sp_apiIndex = te_apiIndex call\<rparr> of
                    (index, s2) \<Rightarrow>
                      (let s3 = s2\<lparr>ss_tracker := startCall (ss_tracker s2) (te_apiIndex call) index (te_id call) (te_name call),
                                   ss_toolCalls := Suc (ss_toolCalls s2)\<rparr>
                       in (s3, emit sink1 ((event EventToolCallStart index)
                                 \<lparr>ev_ID := te_id call, ev_Name := te_name call,
                                  ev_Partial := Some (st_partial s3 sink1 [])\<rparr>)))))
        else if \<not> te_hasArguments call then (s, sink)
        else
          case openToolCall s (te_apiIndex call) of
            None \<Rightarrow> (if ss_tracker s (te_apiIndex call) \<noteq> None then s\<lparr>ss_lateArguments := True\<rparr> else s, sink)
          | Some index \<Rightarrow>
              (case appendDelta (ss_tracker s) (te_apiIndex call) (te_arguments call) of
                 (False, _) \<Rightarrow> (s, sink)
               | (True, tracker) \<Rightarrow>
                   (let s1 = s\<lparr>ss_tracker := tracker\<rparr>
                    in (s1, emit sink ((event EventToolCallDelta index)
                              \<lparr>ev_Delta := te_arguments call, ev_Partial := Some (st_partial s1 sink [])\<rparr>)))))"

definition emitFor :: "streamState \<times> EventSink \<Rightarrow> streamState \<times> EventSink" where
  "emitFor sk =
     (case sk of (s, sink) \<Rightarrow>
        case emit_text (emit_thinking (apply_details s, sink)) of
          (s2, sink2) \<Rightarrow>
            (case foldl emit_call (s2, sink2) (ss_lastToolCalls s2) of
               (s3, sink3) \<Rightarrow>
                 ((apply_details s3)\<lparr>ss_lastToolCalls := [], ss_lastDetails := []\<rparr>, sink3)))"

definition finish_usage :: "float_unit \<Rightarrow> streamState \<Rightarrow> streamState" where
  "finish_usage fu s =
     (let u = ss_usage s;
          u1 = (if u_TotalTokens u = 0
                then u\<lparr>u_TotalTokens := u_InputTokens u + u_OutputTokens u + u_CacheReadTokens u + u_CacheWriteTokens u\<rparr>
                else u)
      in s\<lparr>ss_usage := u1\<lparr>u_Cost := calculateCost fu u1 (md_Cost (ss_model s))\<rparr>\<rparr>)"

definition finish :: "float_unit \<Rightarrow> streamState \<times> EventSink \<Rightarrow> EventSink" where
  "finish fu sk =
     (case sk of (s, sink) \<Rightarrow>
        case finishThinkingTail (close_part (finish_usage fu s, sink)) of
          (s1, sink1) \<Rightarrow>
            (let content = map (block s1) (ss_parts s1);
                 content' = (if content = [] then [\<lparr>ab_Text = Some [], ab_Thinking = None, ab_ToolCall = None\<rparr>]
                             else content)
             in emit sink1 ((event EventDone 0)\<lparr>ev_Message := Some (st_partial s1 sink1 content')\<rparr>)))"

definition startEvent :: "float_unit \<Rightarrow> streamState \<Rightarrow> EventSink \<Rightarrow> Event" where
  "startEvent fu s sink =
     (event EventStart 0)
       \<lparr>ev_Partial := Some \<lparr>pm_Content = [], pm_API = md_API (ss_model s), pm_Provider = md_Provider (ss_model s),
          pm_Model = md_ID (ss_model s), pm_Usage = Usage_zero fu, pm_StopReason = StopStop,
          pm_Timestamp = ss_now s (length (sk_events sink))\<rparr>\<rparr>"

section \<open>The loop\<close>

text \<open>What a stream runs against: the decoders, the clock and its use for the keepalives (by
  round), and the cancellation (by call).\<close>

record stream_env =
  se_json :: json_env
  se_now :: "nat \<Rightarrow> int"
  se_ping_now :: "nat \<Rightarrow> int"
  se_pingMillis :: int
  se_cancelled :: "nat \<Rightarrow> bool"

datatype read_result = Chunk bytes | ReadError

text \<open>The keepalive at the head of a round: the sink and the time of the last one.\<close>

definition ping :: "stream_env \<Rightarrow> nat \<Rightarrow> int \<Rightarrow> EventSink \<Rightarrow> EventSink \<times> int" where
  "ping env round lastPing sink =
     (if se_pingMillis env > 0 \<and> se_ping_now env round - lastPing \<ge> se_pingMillis env
      then (emit sink (event EventKeepalive 0), se_ping_now env round) else (sink, lastPing))"

text \<open>The loop over the events of one chunk: \<^const>\<open>Inl\<close> when the stream ended in it.  \<open>tick\<close>
  counts the calls of \<^verbatim>\<open>cancelled\<close>.\<close>

fun stream_events ::
  "stream_env \<Rightarrow> nat \<Rightarrow> streamState \<times> EventSink \<Rightarrow> SSEEvent list \<Rightarrow> EventSink + (nat \<times> streamState \<times> EventSink)" where
  "stream_events env tick sk [] = Inr (tick, sk)"
| "stream_events env tick sk (e # es) =
     (if se_cancelled env tick then Inl (sink_fail (snd sk) ''request cancelled'')
      else
        let s = (fst sk)\<lparr>ss_lastToolCalls := [], ss_lastDetails := []\<rparr>;
            sk' = emitFor (applyData (se_json env) s (ev_Data e), snd sk)
        in if ss_lateArguments (fst sk') then Inl (sink_fail (snd sk') LateArgumentsReason)
           else stream_events env (Suc tick) sk' es)"

fun stream_loop ::
  "stream_env \<Rightarrow> nat \<Rightarrow> nat \<Rightarrow> int \<Rightarrow> SSEParser \<Rightarrow> streamState \<times> EventSink \<Rightarrow> read_result list \<Rightarrow> EventSink" where
  "stream_loop env round tick lastPing parser (s, sink) [] =
     (case ping env round lastPing sink of
        (sink1, _) \<Rightarrow>
          if se_cancelled env tick then sink_fail sink1 ''request cancelled''
          else finish (je_float (se_json env)) (s, sink1))"
| "stream_loop env round tick lastPing parser (s, sink) (r # rs) =
     (case ping env round lastPing sink of
        (sink1, lastPing1) \<Rightarrow>
          if se_cancelled env tick then sink_fail sink1 ''request cancelled''
          else case r of
            ReadError \<Rightarrow> sink_fail sink1 ''read error''
          | Chunk chunk \<Rightarrow>
              if chunk = [] then finish (je_float (se_json env)) (s, sink1)
              else
                case Feed parser chunk of
                  (Inl err, _) \<Rightarrow> sink_fail sink1 (SSEErrorMessage err)
                | (Inr events, parser1) \<Rightarrow>
                    (case stream_events env (Suc tick) (s, sink1) events of
                       Inl sink2 \<Rightarrow> sink2
                     | Inr (tick2, sk2) \<Rightarrow> stream_loop env (Suc round) tick2 lastPing1 parser1 sk2 rs))"

definition Stream :: "stream_env \<Rightarrow> Model \<Rightarrow> read_result list \<Rightarrow> EventSink \<Rightarrow> EventSink" where
  "Stream env model reads sink =
     (let fu = je_float (se_json env); s = newStreamState fu (se_now env) model
      in stream_loop env 0 0 0 NewSSEParser (s, emit sink (startEvent fu s sink)) reads)"

section \<open>The abstraction\<close>

definition call_value :: "streamState \<Rightarrow> int \<Rightarrow> bytes \<times> bytes \<times> bytes" where
  "call_value s api =
     (case ss_tracker s api of None \<Rightarrow> ([], [], []) | Some c \<Rightarrow> (k_id c, k_name c, k_arguments c))"

definition part_value :: "streamState \<Rightarrow> streamPart \<Rightarrow> seen_block" where
  "part_value s p =
     (case sp_kind p of
        KText \<Rightarrow> SeenText (go_slice (ss_text s) (sp_start p) (sp_end p))
      | KThinking \<Rightarrow> SeenThinking (go_slice (ss_thinking s) (sp_start p) (sp_end p))
      | KToolCall \<Rightarrow> (case call_value s (sp_apiIndex p) of (i, n, a) \<Rightarrow> SeenCall i n a))"

definition open_value :: "streamState \<Rightarrow> nat \<Rightarrow> streamPart \<Rightarrow> seen_open" where
  "open_value s index p =
     (case sp_kind p of
        KText \<Rightarrow> SeenOpen KText index [] [] (go_slice (ss_text s) (sp_start p) (ss_prevText s))
      | KThinking \<Rightarrow> SeenOpen KThinking index [] [] (go_slice (ss_thinking s) (sp_start p) (ss_prevThink s))
      | KToolCall \<Rightarrow> (case call_value s (sp_apiIndex p) of (i, n, a) \<Rightarrow> SeenOpen KToolCall index i n a))"

definition closed_parts :: "streamState \<Rightarrow> streamPart list" where
  "closed_parts s = (if ss_open s then butlast (ss_parts s) else ss_parts s)"

definition abs_stream :: "streamState \<Rightarrow> seen" where
  "abs_stream s =
     \<lparr>sn_blocks = map (part_value s) (closed_parts s),
      sn_open = (if ss_open s then Some (open_value s (length (ss_parts s) - 1) (last (ss_parts s))) else None)\<rparr>"

text \<open>A part that has ended lies inside the text that has been emitted, and so does the start of
  the open one; every tool call part is tracked, under an index of its own.\<close>

definition part_ok :: "streamState \<Rightarrow> streamPart \<Rightarrow> bool" where
  "part_ok s p =
     (case sp_kind p of
        KText \<Rightarrow> sp_start p \<le> sp_end p \<and> sp_end p \<le> ss_prevText s
      | KThinking \<Rightarrow> sp_start p \<le> sp_end p \<and> sp_end p \<le> ss_prevThink s
      | KToolCall \<Rightarrow> True)"

definition open_ok :: "streamState \<Rightarrow> streamPart \<Rightarrow> bool" where
  "open_ok s p =
     (case sp_kind p of
        KText \<Rightarrow> sp_start p \<le> ss_prevText s
      | KThinking \<Rightarrow> sp_start p \<le> ss_prevThink s
      | KToolCall \<Rightarrow> True)"

abbreviation call_indices :: "streamPart list \<Rightarrow> int list" where
  "call_indices ps \<equiv> map sp_apiIndex (filter (\<lambda>p. sp_kind p = KToolCall) ps)"

definition stream_inv :: "streamState \<Rightarrow> bool" where
  "stream_inv s \<longleftrightarrow>
     (ss_open s \<longrightarrow> ss_parts s \<noteq> [] \<and> open_ok s (last (ss_parts s))) \<and>
     ss_prevText s \<le> length (ss_text s) \<and> ss_prevThink s \<le> length (ss_thinking s) \<and>
     (\<forall>p \<in> set (closed_parts s). part_ok s p) \<and>
     distinct (call_indices (ss_parts s)) \<and> set (call_indices (ss_parts s)) \<subseteq> dom (ss_tracker s)"

text \<open>The open part, when it ends, ends where it has been emitted to.\<close>

definition emitted :: "streamState \<Rightarrow> bool" where
  "emitted s \<longleftrightarrow> (ss_open s \<longrightarrow>
     (case sp_kind (last (ss_parts s)) of
        KText \<Rightarrow> ss_prevText s = length (ss_text s)
      | KThinking \<Rightarrow> ss_prevThink s = length (ss_thinking s)
      | KToolCall \<Rightarrow> True))"

text \<open>One operation emits the events that lead from what was seen before to what is seen after.\<close>

definition sound :: "streamState \<times> EventSink \<Rightarrow> streamState \<times> EventSink \<Rightarrow> bool" where
  "sound a b \<longleftrightarrow> stream_inv (fst b) \<and>
     (\<exists>es. sk_events (snd b) = sk_events (snd a) @ es \<and>
          see_all (abs_stream (fst a)) es = Some (abs_stream (fst b)))"

lemma sound_trans: "sound a b \<Longrightarrow> sound b c \<Longrightarrow> sound a c"
  unfolding sound_def by (auto simp: see_all_append)

lemma sound_silent: "stream_inv t \<Longrightarrow> abs_stream t = abs_stream s \<Longrightarrow> sound (s, k) (t, k)"
  by (auto simp: sound_def intro!: exI [of _ "[]"])

lemma sound_one:
  "stream_inv t \<Longrightarrow> see (abs_stream s) e = Some (abs_stream t) \<Longrightarrow> sound (s, k) (t, emit k e)"
  by (auto simp: sound_def emit_def intro!: exI [of _ "[e]"])

definition same_data :: "streamState \<Rightarrow> streamState \<Rightarrow> bool" where
  "same_data s t \<longleftrightarrow>
     ss_text t = ss_text s \<and> ss_thinking t = ss_thinking s \<and> ss_prevText t = ss_prevText s \<and>
     ss_prevThink t = ss_prevThink s \<and> ss_tracker t = ss_tracker s \<and> ss_model t = ss_model s \<and>
     ss_lastToolCalls t = ss_lastToolCalls s \<and> ss_lastDetails t = ss_lastDetails s"

lemma same_data_values:
  assumes "same_data s t"
  shows "part_value t p = part_value s p" "part_ok t p = part_ok s p" "open_ok t p = open_ok s p"
    "open_value t i p = open_value s i p"
  using assms
  by (simp_all add: same_data_def part_value_def part_ok_def open_ok_def open_value_def call_value_def
      split: part_kind.split)

section \<open>Closing and opening parts\<close>

lemma last_replaced: "ps \<noteq> [] \<Longrightarrow> ps[length ps - Suc 0 := p] = butlast ps @ [p]"
  by (cases ps rule: rev_cases) (simp_all add: list_update_append)

lemma end_part_simps [simp]:
  "sp_kind (end_part s p) = sp_kind p" "sp_apiIndex (end_part s p) = sp_apiIndex p"
  "sp_start (end_part s p) = sp_start p"
  by (simp_all add: end_part_def split: part_kind.split)

lemma call_indices_snoc_end:
  "call_indices (ps @ [end_part s p]) = call_indices (ps @ [p])"
  by simp

lemma close_part_idle: "\<not> ss_open s \<Longrightarrow> close_part (s, k) = (s, k)"
  by (simp add: close_part_def)

text \<open>The state with its open part ended.\<close>

definition ended_state :: "streamState \<Rightarrow> streamState" where
  "ended_state s = s\<lparr>ss_open := False, ss_parts := butlast (ss_parts s) @ [end_part s (last (ss_parts s))]\<rparr>"

lemma close_part_open:
  assumes "ss_open s" and "ss_parts s \<noteq> []"
  shows "close_part (s, k) =
     (ended_state s, emit k (end_event (ended_state s) k (sp_kind (last (ss_parts s))) (length (ss_parts s) - 1)
        (map (block (ended_state s)) (ss_parts (ended_state s)))))"
proof -
  have parts: "(ss_parts s)[length (ss_parts s) - Suc 0 := end_part s (ss_parts s ! (length (ss_parts s) - Suc 0))] =
      butlast (ss_parts s) @ [end_part s (last (ss_parts s))]"
    using assms(2) by (simp add: last_replaced last_conv_nth)
  with assms show ?thesis
    by (cases "ss_parts s" rule: rev_cases) (simp_all add: close_part_def ended_state_def Let_def last_conv_nth)
qed

lemma end_event_props:
  assumes "blocks ! i = block t p"
  shows "ev_ContentIndex (end_event t k (sp_kind p) i blocks) = i"
    and "end_of (ev_Kind (end_event t k (sp_kind p) i blocks)) = Some (sp_kind p)"
    and "start_of (ev_Kind (end_event t k (sp_kind p) i blocks)) = None"
    and "delta_of (ev_Kind (end_event t k (sp_kind p) i blocks)) = None"
    and "ev_Kind (end_event t k (sp_kind p) i blocks) \<noteq> EventKeepalive"
    and "ended_block (end_event t k (sp_kind p) i blocks) = Some (part_value t p)"
  using assms
  by (cases "sp_kind p"; simp add: end_event_def event_def kind_defs ended_block_def block_def
      part_value_def call_value_def completeCall_def ToolCall_zero_def split: option.split)+

lemma same_ended: "same_data s (ended_state s)"
  by (simp add: same_data_def ended_state_def)

lemma ended_value:
  assumes "emitted s" and "ss_open s"
  shows "part_value s (end_part s (last (ss_parts s))) = seen_value (open_value s i (last (ss_parts s)))"
  using assms
  by (cases "sp_kind (last (ss_parts s))")
    (simp_all add: emitted_def part_value_def open_value_def end_part_def split: prod.split)

lemma ended_inv:
  assumes inv: "stream_inv s" and em: "emitted s" and o: "ss_open s"
  shows "stream_inv (ended_state s)"
proof -
  let ?p = "last (ss_parts s)"
  have ne: "ss_parts s \<noteq> []" and ok: "open_ok s ?p" using inv o by (auto simp: stream_inv_def)
  have "part_ok s (end_part s ?p)"
    using em o ok inv
    by (cases "sp_kind ?p") (simp_all add: emitted_def part_ok_def open_ok_def end_part_def stream_inv_def)
  moreover have "call_indices (butlast (ss_parts s) @ [end_part s ?p]) = call_indices (ss_parts s)"
    using ne by (metis append_butlast_last_id call_indices_snoc_end)
  ultimately show ?thesis
    using inv o same_data_values(2) [OF same_ended [of s]]
    by (simp add: stream_inv_def closed_parts_def ended_state_def)
qed

lemma see_end:
  assumes "start_of (ev_Kind e) = None" "delta_of (ev_Kind e) = None" "end_of (ev_Kind e) = Some k"
    "ev_Kind e \<noteq> EventKeepalive" "sn_open sn = Some (SeenOpen k i ident name acc)" "ev_ContentIndex e = i"
    "ended_block e = Some (seen_value (SeenOpen k i ident name acc))"
  shows "see sn e = Some \<lparr>sn_blocks = sn_blocks sn @ [seen_value (SeenOpen k i ident name acc)], sn_open = None\<rparr>"
  using assms by (simp add: see_def)

lemma open_value_shape: "\<exists>ident name acc. open_value s i p = SeenOpen (sp_kind p) i ident name acc"
  by (cases "sp_kind p") (auto simp: open_value_def split: prod.split)

lemma close_part_sound:
  assumes inv: "stream_inv s" and em: "emitted s"
  shows "sound (s, k) (close_part (s, k)) \<and> \<not> ss_open (fst (close_part (s, k))) \<and>
         same_data s (fst (close_part (s, k)))"
proof (cases "ss_open s")
  case False
  with inv show ?thesis by (simp add: close_part_idle sound_silent same_data_def)
next
  case True
  let ?p = "last (ss_parts s)" and ?t = "ended_state s" and ?i = "length (ss_parts s) - 1"
  let ?e = "end_event ?t k (sp_kind ?p) ?i (map (block ?t) (ss_parts ?t))"
  have ne: "ss_parts s \<noteq> []" using inv True by (simp add: stream_inv_def)
  have nth: "map (block ?t) (ss_parts ?t) ! ?i = block ?t (end_part s ?p)"
    using ne by (simp add: ended_state_def nth_append)
  note ev = end_event_props [OF nth, of k, simplified]
  obtain ident name acc where v: "open_value s ?i ?p = SeenOpen (sp_kind ?p) ?i ident name acc"
    using open_value_shape by blast
  have val: "part_value ?t (end_part s ?p) = seen_value (SeenOpen (sp_kind ?p) ?i ident name acc)"
    using ended_value [OF em True] same_data_values(1) [OF same_ended] v by metis
  have "see (abs_stream s) ?e =
      Some \<lparr>sn_blocks = sn_blocks (abs_stream s) @ [seen_value (SeenOpen (sp_kind ?p) ?i ident name acc)],
            sn_open = None\<rparr>"
    using ev val v True by (intro see_end) (simp_all add: abs_stream_def)
  also have "\<dots> = Some (abs_stream ?t)"
  proof -
    have "map (part_value ?t) (butlast (ss_parts s)) = map (part_value s) (butlast (ss_parts s))"
      using same_data_values(1) [OF same_ended [of s]] by simp
    with val True show ?thesis by (simp add: abs_stream_def closed_parts_def) (simp add: ended_state_def)
  qed
  finally have "sound (s, k) (?t, emit k ?e)" by (intro sound_one ended_inv [OF inv em True])
  then show ?thesis
    using close_part_open [OF True ne, of k] same_ended [of s] by (simp add: ended_state_def)
qed

lemma see_start:
  assumes "start_of (ev_Kind e) = Some k" "ev_Kind e \<noteq> EventKeepalive" "sn_open sn = None"
    "ev_ContentIndex e = length (sn_blocks sn)"
  shows "see sn e = Some (sn\<lparr>sn_open := Some (SeenOpen k (ev_ContentIndex e) (ev_ID e) (ev_Name e) [])\<rparr>)"
  using assms by (simp add: see_def split: option.split)

lemma see_delta:
  assumes "start_of (ev_Kind e) = None" "delta_of (ev_Kind e) = Some k" "ev_Kind e \<noteq> EventKeepalive"
    "sn_open sn = Some (SeenOpen k i ident name acc)" "ev_ContentIndex e = i"
  shows "see sn e = Some (sn\<lparr>sn_open := Some (SeenOpen k i ident name (acc @ ev_Delta e))\<rparr>)"
  using assms by (simp add: see_def split: option.split)

lemma part_value_cong:
  "ss_text t = ss_text s \<Longrightarrow> ss_thinking t = ss_thinking s \<Longrightarrow> ss_tracker t = ss_tracker s \<Longrightarrow>
   part_value t = part_value s"
  by (rule ext) (simp add: part_value_def call_value_def split: part_kind.split)

lemma go_slice_append [simp]: "b \<le> length xs \<Longrightarrow> go_slice (xs @ ys) a b = go_slice xs a b"
  by (cases "a \<le> b") (simp_all add: go_slice_def)

text \<open>More text, not emitted yet, changes nothing that was seen.\<close>

lemma grow_data:
  assumes inv: "stream_inv s"
    and t: "ss_parts t = ss_parts s" "ss_open t = ss_open s" "ss_tracker t = ss_tracker s"
      "ss_prevText t = ss_prevText s" "ss_prevThink t = ss_prevThink s"
      "ss_text t = ss_text s @ a" "ss_thinking t = ss_thinking s @ b"
  shows "stream_inv t \<and> abs_stream t = abs_stream s"
proof -
  have cl: "closed_parts t = closed_parts s" by (simp add: closed_parts_def t)
  have val: "part_value t p = part_value s p" if "part_ok s p" for p
    using that inv t
    by (auto simp: part_value_def part_ok_def call_value_def stream_inv_def split: part_kind.splits)
  have "map (part_value t) (closed_parts s) = map (part_value s) (closed_parts s)"
    using val inv by (auto simp: stream_inv_def)
  moreover have "open_value t i p = open_value s i p" for i p
    using inv t by (auto simp: open_value_def call_value_def stream_inv_def split: part_kind.splits)
  moreover have "stream_inv t"
    using inv t cl by (auto simp: stream_inv_def part_ok_def open_ok_def split: part_kind.splits)
  ultimately show ?thesis by (simp add: abs_stream_def cl t)
qed

text \<open>Beginning a part: nothing is open, the new part starts where its text has been emitted to.\<close>

lemma begin_inv:
  assumes "stream_inv s" and "\<not> ss_open s" and "open_ok s p"
    and "sp_kind p = KToolCall \<Longrightarrow> sp_apiIndex p \<notin> set (call_indices (ss_parts s)) \<and>
           ss_tracker s (sp_apiIndex p) \<noteq> None"
  shows "stream_inv (s\<lparr>ss_parts := ss_parts s @ [p], ss_open := True\<rparr>)"
proof -
  let ?t = "s\<lparr>ss_parts := ss_parts s @ [p], ss_open := True\<rparr>"
  have "same_data s ?t" by (simp add: same_data_def)
  note vals = same_data_values [OF this]
  have "distinct (call_indices (ss_parts s @ [p]))" "set (call_indices (ss_parts s @ [p])) \<subseteq> dom (ss_tracker s)"
    using assms by (auto simp: stream_inv_def)
  with assms vals show ?thesis by (simp add: stream_inv_def closed_parts_def)
qed

lemma begin_abs:
  assumes "\<not> ss_open s"
  shows "abs_stream (s\<lparr>ss_parts := ss_parts s @ [p], ss_open := True\<rparr>) =
         (abs_stream s)\<lparr>sn_open := Some (open_value s (length (ss_parts s)) p)\<rparr>"
proof -
  have "same_data s (s\<lparr>ss_parts := ss_parts s @ [p], ss_open := True\<rparr>)" by (simp add: same_data_def)
  note vals = same_data_values [OF this]
  have "map (part_value (s\<lparr>ss_parts := ss_parts s @ [p], ss_open := True\<rparr>)) (ss_parts s) = map (part_value s) (ss_parts s)"
    using vals(1) by simp
  with assms vals show ?thesis by (simp add: abs_stream_def closed_parts_def)
qed

definition prev_of :: "streamState \<Rightarrow> part_kind \<Rightarrow> nat" where
  "prev_of s kind = (if kind = KText then ss_prevText s else ss_prevThink s)"

lemma openIndex_Some:
  "openIndex s kind = Some i \<Longrightarrow> ss_open s \<and> i = length (ss_parts s) - 1 \<and>
     (ss_parts s \<noteq> [] \<longrightarrow> sp_kind (last (ss_parts s)) = kind)"
  by (auto simp: openIndex_def Let_def last_conv_nth split: if_splits)

lemma same_data_trans: "same_data a b \<Longrightarrow> same_data b c \<Longrightarrow> same_data a c"
  by (simp add: same_data_def)

lemma continueOrBegin_sound:
  assumes inv: "stream_inv s" and kind: "kind \<noteq> KToolCall" and em: "openIndex s kind = None \<Longrightarrow> emitted s"
    and c: "continueOrBegin (s, k) kind (prev_of s kind) = (i, t, k')"
  shows "sound (s, k) (t, k') \<and> same_data s t \<and> openIndex t kind = Some i"
proof (cases "openIndex s kind")
  case (Some j)
  with c inv show ?thesis by (auto simp: continueOrBegin_def sound_silent same_data_def)
next
  case None
  obtain s1 k1 where cl: "close_part (s, k) = (s1, k1)" by fastforce
  from close_part_sound [OF inv em [OF None], of k] cl
  have s1: "sound (s, k) (s1, k1)" "\<not> ss_open s1" "same_data s s1" by auto
  let ?p = "\<lparr>sp_kind = kind, sp_start = prev_of s kind, sp_end = 0, sp_apiIndex = 0\<rparr>"
  let ?t = "s1\<lparr>ss_parts := ss_parts s1 @ [?p], ss_open := True\<rparr>"
  let ?e = "(event (if kind = KText then EventTextStart else EventThinkingStart) (length (ss_parts s1)))
      \<lparr>ev_Partial := Some (st_partial ?t k1 [])\<rparr>"
  have eq: "t = ?t" "i = length (ss_parts s1)" "k' = emit k1 ?e"
    using c None cl by (auto simp: continueOrBegin_def begin_part_def)
  have inv1: "stream_inv s1" using s1(1) by (simp add: sound_def)
  have ok: "open_ok s1 ?p" using s1(3) kind by (cases kind) (auto simp: open_ok_def prev_of_def same_data_def)
  have tinv: "stream_inv ?t" using inv1 s1(2) ok kind by (intro begin_inv) auto
  have val: "open_value s1 (length (ss_parts s1)) ?p = SeenOpen kind (length (ss_parts s1)) [] [] []"
    using s1(3) kind by (cases kind) (auto simp: open_value_def prev_of_def same_data_def go_slice_def)
  have "see (abs_stream s1) ?e = Some (abs_stream ?t)"
    unfolding begin_abs [OF s1(2)] val using s1(2) kind
    by (subst see_start [of _ kind]; cases kind) (simp_all add: event_def kind_defs abs_stream_def closed_parts_def)
  then have "sound (s1, k1) (?t, emit k1 ?e)" by (intro sound_one tinv)
  moreover have "same_data s ?t" using s1(3) by (simp add: same_data_def)
  moreover have "openIndex ?t kind = Some (length (ss_parts s1))" by (simp add: openIndex_def)
  ultimately show ?thesis using sound_trans [OF s1(1)] eq by simp
qed

lemma go_slice_extend: "a \<le> b \<Longrightarrow> b \<le> length xs \<Longrightarrow> go_slice xs a b @ drop b xs = go_slice xs a (length xs)"
  by (simp add: go_slice_def) (metis append_take_drop_id diff_add drop_drop add.commute)

lemma grow_prev:
  assumes inv: "stream_inv s"
  shows "stream_inv (s\<lparr>ss_prevText := length (ss_text s)\<rparr>)" "stream_inv (s\<lparr>ss_prevThink := length (ss_thinking s)\<rparr>)"
  using inv
  by (fastforce simp: stream_inv_def closed_parts_def part_ok_def open_ok_def split: part_kind.splits)+

lemma text_delta_sound:
  assumes inv: "stream_inv s" and o: "openIndex s KText = Some i"
    and e: "ev_Kind e = EventTextDelta" "ev_ContentIndex e = i" "ev_Delta e = drop (ss_prevText s) (ss_text s)"
  shows "sound (s, k) (s\<lparr>ss_prevText := length (ss_text s)\<rparr>, emit k e)"
proof (rule sound_one)
  let ?t = "s\<lparr>ss_prevText := length (ss_text s)\<rparr>" and ?p = "last (ss_parts s)"
  show "stream_inv ?t" by (rule grow_prev [OF inv])
  have p: "ss_open s" "i = length (ss_parts s) - 1" "sp_kind ?p = KText" "sp_start ?p \<le> ss_prevText s"
    using openIndex_Some [OF o] inv by (auto simp: stream_inv_def open_ok_def)
  have "part_value ?t = part_value s" by (rule part_value_cong) simp_all
  moreover have "go_slice (ss_text s) (sp_start ?p) (ss_prevText s) @ drop (ss_prevText s) (ss_text s) =
      go_slice (ss_text s) (sp_start ?p) (length (ss_text s))"
    using p inv by (intro go_slice_extend) (auto simp: stream_inv_def)
  ultimately show "see (abs_stream s) e = Some (abs_stream ?t)"
    using p e
    by (subst see_delta [of _ KText _ i "[]" "[]" "go_slice (ss_text s) (sp_start ?p) (ss_prevText s)"])
      (simp_all add: kind_defs abs_stream_def open_value_def closed_parts_def)
qed

lemma thinking_delta_sound:
  assumes inv: "stream_inv s" and o: "openIndex s KThinking = Some i"
    and e: "ev_Kind e = EventThinkingDelta" "ev_ContentIndex e = i"
      "ev_Delta e = drop (ss_prevThink s) (ss_thinking s)"
  shows "sound (s, k) (s\<lparr>ss_prevThink := length (ss_thinking s)\<rparr>, emit k e)"
proof (rule sound_one)
  let ?t = "s\<lparr>ss_prevThink := length (ss_thinking s)\<rparr>" and ?p = "last (ss_parts s)"
  show "stream_inv ?t" by (rule grow_prev [OF inv])
  have p: "ss_open s" "i = length (ss_parts s) - 1" "sp_kind ?p = KThinking" "sp_start ?p \<le> ss_prevThink s"
    using openIndex_Some [OF o] inv by (auto simp: stream_inv_def open_ok_def)
  have "part_value ?t = part_value s" by (rule part_value_cong) simp_all
  moreover have "go_slice (ss_thinking s) (sp_start ?p) (ss_prevThink s) @ drop (ss_prevThink s) (ss_thinking s) =
      go_slice (ss_thinking s) (sp_start ?p) (length (ss_thinking s))"
    using p inv by (intro go_slice_extend) (auto simp: stream_inv_def)
  ultimately show "see (abs_stream s) e = Some (abs_stream ?t)"
    using p e
    by (subst see_delta [of _ KThinking _ i "[]" "[]" "go_slice (ss_thinking s) (sp_start ?p) (ss_prevThink s)"])
      (simp_all add: kind_defs abs_stream_def open_value_def closed_parts_def)
qed

lemma emit_thinking_sound:
  assumes inv: "stream_inv s" and em: "ss_prevThink s < length (ss_thinking s) \<Longrightarrow> ss_prevText s = length (ss_text s)"
    and r: "emit_thinking (s, k) = (t, k')"
    and kimi: "IsKimiModel (ss_model s) \<Longrightarrow> openIndex s KThinking = None"
  shows "sound (s, k) (t, k') \<and> ss_prevThink t = length (ss_thinking t) \<and> ss_text t = ss_text s \<and>
         ss_thinking t = ss_thinking s \<and> ss_prevText t = ss_prevText s \<and> ss_model t = ss_model s \<and>
         ss_lastToolCalls t = ss_lastToolCalls s \<and> ss_lastDetails t = ss_lastDetails s \<and>
         (IsKimiModel (ss_model s) \<longrightarrow> openIndex t KThinking = None)"
proof (cases "ss_prevThink s < length (ss_thinking s) \<and> \<not> IsKimiModel (ss_model s)")
  case True
  have emd: "emitted s" if "openIndex s KThinking = None"
    using em True that inv
    by (auto simp: emitted_def openIndex_def Let_def stream_inv_def last_conv_nth split: part_kind.splits if_splits)
  obtain i u k1 where c: "continueOrBegin (s, k) KThinking (ss_prevThink s) = (i, u, k1)" by (metis prod_cases3)
  have cb: "sound (s, k) (u, k1)" "same_data s u" "openIndex u KThinking = Some i"
    using continueOrBegin_sound [OF inv _ emd, of KThinking k i u k1] c by (auto simp: prev_of_def)
  let ?e = "(event EventThinkingDelta i)\<lparr>ev_Delta := drop (ss_prevThink u) (ss_thinking u),
      ev_Partial := Some (st_partial u k1 [])\<rparr>"
  have eq: "t = u\<lparr>ss_prevThink := length (ss_thinking u)\<rparr>" "k' = emit k1 ?e"
    using r True c by (simp_all add: emit_thinking_def)
  have "sound (u, k1) (t, k')"
    unfolding eq using cb by (intro thinking_delta_sound [of _ i]) (auto simp: sound_def event_def)
  with sound_trans [OF cb(1)] cb(2) True show ?thesis by (auto simp: eq same_data_def)
next
  case False
  then have eq: "t = s\<lparr>ss_prevThink := length (ss_thinking s)\<rparr>" "k' = k"
    using r by (auto simp: emit_thinking_def split: if_splits)
  have "openIndex s KThinking = None \<or> ss_prevThink s = length (ss_thinking s)"
    using False kimi inv by (auto simp: stream_inv_def)
  moreover have "part_value t = part_value s" unfolding eq by (rule part_value_cong) simp_all
  ultimately have "abs_stream t = abs_stream s"
    using inv unfolding eq
    by (auto simp: abs_stream_def closed_parts_def open_value_def openIndex_def Let_def call_value_def
        last_conv_nth stream_inv_def split: part_kind.splits if_splits)
  with grow_prev [OF inv] have "sound (s, k) (t, k')" by (simp add: eq sound_silent)
  moreover have "openIndex t KThinking = openIndex s KThinking" by (simp add: eq openIndex_def)
  ultimately show ?thesis using kimi by (simp add: eq)
qed

lemma emit_text_sound:
  assumes inv: "stream_inv s" and em: "ss_prevThink s = length (ss_thinking s)"
    and r: "emit_text (s, k) = (t, k')"
    and kimi: "IsKimiModel (ss_model s) \<Longrightarrow> openIndex s KThinking = None"
  shows "sound (s, k) (t, k') \<and> ss_prevText t = length (ss_text t) \<and> ss_prevThink t = length (ss_thinking t) \<and>
         ss_text t = ss_text s \<and> ss_thinking t = ss_thinking s \<and> ss_model t = ss_model s \<and>
         ss_lastToolCalls t = ss_lastToolCalls s \<and> ss_lastDetails t = ss_lastDetails s \<and>
         (IsKimiModel (ss_model s) \<longrightarrow> openIndex t KThinking = None)"
proof (cases "ss_prevText s < length (ss_text s)")
  case True
  have emd: "emitted s" if "openIndex s KText = None"
    using em True that inv
    by (auto simp: emitted_def openIndex_def Let_def stream_inv_def last_conv_nth split: part_kind.splits if_splits)
  obtain i u k1 where c: "continueOrBegin (s, k) KText (ss_prevText s) = (i, u, k1)" by (metis prod_cases3)
  have cb: "sound (s, k) (u, k1)" "same_data s u" "openIndex u KText = Some i"
    using continueOrBegin_sound [OF inv _ emd, of KText k i u k1] c by (auto simp: prev_of_def)
  let ?e = "(event EventTextDelta i)\<lparr>ev_Delta := drop (ss_prevText u) (ss_text u),
      ev_Partial := Some (st_partial u k1 [])\<rparr>"
  have eq: "t = u\<lparr>ss_prevText := length (ss_text u)\<rparr>" "k' = emit k1 ?e"
    using r True c by (simp_all add: emit_text_def)
  have "sound (u, k1) (t, k')"
    unfolding eq using cb by (intro text_delta_sound [of _ i]) (auto simp: sound_def event_def)
  moreover have "openIndex t KThinking = None"
    using cb(3) by (auto simp: eq openIndex_def Let_def split: if_splits)
  ultimately show ?thesis using sound_trans [OF cb(1)] cb(2) em by (auto simp: eq same_data_def)
next
  case False
  then have eq: "t = s" "k' = k"
    using r inv by (auto simp: emit_text_def stream_inv_def)
  with inv False em kimi show ?thesis by (simp add: sound_silent stream_inv_def)
qed

section \<open>Tool calls\<close>

lemma ok_cong:
  assumes "ss_prevText t = ss_prevText s" and "ss_prevThink t = ss_prevThink s"
  shows "part_ok t = part_ok s" "open_ok t = open_ok s"
  using assms by (auto simp: part_ok_def open_ok_def fun_eq_iff split: part_kind.split)

lemma inv_tracker:
  assumes "stream_inv s" and "dom (ss_tracker s) \<subseteq> dom tr"
  shows "stream_inv (s\<lparr>ss_tracker := tr\<rparr>)"
proof -
  let ?t = "s\<lparr>ss_tracker := tr\<rparr>"
  have "part_ok ?t = part_ok s" "open_ok ?t = open_ok s" by (rule ok_cong; simp)+
  moreover have "set (call_indices (ss_parts s)) \<subseteq> dom tr"
    using assms unfolding stream_inv_def by (meson subset_trans)
  ultimately show ?thesis using assms(1) by (simp add: stream_inv_def closed_parts_def)
qed

text \<open>Changes of the tracker that leave what is seen of the calls alone.\<close>

lemma tracker_silent:
  assumes inv: "stream_inv s" and eq: "\<And>api. api \<in> set (call_indices (ss_parts s)) \<Longrightarrow>
      call_value (s\<lparr>ss_tracker := tr\<rparr>) api = call_value s api"
    and "dom (ss_tracker s) \<subseteq> dom tr"
  shows "stream_inv (s\<lparr>ss_tracker := tr\<rparr>) \<and> abs_stream (s\<lparr>ss_tracker := tr\<rparr>) = abs_stream s"
proof -
  let ?t = "s\<lparr>ss_tracker := tr\<rparr>"
  have val: "part_value ?t p = part_value s p" "open_value ?t i p = open_value s i p"
    if "p \<in> set (ss_parts s)" for p i
    using eq [of "sp_apiIndex p"] that
    by (auto simp: part_value_def open_value_def split: part_kind.split)
  have sub: "set (closed_parts s) \<subseteq> set (ss_parts s)"
    by (auto simp: closed_parts_def dest: in_set_butlastD)
  then have "map (part_value ?t) (closed_parts s) = map (part_value s) (closed_parts s)" using val(1) by auto
  moreover have "ss_open s \<Longrightarrow> open_value ?t i (last (ss_parts s)) = open_value s i (last (ss_parts s))" for i
    using inv val(2) by (auto simp: stream_inv_def)
  moreover have "stream_inv ?t"
    using inv assms(3) by (rule inv_tracker)
  ultimately show ?thesis by (simp add: abs_stream_def closed_parts_def)
qed

lemma apply_details_sound:
  assumes "stream_inv s"
  shows "\<exists>tr. apply_details s = s\<lparr>ss_tracker := tr\<rparr> \<and> stream_inv (s\<lparr>ss_tracker := tr\<rparr>) \<and>
           abs_stream (s\<lparr>ss_tracker := tr\<rparr>) = abs_stream s"
proof -
  have "\<exists>tr. foldl (\<lambda>s detail. if openToolCallNamed s (rd_toolCallID detail)
          then s\<lparr>ss_tracker := setSignatureByID (ss_tracker s) (rd_toolCallID detail) (rd_detailJSON detail)\<rparr>
          else s) s ds = s\<lparr>ss_tracker := tr\<rparr> \<and> stream_inv (s\<lparr>ss_tracker := tr\<rparr>) \<and>
        abs_stream (s\<lparr>ss_tracker := tr\<rparr>) = abs_stream s" for ds
    using assms
  proof (induction ds arbitrary: s)
    case Nil
    then show ?case by (intro exI [of _ "ss_tracker s"]) simp
  next
    case (Cons d ds)
    let ?tr = "setSignatureByID (ss_tracker s) (rd_toolCallID d) (rd_detailJSON d)"
    have "stream_inv (s\<lparr>ss_tracker := ?tr\<rparr>) \<and> abs_stream (s\<lparr>ss_tracker := ?tr\<rparr>) = abs_stream s"
      using Cons.prems
      by (intro tracker_silent) (auto simp: call_value_def setSignatureByID_def split: option.split)
    with Cons.IH [of "s\<lparr>ss_tracker := ?tr\<rparr>"] Cons.IH [of s] Cons.prems show ?case by simp
  qed
  then show ?thesis by (simp add: apply_details_def)
qed

definition settled :: "streamState \<Rightarrow> bool" where
  "settled s \<longleftrightarrow> ss_prevText s = length (ss_text s) \<and> ss_prevThink s = length (ss_thinking s)"

lemma settled_emitted: "settled s \<Longrightarrow> emitted s"
  by (simp add: settled_def emitted_def split: part_kind.split)

lemma start_call_sound:
  assumes inv: "stream_inv s" and st: "settled s" and st': "te_isStart call" and new: "ss_tracker s (te_apiIndex call) = None"
    and r: "emit_call (s, k) call = (t, k')"
  shows "sound (s, k) (t, k') \<and> settled t \<and> ss_text t = ss_text s \<and> ss_thinking t = ss_thinking s \<and>
         ss_model t = ss_model s \<and> openIndex t KThinking = None"
proof -
  let ?api = "te_apiIndex call"
  obtain s1 k1 where cl: "close_part (s, k) = (s1, k1)" by fastforce
  from close_part_sound [OF inv settled_emitted [OF st], of k] cl
  have s1: "sound (s, k) (s1, k1)" "\<not> ss_open s1" "same_data s s1" by auto
  let ?tr = "startCall (ss_tracker s1) ?api (length (ss_parts s1)) (te_id call) (te_name call)"
  let ?u = "s1\<lparr>ss_tracker := ?tr\<rparr>"
  let ?p = "\<lparr>sp_kind = KToolCall, sp_start = 0, sp_end = 0, sp_apiIndex = ?api\<rparr>"
  let ?t = "?u\<lparr>ss_parts := ss_parts ?u @ [?p], ss_open := True\<rparr>"
  let ?t' = "?t\<lparr>ss_toolCalls := Suc (ss_toolCalls s1)\<rparr>"
  have inv1: "stream_inv s1" using s1(1) by (simp add: sound_def)
  have fresh: "?api \<notin> set (call_indices (ss_parts s1))" "ss_tracker s1 ?api = None"
    using inv1 new s1(3) by (auto simp: stream_inv_def same_data_def)
  have u: "stream_inv ?u" "abs_stream ?u = abs_stream s1"
  proof -
    have "call_value ?u api = call_value s1 api" if "api \<in> set (call_indices (ss_parts s1))" for api
      using that fresh(1) by (cases "api = ?api") (simp_all add: call_value_def startCall_def)
    moreover have "dom (ss_tracker s1) \<subseteq> dom ?tr" by (auto simp: startCall_def)
    ultimately show "stream_inv ?u" "abs_stream ?u = abs_stream s1" using tracker_silent [OF inv1] by blast+
  qed
  have tinv: "stream_inv ?t"
    using u(1) s1(2) fresh(1) by (intro begin_inv) (auto simp: open_ok_def startCall_def)
  let ?e = "(event EventToolCallStart (length (ss_parts s1)))\<lparr>ev_ID := te_id call, ev_Name := te_name call,
      ev_Partial := Some (st_partial ?t' k1 [])\<rparr>"
  have val: "open_value ?u (length (ss_parts ?u)) ?p =
      SeenOpen KToolCall (length (ss_parts s1)) (te_id call) (te_name call) []"
    by (simp add: open_value_def call_value_def startCall_def)
  have notopen: "\<not> ss_open ?u" using s1(2) by simp
  have abst: "abs_stream ?t = (abs_stream s1)\<lparr>sn_open := Some (SeenOpen KToolCall (length (ss_parts s1)) (te_id call) (te_name call) [])\<rparr>"
    unfolding begin_abs [OF notopen] val u(2) ..
  have "see (abs_stream s1) ?e = Some (abs_stream ?t)"
    unfolding abst using s1(2)
    by (subst see_start [of _ KToolCall]) (simp_all add: event_def kind_defs abs_stream_def closed_parts_def)
  moreover have "stream_inv ?t'" "abs_stream ?t' = abs_stream ?t"
    using grow_data [OF tinv, of ?t' "[]" "[]"] by simp_all
  ultimately have "sound (s1, k1) (?t', emit k1 ?e)" by (intro sound_one) simp_all
  moreover have "t = ?t'" "k' = emit k1 ?e"
    using r st' new cl by (auto simp: emit_call_def begin_part_def Let_def st_partial_def)
  ultimately show ?thesis
    using sound_trans [OF s1(1)] st s1(3) by (auto simp: settled_def same_data_def openIndex_def)
qed

lemma args_sound:
  assumes inv: "stream_inv s" and op: "openToolCall s api = Some i" and tr: "ss_tracker s api = Some c"
    and e: "ev_Kind e = EventToolCallDelta" "ev_ContentIndex e = i" "ev_Delta e = d"
  shows "sound (s, k) (s\<lparr>ss_tracker := (ss_tracker s)(api \<mapsto> c\<lparr>k_arguments := k_arguments c @ d\<rparr>)\<rparr>, emit k e)"
proof -
  let ?t = "s\<lparr>ss_tracker := (ss_tracker s)(api \<mapsto> c\<lparr>k_arguments := k_arguments c @ d\<rparr>)\<rparr>" and ?p = "last (ss_parts s)"
  have p: "ss_open s" "i = length (ss_parts s) - 1" "sp_kind ?p = KToolCall" "sp_apiIndex ?p = api" "ss_parts s \<noteq> []"
    using op openIndex_Some [of s KToolCall] inv
    by (auto simp: openToolCall_def stream_inv_def last_conv_nth split: option.splits if_splits)
  have "distinct (call_indices (butlast (ss_parts s) @ [?p]))"
    using inv p(5) by (simp add: stream_inv_def)
  then have notin: "api \<notin> set (call_indices (butlast (ss_parts s)))" using p(3,4) by auto
  then have val: "part_value ?t q = part_value s q" if "q \<in> set (butlast (ss_parts s))" for q
    using that by (auto simp: part_value_def call_value_def split: part_kind.split)
  have "stream_inv ?t" using inv by (rule inv_tracker) auto
  moreover have "see (abs_stream s) e = Some (abs_stream ?t)"
    using p e tr val
    by (subst see_delta [of _ KToolCall _ i "k_id c" "k_name c" "k_arguments c"])
      (simp_all add: kind_defs abs_stream_def open_value_def closed_parts_def call_value_def)
  ultimately show ?thesis by (intro sound_one)
qed

lemma emit_call_sound:
  assumes inv: "stream_inv s" and st: "settled s" and r: "emit_call (s, k) call = (t, k')"
    and kimi: "IsKimiModel (ss_model s) \<Longrightarrow> openIndex s KThinking = None"
  shows "sound (s, k) (t, k') \<and> settled t \<and> ss_text t = ss_text s \<and> ss_thinking t = ss_thinking s \<and>
         ss_model t = ss_model s \<and> (IsKimiModel (ss_model s) \<longrightarrow> openIndex t KThinking = None)"
proof -
  let ?api = "te_apiIndex call"
  consider (start) "te_isStart call" "ss_tracker s ?api = None"
    | (late) "\<not> te_isStart call" "te_hasArguments call" "openToolCall s ?api = None" "ss_tracker s ?api \<noteq> None"
    | (args) i where "\<not> te_isStart call" "te_hasArguments call" "openToolCall s ?api = Some i"
    | (idle) "t = s" "k' = k"
    using r by (fastforce simp: emit_call_def split: if_splits)
  then show ?thesis
  proof cases
    case start
    from start_call_sound [OF inv st start r] show ?thesis by auto
  next
    case late
    then have eq: "t = s\<lparr>ss_lateArguments := True\<rparr>" "k' = k" using r by (auto simp: emit_call_def)
    have "stream_inv t" "abs_stream t = abs_stream s"
      using grow_data [OF inv, of t "[]" "[]"] by (simp_all add: eq)
    moreover have "openIndex t KThinking = openIndex s KThinking" by (simp add: eq openIndex_def)
    ultimately show ?thesis using st kimi by (simp add: eq sound_silent settled_def)
  next
    case args
    have "sp_apiIndex (last (ss_parts s)) = ?api \<and> sp_kind (last (ss_parts s)) = KToolCall \<and> ss_parts s \<noteq> []"
      using args(3) openIndex_Some [of s KToolCall] inv
      by (auto simp: openToolCall_def stream_inv_def last_conv_nth split: option.splits if_splits)
    then have "?api \<in> set (call_indices (ss_parts s))" by force
    then obtain c where c: "ss_tracker s ?api = Some c" using inv by (auto simp: stream_inv_def)
    let ?t = "s\<lparr>ss_tracker := (ss_tracker s)(?api \<mapsto> c\<lparr>k_arguments := k_arguments c @ te_arguments call\<rparr>)\<rparr>"
    let ?e = "(event EventToolCallDelta i)\<lparr>ev_Delta := te_arguments call, ev_Partial := Some (st_partial ?t k [])\<rparr>"
    have eq: "t = ?t" "k' = emit k ?e" using r args c by (auto simp: emit_call_def appendDelta_def Let_def)
    have "sound (s, k) (?t, emit k ?e)"
      using inv args(3) c by (intro args_sound [of _ _ i]) (simp_all add: event_def)
    moreover have "openIndex t KThinking = openIndex s KThinking" by (simp add: eq openIndex_def)
    ultimately show ?thesis using st kimi by (simp add: eq settled_def)
  next
    case idle
    with inv st kimi show ?thesis by (simp add: sound_silent)
  qed
qed

section \<open>One chunk\<close>

definition good :: "streamState \<Rightarrow> bool" where
  "good s \<longleftrightarrow> stream_inv s \<and> settled s \<and> (IsKimiModel (ss_model s) \<longrightarrow> openIndex s KThinking = None)"

lemma emit_calls_sound:
  assumes "good s" and "foldl emit_call (s, k) calls = (t, k')"
  shows "sound (s, k) (t, k') \<and> good t"
  using assms
proof (induction calls arbitrary: s k)
  case Nil
  then show ?case by (simp add: good_def sound_silent)
next
  case (Cons c cs)
  obtain u k1 where u: "emit_call (s, k) c = (u, k1)" by fastforce
  have g: "stream_inv s" "settled s" "IsKimiModel (ss_model s) \<Longrightarrow> openIndex s KThinking = None"
    using Cons.prems(1) by (auto simp: good_def)
  from emit_call_sound [OF g(1,2) u g(3)] have step: "sound (s, k) (u, k1)" "good u"
    by (auto simp: good_def sound_def)
  have "foldl emit_call (u, k1) cs = (t, k')" using Cons.prems(2) u by simp
  with Cons.IH [OF step(2)] sound_trans [OF step(1)] show ?case by blast
qed

lemma tracker_fields:
  "openIndex (s\<lparr>ss_tracker := tr\<rparr>) kind = openIndex s kind" "settled (s\<lparr>ss_tracker := tr\<rparr>) = settled s"
  by (simp_all add: openIndex_def settled_def)

lemma last_fields:
  assumes "stream_inv s"
  shows "stream_inv (s\<lparr>ss_lastToolCalls := a, ss_lastDetails := b\<rparr>)"
    "abs_stream (s\<lparr>ss_lastToolCalls := a, ss_lastDetails := b\<rparr>) = abs_stream s"
    "settled (s\<lparr>ss_lastToolCalls := a, ss_lastDetails := b\<rparr>) = settled s"
    "openIndex (s\<lparr>ss_lastToolCalls := a, ss_lastDetails := b\<rparr>) kind = openIndex s kind"
  using grow_data [OF assms, of "s\<lparr>ss_lastToolCalls := a, ss_lastDetails := b\<rparr>" "[]" "[]"]
  by (simp_all add: settled_def openIndex_def)

lemma emitFor_sound:
  assumes inv: "stream_inv s" and one: "ss_prevThink s < length (ss_thinking s) \<Longrightarrow> ss_prevText s = length (ss_text s)"
    and kimi: "IsKimiModel (ss_model s) \<Longrightarrow> openIndex s KThinking = None"
  shows "sound (s, k) (emitFor (s, k)) \<and> good (fst (emitFor (s, k)))"
proof -
  obtain tr where d: "apply_details s = s\<lparr>ss_tracker := tr\<rparr>" "stream_inv (s\<lparr>ss_tracker := tr\<rparr>)"
    "abs_stream (s\<lparr>ss_tracker := tr\<rparr>) = abs_stream s"
    using apply_details_sound [OF inv] by blast
  let ?s0 = "s\<lparr>ss_tracker := tr\<rparr>"
  have snd0: "sound (s, k) (?s0, k)" using d by (intro sound_silent)
  obtain s1 k1 where e1: "emit_thinking (?s0, k) = (s1, k1)" by fastforce
  have r1: "sound (?s0, k) (s1, k1)" "ss_prevThink s1 = length (ss_thinking s1)" "ss_model s1 = ss_model s"
    "IsKimiModel (ss_model s) \<Longrightarrow> openIndex s1 KThinking = None" "stream_inv s1"
    using emit_thinking_sound [OF d(2) _ e1] one kimi by (auto simp: tracker_fields sound_def)
  obtain s2 k2 where e2: "emit_text (s1, k1) = (s2, k2)" by fastforce
  have r2: "sound (s1, k1) (s2, k2)" "good s2"
    using emit_text_sound [OF r1(5,2) e2] r1 by (auto simp: good_def settled_def sound_def)
  obtain s3 k3 where e3: "foldl emit_call (s2, k2) (ss_lastToolCalls s2) = (s3, k3)" by fastforce
  from emit_calls_sound [OF r2(2) e3] have r3: "sound (s2, k2) (s3, k3)" "good s3" by auto
  obtain tr' where d': "apply_details s3 = s3\<lparr>ss_tracker := tr'\<rparr>" "stream_inv (s3\<lparr>ss_tracker := tr'\<rparr>)"
    "abs_stream (s3\<lparr>ss_tracker := tr'\<rparr>) = abs_stream s3"
    using apply_details_sound [of s3] r3(2) by (auto simp: good_def)
  let ?t = "(s3\<lparr>ss_tracker := tr'\<rparr>)\<lparr>ss_lastToolCalls := [], ss_lastDetails := []\<rparr>"
  have eq: "emitFor (s, k) = (?t, k3)" by (simp add: emitFor_def d(1) e1 e2 e3 d'(1))
  note lf = last_fields [OF d'(2), of "[]" "[]"]
  have fin: "sound (s3, k3) (?t, k3)" using lf(1,2) d'(3) by (intro sound_silent) simp_all
  have "stream_inv ?t" "settled ?t" "openIndex ?t KThinking = openIndex s3 KThinking" "ss_model ?t = ss_model s3"
    using lf r3(2) by (simp_all add: tracker_fields good_def)
  then have "good ?t" using r3(2) by (simp add: good_def)
  with sound_trans [OF snd0 sound_trans [OF r1(1) sound_trans [OF r2(1) sound_trans [OF r3(1) fin]]]] eq
  show ?thesis by simp
qed

text \<open>A chunk brings text or thinking, never both.\<close>

lemma chunk_delta_one:
  "cr_textDelta r = [] \<Longrightarrow> cr_thinkDelta r = [] \<Longrightarrow>
     cr_textDelta (chunk_delta je d r) = [] \<or> cr_thinkDelta (chunk_delta je d r) = []"
  by (auto simp: chunk_delta_def Let_def split: option.splits prod.splits)

lemma parse_one:
  "cr_textDelta (parseChunkWithUsage je data u) = [] \<or> cr_thinkDelta (parseChunkWithUsage je data u) = []"
  unfolding parseChunkWithUsage_def Let_def
  by (simp add: chunkResult_zero_def chunk_delta_one split: option.split list.split)

lemma chunk_sound:
  assumes g: "good s" and t: "t = applyData je (s\<lparr>ss_lastToolCalls := [], ss_lastDetails := []\<rparr>) data"
  shows "sound (s, k) (emitFor (t, k)) \<and> good (fst (emitFor (t, k)))"
proof -
  let ?r = "parseChunkWithUsage je data (ss_usage s)"
  have f: "ss_parts t = ss_parts s" "ss_open t = ss_open s" "ss_tracker t = ss_tracker s"
    "ss_prevText t = ss_prevText s" "ss_prevThink t = ss_prevThink s" "ss_model t = ss_model s"
    "ss_text t = ss_text s @ cr_textDelta ?r" "ss_thinking t = ss_thinking s @ cr_thinkDelta ?r"
    by (simp_all add: t applyData_def Let_def split: option.split)
  have inv: "stream_inv s" "settled s" using g by (auto simp: good_def)
  have ta: "stream_inv t" "abs_stream t = abs_stream s" using grow_data [OF inv(1) f(1-5,7,8)] by auto
  have one: "ss_prevThink t < length (ss_thinking t) \<Longrightarrow> ss_prevText t = length (ss_text t)"
    using parse_one [of je data "ss_usage s"] inv(2) f by (auto simp: settled_def)
  have kimi: "IsKimiModel (ss_model t) \<Longrightarrow> openIndex t KThinking = None"
  proof -
    have "openIndex t KThinking = openIndex s KThinking" using f by (simp add: openIndex_def)
    then show "IsKimiModel (ss_model t) \<Longrightarrow> openIndex t KThinking = None" using g f by (simp add: good_def)
  qed
  have "sound (s, k) (t, k)" using ta by (intro sound_silent)
  with emitFor_sound [OF ta(1) one kimi] sound_trans show ?thesis by blast
qed

section \<open>The end of a stream\<close>

lemma covered_le:
  assumes "stream_inv s" and "\<not> ss_open s"
  shows "covered s KThinking \<le> ss_prevThink s"
proof -
  have "foldl (\<lambda>c part. if sp_kind part = KThinking then sp_end part else c) c ps \<le> n"
    if "c \<le> n" "\<forall>p \<in> set ps. sp_kind p = KThinking \<longrightarrow> sp_end p \<le> n" for c n ps
    using that by (induction ps arbitrary: c) auto
  then show ?thesis
    using assms by (auto simp: covered_def stream_inv_def closed_parts_def part_ok_def split: part_kind.splits)
qed

lemma finishThinkingTail_sound:
  assumes inv: "stream_inv s" and st: "settled s" and cl: "\<not> ss_open s"
    and r: "finishThinkingTail (s, k) = (t, k')"
  shows "sound (s, k) (t, k') \<and> \<not> ss_open t"
proof (cases "length (ss_thinking s) \<le> covered s KThinking")
  case True
  with r inv cl show ?thesis by (simp add: finishThinkingTail_def sound_silent)
next
  case False
  let ?start = "covered s KThinking" and ?i = "length (ss_parts s)"
  let ?p = "\<lparr>sp_kind = KThinking, sp_start = ?start, sp_end = 0, sp_apiIndex = 0\<rparr>"
  let ?u = "s\<lparr>ss_parts := ss_parts s @ [?p], ss_open := True\<rparr>"
  let ?e1 = "(event EventThinkingStart ?i)\<lparr>ev_Partial := Some (st_partial ?u k [])\<rparr>"
  let ?e2 = "(event EventThinkingDelta ?i)\<lparr>ev_Delta := drop ?start (ss_thinking s),
      ev_Partial := Some (st_partial ?u (emit k ?e1) [])\<rparr>"
  have eq: "(t, k') = close_part (?u, emit (emit k ?e1) ?e2)"
    using r False cl
    by (simp add: finishThinkingTail_def continueOrBegin_def begin_part_def close_part_idle openIndex_def Let_def)
  have uinv: "stream_inv ?u"
    using covered_le [OF inv cl] inv cl by (intro begin_inv) (auto simp: open_ok_def)
  have "emitted ?u" using st by (simp add: emitted_def settled_def)
  from close_part_sound [OF uinv this] eq
  have fin: "sound (?u, emit (emit k ?e1) ?e2) (t, k')" "\<not> ss_open t" by (metis fst_conv)+
  have s1: "see (abs_stream s) ?e1 = Some ((abs_stream s)\<lparr>sn_open := Some (SeenOpen KThinking ?i [] [] [])\<rparr>)"
    using cl by (subst see_start [of _ KThinking]) (simp_all add: event_def kind_defs abs_stream_def closed_parts_def)
  have s2: "see ((abs_stream s)\<lparr>sn_open := Some (SeenOpen KThinking ?i [] [] [])\<rparr>) ?e2 =
      Some ((abs_stream s)\<lparr>sn_open := Some (SeenOpen KThinking ?i [] [] (drop ?start (ss_thinking s)))\<rparr>)"
    by (subst see_delta [of _ KThinking _ ?i "[]" "[]" "[]"]) (simp_all add: event_def kind_defs)
  have "open_value s ?i ?p = SeenOpen KThinking ?i [] [] (drop ?start (ss_thinking s))"
    using st by (simp add: open_value_def settled_def go_slice_def)
  then have "see_all (abs_stream s) [?e1, ?e2] = Some (abs_stream ?u)"
    using s1 s2 by (simp add: begin_abs [OF cl])
  then have "sound (s, k) (?u, emit (emit k ?e1) ?e2)"
    using uinv by (auto simp: sound_def emit_def)
  with sound_trans fin show ?thesis by blast
qed

lemma block_value_block: "block_value (block s p) = Some (part_value s p)"
  by (cases "sp_kind p")
    (simp_all add: block_value_def block_def part_value_def call_value_def completeCall_def ToolCall_zero_def
      split: option.split)

text \<open>What ends a stream: an error, or a message that is what was seen.\<close>

definition terminal_ok :: "seen \<Rightarrow> Event \<Rightarrow> bool" where
  "terminal_ok sn e \<longleftrightarrow>
     ev_Kind e = EventError \<or>
     (ev_Kind e = EventDone \<and> sn_open sn = None \<and>
      (case ev_Message e of
         None \<Rightarrow> False
       | Some m \<Rightarrow>
           if sn_blocks sn = [] then map block_value (pm_Content m) = [Some (SeenText [])]
           else map block_value (pm_Content m) = map Some (sn_blocks sn)))"

definition ends_well :: "streamState \<times> EventSink \<Rightarrow> EventSink \<Rightarrow> bool" where
  "ends_well sk k' \<longleftrightarrow>
     (\<exists>es e sn. sk_events k' = sk_events (snd sk) @ es @ [e] \<and>
               see_all (abs_stream (fst sk)) es = Some sn \<and> terminal_ok sn e)"

lemma ends_well_sound: "sound a b \<Longrightarrow> ends_well b k' \<Longrightarrow> ends_well a k'"
  unfolding sound_def ends_well_def
proof (elim conjE exE)
  fix es fs e sn
  assume "sk_events (snd b) = sk_events (snd a) @ es" "see_all (abs_stream (fst a)) es = Some (abs_stream (fst b))"
    "sk_events k' = sk_events (snd b) @ fs @ [e]" "see_all (abs_stream (fst b)) fs = Some sn" "terminal_ok sn e"
  then have "sk_events k' = sk_events (snd a) @ (es @ fs) @ [e]" "see_all (abs_stream (fst a)) (es @ fs) = Some sn"
    by (simp_all add: see_all_append)
  with \<open>terminal_ok sn e\<close> show "\<exists>es e sn. sk_events k' = sk_events (snd a) @ es @ [e] \<and>
      see_all (abs_stream (fst a)) es = Some sn \<and> terminal_ok sn e" by blast
qed

lemma fail_ends_well: "ends_well (s, k) (sink_fail k reason)"
  unfolding ends_well_def
  by (intro exI [of _ "[]"] exI [of _ "(event EventError 0)\<lparr>ev_Reason := reason\<rparr>"])
    (simp add: sink_fail_def emit_def terminal_ok_def event_def)

lemma finish_ends_well:
  assumes g: "good s"
  shows "ends_well (s, k) (finish fu (s, k))"
proof -
  let ?s0 = "finish_usage fu s"
  have inv: "stream_inv s" "settled s" using g by (auto simp: good_def)
  have u: "stream_inv ?s0" "abs_stream ?s0 = abs_stream s"
    using grow_data [OF inv(1), of ?s0 "[]" "[]"] by (simp_all add: finish_usage_def Let_def)
  have st0: "settled ?s0" using inv(2) by (simp add: settled_def finish_usage_def Let_def)
  obtain s1 k1 where e1: "close_part (?s0, k) = (s1, k1)" by fastforce
  from close_part_sound [OF u(1) settled_emitted [OF st0], of k] e1
  have r1: "sound (?s0, k) (s1, k1)" "\<not> ss_open s1" "same_data ?s0 s1" by auto
  obtain s2 k2 where e2: "finishThinkingTail (s1, k1) = (s2, k2)" by fastforce
  have "settled s1" "stream_inv s1" using r1 st0 by (auto simp: settled_def same_data_def sound_def)
  from finishThinkingTail_sound [OF this(2,1) r1(2) e2] have r2: "sound (s1, k1) (s2, k2)" "\<not> ss_open s2" by auto
  let ?content = "map (block s2) (ss_parts s2)"
  let ?c = "if ?content = [] then [\<lparr>ab_Text = Some [], ab_Thinking = None, ab_ToolCall = None\<rparr>] else ?content"
  let ?e = "(event EventDone 0)\<lparr>ev_Message := Some (st_partial s2 k2 ?c)\<rparr>"
  have fin: "finish fu (s, k) = emit k2 ?e"
    by (simp add: finish_def e1 e2 Let_def)
  have "terminal_ok (abs_stream s2) ?e"
    using r2(2) by (simp add: terminal_ok_def event_def abs_stream_def closed_parts_def st_partial_def
        block_value_block) (simp add: block_value_def)
  then have "ends_well (s2, k2) (finish fu (s, k))"
    unfolding ends_well_def fin
    by (intro exI [of _ "[]"] exI [of _ ?e] exI [of _ "abs_stream s2"]) (simp add: emit_def)
  moreover have "sound (s, k) (?s0, k)" using u by (intro sound_silent)
  ultimately show ?thesis using r1(1) r2(1) ends_well_sound by blast
qed

section \<open>The loop\<close>

lemma ping_sound:
  assumes "stream_inv s" and "ping env round lp k = (k', lp')"
  shows "sound (s, k) (s, k')"
proof (cases "k' = k")
  case True
  with assms(1) show ?thesis by (simp add: sound_silent)
next
  case False
  then have "k' = emit k (event EventKeepalive 0)" using assms(2) by (auto simp: ping_def split: if_splits)
  moreover have "see (abs_stream s) (event EventKeepalive 0) = Some (abs_stream s)"
    by (simp add: see_def event_def)
  ultimately show ?thesis using assms(1) by (simp add: sound_one)
qed

lemma stream_events_sound:
  assumes "good s"
  shows "case stream_events env tick (s, k) es of
           Inl k' \<Rightarrow> ends_well (s, k) k'
         | Inr (tick', t, k') \<Rightarrow> sound (s, k) (t, k') \<and> good t"
  using assms
proof (induction es arbitrary: tick s k)
  case Nil
  then show ?case by (simp add: good_def sound_silent)
next
  case (Cons e es)
  let ?t = "applyData (se_json env) (s\<lparr>ss_lastToolCalls := [], ss_lastDetails := []\<rparr>) (ev_Data e)"
  obtain u k1 where u: "emitFor (?t, k) = (u, k1)" by fastforce
  from chunk_sound [OF Cons.prems refl, where je = "se_json env" and data = "ev_Data e" and k = k] u
  have step: "sound (s, k) (u, k1)" "good u" by auto
  show ?case
  proof (cases "se_cancelled env tick \<or> ss_lateArguments u")
    case True
    with u step fail_ends_well ends_well_sound show ?thesis by (auto simp: Let_def)
  next
    case False
    from Cons.IH [OF step(2), where tick = "Suc tick" and k = k1] False u step(1) show ?thesis
      by (auto simp: Let_def split: sum.splits intro: ends_well_sound sound_trans)
  qed
qed

lemma stream_loop_ends_well:
  assumes "good s"
  shows "ends_well (s, k) (stream_loop env round tick lp parser (s, k) reads)"
  using assms
proof (induction reads arbitrary: round tick lp parser s k)
  case Nil
  obtain k1 lp1 where p: "ping env round lp k = (k1, lp1)" by fastforce
  have "sound (s, k) (s, k1)" using ping_sound [OF _ p] Nil by (simp add: good_def)
  moreover have "ends_well (s, k1) (stream_loop env round tick lp parser (s, k) [])"
    using p fail_ends_well finish_ends_well [OF Nil] by simp
  ultimately show ?case by (rule ends_well_sound)
next
  case (Cons r rs)
  obtain k1 lp1 where p: "ping env round lp k = (k1, lp1)" by fastforce
  have snd1: "sound (s, k) (s, k1)" using ping_sound [OF _ p] Cons.prems by (simp add: good_def)
  have "ends_well (s, k1) (stream_loop env round tick lp parser (s, k) (r # rs))"
  proof (cases "se_cancelled env tick \<or> r = ReadError \<or> r = Chunk []")
    case True
    then show ?thesis using p fail_ends_well finish_ends_well [OF Cons.prems] by auto
  next
    case False
    then obtain chunk where c: "r = Chunk chunk" "chunk \<noteq> []" by (cases r) auto
    obtain res parser1 where f: "Feed parser chunk = (res, parser1)" by fastforce
    show ?thesis
    proof (cases res)
      case (Inl err)
      then show ?thesis using False c f p fail_ends_well by simp
    next
      case (Inr events)
      note ev = stream_events_sound [OF Cons.prems, where env = env and tick = "Suc tick" and k = k1 and es = events]
      show ?thesis
      proof (cases "stream_events env (Suc tick) (s, k1) events")
        case (Inl k2)
        with ev Inr False c f p show ?thesis by simp
      next
        case inr: (Inr x)
        obtain tick2 t k2 where x: "x = (tick2, t, k2)" by (metis prod_cases3)
        from ev inr x have "sound (s, k1) (t, k2)" "good t" by auto
        with Cons.IH [OF this(2), where k = k2 and round = "Suc round" and tick = tick2 and lp = lp1 and parser = parser1] ends_well_sound
        show ?thesis using Inr inr x False c f p by auto
      qed
    qed
  qed
  with snd1 show ?case by (rule ends_well_sound)
qed

section \<open>Properties\<close>

definition seen_nothing :: seen where
  "seen_nothing = \<lparr>sn_blocks = [], sn_open = None\<rparr>"

lemma new_good: "good (newStreamState fu now model)" "abs_stream (newStreamState fu now model) = seen_nothing"
  by (simp_all add: newStreamState_def good_def stream_inv_def settled_def closed_parts_def openIndex_def
      abs_stream_def seen_nothing_def)

definition is_terminal_event :: "Event \<Rightarrow> bool" where
  "is_terminal_event e \<longleftrightarrow> ev_Kind e = EventDone \<or> ev_Kind e = EventError"

lemma see_all_not_terminal: "see_all sn es = Some sn' \<Longrightarrow> e \<in> set es \<Longrightarrow> \<not> is_terminal_event e \<and> ev_Kind e \<noteq> EventStart"
proof (induction es arbitrary: sn)
  case (Cons a es)
  then obtain sn1 where s: "see sn a = Some sn1" "see_all sn1 es = Some sn'" by (auto split: option.splits)
  from s(1) have "\<not> is_terminal_event a \<and> ev_Kind a \<noteq> EventStart"
    by (auto simp: see_def is_terminal_event_def kind_defs split: EventKind.splits option.splits seen_open.splits)
  with Cons s(2) show ?case by auto
qed simp

lemma stream_shape:
  "\<exists>body last sn. sk_events (Stream env model reads EventSink_new) =
       startEvent (je_float (se_json env)) (newStreamState (je_float (se_json env)) (se_now env) model) EventSink_new
         # body @ [last] \<and>
     see_all seen_nothing body = Some sn \<and> terminal_ok sn last"
proof -
  let ?fu = "je_float (se_json env)" and ?k = EventSink_new
  let ?s = "newStreamState ?fu (se_now env) model"
  have "ends_well (?s, emit ?k (startEvent ?fu ?s ?k)) (Stream env model reads ?k)"
    unfolding Stream_def Let_def by (rule stream_loop_ends_well [OF new_good(1)])
  then show ?thesis by (auto simp: ends_well_def new_good(2) emit_def EventSink_new_def)
qed

text \<open>C20. The events of a chat stream are well formed, whatever the provider sends, wherever the
  body is cut, and whenever the caller cancels: a start event, then parts that are numbered
  from zero and neither overlap nor interleave (each a start, deltas of the same kind and
  index, and an end that repeats the sum of the deltas), and then exactly one terminal event,
  the last one, which is an error or comes when every part has ended.\<close>

theorem chat_stream_well_formed:
  "\<exists>first body last sn.
     sk_events (Stream env model reads EventSink_new) = first # body @ [last] \<and>
     ev_Kind first = EventStart \<and> see_all seen_nothing body = Some sn \<and>
     filter is_terminal_event (sk_events (Stream env model reads EventSink_new)) = [last] \<and>
     (ev_Kind last = EventError \<or> ev_Kind last = EventDone \<and> sn_open sn = None)"
proof -
  let ?fu = "je_float (se_json env)" and ?s = "newStreamState (je_float (se_json env)) (se_now env) model"
  obtain body l sn where b: "sk_events (Stream env model reads EventSink_new) = startEvent ?fu ?s EventSink_new # body @ [l]"
    "see_all seen_nothing body = Some sn" "terminal_ok sn l"
    using stream_shape [of env model reads] by blast
  have "filter is_terminal_event body = []"
    using see_all_not_terminal [OF b(2)] by (auto simp: filter_empty_conv)
  moreover have "is_terminal_event l" using b(3) by (auto simp: terminal_ok_def is_terminal_event_def)
  moreover have "ev_Kind (startEvent ?fu ?s EventSink_new) = EventStart" by (simp add: startEvent_def event_def)
  moreover from this have "\<not> is_terminal_event (startEvent ?fu ?s EventSink_new)" by (simp add: is_terminal_event_def)
  moreover have "ev_Kind l = EventError \<or> ev_Kind l = EventDone \<and> sn_open sn = None"
    using b(3) by (auto simp: terminal_ok_def)
  ultimately show ?thesis using b(1,2) by (intro exI conjI) simp_all
qed

text \<open>C21. The final message is the sum of the deltas: when a chat stream ends well, the message of
  its last event has exactly the blocks a consumer of the events has seen end, in order, with
  the same text, the same thinking and the same tool calls; a stream that showed nothing ends
  with one empty text.\<close>

theorem chat_message_is_sum_of_deltas:
  assumes "ev_Kind (last (sk_events (Stream env model reads EventSink_new))) = EventDone"
  shows "\<exists>m sn. ev_Message (last (sk_events (Stream env model reads EventSink_new))) = Some m \<and>
           see_all seen_nothing (tl (butlast (sk_events (Stream env model reads EventSink_new)))) = Some sn \<and>
           map block_value (pm_Content m) =
             (if sn_blocks sn = [] then [Some (SeenText [])] else map Some (sn_blocks sn))"
proof -
  obtain f body l sn where b: "sk_events (Stream env model reads EventSink_new) = f # body @ [l]"
    "see_all seen_nothing body = Some sn" "terminal_ok sn l"
    using stream_shape [of env model reads] by blast
  with assms show ?thesis by (auto simp: terminal_ok_def butlast_append split: option.splits if_splits)
qed

text \<open>A small provider for the witnesses: two chunks of text, fixed by their bodies.\<close>

definition demo_floats :: float_unit where
  "demo_floats = \<lparr>fu_of_int = (\<lambda>_. 0), fu_to_int = (\<lambda>_. 0), fu_million = 0, fu_div = (\<lambda>_ _. 0),
     fu_mul = (\<lambda>_ _. 0), fu_add = (\<lambda>_ _. 0), fu_zero = 0\<rparr>"

definition demo_json :: json_env where
  "demo_json = \<lparr>je_parse = (\<lambda>data. Some (JObj [(''choices'', JArr [JObj [(''delta'', JObj [(''content'', JStr data)])]])])),
     je_encodeString = (\<lambda>s. s), je_float = demo_floats\<rparr>"

definition demo_stream :: stream_env where
  "demo_stream = \<lparr>se_json = demo_json, se_now = (\<lambda>_. 0), se_ping_now = (\<lambda>_. 0), se_pingMillis = 0,
     se_cancelled = (\<lambda>_. False)\<rparr>"

definition demo_model :: Model where
  "demo_model = \<lparr>md_ID = ''m'', md_API = [], md_Provider = [], md_BaseURL = [], md_HasBaseURL = False,
     md_Cost = Cost_zero demo_floats\<rparr>"

definition demo_body :: bytes where
  "demo_body = ''data: a'' @ [LF, LF] @ ''data: b'' @ [LF, LF]"

theorem chat_message_is_sum_of_deltas_witness:
  "ev_Kind (last (sk_events (Stream demo_stream demo_model [Chunk demo_body] EventSink_new))) = EventDone \<and>
   (\<exists>m. ev_Message (last (sk_events (Stream demo_stream demo_model [Chunk demo_body] EventSink_new))) = Some m \<and>
        map block_value (pm_Content m) = [Some (SeenText ''ab'')])"
proof -
  have kind: "ev_Kind (last (sk_events (Stream demo_stream demo_model [Chunk demo_body] EventSink_new))) = EventDone"
    by code_simp
  have seen: "see_all seen_nothing (tl (butlast (sk_events (Stream demo_stream demo_model [Chunk demo_body] EventSink_new)))) =
      Some \<lparr>sn_blocks = [SeenText ''ab''], sn_open = None\<rparr>"
    by code_simp
  from chat_message_is_sum_of_deltas [OF kind] seen kind show ?thesis by auto
qed

text \<open>Every slice the state takes of its text is in range: after any number of the stream's
  events, every part that has ended lies inside the text, or the thinking, accumulated so far,
  the open part is there when the state says one is open, and it starts inside.\<close>

lemma chat_slices_in_range:
  assumes "stream_events env tick (newStreamState fu now model, sink) es = Inr (tick', s, sink')"
  shows "(\<forall>p \<in> set (closed_parts s).
            (sp_kind p = KText \<longrightarrow> sp_start p \<le> sp_end p \<and> sp_end p \<le> length (ss_text s)) \<and>
            (sp_kind p = KThinking \<longrightarrow> sp_start p \<le> sp_end p \<and> sp_end p \<le> length (ss_thinking s))) \<and>
         (ss_open s \<longrightarrow> ss_parts s \<noteq> [] \<and>
            (sp_kind (last (ss_parts s)) = KText \<longrightarrow> sp_start (last (ss_parts s)) \<le> length (ss_text s)) \<and>
            (sp_kind (last (ss_parts s)) = KThinking \<longrightarrow> sp_start (last (ss_parts s)) \<le> length (ss_thinking s)))"
proof -
  have "good s" using stream_events_sound [OF new_good(1) [of fu now model], where env = env and tick = tick and k = sink and es = es] assms by simp
  then have inv: "stream_inv s" by (simp add: good_def)
  show ?thesis
  proof (intro conjI ballI impI)
    fix p assume "p \<in> set (closed_parts s)"
    then have "part_ok s p" using inv by (simp add: stream_inv_def)
    then show "sp_kind p = KText \<Longrightarrow> sp_start p \<le> sp_end p" "sp_kind p = KText \<Longrightarrow> sp_end p \<le> length (ss_text s)"
      "sp_kind p = KThinking \<Longrightarrow> sp_start p \<le> sp_end p" "sp_kind p = KThinking \<Longrightarrow> sp_end p \<le> length (ss_thinking s)"
      using inv by (auto simp: part_ok_def stream_inv_def)
  qed (use inv in \<open>auto simp: stream_inv_def open_ok_def\<close>)
qed

end
