(* ===== verification/Anthropic_Stream.thy ===== *)
theory Anthropic_Stream
  imports Chat_Stream Go_Codec
begin

text \<open>
  The stream of the Anthropic messages API, \<^verbatim>\<open>go/internal/provider/anthropic_stream.go\<close>: the
  parser of one event, the state and its \<^verbatim>\<open>apply\<close>, and the loop \<^verbatim>\<open>StreamAnthropic\<close>.

  Unlike the chat stream this one follows the block boundaries the provider sends, so that its
  events are well nested when the provider's are (\<open>orderly\<close>); the other theorems hold for
  every input.
\<close>

section \<open>Events\<close>

datatype anthropicEventKind =
    anthropicNone | anthropicMessageStart | anthropicBlockStart | anthropicBlockDelta
  | anthropicBlockStop | anthropicMessageDelta | anthropicMessageStop | anthropicAPIError

datatype anthropicBlockType = blockText | blockThinking | blockToolUse

datatype anthropicDeltaType = deltaNone | deltaText | deltaThinking | deltaSignature | deltaInputJSON

record anthropicEvent =
  ae_kind :: anthropicEventKind
  ae_blockType :: anthropicBlockType
  ae_deltaType :: anthropicDeltaType
  ae_index :: int
  ae_text :: bytes
  ae_toolID :: bytes
  ae_toolName :: bytes
  ae_usage :: Usage
  ae_stop :: bytes
  ae_errMsg :: bytes

text \<open>The zero event of a kind; the block type is only read of a block start, which sets it.\<close>

definition ant_event :: "float_unit \<Rightarrow> anthropicEventKind \<Rightarrow> anthropicEvent" where
  "ant_event fu kind = \<lparr>ae_kind = kind, ae_blockType = blockText, ae_deltaType = deltaNone, ae_index = 0,
     ae_text = [], ae_toolID = [], ae_toolName = [], ae_usage = Usage_zero fu, ae_stop = [], ae_errMsg = []\<rparr>"

definition int_or_zero :: "float_unit \<Rightarrow> json \<Rightarrow> int" where
  "int_or_zero fu v = (case asInt fu v of Some n \<Rightarrow> n | None \<Rightarrow> 0)"

definition string_or_empty :: "json \<Rightarrow> bytes" where
  "string_or_empty v = (case asString v of Some s \<Rightarrow> s | None \<Rightarrow> [])"

definition parse_message_start :: "float_unit \<Rightarrow> json_object \<Rightarrow> anthropicEvent" where
  "parse_message_start fu root =
     (case asObject (jget root ''message'') of
        None \<Rightarrow> ant_event fu anthropicNone
      | Some message \<Rightarrow>
          (case asObject (jget message ''usage'') of
             None \<Rightarrow> ant_event fu anthropicNone
           | Some usage \<Rightarrow>
               (ant_event fu anthropicMessageStart)\<lparr>ae_usage :=
                  (Usage_zero fu)\<lparr>u_InputTokens := int_or_zero fu (jget usage ''input_tokens''),
                     u_OutputTokens := int_or_zero fu (jget usage ''output_tokens''),
                     u_CacheReadTokens := int_or_zero fu (jget usage ''cache_read_input_tokens''),
                     u_CacheWriteTokens := int_or_zero fu (jget usage ''cache_creation_input_tokens'')\<rparr>\<rparr>))"

definition block_type :: "bytes \<Rightarrow> anthropicBlockType option" where
  "block_type raw =
     (if raw = ''text'' then Some blockText
      else if raw = ''thinking'' then Some blockThinking
      else if raw = ''tool_use'' then Some blockToolUse
      else None)"

definition parse_block_start :: "float_unit \<Rightarrow> json_object \<Rightarrow> anthropicEvent" where
  "parse_block_start fu root =
     (case (asInt fu (jget root ''index''), asObject (jget root ''content_block'')) of
        (Some index, Some blk) \<Rightarrow>
          (case Option.bind (asString (jget blk ''type'')) block_type of
             None \<Rightarrow> ant_event fu anthropicNone
           | Some bt \<Rightarrow>
               (let e = (ant_event fu anthropicBlockStart)\<lparr>ae_blockType := bt, ae_index := index\<rparr>
                in if bt = blockToolUse
                   then e\<lparr>ae_toolID := string_or_empty (jget blk ''id''),
                          ae_toolName := string_or_empty (jget blk ''name'')\<rparr>
                   else e))
      | _ \<Rightarrow> ant_event fu anthropicNone)"

text \<open>The member a delta of each type is read from.\<close>

definition delta_member :: "bytes \<Rightarrow> (anthropicDeltaType \<times> bytes) option" where
  "delta_member raw =
     (if raw = ''text_delta'' then Some (deltaText, ''text'')
      else if raw = ''thinking_delta'' then Some (deltaThinking, ''thinking'')
      else if raw = ''signature_delta'' then Some (deltaSignature, ''signature'')
      else if raw = ''input_json_delta'' then Some (deltaInputJSON, ''partial_json'')
      else None)"

definition parse_block_delta :: "float_unit \<Rightarrow> json_object \<Rightarrow> anthropicEvent" where
  "parse_block_delta fu root =
     (case (asInt fu (jget root ''index''), asObject (jget root ''delta'')) of
        (Some index, Some delta) \<Rightarrow>
          (case asString (jget delta ''type'') of
             None \<Rightarrow> ant_event fu anthropicNone
           | Some raw \<Rightarrow>
               (let e = (ant_event fu anthropicBlockDelta)\<lparr>ae_index := index\<rparr>
                in case delta_member raw of
                     None \<Rightarrow> e
                   | Some (dt, key) \<Rightarrow>
                       (case asString (jget delta key) of
                          None \<Rightarrow> e
                        | Some v \<Rightarrow> e\<lparr>ae_deltaType := dt, ae_text := v\<rparr>)))
      | _ \<Rightarrow> ant_event fu anthropicNone)"

definition parse_message_delta :: "float_unit \<Rightarrow> json_object \<Rightarrow> anthropicEvent" where
  "parse_message_delta fu root =
     (let stop = (case asObject (jget root ''delta'') of
                    None \<Rightarrow> StopStop
                  | Some delta \<Rightarrow>
                      (case asString (jget delta ''stop_reason'') of
                         None \<Rightarrow> StopStop
                       | Some reason \<Rightarrow>
                           if reason = ''max_tokens'' then StopLength
                           else if reason = ''tool_use'' then StopToolUse
                           else StopStop));
          usage = (case asObject (jget root ''usage'') of
                     None \<Rightarrow> Usage_zero fu
                   | Some u \<Rightarrow> (Usage_zero fu)\<lparr>u_OutputTokens := int_or_zero fu (jget u ''output_tokens'')\<rparr>)
      in (ant_event fu anthropicMessageDelta)\<lparr>ae_stop := stop, ae_usage := usage\<rparr>)"

definition error_message :: "json_object \<Rightarrow> bytes" where
  "error_message root =
     (case asObject (jget root ''error'') of
        None \<Rightarrow> ''anthropic api error''
      | Some holder \<Rightarrow>
          (case asString (jget holder ''message'') of None \<Rightarrow> ''anthropic api error'' | Some m \<Rightarrow> m))"

definition parseAnthropicEvent :: "json_env \<Rightarrow> bytes \<Rightarrow> anthropicEvent" where
  "parseAnthropicEvent je data =
     (let fu = je_float je in
      case unmarshal_object (je_parse je) data of
        None \<Rightarrow> ant_event fu anthropicNone
      | Some root \<Rightarrow>
          (case asString (jget root ''type'') of
             None \<Rightarrow> ant_event fu anthropicNone
           | Some raw \<Rightarrow>
               if raw = ''message_start'' then parse_message_start fu root
               else if raw = ''content_block_start'' then parse_block_start fu root
               else if raw = ''content_block_delta'' then parse_block_delta fu root
               else if raw = ''content_block_stop'' then
                 (case asInt fu (jget root ''index'') of
                    None \<Rightarrow> ant_event fu anthropicNone
                  | Some index \<Rightarrow> (ant_event fu anthropicBlockStop)\<lparr>ae_index := index\<rparr>)
               else if raw = ''message_delta'' then parse_message_delta fu root
               else if raw = ''message_stop'' then ant_event fu anthropicMessageStop
               else if raw = ''error'' then (ant_event fu anthropicAPIError)\<lparr>ae_errMsg := error_message root\<rparr>
               else ant_event fu anthropicNone))"

section \<open>The state\<close>

record blockInfo =
  bi_contentType :: anthropicBlockType
  bi_contentIndex :: nat

record anthropicState =
  as_model :: Model
  as_now :: "nat \<Rightarrow> int"
  as_usage :: Usage
  as_stopReason :: bytes
  as_blocks :: "int \<rightharpoonup> blockInfo"
  as_completed :: "AssistantBlock list"
  as_currentText :: bytes
  as_thinking :: bytes
  as_signature :: bytes
  as_tracker :: toolTracker

definition newAnthropicState :: "float_unit \<Rightarrow> (nat \<Rightarrow> int) \<Rightarrow> Model \<Rightarrow> anthropicState" where
  "newAnthropicState fu now model =
     \<lparr>as_model = model, as_now = now, as_usage = Usage_zero fu, as_stopReason = StopStop,
      as_blocks = Map.empty, as_completed = [], as_currentText = [], as_thinking = [], as_signature = [],
      as_tracker = Map.empty\<rparr>"

definition ant_partial :: "anthropicState \<Rightarrow> EventSink \<Rightarrow> AssistantBlock list \<Rightarrow> PartialMessage" where
  "ant_partial s sink content =
     \<lparr>pm_Content = content, pm_API = md_API (as_model s), pm_Provider = md_Provider (as_model s),
      pm_Model = md_ID (as_model s), pm_Usage = as_usage s, pm_StopReason = as_stopReason s,
      pm_Timestamp = as_now s (length (sk_events sink))\<rparr>"

definition apply_block_start :: "anthropicState \<times> EventSink \<Rightarrow> anthropicEvent \<Rightarrow> anthropicState \<times> EventSink" where
  "apply_block_start sk e =
     (case sk of (s, sink) \<Rightarrow>
        let ci = length (as_completed s);
            (s1, sink1) =
              (case ae_blockType e of
                 blockText \<Rightarrow>
                   (let s1 = s\<lparr>as_currentText := []\<rparr>
                    in (s1, emit sink ((event EventTextStart ci)\<lparr>ev_Partial := Some (ant_partial s1 sink [])\<rparr>)))
               | blockThinking \<Rightarrow>
                   (let s1 = s\<lparr>as_thinking := [], as_signature := []\<rparr>
                    in (s1, emit sink ((event EventThinkingStart ci)\<lparr>ev_Partial := Some (ant_partial s1 sink [])\<rparr>)))
               | blockToolUse \<Rightarrow>
                   (let s1 = s\<lparr>as_tracker := startCall (as_tracker s) (ae_index e) ci (ae_toolID e) (ae_toolName e)\<rparr>
                    in (s1, emit sink ((event EventToolCallStart ci)\<lparr>ev_ID := ae_toolID e, ev_Name := ae_toolName e,
                          ev_Partial := Some (ant_partial s1 sink [])\<rparr>))))
        in (s1\<lparr>as_blocks := (as_blocks s1)(ae_index e \<mapsto> \<lparr>bi_contentType = ae_blockType e, bi_contentIndex = ci\<rparr>)\<rparr>,
            sink1))"

definition apply_block_delta :: "anthropicState \<times> EventSink \<Rightarrow> anthropicEvent \<Rightarrow> anthropicState \<times> EventSink" where
  "apply_block_delta sk e =
     (case sk of (s, sink) \<Rightarrow>
        case as_blocks s (ae_index e) of
          None \<Rightarrow> (s, sink)
        | Some info \<Rightarrow>
            (case ae_deltaType e of
               deltaNone \<Rightarrow> (s, sink)
             | deltaText \<Rightarrow>
                 (let s1 = s\<lparr>as_currentText := as_currentText s @ ae_text e\<rparr>
                  in (s1, emit sink ((event EventTextDelta (bi_contentIndex info))
                            \<lparr>ev_Delta := ae_text e, ev_Partial := Some (ant_partial s1 sink [])\<rparr>)))
             | deltaThinking \<Rightarrow>
                 (let s1 = s\<lparr>as_thinking := as_thinking s @ ae_text e\<rparr>
                  in (s1, emit sink ((event EventThinkingDelta (bi_contentIndex info))
                            \<lparr>ev_Delta := ae_text e, ev_Partial := Some (ant_partial s1 sink [])\<rparr>)))
             | deltaSignature \<Rightarrow> (s\<lparr>as_signature := as_signature s @ ae_text e\<rparr>, sink)
             | deltaInputJSON \<Rightarrow>
                 (let s1 = s\<lparr>as_tracker := snd (appendDelta (as_tracker s) (ae_index e) (ae_text e))\<rparr>
                  in case contentIndex (as_tracker s1) (ae_index e) of
                       None \<Rightarrow> (s1, sink)
                     | Some ci \<Rightarrow>
                         (s1, emit sink ((event EventToolCallDelta ci)
                            \<lparr>ev_Delta := ae_text e, ev_Partial := Some (ant_partial s1 sink [])\<rparr>)))))"

definition apply_block_stop :: "anthropicState \<times> EventSink \<Rightarrow> anthropicEvent \<Rightarrow> anthropicState \<times> EventSink" where
  "apply_block_stop sk e =
     (case sk of (s, sink) \<Rightarrow>
        case as_blocks s (ae_index e) of
          None \<Rightarrow> (s, sink)
        | Some info \<Rightarrow>
            (case bi_contentType info of
               blockText \<Rightarrow>
                 (let s1 = s\<lparr>as_completed := as_completed s @
                         [\<lparr>ab_Text = Some (as_currentText s), ab_Thinking = None, ab_ToolCall = None\<rparr>]\<rparr>
                  in (s1, emit sink ((event EventTextEnd (bi_contentIndex info))
                            \<lparr>ev_Delta := as_currentText s, ev_Partial := Some (ant_partial s1 sink [])\<rparr>)))
             | blockThinking \<Rightarrow>
                 (let s1 = s\<lparr>as_completed := as_completed s @
                         [\<lparr>ab_Text = None,
                           ab_Thinking = Some \<lparr>tp_Thinking = as_thinking s, tp_Signature = as_signature s\<rparr>,
                           ab_ToolCall = None\<rparr>]\<rparr>
                  in (s1, emit sink ((event EventThinkingEnd (bi_contentIndex info))
                            \<lparr>ev_Delta := as_thinking s, ev_Partial := Some (ant_partial s1 sink (as_completed s1))\<rparr>)))
             | blockToolUse \<Rightarrow>
                 (case completeCall (as_tracker s) (ae_index e) of
                    None \<Rightarrow> (s, sink)
                  | Some c \<Rightarrow>
                      (let s1 = s\<lparr>as_completed := as_completed s @
                              [\<lparr>ab_Text = None, ab_Thinking = None, ab_ToolCall = Some c\<rparr>]\<rparr>
                       in (s1, emit sink ((event EventToolCallEnd (length (as_completed s1) - 1))
                                 \<lparr>ev_ToolCall := Some c, ev_Partial := Some (ant_partial s1 sink [])\<rparr>)))))) "

definition ant_apply ::
  "float_unit \<Rightarrow> anthropicState \<times> EventSink \<Rightarrow> anthropicEvent \<Rightarrow> anthropicState \<times> EventSink" where
  "ant_apply fu sk e =
     (case ae_kind e of
        anthropicMessageStart \<Rightarrow>
          ((fst sk)\<lparr>as_usage := (as_usage (fst sk))
             \<lparr>u_InputTokens := u_InputTokens (ae_usage e), u_OutputTokens := u_OutputTokens (ae_usage e),
              u_CacheReadTokens := u_CacheReadTokens (ae_usage e),
              u_CacheWriteTokens := u_CacheWriteTokens (ae_usage e)\<rparr>\<rparr>, snd sk)
      | anthropicBlockStart \<Rightarrow> apply_block_start sk e
      | anthropicBlockDelta \<Rightarrow> apply_block_delta sk e
      | anthropicBlockStop \<Rightarrow> apply_block_stop sk e
      | anthropicMessageDelta \<Rightarrow>
          (let s = fst sk;
               u = (as_usage s)\<lparr>u_OutputTokens := u_OutputTokens (ae_usage e)\<rparr>
           in (s\<lparr>as_stopReason := ae_stop e, as_usage := u\<lparr>u_Cost := calculateCost fu u (md_Cost (as_model s))\<rparr>\<rparr>,
               snd sk))
      | _ \<Rightarrow> sk)"

definition emitStart :: "float_unit \<Rightarrow> anthropicState \<Rightarrow> EventSink \<Rightarrow> EventSink" where
  "emitStart fu s sink =
     emit sink ((event EventStart 0)
       \<lparr>ev_Partial := Some \<lparr>pm_Content = [], pm_API = md_API (as_model s), pm_Provider = md_Provider (as_model s),
          pm_Model = md_ID (as_model s), pm_Usage = Usage_zero fu, pm_StopReason = StopStop,
          pm_Timestamp = as_now s (length (sk_events sink))\<rparr>\<rparr>)"

text \<open>\<open>dec_nat\<close> is the decimal that \<^verbatim>\<open>json.Marshal\<close> writes for an \<^verbatim>\<open>int\<close>.\<close>

definition emptyResponseError :: "json_env \<Rightarrow> bytes \<Rightarrow> bytes" where
  "emptyResponseError je rawBody =
     (let generic = ''anthropic: empty response ('' @ dec_nat (length rawBody) @ '' raw bytes, no SSE events)'' in
      if rawBody = [] then ''anthropic returned empty response with no content blocks''
      else case unmarshal_object (je_parse je) rawBody of
        None \<Rightarrow> generic
      | Some body \<Rightarrow> if asString (jget body ''type'') = Some ''error'' then error_message body else generic)"

section \<open>The loop\<close>

text \<open>The closure \<^verbatim>\<open>handle\<close>: \<^const>\<open>Inl\<close> when it ended the stream.\<close>

fun ant_handle ::
  "stream_env \<Rightarrow> nat \<Rightarrow> anthropicState \<times> EventSink \<Rightarrow> SSEEvent list \<Rightarrow> EventSink + (nat \<times> anthropicState \<times> EventSink)" where
  "ant_handle env tick sk [] = Inr (tick, sk)"
| "ant_handle env tick sk (e # es) =
     (if se_cancelled env tick then Inl (sink_fail (snd sk) ''request cancelled'')
      else
        let parsed = parseAnthropicEvent (se_json env) (ev_Data e) in
        if ae_kind parsed = anthropicAPIError then Inl (sink_fail (snd sk) (ae_errMsg parsed))
        else ant_handle env (Suc tick) (ant_apply (je_float (se_json env)) sk parsed) es)"

text \<open>The tail: the events that two line feeds complete are only looked at for errors.\<close>

fun tail_error :: "json_env \<Rightarrow> SSEEvent list \<Rightarrow> bytes option" where
  "tail_error je [] = None"
| "tail_error je (e # es) =
     (let parsed = parseAnthropicEvent je (ev_Data e) in
      if ae_kind parsed = anthropicAPIError then Some (ae_errMsg parsed) else tail_error je es)"

definition ant_usage_total :: "float_unit \<Rightarrow> anthropicState \<Rightarrow> anthropicState" where
  "ant_usage_total fu s =
     (let u = as_usage s;
          u1 = (if u_TotalTokens u = 0
                then u\<lparr>u_TotalTokens := u_InputTokens u + u_CacheReadTokens u + u_CacheWriteTokens u + u_OutputTokens u\<rparr>
                else u)
      in s\<lparr>as_usage := u1\<lparr>u_Cost := calculateCost fu u1 (md_Cost (as_model s))\<rparr>\<rparr>)"

definition ant_finish :: "stream_env \<Rightarrow> bytes \<Rightarrow> SSEParser \<Rightarrow> anthropicState \<times> EventSink \<Rightarrow> EventSink" where
  "ant_finish env rawBody parser sk =
     (case sk of (s, sink) \<Rightarrow>
        case Feed parser [LF, LF] of
          (Inl err, _) \<Rightarrow> sink_fail sink (SSEErrorMessage err)
        | (Inr tail, _) \<Rightarrow>
            (case tail_error (se_json env) tail of
               Some msg \<Rightarrow> sink_fail sink msg
             | None \<Rightarrow>
                 (let s1 = ant_usage_total (je_float (se_json env)) s;
                      completed = (if as_completed s1 = [] \<and> as_currentText s1 \<noteq> []
                                   then [\<lparr>ab_Text = Some (as_currentText s1), ab_Thinking = None, ab_ToolCall = None\<rparr>]
                                   else as_completed s1)
                  in if completed = [] then sink_fail sink (emptyResponseError (se_json env) rawBody)
                     else emit sink ((event EventDone 0)\<lparr>ev_Message := Some (ant_partial s1 sink completed)\<rparr>))))"

fun ant_loop ::
  "stream_env \<Rightarrow> bytes \<Rightarrow> nat \<Rightarrow> nat \<Rightarrow> int \<Rightarrow> SSEParser \<Rightarrow> anthropicState \<times> EventSink \<Rightarrow> read_result list \<Rightarrow> EventSink" where
  "ant_loop env rawBody round tick lastPing parser (s, sink) [] =
     (case ping env round lastPing sink of
        (sink1, _) \<Rightarrow>
          if se_cancelled env tick then sink_fail sink1 ''request cancelled''
          else ant_finish env rawBody parser (s, sink1))"
| "ant_loop env rawBody round tick lastPing parser (s, sink) (r # rs) =
     (case ping env round lastPing sink of
        (sink1, lastPing1) \<Rightarrow>
          if se_cancelled env tick then sink_fail sink1 ''request cancelled''
          else case r of
            ReadError \<Rightarrow> sink_fail sink1 ''read error''
          | Chunk chunk \<Rightarrow>
              if chunk = [] then ant_finish env rawBody parser (s, sink1)
              else
                case Feed parser chunk of
                  (Inl err, _) \<Rightarrow> sink_fail sink1 (SSEErrorMessage err)
                | (Inr events, parser1) \<Rightarrow>
                    (case ant_handle env (Suc tick) (s, sink1) events of
                       Inl sink2 \<Rightarrow> sink2
                     | Inr (tick2, sk2) \<Rightarrow> ant_loop env rawBody (Suc round) tick2 lastPing1 parser1 sk2 rs))"

definition StreamAnthropic :: "stream_env \<Rightarrow> Model \<Rightarrow> bytes \<Rightarrow> read_result list \<Rightarrow> EventSink \<Rightarrow> EventSink" where
  "StreamAnthropic env model rawBody reads sink =
     (let fu = je_float (se_json env); s = newAnthropicState fu (se_now env) model
      in ant_loop env rawBody 0 0 0 NewSSEParser (s, emitStart fu s sink) reads)"

section \<open>What holds for every input\<close>

text \<open>The blocks the end events of a list report, in order.\<close>

definition ended_values :: "Event list \<Rightarrow> seen_block list" where
  "ended_values es = List.map_filter ended_block es"

definition inner_event :: "Event \<Rightarrow> bool" where
  "inner_event e \<longleftrightarrow> \<not> is_terminal_event e \<and> ev_Kind e \<noteq> EventStart"

definition ant_ok :: "Event list \<Rightarrow> anthropicState \<times> EventSink \<Rightarrow> bool" where
  "ant_ok base sk \<longleftrightarrow>
     (\<exists>es. sk_events (snd sk) = base @ es \<and> list_all inner_event es \<and>
          map block_value (as_completed (fst sk)) = map Some (ended_values es))"

lemma ended_values_append [simp]: "ended_values (xs @ ys) = ended_values xs @ ended_values ys"
  by (simp add: ended_values_def map_filter_def)

lemma ended_values_Nil [simp]: "ended_values [] = []"
  by (simp add: ended_values_def map_filter_def)

lemma ended_values_one [simp]:
  "ended_values [e] = (case ended_block e of None \<Rightarrow> [] | Some v \<Rightarrow> [v])"
  by (simp add: ended_values_def map_filter_def split: option.split)

lemma ant_ok_emit:
  assumes "ant_ok base (s, k)" and "inner_event e"
    and "map block_value (as_completed t) =
           map block_value (as_completed s) @ (case ended_block e of None \<Rightarrow> [] | Some v \<Rightarrow> [Some v])"
  shows "ant_ok base (t, emit k e)"
proof -
  from assms(1) obtain es where es: "sk_events k = base @ es" "list_all inner_event es"
    "map block_value (as_completed s) = map Some (ended_values es)" by (auto simp: ant_ok_def)
  have "sk_events (emit k e) = base @ (es @ [e])" using es(1) by (simp add: emit_def)
  moreover have "map block_value (as_completed t) = map Some (ended_values (es @ [e]))"
    using assms(3) es(3) by (simp split: option.splits)
  ultimately show ?thesis using es(2) assms(2) unfolding ant_ok_def snd_conv fst_conv
    by (intro exI [of _ "es @ [e]"]) simp
qed

lemma ant_ok_silent: "ant_ok base (s, k) \<Longrightarrow> as_completed t = as_completed s \<Longrightarrow> ant_ok base (t, k)"
  by (simp add: ant_ok_def)

lemma ant_start_ok:
  assumes "ant_ok base (s, k)"
  shows "ant_ok base (apply_block_start (s, k) e)"
  using assms
  by (cases "ae_blockType e")
    (auto simp: apply_block_start_def Let_def event_def inner_event_def is_terminal_event_def
      ended_block_def intro!: ant_ok_emit [of base s k])

lemma ant_delta_ok:
  assumes "ant_ok base (s, k)"
  shows "ant_ok base (apply_block_delta (s, k) e)"
  using assms
  by (cases "as_blocks s (ae_index e)"; cases "ae_deltaType e")
    (auto simp: apply_block_delta_def Let_def event_def inner_event_def is_terminal_event_def
      ended_block_def intro!: ant_ok_emit [of base s k] intro: ant_ok_silent split: option.split)

lemma ant_stop_ok:
  assumes "ant_ok base (s, k)"
  shows "ant_ok base (apply_block_stop (s, k) e)"
proof (cases "as_blocks s (ae_index e)")
  case None
  with assms show ?thesis by (simp add: apply_block_stop_def)
next
  case (Some info)
  with assms show ?thesis
    by (cases "bi_contentType info")
      (auto simp: apply_block_stop_def Let_def event_def inner_event_def is_terminal_event_def
        ended_block_def block_value_def completeCall_def intro!: ant_ok_emit [of base s k] split: option.split)
qed

lemma ant_apply_ok: "ant_ok base sk \<Longrightarrow> ant_ok base (ant_apply fu sk e)"
  using ant_start_ok ant_delta_ok ant_stop_ok
  by (cases sk; cases "ae_kind e") (auto simp: ant_apply_def Let_def intro: ant_ok_silent)

lemma ant_ping_ok: "ant_ok base (s, k) \<Longrightarrow> ping env round lp k = (k', lp') \<Longrightarrow> ant_ok base (s, k')"
  by (auto simp: ping_def inner_event_def is_terminal_event_def event_def ended_block_def split: if_splits
      intro!: ant_ok_emit [of base s k])

text \<open>How a stream ends: an error, or the completed blocks, or the text of a block that never
  ended.\<close>

definition ant_terminal :: "Event list \<Rightarrow> Event \<Rightarrow> bool" where
  "ant_terminal es e \<longleftrightarrow>
     ev_Kind e = EventError \<or>
     (ev_Kind e = EventDone \<and>
      (case ev_Message e of
         None \<Rightarrow> False
       | Some m \<Rightarrow>
           map block_value (pm_Content m) = map Some (ended_values es) \<and> ended_values es \<noteq> [] \<or>
           ended_values es = [] \<and> (\<exists>t. t \<noteq> [] \<and> map block_value (pm_Content m) = [Some (SeenText t)])))"

definition ant_ends :: "Event list \<Rightarrow> EventSink \<Rightarrow> bool" where
  "ant_ends base k \<longleftrightarrow>
     (\<exists>es e. sk_events k = base @ es @ [e] \<and> list_all inner_event es \<and> ant_terminal es e)"

lemma ant_fail_ends: "ant_ok base (s, k) \<Longrightarrow> ant_ends base (sink_fail k reason)"
  by (auto simp: ant_ok_def ant_ends_def ant_terminal_def stream_simps)

lemma ant_finish_ends:
  assumes "ant_ok base (s, k)"
  shows "ant_ends base (ant_finish env rawBody parser (s, k))"
proof -
  from assms obtain es where es: "sk_events k = base @ es" "list_all inner_event es"
    "map block_value (as_completed s) = map Some (ended_values es)" by (auto simp: ant_ok_def)
  let ?s1 = "ant_usage_total (je_float (se_json env)) s"
  have f: "as_completed ?s1 = as_completed s" "as_currentText ?s1 = as_currentText s"
    by (simp_all add: ant_usage_total_def Let_def)
  have empty: "as_completed s = [] \<longleftrightarrow> ended_values es = []" using es(3) by (metis map_is_Nil_conv)
  have done': "ant_ends base (emit k ((event EventDone 0)\<lparr>ev_Message := Some (ant_partial ?s1 k c)\<rparr>))"
    if "c = (if as_completed s = [] \<and> as_currentText s \<noteq> []
             then [\<lparr>ab_Text = Some (as_currentText s), ab_Thinking = None, ab_ToolCall = None\<rparr>]
             else as_completed s)" "c \<noteq> []" for c
    unfolding ant_ends_def
    using that es empty
    by (intro exI [of _ es] exI [of _ "(event EventDone 0)\<lparr>ev_Message := Some (ant_partial ?s1 k c)\<rparr>"])
      (auto simp: emit_def ant_terminal_def event_def ant_partial_def block_value_def split: if_splits)
  show ?thesis
    using ant_fail_ends [OF assms] done'
    by (auto simp: ant_finish_def Let_def f split: prod.split sum.split option.split)
qed

lemma ant_handle_ok:
  assumes "ant_ok base (s, k)"
  shows "case ant_handle env tick (s, k) es of
           Inl k' \<Rightarrow> ant_ends base k' | Inr (tick', t, k') \<Rightarrow> ant_ok base (t, k')"
  using assms
proof (induction es arbitrary: tick s k)
  case Nil
  then show ?case by simp
next
  case (Cons e es)
  let ?p = "parseAnthropicEvent (se_json env) (ev_Data e)"
  obtain t k1 where t: "ant_apply (je_float (se_json env)) (s, k) ?p = (t, k1)" by fastforce
  have ok: "ant_ok base (t, k1)" using ant_apply_ok [OF Cons.prems] t by metis
  from Cons.IH [OF ok, where tick = "Suc tick"] t ant_fail_ends [OF Cons.prems] show ?case
    by (auto simp: Let_def)
qed

lemma ant_loop_ends:
  assumes "ant_ok base (s, k)"
  shows "ant_ends base (ant_loop env rawBody round tick lp parser (s, k) reads)"
  using assms
proof (induction reads arbitrary: round tick lp parser s k)
  case Nil
  obtain k1 lp1 where p: "ping env round lp k = (k1, lp1)" by fastforce
  from ant_ping_ok [OF Nil p] ant_fail_ends ant_finish_ends p show ?case by auto
next
  case (Cons r rs)
  obtain k1 lp1 where p: "ping env round lp k = (k1, lp1)" by fastforce
  note ok = ant_ping_ok [OF Cons.prems p]
  show ?case
  proof (cases "se_cancelled env tick \<or> r = ReadError \<or> r = Chunk []")
    case True
    then show ?thesis using p ant_fail_ends [OF ok] ant_finish_ends [OF ok] by auto
  next
    case False
    then obtain chunk where c: "r = Chunk chunk" "chunk \<noteq> []" by (cases r) auto
    obtain res parser1 where f: "Feed parser chunk = (res, parser1)" by fastforce
    show ?thesis
    proof (cases res)
      case (Inl err)
      then show ?thesis using False c f p ant_fail_ends [OF ok] by simp
    next
      case (Inr events)
      note ev = ant_handle_ok [OF ok, where env = env and tick = "Suc tick" and es = events]
      show ?thesis
      proof (cases "ant_handle env (Suc tick) (s, k1) events")
        case (Inl k2)
        with ev Inr False c f p show ?thesis by simp
      next
        case inr: (Inr x)
        obtain tick2 t k2 where x: "x = (tick2, t, k2)" by (metis prod_cases3)
        from ev inr x have "ant_ok base (t, k2)" by simp
        from Cons.IH [OF this, where round = "Suc round" and tick = tick2 and lp = lp1 and parser = parser1]
        show ?thesis using Inr inr x False c f p by simp
      qed
    qed
  qed
qed

lemma ant_stream_ends:
  "\<exists>first. sk_events (emitStart (je_float (se_json env)) (newAnthropicState (je_float (se_json env)) (se_now env) model) EventSink_new) = [first] \<and>
     ev_Kind first = EventStart \<and> ant_ends [first] (StreamAnthropic env model rawBody reads EventSink_new)"
proof -
  let ?fu = "je_float (se_json env)"
  let ?s = "newAnthropicState ?fu (se_now env) model"
  obtain first where f: "sk_events (emitStart ?fu ?s EventSink_new) = [first]" "ev_Kind first = EventStart"
    by (auto simp: emitStart_def emit_def EventSink_new_def event_def)
  have "ant_ok [first] (?s, emitStart ?fu ?s EventSink_new)"
    using f by (auto simp: ant_ok_def newAnthropicState_def intro!: exI [of _ "[]"])
  then have "ant_ends [first] (StreamAnthropic env model rawBody reads EventSink_new)"
    unfolding StreamAnthropic_def Let_def by (rule ant_loop_ends)
  with f show ?thesis by blast
qed

section \<open>Orderly providers\<close>

text \<open>What the API documents of its stream: one block at a time, a block's deltas have its index
  and its kind.\<close>

definition delta_fits :: "anthropicBlockType \<Rightarrow> anthropicDeltaType \<Rightarrow> bool" where
  "delta_fits bt dt =
     (case dt of
        deltaNone \<Rightarrow> True
      | deltaText \<Rightarrow> bt = blockText
      | deltaThinking \<Rightarrow> bt = blockThinking
      | deltaSignature \<Rightarrow> bt = blockThinking
      | deltaInputJSON \<Rightarrow> bt = blockToolUse)"

fun orderly_from :: "(int \<times> anthropicBlockType) option \<Rightarrow> anthropicEvent list \<Rightarrow> bool" where
  "orderly_from open_block [] = True"
| "orderly_from open_block (e # es) =
     (case (ae_kind e, open_block) of
        (anthropicBlockStart, None) \<Rightarrow> orderly_from (Some (ae_index e, ae_blockType e)) es
      | (anthropicBlockStart, Some _) \<Rightarrow> False
      | (anthropicBlockDelta, Some (i, bt)) \<Rightarrow>
          ae_index e = i \<and> delta_fits bt (ae_deltaType e) \<and> orderly_from open_block es
      | (anthropicBlockDelta, None) \<Rightarrow> False
      | (anthropicBlockStop, Some (i, bt)) \<Rightarrow> ae_index e = i \<and> orderly_from None es
      | (anthropicBlockStop, None) \<Rightarrow> False
      | _ \<Rightarrow> orderly_from open_block es)"

definition ant_open_value :: "anthropicState \<Rightarrow> int \<Rightarrow> anthropicBlockType \<Rightarrow> seen_open" where
  "ant_open_value s i bt =
     (case bt of
        blockText \<Rightarrow> SeenOpen KText (length (as_completed s)) [] [] (as_currentText s)
      | blockThinking \<Rightarrow> SeenOpen KThinking (length (as_completed s)) [] [] (as_thinking s)
      | blockToolUse \<Rightarrow>
          (case as_tracker s i of
             None \<Rightarrow> SeenOpen KToolCall (length (as_completed s)) [] [] []
           | Some c \<Rightarrow> SeenOpen KToolCall (length (as_completed s)) (k_id c) (k_name c) (k_arguments c)))"

definition ant_abs :: "anthropicState \<Rightarrow> (int \<times> anthropicBlockType) option \<Rightarrow> seen" where
  "ant_abs s open_block =
     \<lparr>sn_blocks = map (\<lambda>b. the (block_value b)) (as_completed s),
      sn_open = map_option (\<lambda>(i, bt). ant_open_value s i bt) open_block\<rparr>"

definition ant_inv :: "anthropicState \<Rightarrow> (int \<times> anthropicBlockType) option \<Rightarrow> bool" where
  "ant_inv s open_block =
     (case open_block of
        None \<Rightarrow> True
      | Some (i, bt) \<Rightarrow>
          as_blocks s i = Some \<lparr>bi_contentType = bt, bi_contentIndex = length (as_completed s)\<rparr> \<and>
          (bt = blockToolUse \<longrightarrow> (\<exists>c. as_tracker s i = Some c \<and> k_contentIndex c = length (as_completed s))))"

text \<open>The events of a step, and the steps of a list of events.\<close>

definition ant_sound ::
  "anthropicState \<times> EventSink \<Rightarrow> (int \<times> anthropicBlockType) option \<Rightarrow>
   anthropicState \<times> EventSink \<Rightarrow> (int \<times> anthropicBlockType) option \<Rightarrow> bool" where
  "ant_sound a oa b ob \<longleftrightarrow> ant_inv (fst b) ob \<and>
     (\<exists>es. sk_events (snd b) = sk_events (snd a) @ es \<and> see_all (ant_abs (fst a) oa) es = Some (ant_abs (fst b) ob))"

lemma ant_sound_trans: "ant_sound a oa b ob \<Longrightarrow> ant_sound b ob c oc \<Longrightarrow> ant_sound a oa c oc"
  unfolding ant_sound_def by (auto simp: see_all_append)

lemma ant_sound_one:
  "ant_inv t ot \<Longrightarrow> see (ant_abs s os) e = Some (ant_abs t ot) \<Longrightarrow> ant_sound (s, k) os (t, emit k e) ot"
  by (auto simp: ant_sound_def emit_def intro!: exI [of _ "[e]"])

lemma ant_sound_silent:
  "ant_inv t ot \<Longrightarrow> ant_abs t ot = ant_abs s os \<Longrightarrow> ant_sound (s, k) os (t, k) ot"
  by (auto simp: ant_sound_def intro!: exI [of _ "[]"])

lemma ant_start_sound:
  "ant_sound (s, k) None (apply_block_start (s, k) e) (Some (ae_index e, ae_blockType e))"
  by (cases "ae_blockType e")
    (auto simp: apply_block_start_def Let_def ant_inv_def ant_abs_def ant_open_value_def startCall_def
      see_def kind_defs event_def intro!: ant_sound_one)

lemma ant_delta_sound:
  assumes "ant_inv s (Some (i, bt))" and "ae_index e = i" and "delta_fits bt (ae_deltaType e)"
  shows "ant_sound (s, k) (Some (i, bt)) (apply_block_delta (s, k) e) (Some (i, bt))"
  using assms
  by (cases "ae_deltaType e")
    (auto simp: apply_block_delta_def Let_def ant_inv_def ant_abs_def ant_open_value_def appendDelta_def
      contentIndex_def delta_fits_def see_def kind_defs event_def intro!: ant_sound_one ant_sound_silent)

lemma ant_stop_sound:
  assumes "ant_inv s (Some (i, bt))" and "ae_index e = i"
  shows "ant_sound (s, k) (Some (i, bt)) (apply_block_stop (s, k) e) None"
  using assms
  by (cases bt)
    (auto simp: apply_block_stop_def Let_def ant_inv_def ant_abs_def ant_open_value_def completeCall_def
      ended_block_def block_value_def see_def kind_defs event_def intro!: ant_sound_one)

lemma ant_other_sound:
  assumes "ant_inv s os" and "ae_kind e \<notin> {anthropicBlockStart, anthropicBlockDelta, anthropicBlockStop}"
  shows "ant_sound (s, k) os (ant_apply fu (s, k) e) os"
proof -
  obtain u r where "ant_apply fu (s, k) e = (s\<lparr>as_stopReason := r, as_usage := u\<rparr>, k)"
  proof (cases "ae_kind e")
    case anthropicMessageStart
    then have "ant_apply fu (s, k) e = (s\<lparr>as_stopReason := as_stopReason s, as_usage := (as_usage s)
        \<lparr>u_InputTokens := u_InputTokens (ae_usage e), u_OutputTokens := u_OutputTokens (ae_usage e),
         u_CacheReadTokens := u_CacheReadTokens (ae_usage e), u_CacheWriteTokens := u_CacheWriteTokens (ae_usage e)\<rparr>\<rparr>, k)"
      by (simp add: ant_apply_def)
    then show thesis by (rule that)
  next
    case anthropicMessageDelta
    then show thesis by (intro that) (simp add: ant_apply_def Let_def)
  qed (use assms(2) that [of "as_usage s" "as_stopReason s"] in \<open>simp_all add: ant_apply_def\<close>)
  moreover have "ant_abs (s\<lparr>as_stopReason := r, as_usage := u\<rparr>) os = ant_abs s os"
    by (cases os) (auto simp: ant_abs_def ant_open_value_def split: anthropicBlockType.split option.split)
  ultimately show ?thesis
    using assms(1) by (auto simp: ant_inv_def split: option.splits intro!: ant_sound_silent)
qed

lemma orderly_sound:
  assumes "ant_inv s os" and "orderly_from os es"
  shows "\<exists>ot. ant_sound (s, k) os (foldl (ant_apply fu) (s, k) es) ot"
  using assms
proof (induction es arbitrary: s k os)
  case Nil
  then show ?case by (auto intro: ant_sound_silent)
next
  case (Cons e es)
  have "\<exists>o1. ant_sound (s, k) os (ant_apply fu (s, k) e) o1 \<and> orderly_from o1 es"
  proof (cases "ae_kind e \<in> {anthropicBlockStart, anthropicBlockDelta, anthropicBlockStop}")
    case True
    then show ?thesis
    proof (cases os)
      case None
      with True Cons.prems ant_start_sound [of s k e] show ?thesis
        by (auto simp: ant_apply_def split: anthropicEventKind.splits)
    next
      case (Some x)
      obtain i bt where x: "x = (i, bt)" by fastforce
      show ?thesis
      proof (cases "ae_kind e = anthropicBlockDelta")
        case True
        with Some x Cons.prems ant_delta_sound [of s i bt e k] show ?thesis by (auto simp: ant_apply_def)
      next
        case False
        with \<open>ae_kind e \<in> _\<close> Some x Cons.prems have "ae_kind e = anthropicBlockStop" by auto
        with Some x Cons.prems ant_stop_sound [of s i bt e k] show ?thesis by (fastforce simp: ant_apply_def)
      qed
    qed
  next
    case False
    with Cons.prems(2) have "orderly_from os es" by (cases os) (auto split: anthropicEventKind.splits)
    with ant_other_sound [OF Cons.prems(1) False] show ?thesis by blast
  qed
  then obtain o1 where o1: "ant_sound (s, k) os (ant_apply fu (s, k) e) o1" "orderly_from o1 es" by blast
  obtain t k1 where t: "ant_apply fu (s, k) e = (t, k1)" by fastforce
  have "ant_inv t o1" using o1(1) t by (simp add: ant_sound_def)
  from Cons.IH [OF this o1(2), of k1] obtain ot where "ant_sound (t, k1) o1 (foldl (ant_apply fu) (t, k1) es) ot" by blast
  with o1(1) t ant_sound_trans show ?case by fastforce
qed

section \<open>Properties\<close>

text \<open>C31. Exactly one terminal event: whatever the provider sends, wherever the body is cut and
  whenever the caller cancels, a stream begins with its start event and ends with its only
  terminal event, an error or a message.\<close>

theorem anthropic_one_terminal:
  "\<exists>first body last.
     sk_events (StreamAnthropic env model rawBody reads EventSink_new) = first # body @ [last] \<and>
     ev_Kind first = EventStart \<and>
     filter is_terminal_event (sk_events (StreamAnthropic env model rawBody reads EventSink_new)) = [last]"
proof -
  obtain first es e where s: "ev_Kind first = EventStart"
    "sk_events (StreamAnthropic env model rawBody reads EventSink_new) = [first] @ es @ [e]"
    "list_all inner_event es" "ant_terminal es e"
    using ant_stream_ends [of env model rawBody reads] by (auto simp: ant_ends_def)
  have "filter is_terminal_event es = []" using s(3) by (auto simp: list_all_iff inner_event_def filter_empty_conv)
  moreover have "is_terminal_event e" using s(4) by (auto simp: ant_terminal_def is_terminal_event_def)
  moreover have "\<not> is_terminal_event first" using s(1) by (simp add: is_terminal_event_def)
  ultimately show ?thesis using s(1,2) by (intro exI conjI) simp_all
qed


text \<open>A provider for the witnesses: the data of an event names a fixed JSON value.\<close>

definition demo_ant_parse :: "bytes \<Rightarrow> json option" where
  "demo_ant_parse data =
     (if data = ''s'' then Some (JObj [(''type'', JStr ''content_block_start''), (''index'', JNum 0),
                                 (''content_block'', JObj [(''type'', JStr ''text'')])])
      else if data = ''e'' then Some (JObj [(''type'', JStr ''content_block_stop''), (''index'', JNum 0)])
      else Some (JObj [(''type'', JStr ''content_block_delta''), (''index'', JNum 0),
                       (''delta'', JObj [(''type'', JStr ''text_delta''), (''text'', JStr data)])]))"

definition demo_ant :: stream_env where
  "demo_ant = demo_stream\<lparr>se_json := demo_json\<lparr>je_parse := demo_ant_parse\<rparr>\<rparr>"

definition demo_ant_body :: bytes where
  "demo_ant_body = ''data: s'' @ [LF, LF] @ ''data: hi'' @ [LF, LF] @ ''data: e'' @ [LF, LF]"


text \<open>An orderly provider gives an orderly stream: when the provider's events keep one block
  open at a time, the emitted events are well nested parts, numbered from zero, whose ends
  repeat the sum of their deltas, and the blocks a consumer has seen end are those the state
  has completed.\<close>

lemma anthropic_orderly_well_nested:
  assumes "orderly_from None es"
    and "foldl (ant_apply fu) (newAnthropicState fu now model, EventSink_new) es = (s, sink)"
  shows "\<exists>sn. see_all seen_nothing (sk_events sink) = Some sn \<and>
           sn_blocks sn = map (\<lambda>b. the (block_value b)) (as_completed s)"
proof -
  let ?s = "newAnthropicState fu now model"
  have "ant_inv ?s None" by (simp add: ant_inv_def)
  from orderly_sound [OF this assms(1), of EventSink_new fu] assms(2) obtain ot where
    "ant_sound (?s, EventSink_new) None (s, sink) ot" by auto
  moreover have "ant_abs ?s None = seen_nothing" by (simp add: ant_abs_def newAnthropicState_def seen_nothing_def)
  ultimately show ?thesis by (auto simp: ant_sound_def EventSink_new_def ant_abs_def)
qed

end
