(* ===== verification/Agent_Turn.thy ===== *)
theory Agent_Turn
  imports Agent_Loop Anthropic_Stream
begin

text \<open>
  \<^verbatim>\<open>go/internal/agent/turn.go\<close>: the streamer that reads a provider's body, the one a run meets
  as its \<^verbatim>\<open>Config.Streamer\<close>.  What a run relies on is the locale \<open>turn_source\<close>: a stream that
  is not cut short by a cancellation ends with one terminal event that says what happened.
  The chat wire is an instance; the Anthropic wire is one when no error of the provider has an
  empty message.
\<close>

section \<open>The chunk streamer\<close>

text \<open>What the goroutine of the streamer meets: the stream's own world, the context at the start,
  and for each event whether it went out.  An event is only withheld from a cancelled
  context.\<close>

record chunk_env =
  ck_stream :: stream_env
  ck_cancelled :: bool
  ck_sent :: "nat \<Rightarrow> bool"

definition AnthropicWire :: bytes where "AnthropicWire = ''anthropic-messages''"

text \<open>\<^verbatim>\<open>streamTurn\<close>: the wire of the model; there is no raw body to report.\<close>

definition stream_wire :: "stream_env \<Rightarrow> Model \<Rightarrow> read_result list \<Rightarrow> EventSink \<Rightarrow> EventSink" where
  "stream_wire env model reads sink =
     (if md_API model \<noteq> AnthropicWire then Stream env model reads sink
      else StreamAnthropic env model [] reads sink)"

text \<open>\<^verbatim>\<open>ChunkStreamer.Stream\<close>: the events of the channel, until it is closed.\<close>

definition ChunkStreamer :: "chunk_env \<Rightarrow> Model \<Rightarrow> read_result list \<Rightarrow> Event list" where
  "ChunkStreamer env model reads =
     (if ck_cancelled env then []
      else map snd (filter (\<lambda>(k, e). ck_sent env k)
             (enumerate 0 (sk_events (stream_wire (ck_stream env) model reads EventSink_new)))))"

section \<open>What a run relies on\<close>

text \<open>A last event that tells: a message, or an error with a reason.\<close>

definition telling :: "Event \<Rightarrow> bool" where
  "telling e \<longleftrightarrow> ev_Kind e = EventDone \<and> ev_Message e \<noteq> None \<or> ev_Kind e = EventError \<and> ev_Reason e \<noteq> []"

lemma telling_last:
  assumes "foldl (once_event env) (once_new, r) (body @ [e]) = (o1, r1)" and "telling e"
  shows "on_assistant o1 \<noteq> None \<or> on_refusal o1 \<noteq> []"
proof -
  obtain o0 r0 where "foldl (once_event env) (once_new, r) body = (o0, r0)" by fastforce
  with assms show ?thesis by (auto simp: once_event_def telling_def Let_def split: EventKind.splits option.splits if_splits)
qed

lemma stalled_refusal_nonempty: "on_refusal o1 \<noteq> [] \<Longrightarrow> stalled_refusal o1 stalled \<noteq> []"
  by (simp add: stalled_refusal_def idleFailure_def firstByteFailure_def)

locale turn_source =
  fixes source :: "'a \<Rightarrow> Event list"
    and sound_input :: "'a \<Rightarrow> bool"
  assumes ends_telling: "sound_input x \<Longrightarrow> \<exists>body e. source x = body @ [e] \<and> telling e"
begin

lemma never_closed_without:
  assumes "sound_input x" and "ag_stream env (rn_tick r) history = (source x, stalled)"
  shows "to_closedWithout (fst (streamOnce env r history)) = []"
proof -
  from ends_telling [OF assms(1)] obtain body e where b: "source x = body @ [e]" "telling e" by blast
  let ?r0 = "(tick r)\<lparr>rn_requests := rn_requests r @ [history]\<rparr>"
  obtain o1 r1 where f: "foldl (once_event env) (once_new, ?r0) (source x) = (o1, r1)" by fastforce
  from telling_last [of env ?r0 body e o1 r1] f b have "on_assistant o1 \<noteq> None \<or> on_refusal o1 \<noteq> []" by simp
  then show ?thesis using stalled_refusal_nonempty [of o1 stalled]
    by (auto simp: streamOnce_def assms(2) f Let_def split: option.splits prod.splits)
qed

end

section \<open>The chat wire\<close>

lemma fail_telling: "reason \<noteq> [] \<Longrightarrow> telling (last (sk_events (sink_fail k reason)))"
  by (simp add: telling_def stream_simps)

lemma finish_telling: "telling (last (sk_events (finish fu sk)))"
  by (cases sk) (auto simp: finish_def telling_def stream_simps Let_def split: prod.splits)

lemma SSEErrorMessage_nonempty [simp]: "SSEErrorMessage err \<noteq> []"
  by (cases err) simp_all

lemma stream_events_telling:
  "stream_events env tck sk es = Inl k \<Longrightarrow> telling (last (sk_events k))"
  by (induction env tck sk es rule: stream_events.induct)
    (auto simp: Let_def LateArgumentsReason_def intro!: fail_telling split: if_splits)

lemma stream_loop_telling: "telling (last (sk_events (stream_loop env round tck lp parser sk reads)))"
proof (induction reads arbitrary: round tck lp parser sk)
  case Nil
  then show ?case by (cases sk) (auto simp: finish_telling intro!: fail_telling split: prod.splits)
next
  case (Cons r rs)
  then show ?case
    by (cases sk) (auto simp: finish_telling dest: stream_events_telling intro!: fail_telling
        split: prod.splits read_result.splits sum.splits)
qed

lemma chat_ends_telling: "\<exists>body e. sk_events (Stream env model reads EventSink_new) = body @ [e] \<and> telling e"
proof -
  obtain body l sn where "sk_events (Stream env model reads EventSink_new) =
      startEvent (je_float (se_json env)) (newStreamState (je_float (se_json env)) (se_now env) model) EventSink_new # body @ [l]"
    using stream_shape [of env model reads] by blast
  moreover have "telling (last (sk_events (Stream env model reads EventSink_new)))"
    unfolding Stream_def Let_def by (rule stream_loop_telling)
  ultimately show ?thesis by (metis append_Cons last_snoc)
qed

text \<open>The runs whose events all went out.\<close>

definition whole_chat :: "chunk_env \<times> Model \<times> read_result list \<Rightarrow> bool" where
  "whole_chat x = (case x of (env, model, reads) \<Rightarrow>
     \<not> ck_cancelled env \<and> md_API model \<noteq> AnthropicWire \<and>
     list_all (ck_sent env) [0..<length (sk_events (Stream (ck_stream env) model reads EventSink_new))])"

lemma all_sent: "list_all p [i..<i + length xs] \<Longrightarrow> map snd (filter (\<lambda>(k, e). p k) (enumerate i xs)) = xs"
proof (induction xs arbitrary: i)
  case (Cons x xs)
  then have "p i" "list_all p [Suc i..<Suc i + length xs]" by (auto simp: list_all_iff)
  with Cons.IH [of "Suc i"] show ?case by simp
qed simp

interpretation chat_turn: turn_source "\<lambda>(env, model, reads). ChunkStreamer env model reads" whole_chat
proof
  fix x :: "chunk_env \<times> Model \<times> read_result list"
  assume "whole_chat x"
  then obtain env model reads where x: "x = (env, model, reads)" "\<not> ck_cancelled env" "md_API model \<noteq> AnthropicWire"
    "list_all (ck_sent env) [0..<0 + length (sk_events (Stream (ck_stream env) model reads EventSink_new))]"
    by (auto simp: whole_chat_def)
  have "ChunkStreamer env model reads = sk_events (Stream (ck_stream env) model reads EventSink_new)"
    using all_sent [OF x(4)] x(2,3) by (simp add: ChunkStreamer_def stream_wire_def)
  with chat_ends_telling [of "ck_stream env" model reads] x(1)
  show "\<exists>body e. (case x of (env, model, reads) \<Rightarrow> ChunkStreamer env model reads) = body @ [e] \<and> telling e" by simp
qed

section \<open>Properties\<close>

text \<open>Over the chat wire a turn always learns how its stream ended: whatever the provider sends
  and wherever its body breaks off, a turn whose stream was not cut short by a cancellation is
  never told that the stream closed without a terminal event.\<close>

lemma chat_turn_never_closed_without:
  assumes "ag_stream env (rn_tick r) history = (ChunkStreamer chunk model reads, stalled)"
    and "\<not> ck_cancelled chunk" and "md_API model \<noteq> AnthropicWire" and "\<forall>k. ck_sent chunk k"
  shows "to_closedWithout (fst (streamOnce env r history)) = []"
  using chat_turn.never_closed_without [of "(chunk, model, reads)" env r history stalled] assms
  by (simp add: whole_chat_def list_all_iff)

definition demo_chunk :: chunk_env where
  "demo_chunk = \<lparr>ck_stream = demo_stream, ck_cancelled = False, ck_sent = (\<lambda>_. True)\<rparr>"

text \<open>Over the Anthropic wire it may not: an error event of the provider whose message is empty
  ends the stream with an error event without a reason, which the run takes for a stream that
  closed without a terminal event.\<close>

lemma empty_error_reads_as_closed:
  defines "json_of \<equiv> (\<lambda>_ :: bytes. Some (JObj [(''type'', JStr ''error''), (''error'', JObj [(''message'', JStr [])])]))"
  defines "world \<equiv> demo_stream\<lparr>se_json := demo_json\<lparr>je_parse := json_of\<rparr>\<rparr>"
  defines "chunk \<equiv> demo_chunk\<lparr>ck_stream := world\<rparr>"
  defines "model \<equiv> demo_model\<lparr>md_API := AnthropicWire\<rparr>"
  defines "events \<equiv> ChunkStreamer chunk model [Chunk (''data: x'' @ [LF, LF])]"
  shows "map ev_Kind events = [EventStart, EventError] \<and>
    to_closedWithout (fst (streamOnce (demo_world\<lparr>ag_stream := (\<lambda>_ _. (events, False))\<rparr>) (Run_new demo_agent) [demo_prompt])) =
      closedWithoutTerminal"
  unfolding events_def model_def chunk_def world_def json_of_def by code_simp

end
