(* ===== verification/Binding_Store.thy ===== *)
theory Binding_Store
  imports Oap_Prelude
begin

text \<open>
  The log of session bindings: \<^verbatim>\<open>go/binding/binding.go\<close> (entries, the state a history
  means, the listing of sessions) and \<^verbatim>\<open>go/binding/memory.go\<close> (the in-memory store).

  An \<^verbatim>\<open>Entry\<close> is one line of an append-only log.  \<open>State\<close> is the entry that decides what a
  session is now, the last one that is not a refusal; \<open>Sessions\<close> lists every session once,
  in the order of its first entry.  The locale \<open>binding_store\<close> is the Go interface
  \<^verbatim>\<open>binding.Store\<close> with the laws its callers rely on; the memory store interprets it here and
  the file store in theory \<open>Binding_File\<close>.
\<close>

section \<open>Model\<close>

record CompactionPolicy =
  cp_Kind :: bytes
  cp_SharePercent :: int
  cp_Tokens :: int

record Record =
  r_SessionID :: bytes
  r_Adapter :: bytes
  r_HarnessVersion :: bytes
  r_NativeSessionID :: bytes
  r_Home :: bytes
  r_Directory :: bytes
  r_Model :: bytes
  r_ReasoningLevel :: bytes
  r_CompactionPolicy :: "CompactionPolicy option"
  r_ToolSourceIDs :: "bytes list"
  r_Adopted :: bool

text \<open>\<^verbatim>\<open>Action\<close> is a string type: an entry read from a file can hold any action.\<close>

definition ActionOpened :: bytes where "ActionOpened = ''opened''"
definition ActionReopened :: bytes where "ActionReopened = ''reopened''"
definition ActionClosed :: bytes where "ActionClosed = ''closed''"
definition ActionRefused :: bytes where "ActionRefused = ''refused''"

lemmas action_defs = ActionOpened_def ActionReopened_def ActionClosed_def ActionRefused_def

record Entry =
  e_Action :: bytes
  e_TimeMS :: int
  e_Record :: Record

abbreviation entry_session :: "Entry \<Rightarrow> bytes" where
  "entry_session e \<equiv> r_SessionID (e_Record e)"

definition Live :: "Entry \<Rightarrow> bool" where
  "Live entry \<longleftrightarrow> e_Action entry = ActionOpened \<or> e_Action entry = ActionReopened"

text \<open>The loop of \<^verbatim>\<open>State\<close> runs from the end of the history; the pair of an entry and
  \<^verbatim>\<open>true\<close> is \<^const>\<open>Some\<close>.\<close>

definition State :: "Entry list \<Rightarrow> Entry option" where
  "State history = find (\<lambda>e. e_Action e \<noteq> ActionRefused) (rev history)"

text \<open>One iteration of the loop of \<^verbatim>\<open>Sessions\<close>: \<open>latest\<close> holds where in \<open>states\<close> a session
  stands.\<close>

definition sessions_step ::
  "(bytes \<rightharpoonup> nat) \<times> Entry list \<Rightarrow> Entry \<Rightarrow> (bytes \<rightharpoonup> nat) \<times> Entry list" where
  "sessions_step st entry =
     (case st of (latest, states) \<Rightarrow>
        if e_Action entry = ActionRefused then (latest, states)
        else case latest (entry_session entry) of
          Some at \<Rightarrow> (latest, states[at := entry])
        | None \<Rightarrow> (latest(entry_session entry \<mapsto> length states), states @ [entry]))"

definition Sessions :: "Entry list \<Rightarrow> Entry list" where
  "Sessions entries = snd (foldl sessions_step (Map.empty, []) entries)"

definition FromOpen ::
  "bytes \<Rightarrow> bytes \<Rightarrow> bytes \<Rightarrow> bytes \<Rightarrow> bytes \<Rightarrow> bytes \<Rightarrow> bytes list \<Rightarrow> Record" where
  "FromOpen sessionID adapter harnessVersion model home directory toolSourceIDs =
     \<lparr>r_SessionID = sessionID, r_Adapter = adapter, r_HarnessVersion = harnessVersion,
      r_NativeSessionID = [], r_Home = home, r_Directory = directory, r_Model = model,
      r_ReasoningLevel = [], r_CompactionPolicy = None, r_ToolSourceIDs = toolSourceIDs,
      r_Adopted = False\<rparr>"

definition Reopened :: "Record \<Rightarrow> bytes \<Rightarrow> int \<Rightarrow> Entry" where
  "Reopened previous nativeSessionID timeMS =
     \<lparr>e_Action = ActionReopened, e_TimeMS = timeMS,
      e_Record = (if nativeSessionID \<noteq> [] then previous\<lparr>r_NativeSessionID := nativeSessionID\<rparr>
                  else previous)\<rparr>"

definition Opened :: "Record \<Rightarrow> int \<Rightarrow> Entry" where
  "Opened r timeMS = \<lparr>e_Action = ActionOpened, e_TimeMS = timeMS, e_Record = r\<rparr>"

definition Closed :: "Record \<Rightarrow> int \<Rightarrow> Entry" where
  "Closed r timeMS = \<lparr>e_Action = ActionClosed, e_TimeMS = timeMS, e_Record = r\<rparr>"

subsection \<open>The memory store\<close>

text \<open>The slice copies of \<^verbatim>\<open>Append\<close> keep a later write to the caller's slice out of the
  store; a HOL list is a value, so the copy is the list.  None of the calls fails, and the
  results keep the shape of the interface.\<close>

record memoryStore =
  ms_entries :: "Entry list"

definition Memory :: memoryStore where
  "Memory = \<lparr>ms_entries = []\<rparr>"

definition mem_Append :: "memoryStore \<Rightarrow> Entry \<Rightarrow> memoryStore option" where
  "mem_Append s entry = Some (s\<lparr>ms_entries := ms_entries s @ [entry]\<rparr>)"

definition mem_History :: "memoryStore \<Rightarrow> bytes \<Rightarrow> Entry list option" where
  "mem_History s sessionID = Some (filter (\<lambda>e. entry_session e = sessionID) (ms_entries s))"

definition mem_Latest :: "memoryStore \<Rightarrow> bytes \<Rightarrow> Entry option option" where
  "mem_Latest s sessionID =
     (case mem_History s sessionID of
        None \<Rightarrow> None
      | Some history \<Rightarrow> Some (if history = [] then None else Some (last history)))"

definition mem_Sessions :: "memoryStore \<Rightarrow> Entry list option" where
  "mem_Sessions s = Some (Sessions (ms_entries s))"

section \<open>What the listing means\<close>

text \<open>The elements of a list in the order of their first occurrence.\<close>

fun first_seen :: "'a list \<Rightarrow> 'a list" where
  "first_seen [] = []"
| "first_seen (x # xs) = x # filter (\<lambda>y. y \<noteq> x) (first_seen xs)"

definition session_history :: "Entry list \<Rightarrow> bytes \<Rightarrow> Entry list" where
  "session_history es sid = filter (\<lambda>e. entry_session e = sid) es"

definition bound_sessions :: "Entry list \<Rightarrow> bytes list" where
  "bound_sessions es = first_seen (map entry_session (filter (\<lambda>e. e_Action e \<noteq> ActionRefused) es))"

section \<open>Lemmas\<close>

lemma set_first_seen [simp]: "set (first_seen xs) = set xs"
  by (induction xs) auto

lemma distinct_first_seen [simp]: "distinct (first_seen xs)"
  by (induction xs) auto

lemma first_seen_snoc:
  "first_seen (xs @ [x]) = (if x \<in> set xs then first_seen xs else first_seen xs @ [x])"
  by (induction xs) (auto simp: filter_id_conv)

lemma bound_sessions_snoc:
  "bound_sessions (es @ [e]) =
     (if e_Action e = ActionRefused \<or> entry_session e \<in> set (bound_sessions es) then bound_sessions es
      else bound_sessions es @ [entry_session e])"
  by (auto simp: bound_sessions_def first_seen_snoc)

lemma State_snoc: "State (es @ [e]) = (if e_Action e = ActionRefused then State es else Some e)"
  by (simp add: State_def)

lemma State_None: "State es = None \<longleftrightarrow> (\<forall>e \<in> set es. e_Action e = ActionRefused)"
  by (auto simp: State_def find_None_iff)

lemma State_Some: "State es = Some e \<Longrightarrow> e \<in> set es \<and> e_Action e \<noteq> ActionRefused"
  by (auto simp: State_def find_Some_iff) (metis length_rev nth_mem set_rev)

lemma session_history_snoc:
  "session_history (es @ [e]) sid =
     (if entry_session e = sid then session_history es sid @ [e] else session_history es sid)"
  by (simp add: session_history_def)

lemma bound_sessions_iff:
  "sid \<in> set (bound_sessions es) \<longleftrightarrow> State (session_history es sid) \<noteq> None"
  by (auto simp: bound_sessions_def State_None session_history_def)

definition sessions_inv :: "Entry list \<Rightarrow> (bytes \<rightharpoonup> nat) \<times> Entry list \<Rightarrow> bool" where
  "sessions_inv es st \<longleftrightarrow>
     snd st = map (\<lambda>s. the (State (session_history es s))) (bound_sessions es) \<and>
     (\<forall>s i. fst st s = Some i \<longleftrightarrow> i < length (bound_sessions es) \<and> bound_sessions es ! i = s)"

lemma sessions_inv_step:
  assumes inv: "sessions_inv es (latest, states)"
  shows "sessions_inv (es @ [e]) (sessions_step (latest, states) e)"
proof (cases "e_Action e = ActionRefused")
  case True
  with inv show ?thesis
    by (simp add: sessions_inv_def sessions_step_def bound_sessions_snoc session_history_snoc
        State_snoc)
next
  case False
  let ?s = "entry_session e"
  have dist: "distinct (bound_sessions es)" by (simp add: bound_sessions_def)
  show ?thesis
  proof (cases "latest ?s")
    case None
    then have new: "?s \<notin> set (bound_sessions es)"
      using inv unfolding sessions_inv_def in_set_conv_nth by (metis fst_conv option.distinct(1))
    have "map (\<lambda>s. the (State (session_history (es @ [e]) s))) (bound_sessions es) =
          map (\<lambda>s. the (State (session_history es s))) (bound_sessions es)"
      using new by (auto simp: session_history_snoc)
    moreover have "i < length (bound_sessions es) \<Longrightarrow> bound_sessions es ! i \<noteq> ?s" for i
      using new nth_mem by metis
    ultimately show ?thesis using None False new inv
      by (auto simp: sessions_inv_def sessions_step_def bound_sessions_snoc session_history_snoc
          State_snoc nth_append split: if_splits)
  next
    case (Some i)
    then have i: "i < length (bound_sessions es)" "bound_sessions es ! i = ?s"
      using inv by (auto simp: sessions_inv_def)
    then have old: "?s \<in> set (bound_sessions es)" by (metis nth_mem)
    have "map (\<lambda>s. the (State (session_history (es @ [e]) s))) (bound_sessions es) =
          (map (\<lambda>s. the (State (session_history es s))) (bound_sessions es))[i := e]"
      using i dist False
      by (intro nth_equalityI)
        (auto simp: nth_list_update session_history_snoc State_snoc nth_eq_iff_index_eq
          simp flip: i(2))
    moreover have "sessions_step (latest, states) e = (latest, states[i := e])"
      using Some False by (simp add: sessions_step_def)
    ultimately show ?thesis using old inv by (simp add: sessions_inv_def bound_sessions_snoc)
  qed
qed

lemma sessions_inv_foldl: "sessions_inv es (foldl sessions_step (Map.empty, []) es)"
proof (induction es rule: rev_induct)
  case Nil
  then show ?case by (simp add: sessions_inv_def bound_sessions_def)
next
  case (snoc e es)
  then show ?case
    by (cases "foldl sessions_step (Map.empty, []) es") (simp add: sessions_inv_step)
qed

lemma Sessions_eq:
  "Sessions es = map (\<lambda>s. the (State (session_history es s))) (bound_sessions es)"
  using sessions_inv_foldl [of es] by (simp add: sessions_inv_def Sessions_def)

lemma State_session: "State (session_history es s) = Some e \<Longrightarrow> entry_session e = s"
  by (drule State_Some) (simp add: session_history_def)

lemma Sessions_ids: "map entry_session (Sessions es) = bound_sessions es"
proof -
  have "entry_session (the (State (session_history es s))) = s" if "s \<in> set (bound_sessions es)" for s
    using that State_session [of es s] by (auto simp: bound_sessions_iff)
  then show ?thesis by (simp add: Sessions_eq map_idI)
qed

lemma Sessions_set: "e \<in> set (Sessions es) \<longleftrightarrow> State (session_history es (entry_session e)) = Some e"
proof
  assume "e \<in> set (Sessions es)"
  then obtain s where s: "s \<in> set (bound_sessions es)" "e = the (State (session_history es s))"
    by (auto simp: Sessions_eq)
  then have "State (session_history es s) = Some e" by (auto simp: bound_sessions_iff)
  moreover from this have "entry_session e = s" by (rule State_session)
  ultimately show "State (session_history es (entry_session e)) = Some e" by simp
next
  assume "State (session_history es (entry_session e)) = Some e"
  then have "entry_session e \<in> set (bound_sessions es)"
    and "e = the (State (session_history es (entry_session e)))"
    by (auto simp: bound_sessions_iff)
  then show "e \<in> set (Sessions es)" unfolding Sessions_eq by auto
qed

section \<open>The interface of a store\<close>

locale binding_store =
  fixes append_entry :: "'st \<Rightarrow> Entry \<Rightarrow> 'st option"
    and history :: "'st \<Rightarrow> bytes \<Rightarrow> Entry list option"
    and latest :: "'st \<Rightarrow> bytes \<Rightarrow> Entry option option"
    and sessions :: "'st \<Rightarrow> Entry list option"
    and log :: "'st \<Rightarrow> Entry list"
    and invar :: "'st \<Rightarrow> bool"
    and good :: "Entry \<Rightarrow> bool"
  assumes append_log: "invar s \<Longrightarrow> good e \<Longrightarrow>
          \<exists>s'. append_entry s e = Some s' \<and> invar s' \<and> log s' = log s @ [e]"
    and history_log: "invar s \<Longrightarrow> history s sid = Some (session_history (log s) sid)"
    and latest_log: "invar s \<Longrightarrow> latest s sid =
          Some (if session_history (log s) sid = [] then None
                else Some (last (session_history (log s) sid)))"
    and sessions_log: "invar s \<Longrightarrow> sessions s = Some (Sessions (log s))"
begin

lemma append_SomeD:
  "invar s \<Longrightarrow> good e \<Longrightarrow> append_entry s e = Some s' \<Longrightarrow> invar s' \<and> log s' = log s @ [e]"
  using append_log [of s e] by auto

lemma read_your_append:
  assumes "invar s" and "good e" and "append_entry s e = Some s'"
  shows "latest s' (entry_session e) = Some (Some e)"
  using append_SomeD [OF assms] latest_log [of s'] by (simp add: session_history_snoc)

lemma append_keeps_others:
  assumes "invar s" and "good e" and "append_entry s e = Some s'" and "sid \<noteq> entry_session e"
  shows "history s' sid = history s sid"
  using append_SomeD [OF assms(1,2,3)] assms by (simp add: history_log session_history_snoc)

lemma append_extends_history:
  assumes "invar s" and "good e" and "append_entry s e = Some s'" and "history s (entry_session e) = Some h"
  shows "history s' (entry_session e) = Some (h @ [e])"
  using append_SomeD [OF assms(1,2,3)] assms by (simp add: history_log session_history_snoc)

lemma sessions_state:
  assumes "invar s" and "sessions s = Some ls" and "history s (entry_session e) = Some h"
  shows "e \<in> set ls \<longleftrightarrow> State h = Some e"
  using assms by (auto simp: sessions_log history_log Sessions_set)

text \<open>A chain of appends: the log grows by the entries in order, and none is refused.\<close>

lemma append_all:
  assumes "invar s" and "\<forall>e \<in> set es. good e"
  shows "\<exists>s'. fold (\<lambda>e st. Option.bind st (\<lambda>s. append_entry s e)) es (Some s) = Some s' \<and>
              invar s' \<and> log s' = log s @ es"
  using assms
proof (induction es arbitrary: s)
  case Nil
  then show ?case by simp
next
  case (Cons e es)
  from append_log [OF Cons.prems(1), of e] Cons.prems(2) obtain s1 where
    "append_entry s e = Some s1" "invar s1" "log s1 = log s @ [e]" by auto
  with Cons.IH [of s1] Cons.prems(2) show ?case by auto
qed

end

interpretation mem: binding_store mem_Append mem_History mem_Latest mem_Sessions ms_entries "\<lambda>_. True" "\<lambda>_. True"
  by unfold_locales
    (simp_all add: mem_Append_def mem_History_def mem_Latest_def mem_Sessions_def
      session_history_def)

section \<open>Properties\<close>

text \<open>The listing of sessions: every session that has an entry other than a refusal
  occurs exactly once, in the order in which the sessions first had such an entry, with the
  entry that decides its state.\<close>

lemma Sessions_listing:
  "map entry_session (Sessions es) = bound_sessions es \<and>
   distinct (map entry_session (Sessions es)) \<and>
   (\<forall>e. e \<in> set (Sessions es) \<longleftrightarrow> State (session_history es (entry_session e)) = Some e)"
  using Sessions_ids [of es] Sessions_set by (auto simp: bound_sessions_def)

end
