(* ===== verification/Binding_Page.thy ===== *)
theory Binding_Page
  imports Binding_Store Go_Codec "HOL-Library.Multiset"
begin

text \<open>
  Pages of a session listing, \<^verbatim>\<open>go/binding/page.go\<close>: the listing is ordered newest first
  (by session id where two times agree), a page is a slice of it, and the cursor of the next
  page names the last entry of this one, as base64 of its time and session id.

  \<open>slice_stable\<close> and \<open>sort_Search\<close> are Go's \<^verbatim>\<open>sort.SliceStable\<close> and \<^verbatim>\<open>sort.Search\<close>: the
  first by the one list a stable sort can return, the second as the binary search it is.
  The theorems give the page a call returns as a function of the cursor, and show that
  following the cursors from the first page visits every session exactly once.
\<close>

section \<open>Model\<close>

definition DefaultLimit :: int where "DefaultLimit = 50"
definition MaxLimit :: int where "MaxLimit = 100"

datatype page_error = ErrInvalidCursor | ErrInvalidLimit

record Page =
  pg_Entries :: "Entry list"
  pg_NextCursor :: bytes

definition before :: "Entry \<Rightarrow> Entry \<Rightarrow> bool" where
  "before a b =
     (if e_TimeMS a \<noteq> e_TimeMS b then e_TimeMS a > e_TimeMS b
      else entry_session a < entry_session b)"

definition encodeCursor :: "Entry \<Rightarrow> bytes" where
  "encodeCursor entry =
     base64_EncodeToString (FormatInt (e_TimeMS entry) @ '':'' @ entry_session entry)"

text \<open>The entry a cursor stands for has a time and a session id, and Go's zero values
  elsewhere.\<close>

definition cursor_entry :: "int \<Rightarrow> bytes \<Rightarrow> Entry" where
  "cursor_entry timeMS sessionID =
     \<lparr>e_Action = [], e_TimeMS = timeMS, e_Record = FromOpen sessionID [] [] [] [] [] []\<rparr>"

definition decodeCursor :: "bytes \<Rightarrow> page_error + Entry" where
  "decodeCursor cursor =
     (case base64_DecodeString cursor of
        None \<Rightarrow> Inl ErrInvalidCursor
      | Some raw \<Rightarrow>
          (case go_cut CHR '':'' raw of (timeText, sessionID, found) \<Rightarrow>
             if \<not> found \<or> sessionID = [] then Inl ErrInvalidCursor
             else case ParseInt timeText of
               None \<Rightarrow> Inl ErrInvalidCursor
             | Some timeMS \<Rightarrow> Inr (cursor_entry timeMS sessionID)))"

fun insert_stable :: "('a \<Rightarrow> 'a \<Rightarrow> bool) \<Rightarrow> 'a \<Rightarrow> 'a list \<Rightarrow> 'a list" where
  "insert_stable lt x [] = [x]"
| "insert_stable lt x (y # ys) = (if lt y x then y # insert_stable lt x ys else x # y # ys)"

definition slice_stable :: "('a \<Rightarrow> 'a \<Rightarrow> bool) \<Rightarrow> 'a list \<Rightarrow> 'a list" where
  "slice_stable lt xs = foldr (insert_stable lt) xs []"

function search_loop :: "(nat \<Rightarrow> bool) \<Rightarrow> nat \<Rightarrow> nat \<Rightarrow> nat" where
  "search_loop f i j =
     (if i < j then
        (let h = (i + j) div 2 in if \<not> f h then search_loop f (h + 1) j else search_loop f i h)
      else i)"
  by pat_completeness auto
termination
  by (relation "measure (\<lambda>(f, i, j). j - i)") auto

definition sort_Search :: "nat \<Rightarrow> (nat \<Rightarrow> bool) \<Rightarrow> nat" where
  "sort_Search n f = search_loop f 0 n"

text \<open>\<^verbatim>\<open>List\<close>: the limit is an \<^verbatim>\<open>int\<close>, zero meaning the default; the slice bounds are
  \<open>start\<close> and \<open>end\<close>.\<close>

definition List_page :: "Entry list \<Rightarrow> bytes \<Rightarrow> int \<Rightarrow> page_error + Page" where
  "List_page sessions cursor limit0 =
     (let limit = (if limit0 = 0 then DefaultLimit else limit0) in
      if limit < 1 \<or> limit > MaxLimit then Inl ErrInvalidLimit
      else
        let ordered = slice_stable before sessions in
        case (if cursor = [] then Inr 0
              else case decodeCursor cursor of
                Inl err \<Rightarrow> Inl err
              | Inr after \<Rightarrow> Inr (sort_Search (length ordered) (\<lambda>i. before after (ordered ! i)))) of
          Inl err \<Rightarrow> Inl err
        | Inr start \<Rightarrow>
            let stop = min (start + nat limit) (length ordered) in
            Inr \<lparr>pg_Entries = drop start (take stop ordered),
                 pg_NextCursor = (if stop < length ordered then encodeCursor (ordered ! (stop - 1))
                                  else [])\<rparr>)"

text \<open>A client that follows the cursors until a page has none; the fuel is a number of
  pages.\<close>

fun walk_pages :: "nat \<Rightarrow> Entry list \<Rightarrow> bytes \<Rightarrow> int \<Rightarrow> Entry list option" where
  "walk_pages 0 sessions cursor limit = None"
| "walk_pages (Suc n) sessions cursor limit =
     (case List_page sessions cursor limit of
        Inl _ \<Rightarrow> None
      | Inr p \<Rightarrow>
          if pg_NextCursor p = [] then Some (pg_Entries p)
          else map_option (\<lambda>rest. pg_Entries p @ rest)
                 (walk_pages n sessions (pg_NextCursor p) limit))"

section \<open>Order\<close>

lemma before_irrefl [simp]: "\<not> before a a"
  by (simp add: before_def)

lemma before_trans: "before a b \<Longrightarrow> before b c \<Longrightarrow> before a c"
  by (auto simp: before_def split: if_splits)

lemma before_asym: "before a b \<Longrightarrow> \<not> before b a"
  using before_trans before_irrefl by blast

lemma before_total: "before a b \<or> before b a \<or> (e_TimeMS a = e_TimeMS b \<and> entry_session a = entry_session b)"
  by (auto simp: before_def)

lemma not_before_trans: "\<not> before b a \<Longrightarrow> \<not> before c b \<Longrightarrow> \<not> before c a"
  by (auto simp: before_def split: if_splits)

lemma before_not_before: "before x a \<Longrightarrow> \<not> before b a \<Longrightarrow> before x b"
  by (auto simp: before_def split: if_splits)

lemma before_cursor_entry [simp]:
  "before (cursor_entry (e_TimeMS a) (entry_session a)) = before a"
  by (rule ext) (simp add: before_def cursor_entry_def FromOpen_def)

section \<open>Library functions\<close>

lemma mset_insert_stable [simp]: "mset (insert_stable lt x ys) = add_mset x (mset ys)"
  by (induction ys) auto

lemma mset_slice_stable [simp]: "mset (slice_stable lt xs) = mset xs"
  by (induction xs) (simp_all add: slice_stable_def)

lemma set_slice_stable [simp]: "set (slice_stable lt xs) = set xs"
  by (metis mset_slice_stable set_mset_mset)

lemma length_slice_stable [simp]: "length (slice_stable lt xs) = length xs"
  by (metis mset_slice_stable size_mset)

lemma set_insert_stable [simp]: "set (insert_stable lt x ys) = insert x (set ys)"
  by (metis mset_insert_stable set_mset_add_mset_insert set_mset_mset)

lemma sorted_insert_stable:
  "sorted_wrt (\<lambda>a b. \<not> before b a) ys \<Longrightarrow> sorted_wrt (\<lambda>a b. \<not> before b a) (insert_stable before x ys)"
proof (induction ys)
  case Nil
  then show ?case by simp
next
  case (Cons y ys)
  then show ?case using before_asym [of y x] not_before_trans [of y x] by auto
qed

lemma sorted_slice_stable: "sorted_wrt (\<lambda>a b. \<not> before b a) (slice_stable before xs)"
  by (induction xs) (simp_all add: slice_stable_def sorted_insert_stable)

lemma sorted_slice_stable_strict:
  assumes "distinct (map entry_session xs)"
  shows "sorted_wrt before (slice_stable before xs)"
proof -
  let ?o = "slice_stable before xs"
  have "distinct (map entry_session ?o)"
    using assms by (metis mset_eq_imp_distinct_iff mset_map mset_slice_stable)
  then have ids: "entry_session (?o ! i) \<noteq> entry_session (?o ! j)" if "i < j" "j < length ?o" for i j
    using that by (auto simp: distinct_conv_nth)
  show ?thesis
    unfolding sorted_wrt_iff_nth_less
  proof (intro allI impI)
    fix i j
    assume ij: "i < j" "j < length ?o"
    with sorted_slice_stable [of xs] have "\<not> before (?o ! j) (?o ! i)"
      by (simp add: sorted_wrt_iff_nth_less)
    with ids [OF ij] before_total [of "?o ! i" "?o ! j"] show "before (?o ! i) (?o ! j)" by blast
  qed
qed

lemma search_loop_finds:
  assumes "\<forall>m < n. f m \<longleftrightarrow> k \<le> m" and "i \<le> k" and "k \<le> j" and "j \<le> n"
  shows "search_loop f i j = k"
  using assms
proof (induction f i j rule: search_loop.induct)
  case (1 f i j)
  show ?case
  proof (cases "i < j")
    case True
    let ?h = "(i + j) div 2"
    have h: "i \<le> ?h" "?h < j" using True by auto
    with 1(3) 1(6) have fh: "f ?h \<longleftrightarrow> k \<le> ?h" by simp
    show ?thesis
    proof (cases "f ?h")
      case True
      with fh 1(2) [OF \<open>i < j\<close> refl] 1(3-6) h show ?thesis
        by (subst search_loop.simps) (simp add: \<open>i < j\<close> Let_def)
    next
      case False
      with fh 1(1) [OF \<open>i < j\<close> refl] 1(3-6) h show ?thesis
        by (subst search_loop.simps) (simp add: \<open>i < j\<close> Let_def)
    qed
  next
    case False
    with 1(4,5) show ?thesis by (subst search_loop.simps) simp
  qed
qed

lemma sort_Search_finds: "k \<le> n \<Longrightarrow> \<forall>m < n. f m \<longleftrightarrow> k \<le> m \<Longrightarrow> sort_Search n f = k"
  unfolding sort_Search_def by (rule search_loop_finds) auto

text \<open>In a list that is sorted, the entries after a point are a suffix.\<close>

lemma filter_before_drop:
  assumes "sorted_wrt (\<lambda>a b. \<not> before b a) xs"
  obtains k where "k \<le> length xs" "\<forall>m < length xs. before a (xs ! m) \<longleftrightarrow> k \<le> m"
    "filter (before a) xs = drop k xs"
proof -
  have "\<exists>k \<le> length xs. (\<forall>m < length xs. before a (xs ! m) \<longleftrightarrow> k \<le> m) \<and>
      filter (before a) xs = drop k xs"
    using assms
  proof (induction xs)
    case Nil
    then show ?case by simp
  next
    case (Cons x xs)
    show ?case
    proof (cases "before a x")
      case True
      have "before a y" if "y \<in> set xs" for y
        using that Cons.prems before_not_before [OF True, of y] by simp
      with True have all: "\<forall>y \<in> set (x # xs). before a y" by simp
      then have "filter (before a) (x # xs) = x # xs" by (simp add: filter_id_conv)
      moreover have "\<forall>m < length (x # xs). before a ((x # xs) ! m)"
        using all nth_mem by blast
      ultimately show ?thesis by (intro exI [of _ 0]) simp
    next
      case False
      from Cons obtain k where k: "k \<le> length xs" "\<forall>m < length xs. before a (xs ! m) \<longleftrightarrow> k \<le> m"
        "filter (before a) xs = drop k xs" by auto
      then show ?thesis using False
        by (intro exI [of _ "Suc k"]) (auto simp: nth_Cons' less_Suc_eq_0_disj)
    qed
  qed
  then show ?thesis using that by blast
qed

section \<open>Cursors\<close>

lemma decodeCursor_encodeCursor:
  assumes "int64_range (e_TimeMS e)" and "entry_session e \<noteq> []"
  shows "decodeCursor (encodeCursor e) = Inr (cursor_entry (e_TimeMS e) (entry_session e))"
  using assms
  by (simp add: decodeCursor_def encodeCursor_def base64_roundtrip FormatInt_no_colon
      ParseInt_FormatInt)

lemma encodeCursor_nonempty: "encodeCursor e \<noteq> []"
  by (simp add: encodeCursor_def base64_nonempty)

text \<open>A page as a prefix of the entries that are left, and the page as \<^verbatim>\<open>List\<close> slices it.\<close>

definition page_of :: "Entry list \<Rightarrow> nat \<Rightarrow> Page" where
  "page_of rest n =
     \<lparr>pg_Entries = take n rest,
      pg_NextCursor = (if n < length rest then encodeCursor (rest ! (n - 1)) else [])\<rparr>"

definition page_slice :: "Entry list \<Rightarrow> nat \<Rightarrow> nat \<Rightarrow> Page" where
  "page_slice ordered start n =
     (let stop = min (start + n) (length ordered) in
      \<lparr>pg_Entries = drop start (take stop ordered),
       pg_NextCursor = (if stop < length ordered then encodeCursor (ordered ! (stop - 1)) else [])\<rparr>)"

lemma page_slice_page_of:
  assumes "0 < n" and "start \<le> length ordered"
  shows "page_slice ordered start n = page_of (drop start ordered) n"
  using assms by (auto simp: page_of_def page_slice_def Let_def drop_take min_def)

definition effective_limit :: "int \<Rightarrow> nat" where
  "effective_limit limit = nat (if limit = 0 then DefaultLimit else limit)"

definition valid_limit :: "int \<Rightarrow> bool" where
  "valid_limit limit \<longleftrightarrow> 0 \<le> limit \<and> limit \<le> MaxLimit"

lemma effective_limit_pos: "valid_limit limit \<Longrightarrow> 0 < effective_limit limit"
  by (auto simp: effective_limit_def valid_limit_def DefaultLimit_def)

lemma List_page_valid:
  assumes "valid_limit limit"
  shows "List_page ss cursor limit =
    (case (if cursor = [] then Inr 0
           else case decodeCursor cursor of
             Inl err \<Rightarrow> Inl err
           | Inr after \<Rightarrow> Inr (sort_Search (length ss) (\<lambda>i. before after (slice_stable before ss ! i)))) of
       Inl err \<Rightarrow> Inl err
     | Inr start \<Rightarrow> Inr (page_slice (slice_stable before ss) start (effective_limit limit)))"
proof -
  let ?l = "if limit = 0 then DefaultLimit else limit"
  have "\<not> (?l < 1 \<or> ?l > MaxLimit)"
    using assms by (auto simp: valid_limit_def DefaultLimit_def MaxLimit_def)
  then show ?thesis
    unfolding List_page_def page_slice_def effective_limit_def Let_def length_slice_stable
    by (simp only: if_False)
qed

lemma List_page_first:
  assumes "valid_limit limit"
  shows "List_page ss [] limit = Inr (page_of (slice_stable before ss) (effective_limit limit))"
  by (simp add: List_page_valid [OF assms] page_slice_page_of [OF effective_limit_pos [OF assms]])

lemma List_page_after:
  assumes "valid_limit limit" and "cursor \<noteq> []" and "decodeCursor cursor = Inr a"
  shows "List_page ss cursor limit =
         Inr (page_of (filter (before a) (slice_stable before ss)) (effective_limit limit))"
proof -
  let ?o = "slice_stable before ss"
  from filter_before_drop [OF sorted_slice_stable] obtain k where
    k: "k \<le> length ?o" "\<forall>m < length ?o. before a (?o ! m) \<longleftrightarrow> k \<le> m"
      "filter (before a) ?o = drop k ?o" by metis
  from sort_Search_finds [OF k(1,2)] have "sort_Search (length ss) (\<lambda>i. before a (?o ! i)) = k"
    by simp
  with assms k page_slice_page_of [OF effective_limit_pos [OF assms(1)] k(1)] show ?thesis
    by (simp add: List_page_valid)
qed

lemma filter_before_nth:
  assumes "sorted_wrt before xs" and "k < length xs"
  shows "filter (before (xs ! k)) xs = drop (Suc k) xs"
proof -
  have "xs = take k xs @ xs ! k # drop (Suc k) xs" using assms(2) by (rule id_take_nth_drop)
  moreover have "filter (before (xs ! k)) (take k xs) = []"
    using assms before_asym
    by (fastforce simp: filter_empty_conv in_set_conv_nth sorted_wrt_iff_nth_less)
  moreover have "filter (before (xs ! k)) (drop (Suc k) xs) = drop (Suc k) xs"
    using assms by (auto simp: filter_id_conv in_set_conv_nth sorted_wrt_iff_nth_less)
  ultimately show ?thesis
    by (metis before_irrefl append_Nil filter.simps(2) filter_append)
qed


subsection \<open>Following the cursors\<close>

definition cursor_at :: "Entry list \<Rightarrow> nat \<Rightarrow> bytes" where
  "cursor_at ordered k = (if k = 0 then [] else encodeCursor (ordered ! (k - 1)))"

definition addressable :: "Entry list \<Rightarrow> bool" where
  "addressable ss \<longleftrightarrow>
     distinct (map entry_session ss) \<and>
     (\<forall>e \<in> set ss. int64_range (e_TimeMS e) \<and> entry_session e \<noteq> [])"

lemma List_page_cursor_at:
  assumes "addressable ss" and "valid_limit limit" and "k \<le> length ss"
  shows "List_page ss (cursor_at (slice_stable before ss) k) limit =
         Inr (page_of (drop k (slice_stable before ss)) (effective_limit limit))"
proof (cases k)
  case 0
  with assms show ?thesis by (simp add: cursor_at_def List_page_first)
next
  case (Suc m)
  let ?o = "slice_stable before ss"
  have m: "m < length ?o" using Suc assms(3) by simp
  then have "?o ! m \<in> set ss" using nth_mem [of m ?o] by simp
  then have dec: "decodeCursor (encodeCursor (?o ! m)) =
      Inr (cursor_entry (e_TimeMS (?o ! m)) (entry_session (?o ! m)))"
    using assms(1) unfolding addressable_def by (metis decodeCursor_encodeCursor)
  have "sorted_wrt before ?o"
    using assms(1) by (intro sorted_slice_stable_strict) (simp add: addressable_def)
  with List_page_after [OF assms(2) encodeCursor_nonempty dec] Suc m filter_before_nth
  show ?thesis by (simp add: cursor_at_def)
qed

lemma page_of_cursor:
  assumes "0 < n" and "k + n < length ordered"
  shows "pg_NextCursor (page_of (drop k ordered) n) = cursor_at ordered (k + n)"
  using assms by (simp add: page_of_def cursor_at_def less_diff_conv)

lemma walk_pages_from:
  assumes "addressable ss" and "valid_limit limit" and "k \<le> length ss" and "length ss - k < fuel"
  shows "walk_pages fuel ss (cursor_at (slice_stable before ss) k) limit =
         Some (drop k (slice_stable before ss))"
  using assms
proof (induction fuel arbitrary: k)
  case 0
  then show ?case by simp
next
  case (Suc fuel)
  let ?o = "slice_stable before ss" and ?n = "effective_limit limit"
  have n: "0 < ?n" by (rule effective_limit_pos [OF Suc.prems(2)])
  note page = List_page_cursor_at [OF Suc.prems(1-3)]
  show ?case
  proof (cases "k + ?n < length ?o")
    case True
    have "walk_pages fuel ss (cursor_at ?o (k + ?n)) limit = Some (drop (k + ?n) ?o)"
      using True Suc.prems n by (intro Suc.IH) auto
    moreover have "cursor_at ?o (k + ?n) \<noteq> []"
      using n by (simp add: cursor_at_def encodeCursor_nonempty)
    moreover have "take ?n (drop k ?o) @ drop (k + ?n) ?o = drop k ?o"
      by (metis add.commute append_take_drop_id drop_drop)
    ultimately show ?thesis
      using page page_of_cursor [OF n True] by (simp add: page_of_def)
  next
    case False
    then have "\<not> ?n < length ?o - k" by simp
    with page show ?thesis by (simp add: page_of_def)
  qed
qed

section \<open>Properties\<close>

text \<open>A cursor that a page issued is read back as the position it was issued for: the
  time and the session id of the last entry of that page.\<close>

lemma cursor_roundtrip:
  assumes "int64_range (e_TimeMS e)" and "entry_session e \<noteq> []"
  shows "decodeCursor (encodeCursor e) = Inr (cursor_entry (e_TimeMS e) (entry_session e))"
  using assms by (rule decodeCursor_encodeCursor)

text \<open>C29. Following the cursors: over a listing whose session ids are distinct and not empty,
  a client that asks for the first page and then for the page of each cursor it is given ends
  after finitely many pages, is never refused, and has seen every session exactly once, newest
  first.\<close>

theorem pages_cover_listing:
  assumes "addressable ss" and "valid_limit limit"
  shows "walk_pages (Suc (length ss)) ss [] limit = Some (slice_stable before ss) \<and>
         mset (slice_stable before ss) = mset ss \<and> sorted_wrt before (slice_stable before ss)"
proof -
  have "sorted_wrt before (slice_stable before ss)"
    using assms(1) by (intro sorted_slice_stable_strict) (simp add: addressable_def)
  then show ?thesis
    using walk_pages_from [OF assms, of 0 "Suc (length ss)"] by (simp add: cursor_at_def)
qed

theorem pages_cover_listing_witness:
  "walk_pages 3 [Opened (FromOpen ''a'' [] [] [] [] [] []) 1, Opened (FromOpen ''b'' [] [] [] [] [] []) 2] [] 1 =
     Some [Opened (FromOpen ''b'' [] [] [] [] [] []) 2, Opened (FromOpen ''a'' [] [] [] [] [] []) 1]"
  using pages_cover_listing [of
      "[Opened (FromOpen ''a'' [] [] [] [] [] []) 1, Opened (FromOpen ''b'' [] [] [] [] [] []) 2]" 1]
  by (simp add: addressable_def valid_limit_def MaxLimit_def Opened_def FromOpen_def int64_range_def
      slice_stable_def before_def numeral_3_eq_3)

text \<open>A page is what the cursor asks for, also when the cursor's own session is gone or
  has moved: the first entries, up to the limit, of those that come after the cursor's
  position in the order of the listing, with a next cursor exactly when some are left.\<close>

lemma List_page_functional:
  assumes "valid_limit limit" and "cursor \<noteq> []" and "decodeCursor cursor = Inr a"
  shows "\<exists>p. List_page ss cursor limit = Inr p \<and>
           pg_Entries p = take (effective_limit limit) (filter (before a) (slice_stable before ss)) \<and>
           (pg_NextCursor p \<noteq> [] \<longleftrightarrow>
              effective_limit limit < length (filter (before a) (slice_stable before ss)))"
  by (simp add: List_page_after [OF assms] page_of_def encodeCursor_nonempty)

end
