(* ===== verification/Binding_Runs.thy ===== *)
theory Binding_Runs
  imports Oap_Prelude
begin

text \<open>
  The log of runs, \<^verbatim>\<open>go/binding/runs.go\<close>: what an endpoint has admitted, started and settled,
  kept so that a restart can redeliver what was still open.  \<open>openRuns\<close> reads a log as the
  list of its open runs; \<open>keptAfter\<close> is the log a store keeps after one more record, with
  every record of a settled or replaced run dropped; the memory store is the log itself.

  The open runs are computed in the source with a list, an index of positions into it and a
  set of ended runs.  \<open>spec_step\<close> is the same computation on the list alone; the two agree on
  every log that admits a run once, as its first record.  The main theorem is that the
  compacted log answers as the whole history would.
\<close>

section \<open>Model\<close>

definition RunAdmitted :: bytes where "RunAdmitted = ''admitted''"
definition RunStarted :: bytes where "RunStarted = ''started''"
definition RunSettled :: bytes where "RunSettled = ''settled''"

lemmas run_action_defs = RunAdmitted_def RunStarted_def RunSettled_def

record RunRecord =
  rr_Action :: bytes
  rr_TimeMS :: int
  rr_SessionID :: bytes
  rr_RunID :: bytes
  rr_Request :: bytes
  rr_Replaces :: bytes
  rr_Root :: bytes

record OpenRun =
  or_RunID :: bytes
  or_AdmittedMS :: int
  or_Started :: bool
  or_Request :: bytes
  or_Root :: bytes

type_synonym run_index = "bytes \<rightharpoonup> nat"
type_synonym open_state = "OpenRun list \<times> run_index \<times> bytes set"

definition removeRun :: "OpenRun list \<Rightarrow> run_index \<Rightarrow> bytes \<Rightarrow> OpenRun list \<times> run_index" where
  "removeRun runs at runID =
     (case at runID of
        None \<Rightarrow> (runs, at)
      | Some index \<Rightarrow>
          (take index runs @ drop (Suc index) runs,
           (\<lambda>other. if other = runID then None
                    else map_option (\<lambda>later. if later > index then later - 1 else later) (at other))))"

text \<open>The run a record opens: in the place of a replaced run, or as a new last one.\<close>

definition opened_run :: "RunRecord \<Rightarrow> bytes \<Rightarrow> bytes \<Rightarrow> OpenRun" where
  "opened_run r request inherited =
     \<lparr>or_RunID = rr_RunID r, or_AdmittedMS = rr_TimeMS r, or_Started = False, or_Request = request,
      or_Root = (if rr_Root r = [] then inherited else rr_Root r)\<rparr>"

text \<open>One iteration of the loop of \<^verbatim>\<open>openRuns\<close>.\<close>

definition open_step :: "bytes \<Rightarrow> open_state \<Rightarrow> RunRecord \<Rightarrow> open_state" where
  "open_step sessionID st r =
     (case st of (runs, at, ended) \<Rightarrow>
        if rr_SessionID r \<noteq> sessionID \<or> rr_RunID r \<in> ended then (runs, at, ended)
        else if rr_Action r = RunSettled then
          (case removeRun runs at (rr_RunID r) of
             (runs', at') \<Rightarrow> (runs', at', insert (rr_RunID r) ended))
        else
          let replacing = (rr_Action r = RunAdmitted \<and> rr_Replaces r \<noteq> []);
              ended' = (if replacing then insert (rr_Replaces r) ended else ended)
          in case (if replacing then at (rr_Replaces r) else None) of
            Some slot \<Rightarrow>
              (runs[slot := opened_run r (rr_Request r) (or_Root (runs ! slot))],
               (at(rr_Replaces r := None))(rr_RunID r \<mapsto> slot), ended')
          | None \<Rightarrow>
              (case (case at (rr_RunID r) of
                       Some index \<Rightarrow> (runs, at, index)
                     | None \<Rightarrow> (runs @ [opened_run r [] (rr_RunID r)],
                                at(rr_RunID r \<mapsto> length runs), length runs)) of
                 (runs', at', index) \<Rightarrow>
                   (if rr_Action r = RunAdmitted
                    then runs'[index := (runs' ! index)\<lparr>or_Request := rr_Request r\<rparr>]
                    else if rr_Action r = RunStarted
                    then runs'[index := (runs' ! index)\<lparr>or_Started := True\<rparr>]
                    else runs', at', ended')))"

definition openRuns :: "RunRecord list \<Rightarrow> bytes \<Rightarrow> OpenRun list" where
  "openRuns records sessionID = fst (foldl (open_step sessionID) ([], Map.empty, {}) records)"

definition stamped :: "RunRecord list \<Rightarrow> RunRecord \<Rightarrow> RunRecord" where
  "stamped records r =
     (if rr_Action r \<noteq> RunAdmitted \<or> rr_Replaces r = [] \<or> rr_Root r \<noteq> [] then r
      else case find (\<lambda>run. or_RunID run = rr_Replaces r) (openRuns records (rr_SessionID r)) of
        None \<Rightarrow> r
      | Some run \<Rightarrow> r\<lparr>rr_Root := or_Root run\<rparr>)"

text \<open>The sessions of a log in the order of their first record.\<close>

definition log_sessions :: "RunRecord list \<Rightarrow> bytes list" where
  "log_sessions records =
     foldl (\<lambda>sessions held. if rr_SessionID held \<in> set sessions then sessions
                            else sessions @ [rr_SessionID held]) [] records"

definition keptAfter :: "RunRecord list \<Rightarrow> RunRecord \<Rightarrow> RunRecord list" where
  "keptAfter records r =
     (let whole = records @ [stamped records r] in
      concat (map (\<lambda>sessionID.
        concat (map (\<lambda>run.
          filter (\<lambda>held. rr_Action held \<noteq> RunSettled \<and> rr_SessionID held = sessionID \<and>
                         rr_RunID held = or_RunID run) whole)
          (openRuns whole sessionID)))
        (log_sessions whole)))"

subsection \<open>The memory store\<close>

record memoryRuns =
  mr_records :: "RunRecord list"

definition MemoryRuns :: memoryRuns where
  "MemoryRuns = \<lparr>mr_records = []\<rparr>"

definition mem_AppendRun :: "memoryRuns \<Rightarrow> RunRecord \<Rightarrow> memoryRuns" where
  "mem_AppendRun s r = s\<lparr>mr_records := keptAfter (mr_records s) r\<rparr>"

definition mem_OpenRuns :: "memoryRuns \<Rightarrow> bytes \<Rightarrow> OpenRun list" where
  "mem_OpenRuns s sessionID = openRuns (mr_records s) sessionID"

section \<open>Specification: the open runs without an index\<close>

type_synonym run_spec = "OpenRun list \<times> bytes set"

abbreviation run_ids :: "OpenRun list \<Rightarrow> bytes set" where
  "run_ids runs \<equiv> or_RunID ` set runs"

definition upd_run :: "bytes \<Rightarrow> (OpenRun \<Rightarrow> OpenRun) \<Rightarrow> OpenRun list \<Rightarrow> OpenRun list" where
  "upd_run k f runs = map (\<lambda>o'. if or_RunID o' = k then f o' else o') runs"

definition mark_run :: "RunRecord \<Rightarrow> OpenRun \<Rightarrow> OpenRun" where
  "mark_run r o' =
     (if rr_Action r = RunAdmitted then o'\<lparr>or_Request := rr_Request r\<rparr>
      else if rr_Action r = RunStarted then o'\<lparr>or_Started := True\<rparr> else o')"

definition replacing :: "RunRecord \<Rightarrow> bool" where
  "replacing r \<longleftrightarrow> rr_Action r = RunAdmitted \<and> rr_Replaces r \<noteq> []"

definition spec_step :: "bytes \<Rightarrow> run_spec \<Rightarrow> RunRecord \<Rightarrow> run_spec" where
  "spec_step sessionID st r =
     (case st of (runs, ended) \<Rightarrow>
        if rr_SessionID r \<noteq> sessionID \<or> rr_RunID r \<in> ended then (runs, ended)
        else if rr_Action r = RunSettled then
          (filter (\<lambda>o'. or_RunID o' \<noteq> rr_RunID r) runs, insert (rr_RunID r) ended)
        else
          (if replacing r \<and> rr_Replaces r \<in> run_ids runs
           then upd_run (rr_Replaces r) (\<lambda>o'. opened_run r (rr_Request r) (or_Root o')) runs
           else if rr_RunID r \<in> run_ids runs then upd_run (rr_RunID r) (mark_run r) runs
           else runs @ [mark_run r (opened_run r [] (rr_RunID r))],
           if replacing r then insert (rr_Replaces r) ended else ended))"

definition spec_runs :: "RunRecord list \<Rightarrow> bytes \<Rightarrow> run_spec" where
  "spec_runs records sessionID = foldl (spec_step sessionID) ([], {}) records"

section \<open>The index refines the specification\<close>

definition idx_ok :: "OpenRun list \<Rightarrow> run_index \<Rightarrow> bool" where
  "idx_ok runs at \<longleftrightarrow>
     distinct (map or_RunID runs) \<and>
     (\<forall>k i. at k = Some i \<longleftrightarrow> i < length runs \<and> or_RunID (runs ! i) = k)"

lemma idx_ok_None: "idx_ok runs at \<Longrightarrow> at k = None \<longleftrightarrow> k \<notin> run_ids runs"
  unfolding idx_ok_def
  by (metis (no_types, lifting) image_iff in_set_conv_nth not_Some_eq)

lemma idx_ok_Some:
  "idx_ok runs at \<Longrightarrow> at k = Some i \<Longrightarrow>
     i < length runs \<and> or_RunID (runs ! i) = k \<and> k \<in> run_ids runs"
  unfolding idx_ok_def by (metis imageI nth_mem)

lemma idx_upd:
  assumes "idx_ok runs at" and "at k = Some i"
  shows "upd_run k f runs = runs[i := f (runs ! i)]"
proof (rule nth_equalityI)
  show "length (upd_run k f runs) = length (runs[i := f (runs ! i)])" by (simp add: upd_run_def)
next
  fix j
  assume "j < length (upd_run k f runs)"
  then have j: "j < length runs" by (simp add: upd_run_def)
  have "or_RunID (runs ! j) = k \<longleftrightarrow> j = i"
    using assms j unfolding idx_ok_def by (metis option.inject)
  with j show "upd_run k f runs ! j = runs[i := f (runs ! i)] ! j"
    by (simp add: upd_run_def nth_list_update)
qed

lemma idx_ok_same_ids:
  assumes "idx_ok runs at" and "map or_RunID runs' = map or_RunID runs"
  shows "idx_ok runs' at"
proof -
  from assms(2) have len: "length runs' = length runs" by (rule map_eq_imp_length_eq)
  with assms(2) have "\<forall>i < length runs. or_RunID (runs' ! i) = or_RunID (runs ! i)"
    by (metis nth_map)
  with assms len show ?thesis by (auto simp: idx_ok_def)
qed

lemma idx_ok_append:
  assumes "idx_ok runs at" and "or_RunID o' = k" and "k \<notin> run_ids runs"
  shows "idx_ok (runs @ [o']) (at(k \<mapsto> length runs))"
  using assms unfolding idx_ok_def
  by (auto simp: nth_append less_Suc_eq image_iff) (metis nth_mem)+

lemma idx_ok_replace:
  assumes ok: "idx_ok runs at" and slot: "at p = Some i" and new: "or_RunID o' \<notin> run_ids runs"
  shows "idx_ok (runs[i := o']) ((at(p := None))(or_RunID o' \<mapsto> i))"
proof -
  have i: "i < length runs" "or_RunID (runs ! i) = p" using idx_ok_Some [OF ok slot] by auto
  have other: "or_RunID (runs ! j) \<noteq> or_RunID o'" if "j < length runs" for j
    using new that by (metis imageI nth_mem)
  have "distinct (map or_RunID (runs[i := o']))"
    using ok new i by (simp add: idx_ok_def map_update distinct_list_update image_image)
  moreover have "((at(p := None))(or_RunID o' \<mapsto> i)) k = Some j \<longleftrightarrow>
      j < length runs \<and> or_RunID (runs[i := o'] ! j) = k" for k j
    using ok i new unfolding idx_ok_def
    by (cases "j = i"; cases "k = or_RunID o'"; cases "k = p")
      (auto simp: nth_list_update image_iff distinct_conv_nth dest: nth_mem other)
  ultimately show ?thesis by (simp add: idx_ok_def)
qed


lemma idx_filter:
  assumes "idx_ok runs at" and "at k = Some i"
  shows "filter (\<lambda>o'. or_RunID o' \<noteq> k) runs = take i runs @ drop (Suc i) runs"
proof -
  from idx_ok_Some [OF assms] have i: "i < length runs" "or_RunID (runs ! i) = k" by auto
  have other: "or_RunID (runs ! j) \<noteq> k" if "j < length runs" "j \<noteq> i" for j
    using assms that unfolding idx_ok_def by (metis option.inject)
  have "filter (\<lambda>o'. or_RunID o' \<noteq> k) (take i runs) = take i runs"
    using i other by (auto simp: filter_id_conv in_set_conv_nth)
  moreover have "filter (\<lambda>o'. or_RunID o' \<noteq> k) (drop (Suc i) runs) = drop (Suc i) runs"
    using i other by (auto simp: filter_id_conv in_set_conv_nth)
  ultimately show ?thesis
    by (subst id_take_nth_drop [OF i(1)]) (simp add: i(2))
qed

lemma idx_ok_remove:
  assumes ok: "idx_ok runs at" and k: "at k = Some i"
  shows "idx_ok (take i runs @ drop (Suc i) runs)
           (\<lambda>other. if other = k then None
                    else map_option (\<lambda>l. if l > i then l - 1 else l) (at other))" (is "idx_ok ?r ?a")
proof -
  from idx_ok_Some [OF assms] have i: "i < length runs" "or_RunID (runs ! i) = k" by auto
  have dist: "distinct (map or_RunID ?r)"
    using ok idx_filter [OF assms, symmetric] by (simp add: idx_ok_def distinct_map_filter)
  have nth: "?r ! j = (if j < i then runs ! j else runs ! Suc j)" if "Suc j < length runs" for j
    using i that by (auto simp: nth_append min_def)
  have len: "length ?r = length runs - 1" using i by simp
  have "?a x = Some j \<longleftrightarrow> j < length ?r \<and> or_RunID (?r ! j) = x" for x j
  proof (cases "x = k")
    case True
    have "or_RunID (?r ! j) \<noteq> k" if "j < length ?r"
      using that idx_filter [OF assms, symmetric] nth_mem [OF that] by auto
    with True show ?thesis by auto
  next
    case False
    have ats: "at x = Some l \<longleftrightarrow> l < length runs \<and> or_RunID (runs ! l) = x" for l
      using ok by (simp add: idx_ok_def)
    have shift: "(if l > i then l - 1 else l) = j \<longleftrightarrow> l = (if j < i then j else Suc j)"
      if "l \<noteq> i" for l
      using that by (auto split: if_splits)
    have "?a x = Some j \<longleftrightarrow> (if j < i then at x = Some j else at x = Some (Suc j))"
    proof (cases "at x")
      case None
      then show ?thesis using False by simp
    next
      case (Some l)
      then have "l \<noteq> i" using ats [of i] i(2) False by auto
      with Some False shift [of l] show ?thesis by auto
    qed
    also have "\<dots> \<longleftrightarrow> j < length ?r \<and> or_RunID (?r ! j) = x"
    proof (cases "j < i")
      case True
      with i(1) have "Suc j < length runs" by simp
      then have "j < length ?r" and "j < length runs" using len by linarith+
      with True nth [of j] \<open>Suc j < length runs\<close> show ?thesis by (simp only: ats if_True)
    next
      case False
      have "j < length ?r \<longleftrightarrow> Suc j < length runs" using len i(1) by linarith
      with False nth [of j] show ?thesis by (simp only: ats if_False) metis
    qed
    finally show ?thesis .
  qed
  with dist show ?thesis by (simp add: idx_ok_def)
qed

lemma open_step_spec:
  assumes ok: "idx_ok runs at"
    and fresh: "replacing r \<Longrightarrow> rr_Replaces r \<in> run_ids runs \<Longrightarrow> rr_RunID r \<notin> run_ids runs"
  shows "\<exists>runs' at' ended'. open_step sid (runs, at, ended) r = (runs', at', ended') \<and>
           spec_step sid (runs, ended) r = (runs', ended') \<and> idx_ok runs' at'"
proof -
  consider (skip) "rr_SessionID r \<noteq> sid \<or> rr_RunID r \<in> ended"
    | (settled) "\<not> (rr_SessionID r \<noteq> sid \<or> rr_RunID r \<in> ended)" "rr_Action r = RunSettled"
    | (replace) "\<not> (rr_SessionID r \<noteq> sid \<or> rr_RunID r \<in> ended)" "rr_Action r \<noteq> RunSettled"
        "replacing r \<and> rr_Replaces r \<in> run_ids runs"
    | (other) "\<not> (rr_SessionID r \<noteq> sid \<or> rr_RunID r \<in> ended)" "rr_Action r \<noteq> RunSettled"
        "\<not> (replacing r \<and> rr_Replaces r \<in> run_ids runs)"
    by blast
  then show ?thesis
  proof cases
    case skip
    with ok show ?thesis by (auto simp: open_step_def spec_step_def)
  next
    case settled
    then show ?thesis
    proof (cases "at (rr_RunID r)")
      case None
      with ok have "filter (\<lambda>o'. or_RunID o' \<noteq> rr_RunID r) runs = runs"
        using idx_ok_None [OF ok, of "rr_RunID r"] by (auto simp: filter_id_conv image_iff)
      with settled None ok show ?thesis by (simp add: open_step_def spec_step_def removeRun_def)
    next
      case (Some i)
      with settled ok idx_filter [OF ok Some] idx_ok_remove [OF ok Some] show ?thesis
        by (simp add: open_step_def spec_step_def removeRun_def)
    qed
  next
    case replace
    then obtain i where i: "at (rr_Replaces r) = Some i" using idx_ok_None [OF ok] by auto
    let ?o = "opened_run r (rr_Request r) (or_Root (runs ! i))"
    have "idx_ok (runs[i := ?o]) ((at(rr_Replaces r := None))(rr_RunID r \<mapsto> i))"
      using idx_ok_replace [OF ok i, of ?o] fresh replace(3) by (simp add: opened_run_def)
    moreover have "upd_run (rr_Replaces r) (\<lambda>o'. opened_run r (rr_Request r) (or_Root o')) runs = runs[i := ?o]"
      by (rule idx_upd [OF ok i])
    ultimately show ?thesis
      using replace i by (simp add: open_step_def spec_step_def replacing_def)
  next
    case other
    let ?ended = "if replacing r then insert (rr_Replaces r) ended else ended"
    have none: "(if rr_Action r = RunAdmitted \<and> rr_Replaces r \<noteq> [] then at (rr_Replaces r) else None) = None"
      using other(3) idx_ok_None [OF ok] by (auto simp: replacing_def)
    show ?thesis
    proof (cases "at (rr_RunID r)")
      case None
      let ?o = "opened_run r [] (rr_RunID r)"
      have new: "rr_RunID r \<notin> run_ids runs" using None idx_ok_None [OF ok] by blast
      then have "idx_ok (runs @ [mark_run r ?o]) (at(rr_RunID r \<mapsto> length runs))"
        by (intro idx_ok_append [OF ok]) (simp_all add: mark_run_def opened_run_def)
      then show ?thesis using other none None new
        by (auto simp: open_step_def spec_step_def replacing_def mark_run_def list_update_append
            nth_append)
    next
      case (Some i)
      have i: "i < length runs" "rr_RunID r \<in> run_ids runs" using idx_ok_Some [OF ok Some] by auto
      have ids: "idx_ok (upd_run (rr_RunID r) (mark_run r) runs) at"
        by (rule idx_ok_same_ids [OF ok]) (simp add: upd_run_def mark_run_def)
      have "upd_run (rr_RunID r) (mark_run r) runs = runs[i := mark_run r (runs ! i)]"
        by (rule idx_upd [OF ok Some])
      with ids i other none Some show ?thesis
        by (auto simp: open_step_def spec_step_def replacing_def mark_run_def)
    qed
  qed
qed


section \<open>What a log says of each open run\<close>

text \<open>The records of one run that are kept while it is open, and the run they describe.\<close>

definition run_block :: "RunRecord list \<Rightarrow> bytes \<Rightarrow> bytes \<Rightarrow> RunRecord list" where
  "run_block records sid k =
     filter (\<lambda>h. rr_Action h \<noteq> RunSettled \<and> rr_SessionID h = sid \<and> rr_RunID h = k) records"

fun run_of :: "RunRecord list \<Rightarrow> OpenRun" where
  "run_of [] = opened_run undefined [] []"
| "run_of (r # rs) = foldl (\<lambda>o' h. mark_run h o') (mark_run r (opened_run r [] (rr_RunID r))) rs"

definition used_ids :: "RunRecord list \<Rightarrow> bytes \<Rightarrow> bytes set" where
  "used_ids records sid = rr_RunID ` {h \<in> set records. rr_SessionID h = sid}"

definition block_inv :: "RunRecord list \<Rightarrow> bytes \<Rightarrow> run_spec \<Rightarrow> bool" where
  "block_inv records sid st \<longleftrightarrow>
     run_ids (fst st) \<subseteq> used_ids records sid \<and>
     used_ids records sid \<subseteq> run_ids (fst st) \<union> snd st \<and>
     run_ids (fst st) \<inter> snd st = {} \<and>
     distinct (map or_RunID (fst st)) \<and>
     (\<forall>o' \<in> set (fst st). run_block records sid (or_RunID o') \<noteq> [] \<and>
                           o' = run_of (run_block records sid (or_RunID o'))) \<and>
     (\<forall>h \<in> set records. rr_SessionID h = sid \<and> replacing h \<and> rr_RunID h \<in> run_ids (fst st) \<longrightarrow>
                         rr_Replaces h \<in> snd st)"

lemma block_inv_disjoint: "block_inv records sid st \<Longrightarrow> run_ids (fst st) \<inter> snd st = {}"
  by (simp add: block_inv_def)

lemma block_inv_reps:
  "block_inv records sid st \<Longrightarrow> h \<in> set records \<Longrightarrow> rr_SessionID h = sid \<Longrightarrow> replacing h \<Longrightarrow>
   rr_RunID h \<in> run_ids (fst st) \<Longrightarrow> rr_Replaces h \<in> snd st"
  by (simp add: block_inv_def)

text \<open>What a record has to satisfy to be appended.\<close>

definition fresh_record :: "RunRecord list \<Rightarrow> RunRecord \<Rightarrow> bool" where
  "fresh_record records r \<longleftrightarrow>
     (rr_Action r = RunAdmitted \<longrightarrow>
        rr_Replaces r \<noteq> rr_RunID r \<and> rr_RunID r \<notin> used_ids records (rr_SessionID r))"

lemma inj_on_redirect: "k' \<notin> S \<Longrightarrow> inj_on (\<lambda>k. if k = p then k' else k) S"
  by (auto simp: inj_on_def)

lemma used_ids_iff:
  "k \<in> used_ids records sid \<longleftrightarrow> (\<exists>h \<in> set records. rr_SessionID h = sid \<and> rr_RunID h = k)"
  by (auto simp: used_ids_def)

lemma used_idsI: "h \<in> set records \<Longrightarrow> rr_SessionID h = sid \<Longrightarrow> rr_RunID h \<in> used_ids records sid"
  by (auto simp: used_ids_def)

lemma run_block_snoc:
  "run_block (records @ [r]) sid k =
     (if rr_Action r \<noteq> RunSettled \<and> rr_SessionID r = sid \<and> rr_RunID r = k
      then run_block records sid k @ [r] else run_block records sid k)"
  by (simp add: run_block_def)

lemma used_ids_snoc:
  "used_ids (records @ [r]) sid =
     (if rr_SessionID r = sid then insert (rr_RunID r) (used_ids records sid)
      else used_ids records sid)"
  by (auto simp: used_ids_def)

lemma run_of_snoc: "b \<noteq> [] \<Longrightarrow> run_of (b @ [r]) = mark_run r (run_of b)"
  by (cases b) auto

lemma run_ids_upd: "(\<And>o'. or_RunID (f o') = or_RunID o') \<Longrightarrow> run_ids (upd_run k f runs) = run_ids runs"
  unfolding upd_run_def set_map image_image by (rule image_cong) simp_all

lemma run_block_unused: "k \<notin> used_ids records sid \<Longrightarrow> run_block records sid k = []"
  by (auto simp: run_block_def used_ids_def filter_empty_conv)

lemma replacing_admitted: "replacing r \<Longrightarrow> rr_Action r = RunAdmitted \<and> rr_Action r \<noteq> RunSettled"
  by (auto simp: replacing_def run_action_defs)

lemma block_inv_replace:
  assumes inv: "block_inv records sid (runs, ended)" and fresh: "fresh_record records r"
    and s: "rr_SessionID r = sid" and rep: "replacing r" "rr_Replaces r \<in> run_ids runs"
    and root: "rr_Root r \<noteq> []" and open': "rr_RunID r \<notin> ended"
  shows "block_inv (records @ [r]) sid
           (upd_run (rr_Replaces r) (\<lambda>o'. opened_run r (rr_Request r) (or_Root o')) runs,
            insert (rr_Replaces r) ended)"
proof -
  let ?p = "rr_Replaces r" and ?k = "rr_RunID r"
  let ?n = "mark_run r (opened_run r [] ?k)"
  let ?u = "map (\<lambda>o'. if or_RunID o' = ?p then ?n else o') runs"
  have adm: "rr_Action r = RunAdmitted" "rr_Action r \<noteq> RunSettled"
    using replacing_admitted [OF rep(1)] by auto
  have new: "?k \<notin> used_ids records sid" "?p \<noteq> ?k"
    using fresh adm s by (auto simp: fresh_record_def)
  have upd: "upd_run ?p (\<lambda>o'. opened_run r (rr_Request r) (or_Root o')) runs = ?u"
    using root adm by (simp add: upd_run_def opened_run_def mark_run_def)
  have nid: "or_RunID ?n = ?k" by (simp add: mark_run_def opened_run_def)
  have notin: "?k \<notin> run_ids runs" using new inv by (auto simp: block_inv_def)
  have ids: "run_ids ?u = insert ?k (run_ids runs - {?p})"
  proof -
    have "run_ids ?u = (\<lambda>k. if k = ?p then ?k else k) ` run_ids runs"
      using nid unfolding set_map image_image by (intro image_cong) auto
    also have "\<dots> = insert ?k (run_ids runs - {?p})" using rep(2) by auto
    finally show ?thesis .
  qed
  have dist: "distinct (map or_RunID ?u)"
  proof -
    have "map or_RunID ?u = map (\<lambda>k. if k = ?p then ?k else k) (map or_RunID runs)"
      using nid by simp
    moreover have "inj_on (\<lambda>k. if k = ?p then ?k else k) (run_ids runs)"
      using notin by (rule inj_on_redirect)
    moreover have "distinct (map or_RunID runs)" using inv by (simp add: block_inv_def)
    ultimately show ?thesis by (simp only: distinct_map [of _ "map or_RunID runs"] set_map)
  qed
  have blk: "run_block (records @ [r]) sid (or_RunID o') \<noteq> [] \<and>
      o' = run_of (run_block (records @ [r]) sid (or_RunID o'))" if "o' \<in> set ?u" for o'
  proof (cases "o' = ?n")
    case True
    with nid new adm s show ?thesis
      by (simp add: run_block_snoc run_block_unused)
  next
    case False
    with that have o: "o' \<in> set runs" by (auto split: if_splits)
    then have "or_RunID o' \<noteq> ?k" using notin by (metis imageI)
    with o inv show ?thesis by (auto simp: run_block_snoc block_inv_def)
  qed
  have "used_ids (records @ [r]) sid \<subseteq> run_ids ?u \<union> insert ?p ended"
    and "run_ids ?u \<subseteq> used_ids (records @ [r]) sid"
    unfolding ids using inv new s by (auto simp: used_ids_snoc block_inv_def)
  moreover have "run_ids ?u \<inter> insert ?p ended = {}"
    unfolding ids using inv open' new(2) by (auto simp: block_inv_def)
  moreover have "rr_Replaces h \<in> insert ?p ended"
    if "h \<in> set (records @ [r])" "rr_SessionID h = sid" "replacing h" "rr_RunID h \<in> run_ids ?u" for h
  proof (cases "h = r")
    case True
    then show ?thesis by simp
  next
    case False
    with that have h: "h \<in> set records" by simp
    with that(2) new(1) have "rr_RunID h \<noteq> ?k" using used_idsI by metis
    with that h inv ids show ?thesis by (auto simp: block_inv_def)
  qed
  ultimately show ?thesis
    unfolding upd block_inv_def fst_conv snd_conv using dist blk by blast
qed

lemma block_inv_mark:
  assumes inv: "block_inv records sid (runs, ended)" and fresh: "fresh_record records r"
    and s: "rr_SessionID r = sid" and seen: "rr_RunID r \<in> run_ids runs"
    and act: "rr_Action r \<noteq> RunSettled"
  shows "block_inv (records @ [r]) sid (upd_run (rr_RunID r) (mark_run r) runs, ended) \<and> \<not> replacing r"
proof -
  let ?k = "rr_RunID r" and ?u = "upd_run (rr_RunID r) (mark_run r) runs"
  have used: "?k \<in> used_ids records sid" using inv seen by (auto simp: block_inv_def)
  then have nadm: "rr_Action r \<noteq> RunAdmitted" using fresh s by (auto simp: fresh_record_def)
  then have nrep: "\<not> replacing r" by (simp add: replacing_def)
  have idm: "or_RunID (mark_run r o') = or_RunID o'" for o' by (simp add: mark_run_def)
  have ids: "run_ids ?u = run_ids runs" by (rule run_ids_upd) (rule idm)
  have mids: "map or_RunID ?u = map or_RunID runs" by (simp add: upd_run_def idm)
  have blk: "run_block (records @ [r]) sid (or_RunID o') \<noteq> [] \<and>
      o' = run_of (run_block (records @ [r]) sid (or_RunID o'))" if u: "o' \<in> set ?u" for o'
  proof -
    from u obtain x where x: "x \<in> set runs" "o' = (if or_RunID x = ?k then mark_run r x else x)"
      by (auto simp: upd_run_def)
    then have xb: "run_block records sid (or_RunID x) \<noteq> []" "x = run_of (run_block records sid (or_RunID x))"
      using inv by (auto simp: block_inv_def)
    show ?thesis
    proof (cases "or_RunID x = ?k")
      case True
      with x have o: "o' = mark_run r x" "or_RunID o' = ?k" by (simp_all add: idm)
      from True xb(2) have "x = run_of (run_block records sid ?k)" by simp
      with True xb act s o show ?thesis
        by (simp add: run_block_snoc run_of_snoc)
    next
      case False
      with x xb show ?thesis by (simp add: run_block_snoc)
    qed
  qed
  from inv used s have "used_ids (records @ [r]) sid = used_ids records sid"
    by (simp add: used_ids_snoc insert_absorb)
  with inv ids mids blk nrep show ?thesis
    unfolding block_inv_def fst_conv snd_conv by auto
qed

lemma block_inv_new:
  assumes inv: "block_inv records sid (runs, ended)" and fresh: "fresh_record records r"
    and s: "rr_SessionID r = sid" and new: "rr_RunID r \<notin> run_ids runs" "rr_RunID r \<notin> ended"
    and act: "rr_Action r \<noteq> RunSettled" and nheld: "replacing r \<Longrightarrow> rr_Replaces r \<notin> run_ids runs"
  shows "block_inv (records @ [r]) sid
           (runs @ [mark_run r (opened_run r [] (rr_RunID r))],
            if replacing r then insert (rr_Replaces r) ended else ended)"
proof -
  let ?k = "rr_RunID r" and ?n = "mark_run r (opened_run r [] (rr_RunID r))"
  let ?e = "if replacing r then insert (rr_Replaces r) ended else ended"
  have nid: "or_RunID ?n = ?k" by (simp add: mark_run_def opened_run_def)
  have unused: "?k \<notin> used_ids records sid" using inv new by (auto simp: block_inv_def)
  have self: "replacing r \<Longrightarrow> rr_Replaces r \<noteq> ?k"
    using fresh by (auto simp: fresh_record_def replacing_def)
  have blk: "run_block (records @ [r]) sid (or_RunID o') \<noteq> [] \<and>
      o' = run_of (run_block (records @ [r]) sid (or_RunID o'))" if "o' \<in> set (runs @ [?n])" for o'
  proof (cases "o' = ?n")
    case True
    with nid unused act s show ?thesis by (simp add: run_block_snoc run_block_unused)
  next
    case False
    with that have o: "o' \<in> set runs" by simp
    with new(1) have "or_RunID o' \<noteq> ?k" by (metis imageI)
    with o inv show ?thesis by (auto simp: run_block_snoc block_inv_def)
  qed
  have reps: "rr_Replaces h \<in> ?e"
    if "h \<in> set (records @ [r])" "rr_SessionID h = sid" "replacing h" "rr_RunID h \<in> run_ids (runs @ [?n])" for h
  proof (cases "h = r")
    case True
    with that show ?thesis by simp
  next
    case False
    with that have h: "h \<in> set records" by simp
    with that(2) unused have "rr_RunID h \<noteq> ?k" using used_idsI by metis
    with that h inv nid show ?thesis by (auto simp: block_inv_def)
  qed
  have "run_ids (runs @ [?n]) \<inter> ?e = {}"
    using inv new self nheld nid by (auto simp: block_inv_def)
  moreover have "distinct (map or_RunID (runs @ [?n]))"
    using inv new nid by (auto simp: block_inv_def)
  ultimately show ?thesis
    unfolding block_inv_def fst_conv snd_conv using inv blk reps s nid
    by (auto simp: block_inv_def used_ids_snoc)
qed

lemma block_inv_settle:
  assumes inv: "block_inv records sid (runs, ended)" and s: "rr_SessionID r = sid"
    and act: "rr_Action r = RunSettled"
  shows "block_inv (records @ [r]) sid
           (filter (\<lambda>o'. or_RunID o' \<noteq> rr_RunID r) runs, insert (rr_RunID r) ended)"
proof -
  have "distinct (map or_RunID (filter (\<lambda>o'. or_RunID o' \<noteq> rr_RunID r) runs))"
    using inv by (simp add: block_inv_def distinct_map_filter)
  moreover have "\<not> replacing r" using act by (simp add: replacing_def run_action_defs)
  ultimately show ?thesis
    using inv s act unfolding block_inv_def fst_conv snd_conv
    by (auto simp: used_ids_snoc run_block_snoc)
qed


text \<open>A replacing record whose replaced run is open carries that run's root.\<close>

definition rooted :: "RunRecord list \<Rightarrow> bytes \<Rightarrow> RunRecord \<Rightarrow> bool" where
  "rooted records sid r \<longleftrightarrow>
     (rr_SessionID r = sid \<and> replacing r \<and> rr_Replaces r \<in> run_ids (fst (spec_runs records sid)) \<longrightarrow>
        rr_Root r \<noteq> [])"

lemma spec_runs_snoc:
  "spec_runs (records @ [r]) sid = spec_step sid (spec_runs records sid) r"
  by (simp add: spec_runs_def)

lemma block_inv_step:
  assumes inv: "block_inv records sid (spec_runs records sid)"
    and fresh: "fresh_record records r" and root: "rooted records sid r"
  shows "block_inv (records @ [r]) sid (spec_runs (records @ [r]) sid)"
proof -
  obtain runs ended where st: "spec_runs records sid = (runs, ended)" by fastforce
  note inv' = inv [unfolded st]
  show ?thesis
  proof (cases "rr_SessionID r \<noteq> sid \<or> rr_RunID r \<in> ended")
    case True
    then have "run_block (records @ [r]) sid k = run_block records sid k" if "k \<in> run_ids runs" for k
      using that inv' by (auto simp: run_block_snoc block_inv_def)
    moreover have "used_ids (records @ [r]) sid \<subseteq> run_ids runs \<union> ended"
      "used_ids records sid \<subseteq> used_ids (records @ [r]) sid"
      using True inv' by (auto simp: used_ids_snoc block_inv_def)
    moreover have "rr_SessionID r = sid \<Longrightarrow> rr_RunID r \<notin> run_ids runs"
      using True inv' by (auto simp: block_inv_def)
    ultimately have "block_inv (records @ [r]) sid (runs, ended)"
      using inv' unfolding block_inv_def fst_conv snd_conv by auto
    with True st show ?thesis by (simp add: spec_runs_snoc spec_step_def)
  next
    case False
    then have s: "rr_SessionID r = sid" "rr_RunID r \<notin> ended" by auto
    show ?thesis
    proof (cases "rr_Action r = RunSettled")
      case True
      with False st block_inv_settle [OF inv' s(1) True] show ?thesis
        by (simp add: spec_runs_snoc spec_step_def)
    next
      case act: False
      show ?thesis
      proof (cases "replacing r \<and> rr_Replaces r \<in> run_ids runs")
        case True
        then have "rr_Root r \<noteq> []" using root s st by (auto simp: rooted_def)
        with True False act st block_inv_replace [OF inv' fresh s(1)] s show ?thesis
          by (simp add: spec_runs_snoc spec_step_def)
      next
        case nrep: False
        show ?thesis
        proof (cases "rr_RunID r \<in> run_ids runs")
          case True
          with False act nrep st block_inv_mark [OF inv' fresh s(1) True act] show ?thesis
            by (simp add: spec_runs_snoc spec_step_def)
        next
          case new: False
          with False act nrep st block_inv_new [OF inv' fresh s(1) new s(2) act] show ?thesis
            by (auto simp: spec_runs_snoc spec_step_def)
        qed
      qed
    qed
  qed
qed

lemma block_inv_Nil: "block_inv [] sid (spec_runs [] sid)"
  by (simp add: block_inv_def spec_runs_def used_ids_def)

section \<open>The loop computes the specification\<close>

text \<open>A log in which every record is fresh where it stands.\<close>

fun fresh_log :: "RunRecord list \<Rightarrow> RunRecord list \<Rightarrow> bool" where
  "fresh_log past [] = True"
| "fresh_log past (r # rs) = (fresh_record past r \<and> fresh_log (past @ [r]) rs)"

lemma fresh_log_append: "fresh_log past (xs @ ys) \<longleftrightarrow> fresh_log past xs \<and> fresh_log (past @ xs) ys"
  by (induction xs arbitrary: past) auto

lemma spec_step_other: "rr_SessionID r \<noteq> sid \<Longrightarrow> spec_step sid st r = st"
  by (cases st) (simp add: spec_step_def)

lemma spec_step_ids:
  "run_ids (fst (spec_step sid (runs, ended) r)) \<subseteq> insert (rr_RunID r) (run_ids runs)"
proof -
  have "run_ids (upd_run (rr_RunID r) (mark_run r) runs) = run_ids runs"
    by (rule run_ids_upd) (simp add: mark_run_def)
  moreover have "run_ids (upd_run (rr_Replaces r) (\<lambda>o'. opened_run r (rr_Request r) (or_Root o')) runs)
      \<subseteq> insert (rr_RunID r) (run_ids runs)"
    by (auto simp: upd_run_def opened_run_def)
  moreover have "or_RunID (mark_run r (opened_run r [] (rr_RunID r))) = rr_RunID r"
    by (simp add: mark_run_def opened_run_def)
  moreover have "run_ids (filter (\<lambda>o'. or_RunID o' \<noteq> rr_RunID r) runs) \<subseteq> run_ids runs" by auto
  ultimately show ?thesis unfolding spec_step_def by (simp add: subset_insertI2)
qed

lemma spec_ids_used:
  "run_ids (fst (spec_runs records sid)) \<subseteq> used_ids records sid"
proof (induction records rule: rev_induct)
  case Nil
  then show ?case by (simp add: spec_runs_def)
next
  case (snoc r records)
  obtain runs ended where st: "spec_runs records sid = (runs, ended)" by fastforce
  show ?case
  proof (cases "rr_SessionID r = sid")
    case True
    have "run_ids (fst (spec_step sid (runs, ended) r)) \<subseteq> insert (rr_RunID r) (run_ids runs)"
      by (rule spec_step_ids)
    also have "\<dots> \<subseteq> insert (rr_RunID r) (used_ids records sid)"
      using snoc.IH st by (intro insert_mono) simp
    finally show ?thesis using True by (simp add: spec_runs_snoc st used_ids_snoc)
  next
    case False
    with snoc show ?thesis by (simp add: spec_runs_snoc spec_step_other used_ids_snoc)
  qed
qed

lemma open_step_other: "rr_SessionID r \<noteq> sid \<Longrightarrow> open_step sid st r = st"
  by (cases st) (simp add: open_step_def)

lemma open_loop_spec:
  assumes "fresh_log [] records"
  shows "\<exists>at. foldl (open_step sid) ([], Map.empty, {}) records =
           (fst (spec_runs records sid), at, snd (spec_runs records sid)) \<and>
           idx_ok (fst (spec_runs records sid)) at"
  using assms
proof (induction records rule: rev_induct)
  case Nil
  then show ?case by (simp add: spec_runs_def idx_ok_def)
next
  case (snoc r records)
  obtain runs ended where st: "spec_runs records sid = (runs, ended)" by fastforce
  from snoc st obtain at where at: "foldl (open_step sid) ([], Map.empty, {}) records = (runs, at, ended)"
    "idx_ok runs at" by (auto simp: fresh_log_append)
  show ?case
  proof (cases "rr_SessionID r = sid")
    case True
    have "replacing r \<Longrightarrow> rr_RunID r \<notin> run_ids runs"
      using snoc.prems spec_ids_used [of records sid] st True
      by (auto simp: fresh_log_append fresh_record_def replacing_def)
    with open_step_spec [OF at(2), of r sid ended] at(1) st show ?thesis
      by (auto simp: spec_runs_snoc)
  next
    case False
    with at st show ?thesis by (simp add: spec_runs_snoc spec_step_other open_step_other)
  qed
qed

lemma openRuns_spec: "fresh_log [] records \<Longrightarrow> openRuns records sid = fst (spec_runs records sid)"
  using open_loop_spec [of records sid] by (auto simp: openRuns_def)


section \<open>Compaction\<close>

lemma spec_runs_filter:
  "spec_runs records sid = spec_runs (filter (\<lambda>h. rr_SessionID h = sid) records) sid"
proof (induction records rule: rev_induct)
  case Nil
  then show ?case by simp
next
  case (snoc r records)
  then show ?case by (simp add: spec_runs_snoc spec_step_other)
qed

lemma mark_run_id [simp]: "or_RunID (mark_run r o') = or_RunID o'"
  by (simp add: mark_run_def)

lemma opened_run_id [simp]: "or_RunID (opened_run r q i) = rr_RunID r"
  by (simp add: opened_run_def)

lemma foldl_mark_id [simp]: "or_RunID (foldl (\<lambda>o' h. mark_run h o') x rs) = or_RunID x"
  by (induction rs arbitrary: x) simp_all

lemma run_of_id: "b \<noteq> [] \<Longrightarrow> \<forall>h \<in> set b. rr_RunID h = k \<Longrightarrow> or_RunID (run_of b) = k"
  by (cases b) simp_all

lemma upd_run_absent: "k \<notin> run_ids runs \<Longrightarrow> upd_run k f runs = runs"
  unfolding upd_run_def by (rule map_idI) (metis imageI)

definition block_replaces :: "RunRecord list \<Rightarrow> bytes set" where
  "block_replaces b = rr_Replaces ` {h \<in> set b. replacing h}"

lemma block_replacesI: "h \<in> set b \<Longrightarrow> replacing h \<Longrightarrow> rr_Replaces h \<in> block_replaces b"
  by (auto simp: block_replaces_def)

text \<open>Reading the records of one open run again opens that run and nothing else.\<close>

lemma foldl_spec_marks:
  assumes "\<forall>h \<in> set b. rr_Action h \<noteq> RunSettled \<and> rr_SessionID h = sid \<and> rr_RunID h = k"
    and "or_RunID o' = k" and "k \<notin> run_ids acc" and "k \<notin> ended"
    and "block_replaces b \<inter> insert k (run_ids acc) = {}"
  shows "foldl (spec_step sid) (acc @ [o'], ended) b =
         (acc @ [foldl (\<lambda>o' h. mark_run h o') o' b], ended \<union> block_replaces b)"
  using assms
proof (induction b arbitrary: o' ended)
  case Nil
  then show ?case by (simp add: block_replaces_def)
next
  case (Cons h b)
  have upd: "upd_run k (mark_run h) (acc @ [o']) = acc @ [mark_run h o']"
    using Cons.prems(2) upd_run_absent [OF Cons.prems(3)] by (simp add: upd_run_def)
  have nheld: "\<not> (replacing h \<and> rr_Replaces h \<in> run_ids (acc @ [o']))"
    using Cons.prems(2,5) block_replacesI [of h "h # b"] by auto
  have "spec_step sid (acc @ [o'], ended) h =
      (acc @ [mark_run h o'], if replacing h then insert (rr_Replaces h) ended else ended)"
    using Cons.prems nheld upd unfolding spec_step_def by auto
  moreover have "foldl (spec_step sid)
      (acc @ [mark_run h o'], if replacing h then insert (rr_Replaces h) ended else ended) b =
      (acc @ [foldl (\<lambda>o' h. mark_run h o') (mark_run h o') b],
       (if replacing h then insert (rr_Replaces h) ended else ended) \<union> block_replaces b)"
    using Cons.prems by (intro Cons.IH) (auto simp: mark_run_def block_replaces_def)
  moreover have "(if replacing h then insert (rr_Replaces h) ended else ended) \<union> block_replaces b =
      ended \<union> block_replaces (h # b)"
    by (auto simp: block_replaces_def)
  ultimately show ?case by simp
qed

lemma foldl_spec_block:
  assumes "b \<noteq> []"
    and "\<forall>h \<in> set b. rr_Action h \<noteq> RunSettled \<and> rr_SessionID h = sid \<and> rr_RunID h = k"
    and "k \<notin> run_ids acc" and "k \<notin> ended" and "block_replaces b \<inter> insert k (run_ids acc) = {}"
  shows "foldl (spec_step sid) (acc, ended) b = (acc @ [run_of b], ended \<union> block_replaces b)"
proof -
  from assms(1) obtain r rs where b: "b = r # rs" by (cases b) auto
  let ?n = "mark_run r (opened_run r [] (rr_RunID r))"
  let ?e = "if replacing r then insert (rr_Replaces r) ended else ended"
  have "spec_step sid (acc, ended) r = (acc @ [?n], ?e)"
    using assms b unfolding spec_step_def by (auto simp: block_replaces_def)
  moreover have "foldl (spec_step sid) (acc @ [?n], ?e) rs =
      (acc @ [foldl (\<lambda>o' h. mark_run h o') ?n rs], ?e \<union> block_replaces rs)"
    using assms b by (intro foldl_spec_marks [where k = k])
      (auto simp: mark_run_def opened_run_def block_replaces_def)
  moreover have "?e \<union> block_replaces rs = ended \<union> block_replaces b"
    by (auto simp: b block_replaces_def)
  ultimately show ?thesis by (simp add: b)
qed

lemma foldl_spec_blocks:
  assumes "distinct ks" and "set ks \<inter> run_ids acc = {}" and "set ks \<inter> ended = {}"
    and "\<forall>k \<in> set ks. run_block records sid k \<noteq> []"
    and "\<forall>k \<in> set ks. block_replaces (run_block records sid k) \<inter> (set ks \<union> run_ids acc) = {}"
  shows "foldl (spec_step sid) (acc, ended) (concat (map (run_block records sid) ks)) =
         (acc @ map (\<lambda>k. run_of (run_block records sid k)) ks,
          ended \<union> (\<Union>k \<in> set ks. block_replaces (run_block records sid k)))"
  using assms
proof (induction ks arbitrary: acc ended)
  case Nil
  then show ?case by simp
next
  case (Cons k ks)
  let ?b = "run_block records sid k"
  have all: "\<forall>h \<in> set ?b. rr_Action h \<noteq> RunSettled \<and> rr_SessionID h = sid \<and> rr_RunID h = k"
    by (simp add: run_block_def)
  have nb: "?b \<noteq> []" using Cons.prems(4) by simp
  have step: "foldl (spec_step sid) (acc, ended) ?b = (acc @ [run_of ?b], ended \<union> block_replaces ?b)"
    using Cons.prems nb all by (intro foldl_spec_block [where k = k]) auto
  have rid: "or_RunID (run_of ?b) = k" using nb all by (intro run_of_id) auto
  have "foldl (spec_step sid) (acc @ [run_of ?b], ended \<union> block_replaces ?b)
      (concat (map (run_block records sid) ks)) =
      ((acc @ [run_of ?b]) @ map (\<lambda>k. run_of (run_block records sid k)) ks,
       (ended \<union> block_replaces ?b) \<union> (\<Union>k \<in> set ks. block_replaces (run_block records sid k)))"
    using Cons.prems rid by (intro Cons.IH) auto
  with step show ?case by (simp add: Un_assoc)
qed

section \<open>The kept log\<close>

lemma sorted_wrt_concat:
  "(\<forall>xs \<in> set xss. sorted_wrt P xs) \<Longrightarrow>
   sorted_wrt (\<lambda>xs ys. \<forall>x \<in> set xs. \<forall>y \<in> set ys. P x y) xss \<Longrightarrow> sorted_wrt P (concat xss)"
  by (induction xss) (auto simp: sorted_wrt_append)

lemma distinct_sorted_wrt: "distinct xs \<Longrightarrow> sorted_wrt (\<noteq>) xs"
  by (induction xs) auto

lemma sorted_wrt_distinct_map:
  assumes "distinct xs" and "\<And>x y. x \<in> set xs \<Longrightarrow> y \<in> set xs \<Longrightarrow> x \<noteq> y \<Longrightarrow> Q (f x) (f y)"
  shows "sorted_wrt Q (map f xs)"
  using assms by (induction xs) auto

definition late_ok :: "RunRecord \<Rightarrow> RunRecord \<Rightarrow> bool" where
  "late_ok a b \<longleftrightarrow> rr_Action b = RunAdmitted \<longrightarrow>
     rr_SessionID a \<noteq> rr_SessionID b \<or> rr_RunID a \<noteq> rr_RunID b"

lemma fresh_log_sorted:
  "fresh_log [] log \<longleftrightarrow>
     sorted_wrt late_ok log \<and> (\<forall>r \<in> set log. rr_Action r = RunAdmitted \<longrightarrow> rr_Replaces r \<noteq> rr_RunID r)"
proof (induction log rule: rev_induct)
  case Nil
  then show ?case by simp
next
  case (snoc r log)
  then show ?case
    by (auto simp: fresh_log_append fresh_record_def sorted_wrt_append late_ok_def used_ids_iff)
qed

text \<open>A log without superseded runs: nothing it holds is replaced by something it holds.\<close>

definition no_superseded :: "RunRecord list \<Rightarrow> bool" where
  "no_superseded log \<longleftrightarrow>
     (\<forall>h \<in> set log. \<forall>h' \<in> set log.
        replacing h \<and> rr_SessionID h' = rr_SessionID h \<longrightarrow> rr_RunID h' \<noteq> rr_Replaces h)"

definition kept_ok :: "RunRecord list \<Rightarrow> bool" where
  "kept_ok log \<longleftrightarrow> fresh_log [] log \<and> no_superseded log \<and> (\<forall>h \<in> set log. rr_RunID h \<noteq> [])"

lemma block_inv_kept: "fresh_log [] log \<Longrightarrow> no_superseded log \<Longrightarrow> block_inv log sid (spec_runs log sid)"
proof (induction log rule: rev_induct)
  case Nil
  then show ?case using block_inv_Nil by simp
next
  case (snoc r log)
  have "rooted log sid r"
    using spec_ids_used [of log sid] snoc.prems(2)
    by (auto simp: rooted_def used_ids_def no_superseded_def)
  moreover have "no_superseded log" using snoc.prems(2) by (simp add: no_superseded_def)
  ultimately show ?case using snoc by (intro block_inv_step) (auto simp: fresh_log_append)
qed

lemma spec_roots:
  "\<forall>h \<in> set log. rr_RunID h \<noteq> [] \<Longrightarrow> o' \<in> set (fst (spec_runs log sid)) \<Longrightarrow> or_Root o' \<noteq> []"
proof (induction log arbitrary: o' rule: rev_induct)
  case Nil
  then show ?case by (simp add: spec_runs_def)
next
  case (snoc r log)
  obtain runs ended where st: "spec_runs log sid = (runs, ended)" by fastforce
  have mark: "or_Root (mark_run r x) = or_Root x" for x by (simp add: mark_run_def)
  show ?case
    using snoc.prems snoc.IH st mark
    by (auto simp: spec_runs_snoc spec_step_def upd_run_def opened_run_def split: if_splits)
qed

lemma stamped_fields [simp]:
  "rr_Action (stamped log r) = rr_Action r" "rr_RunID (stamped log r) = rr_RunID r"
  "rr_SessionID (stamped log r) = rr_SessionID r" "rr_Replaces (stamped log r) = rr_Replaces r"
  "rr_Request (stamped log r) = rr_Request r" "rr_TimeMS (stamped log r) = rr_TimeMS r"
  by (simp_all add: stamped_def split: option.split)

lemma stamped_replacing [simp]: "replacing (stamped log r) = replacing r"
  by (simp add: replacing_def)

lemma stamped_fresh [simp]: "fresh_record log (stamped log' r) = fresh_record log r"
  by (simp add: fresh_record_def)

lemma find_run:
  assumes "k \<in> run_ids runs" and "distinct (map or_RunID runs)"
  shows "\<exists>x \<in> set runs. find (\<lambda>run. or_RunID run = k) runs = Some x \<and> or_RunID x = k"
  using assms by (induction runs) auto

lemma stamped_rooted:
  assumes "kept_ok log"
  shows "rooted log sid (stamped log r)"
proof (cases "rr_SessionID r = sid \<and> replacing r \<and> rr_Replaces r \<in> run_ids (fst (spec_runs log sid)) \<and> rr_Root r = []")
  case True
  have fresh: "fresh_log [] log" using assms by (simp add: kept_ok_def)
  have dist: "distinct (map or_RunID (fst (spec_runs log sid)))"
    using block_inv_kept [of log sid] assms by (simp add: kept_ok_def block_inv_def)
  obtain x where x: "x \<in> set (fst (spec_runs log sid))"
    "find (\<lambda>run. or_RunID run = rr_Replaces r) (fst (spec_runs log sid)) = Some x"
    using find_run [OF _ dist] True by blast
  have "or_Root x \<noteq> []" using spec_roots [OF _ x(1)] assms by (simp add: kept_ok_def)
  with x True show ?thesis
    by (simp add: rooted_def stamped_def openRuns_spec [OF fresh] replacing_def)
next
  case False
  moreover have "rr_Root r \<noteq> [] \<Longrightarrow> rr_Root (stamped log r) \<noteq> []" by (simp add: stamped_def)
  ultimately show ?thesis unfolding rooted_def by auto
qed

lemma log_sessions_snoc:
  "log_sessions (log @ [r]) =
     (if rr_SessionID r \<in> set (log_sessions log) then log_sessions log
      else log_sessions log @ [rr_SessionID r])"
  by (simp add: log_sessions_def)

lemma log_sessions_props: "distinct (log_sessions log) \<and> set (log_sessions log) = rr_SessionID ` set log"
proof (induction log rule: rev_induct)
  case Nil
  then show ?case by (simp add: log_sessions_def)
next
  case (snoc r log)
  then show ?case by (auto simp: log_sessions_snoc)
qed

text \<open>The records kept for one session, as the blocks of its open runs.\<close>

definition session_blocks :: "RunRecord list \<Rightarrow> bytes \<Rightarrow> RunRecord list" where
  "session_blocks whole sid = concat (map (run_block whole sid) (map or_RunID (openRuns whole sid)))"

lemma keptAfter_blocks:
  "keptAfter log r =
     (let whole = log @ [stamped log r] in concat (map (session_blocks whole) (log_sessions whole)))"
  unfolding keptAfter_def session_blocks_def [abs_def] run_block_def Let_def map_map comp_def
  by (rule refl)

lemma set_session_blocks:
  "set (session_blocks whole sid) =
     {h \<in> set whole. rr_Action h \<noteq> RunSettled \<and> rr_SessionID h = sid \<and>
                     rr_RunID h \<in> run_ids (openRuns whole sid)}"
  by (auto simp: session_blocks_def run_block_def)

lemma filter_concat_keyed:
  "distinct ss \<Longrightarrow> (\<And>k h. h \<in> set (g k) \<Longrightarrow> key h = k) \<Longrightarrow>
   filter (\<lambda>h. key h = s) (concat (map g ss)) = (if s \<in> set ss then g s else [])"
proof (induction ss)
  case Nil
  then show ?case by simp
next
  case (Cons a ss)
  have "filter (\<lambda>h. key h = s) (g a) = (if a = s then g a else [])"
    using Cons.prems(2) by (auto simp: filter_id_conv filter_empty_conv)
  with Cons show ?case by auto
qed

lemma session_of_kept:
  "filter (\<lambda>h. rr_SessionID h = s) (keptAfter log r) = session_blocks (log @ [stamped log r]) s"
proof -
  let ?w = "log @ [stamped log r]"
  have "filter (\<lambda>h. rr_SessionID h = s) (keptAfter log r) =
      (if s \<in> set (log_sessions ?w) then session_blocks ?w s else [])"
    unfolding keptAfter_blocks Let_def using log_sessions_props [of ?w]
    by (intro filter_concat_keyed) (auto simp: set_session_blocks)
  moreover have "session_blocks ?w s = []" if "s \<notin> set (log_sessions ?w)"
  proof -
    have "set (session_blocks ?w s) = {}"
      using that log_sessions_props [of ?w] unfolding set_session_blocks by blast
    then show ?thesis by simp
  qed
  ultimately show ?thesis by simp
qed

lemma set_keptAfter:
  "set (keptAfter log r) =
     {h \<in> set (log @ [stamped log r]). rr_Action h \<noteq> RunSettled \<and>
        rr_RunID h \<in> run_ids (openRuns (log @ [stamped log r]) (rr_SessionID h))}"
  using log_sessions_props [of "log @ [stamped log r]"]
  by (auto simp: keptAfter_blocks Let_def set_session_blocks)

lemma spec_session_blocks:
  assumes inv: "block_inv whole sid (spec_runs whole sid)" and fresh: "fresh_log [] whole"
  shows "fst (spec_runs (session_blocks whole sid) sid) = fst (spec_runs whole sid) \<and>
         snd (spec_runs (session_blocks whole sid) sid) \<subseteq> snd (spec_runs whole sid)"
proof -
  obtain runs ended where st: "spec_runs whole sid = (runs, ended)" by fastforce
  let ?ks = "map or_RunID runs"
  note inv' = inv [unfolded st block_inv_def fst_conv snd_conv]
  have reps: "block_replaces (run_block whole sid k) \<subseteq> ended" if "k \<in> set ?ks" for k
    using inv' that by (auto simp: block_replaces_def run_block_def)
  have "set ?ks \<inter> ended = {}" using inv' by simp
  then have "foldl (spec_step sid) ([], {}) (concat (map (run_block whole sid) ?ks)) =
      ([] @ map (\<lambda>k. run_of (run_block whole sid k)) ?ks,
       {} \<union> (\<Union>k \<in> set ?ks. block_replaces (run_block whole sid k)))"
    using inv' reps by (intro foldl_spec_blocks) (simp_all, blast)
  moreover have "map (\<lambda>k. run_of (run_block whole sid k)) ?ks = runs"
    using inv' by (simp add: map_idI)
  moreover have "session_blocks whole sid = concat (map (run_block whole sid) ?ks)"
    by (simp add: session_blocks_def openRuns_spec [OF fresh] st)
  ultimately show ?thesis using st reps by (simp add: spec_runs_def UN_least)
qed

lemma keptAfter_fresh:
  assumes fresh: "fresh_log [] (log @ [stamped log r])"
    and dist: "\<And>s. distinct (map or_RunID (openRuns (log @ [stamped log r]) s))"
  shows "fresh_log [] (keptAfter log r)"
proof -
  let ?w = "log @ [stamped log r]"
  have w: "sorted_wrt late_ok ?w" using fresh by (simp only: fresh_log_sorted)
  have "sorted_wrt late_ok (session_blocks ?w s)" for s
    unfolding session_blocks_def
  proof (rule sorted_wrt_concat)
    show "\<forall>xs \<in> set (map (run_block ?w s) (map or_RunID (openRuns ?w s))). sorted_wrt late_ok xs"
      using w by (auto simp only: set_map run_block_def intro: sorted_wrt_filter)
    show "sorted_wrt (\<lambda>xs ys. \<forall>x \<in> set xs. \<forall>y \<in> set ys. late_ok x y)
        (map (run_block ?w s) (map or_RunID (openRuns ?w s)))"
      using dist [of s] by (rule sorted_wrt_distinct_map) (auto simp: run_block_def late_ok_def)
  qed
  then have "sorted_wrt late_ok (keptAfter log r)"
    unfolding keptAfter_blocks Let_def using log_sessions_props [of ?w]
    by (intro sorted_wrt_concat sorted_wrt_distinct_map)
      (auto simp del: set_append simp: set_session_blocks late_ok_def)
  moreover have "\<forall>h \<in> set ?w. rr_Action h = RunAdmitted \<longrightarrow> rr_Replaces h \<noteq> rr_RunID h"
    using fresh unfolding fresh_log_sorted by blast
  ultimately show ?thesis unfolding fresh_log_sorted set_keptAfter by blast
qed

lemma keptAfter_ok:
  assumes ok: "kept_ok log" and fresh: "fresh_record log r" and id: "rr_RunID r \<noteq> []"
  defines "w \<equiv> log @ [stamped log r]"
  shows "kept_ok (keptAfter log r)"
    and "fst (spec_runs (keptAfter log r) s) = fst (spec_runs w s)"
    and "snd (spec_runs (keptAfter log r) s) \<subseteq> snd (spec_runs w s)"
proof -
  have fw: "fresh_log [] w" using ok fresh by (simp add: w_def kept_ok_def fresh_log_append)
  have inv: "block_inv w s (spec_runs w s)" for s
    unfolding w_def using ok block_inv_kept [of log s] fresh stamped_rooted [OF ok]
    by (intro block_inv_step) (auto simp: kept_ok_def)
  have runs: "openRuns w s = fst (spec_runs w s)" for s by (rule openRuns_spec [OF fw])
  have "fresh_log [] (keptAfter log r)"
    using fw inv runs by (intro keptAfter_fresh) (simp_all add: w_def block_inv_def)
  moreover have "no_superseded (keptAfter log r)"
    unfolding no_superseded_def
  proof (intro ballI impI)
    fix h h'
    assume h: "h \<in> set (keptAfter log r)" "h' \<in> set (keptAfter log r)"
      and rep: "replacing h \<and> rr_SessionID h' = rr_SessionID h"
    let ?st = "spec_runs w (rr_SessionID h)"
    have hw: "h \<in> set w" "rr_RunID h \<in> run_ids (fst ?st)" "rr_RunID h' \<in> run_ids (fst ?st)"
      using h rep unfolding set_keptAfter w_def [symmetric] runs by auto
    with rep have "rr_Replaces h \<in> snd ?st" by (intro block_inv_reps [OF inv]) auto
    with hw(3) block_inv_disjoint [OF inv] show "rr_RunID h' \<noteq> rr_Replaces h" by (metis IntI emptyE)
  qed
  moreover have "\<forall>h \<in> set (keptAfter log r). rr_RunID h \<noteq> []"
    unfolding set_keptAfter using ok id by (auto simp: kept_ok_def)
  ultimately show "kept_ok (keptAfter log r)" by (simp add: kept_ok_def)
  have "spec_runs (keptAfter log r) s = spec_runs (session_blocks w s) s"
    using spec_runs_filter [of "keptAfter log r" s] unfolding session_of_kept w_def .
  then show "fst (spec_runs (keptAfter log r) s) = fst (spec_runs w s)"
    and "snd (spec_runs (keptAfter log r) s) \<subseteq> snd (spec_runs w s)"
    using spec_session_blocks [OF inv [of s] fw] by (simp_all only:)
qed

lemma spec_step_stamped:
  assumes ok: "kept_ok log" and runs: "runs = fst (spec_runs log s)"
  shows "spec_step s (runs, e) (stamped log r) = spec_step s (runs, e) r"
proof (cases "rr_SessionID r = s \<and> replacing r \<and> rr_Replaces r \<in> run_ids runs \<and> rr_Root r = []")
  case True
  have fresh: "fresh_log [] log" using ok by (simp add: kept_ok_def)
  have dist: "distinct (map or_RunID runs)"
    using block_inv_kept [of log s] ok runs by (simp add: kept_ok_def block_inv_def)
  obtain x where x: "x \<in> set runs" "or_RunID x = rr_Replaces r"
    "find (\<lambda>run. or_RunID run = rr_Replaces r) runs = Some x"
    using find_run [OF _ dist] True by blast
  have root: "rr_Root (stamped log r) = or_Root x"
    using True x(3) runs by (simp add: stamped_def openRuns_spec [OF fresh] replacing_def)
  have "or_Root x \<noteq> []"
    using spec_roots [of log x s] x(1) runs ok by (simp add: kept_ok_def)
  moreover have "o' = x" if "o' \<in> set runs" "or_RunID o' = rr_Replaces r" for o'
    using that x(1,2) dist by (auto simp: distinct_map inj_on_def)
  ultimately have "upd_run (rr_Replaces r) (\<lambda>o'. opened_run (stamped log r) (rr_Request r) (or_Root o')) runs =
      upd_run (rr_Replaces r) (\<lambda>o'. opened_run r (rr_Request r) (or_Root o')) runs"
    unfolding upd_run_def using True root by (intro map_cong) (auto simp: opened_run_def)
  with True show ?thesis by (simp add: spec_step_def)
next
  case False
  show ?thesis
  proof (cases "rr_SessionID r = s \<and> replacing r \<and> rr_Root r = []")
    case True
    with False have "rr_Replaces r \<notin> run_ids runs" by blast
    then have "find (\<lambda>run. or_RunID run = rr_Replaces r) (openRuns log s) = None"
      using ok runs unfolding find_None_iff by (metis imageI kept_ok_def openRuns_spec)
    with True have "stamped log r = r" by (simp add: stamped_def)
    then show ?thesis by simp
  next
    case False
    then have "stamped log r = r \<or> rr_SessionID r \<noteq> s" by (auto simp: stamped_def replacing_def)
    then show ?thesis by (auto simp: spec_step_other)
  qed
qed

section \<open>Histories\<close>

text \<open>A run of a session is over once a record settles it or admits another in its place.\<close>

definition run_over :: "RunRecord list \<Rightarrow> bytes \<Rightarrow> bytes \<Rightarrow> bool" where
  "run_over past sid k \<longleftrightarrow>
     (\<exists>h \<in> set past. rr_SessionID h = sid \<and>
        (rr_Action h = RunSettled \<and> rr_RunID h = k \<or> replacing h \<and> rr_Replaces h = k))"

text \<open>What the callers of \<^verbatim>\<open>AppendRun\<close> keep to: a run has an id, is admitted once, as the first
  record of its session that names it, does not replace itself, and, once it is over, is not
  admitted or started again.\<close>

fun orderly :: "RunRecord list \<Rightarrow> RunRecord list \<Rightarrow> bool" where
  "orderly past [] = True"
| "orderly past (r # rs) =
     (rr_RunID r \<noteq> [] \<and> fresh_record past r \<and>
      (rr_Action r = RunSettled \<or> \<not> run_over past (rr_SessionID r) (rr_RunID r)) \<and>
      orderly (past @ [r]) rs)"

lemma orderly_append: "orderly past (xs @ ys) \<longleftrightarrow> orderly past xs \<and> orderly (past @ xs) ys"
  by (induction xs arbitrary: past) auto

lemma orderly_fresh: "orderly past rs \<Longrightarrow> fresh_log past rs"
  by (induction rs arbitrary: past) auto

lemma run_over_snoc:
  "run_over (past @ [r]) sid k \<longleftrightarrow> run_over past sid k \<or>
     (rr_SessionID r = sid \<and> (rr_Action r = RunSettled \<and> rr_RunID r = k \<or> replacing r \<and> rr_Replaces r = k))"
  by (auto simp: run_over_def)

lemma ended_over: "k \<in> snd (spec_runs log sid) \<Longrightarrow> run_over log sid k"
proof (induction log rule: rev_induct)
  case Nil
  then show ?case by (simp add: spec_runs_def)
next
  case (snoc r log)
  obtain runs ended where st: "spec_runs log sid = (runs, ended)" by fastforce
  with snoc show ?case
    by (auto simp: spec_runs_snoc run_over_snoc spec_step_def split: if_splits)
qed

lemma spec_disjoint:
  "fresh_log [] log \<Longrightarrow> run_ids (fst (spec_runs log sid)) \<inter> snd (spec_runs log sid) = {}"
proof (induction log rule: rev_induct)
  case Nil
  then show ?case by (simp add: spec_runs_def)
next
  case (snoc r log)
  obtain runs ended where st: "spec_runs log sid = (runs, ended)" by fastforce
  have dis: "run_ids runs \<inter> ended = {}" using snoc st by (simp add: fresh_log_append)
  have self: "replacing r \<Longrightarrow> rr_Replaces r \<noteq> rr_RunID r"
    using snoc.prems by (simp add: fresh_log_append fresh_record_def replacing_def)
  have ids: "run_ids (upd_run (rr_RunID r) (mark_run r) runs) = run_ids runs"
    by (rule run_ids_upd) simp
  have repl: "run_ids (upd_run (rr_Replaces r) (\<lambda>o'. opened_run r (rr_Request r) (or_Root o')) runs)
      \<subseteq> insert (rr_RunID r) (run_ids runs - {rr_Replaces r})"
    by (auto simp: upd_run_def)
  show ?case
  proof (cases "rr_SessionID r = sid \<and> rr_RunID r \<notin> ended \<and> rr_Action r \<noteq> RunSettled")
    case True
    have "run_ids (upd_run (rr_Replaces r) (\<lambda>o'. opened_run r (rr_Request r) (or_Root o')) runs) \<inter>
        insert (rr_Replaces r) ended = {}" if "replacing r"
    proof -
      have "insert (rr_RunID r) (run_ids runs - {rr_Replaces r}) \<inter> insert (rr_Replaces r) ended = {}"
        using dis True self [OF that] by auto
      with repl show ?thesis by (meson disjoint_iff subset_iff)
    qed
    with True dis self ids show ?thesis
      by (cases "replacing r"; cases "rr_Replaces r \<in> run_ids runs")
        (simp_all add: spec_runs_snoc st spec_step_def)
  next
    case False
    with dis show ?thesis by (auto simp: spec_runs_snoc st spec_step_def)
  qed
qed

lemma spec_step_ended_mono:
  "e \<subseteq> e' \<Longrightarrow> rr_RunID r \<notin> e' \<or> rr_Action r = RunSettled \<and> run_ids runs \<inter> e' = {} \<Longrightarrow>
   fst (spec_step s (runs, e) r) = fst (spec_step s (runs, e') r) \<and>
   snd (spec_step s (runs, e) r) \<subseteq> snd (spec_step s (runs, e') r)"
  by (auto simp: spec_step_def filter_id_conv subset_insertI2 split: if_splits)

lemma kept_history:
  "orderly [] rs \<Longrightarrow>
     kept_ok (foldl keptAfter [] rs) \<and> (\<forall>s. used_ids (foldl keptAfter [] rs) s \<subseteq> used_ids rs s) \<and>
     (\<forall>s. fst (spec_runs (foldl keptAfter [] rs) s) = fst (spec_runs rs s) \<and>
          snd (spec_runs (foldl keptAfter [] rs) s) \<subseteq> snd (spec_runs rs s))"
proof (induction rs rule: rev_induct)
  case Nil
  then show ?case by (simp add: kept_ok_def no_superseded_def)
next
  case (snoc r rs)
  let ?k = "foldl keptAfter [] rs"
  have ord: "orderly [] rs" "rr_RunID r \<noteq> []" "fresh_record rs r"
    "rr_Action r = RunSettled \<or> \<not> run_over rs (rr_SessionID r) (rr_RunID r)"
    using snoc.prems by (simp_all add: orderly_append)
  have ih: "kept_ok ?k" "used_ids ?k s \<subseteq> used_ids rs s" "fst (spec_runs ?k s) = fst (spec_runs rs s)"
    "snd (spec_runs ?k s) \<subseteq> snd (spec_runs rs s)" for s
    using snoc.IH ord(1) by simp_all
  have fresh: "fresh_record ?k r" using ord(3) ih(2) by (auto simp: fresh_record_def)
  note step = keptAfter_ok [OF ih(1) fresh ord(2)]
  have whole: "spec_runs (?k @ [stamped ?k r]) s = spec_step s (spec_runs ?k s) r" for s
    using spec_step_stamped [OF ih(1) refl, of s "snd (spec_runs ?k s)" r] by (simp add: spec_runs_snoc)
  have agree: "fst (spec_step s (spec_runs ?k s) r) = fst (spec_step s (spec_runs rs s) r) \<and>
      snd (spec_step s (spec_runs ?k s) r) \<subseteq> snd (spec_step s (spec_runs rs s) r)" for s
  proof (cases "rr_SessionID r = s")
    case True
    have "rr_RunID r \<notin> snd (spec_runs rs s) \<or>
        rr_Action r = RunSettled \<and> run_ids (fst (spec_runs rs s)) \<inter> snd (spec_runs rs s) = {}"
      using ord(4) True ended_over spec_disjoint [OF orderly_fresh [OF ord(1)]] by blast
    from spec_step_ended_mono [OF ih(4) this, of s] ih(3) [of s] show ?thesis
      by (metis prod.collapse)
  next
    case False
    with ih show ?thesis by (simp add: spec_step_other)
  qed
  have "used_ids (keptAfter ?k r) s \<subseteq> used_ids (rs @ [r]) s" for s
  proof -
    have "used_ids (keptAfter ?k r) s \<subseteq> used_ids (?k @ [r]) s"
      by (auto simp: used_ids_iff set_keptAfter)
    with ih(2) [of s] show ?thesis by (auto simp: used_ids_snoc split: if_splits)
  qed
  moreover have "fst (spec_runs (keptAfter ?k r) s) = fst (spec_runs (rs @ [r]) s)"
    and "snd (spec_runs (keptAfter ?k r) s) \<subseteq> snd (spec_runs (rs @ [r]) s)" for s
    using step(2,3) [of s] agree [of s] unfolding whole unfolding spec_runs_snoc by auto
  ultimately show ?case using step(1) by simp
qed

lemma openRuns_kept_history:
  assumes "orderly [] rs"
  shows "openRuns (foldl keptAfter [] rs) sessionID = openRuns rs sessionID"
proof -
  have "fresh_log [] (foldl keptAfter [] rs)" using kept_history [OF assms] by (simp add: kept_ok_def)
  then have "openRuns (foldl keptAfter [] rs) sessionID = fst (spec_runs rs sessionID)"
    using kept_history [OF assms] by (simp add: openRuns_spec)
  also have "\<dots> = openRuns rs sessionID" by (simp add: openRuns_spec orderly_fresh [OF assms])
  finally show ?thesis .
qed

lemma stamped_root: "\<exists>root. stamped log r = r\<lparr>rr_Root := root\<rparr>"
proof (cases "stamped log r = r")
  case True
  then have "stamped log r = r\<lparr>rr_Root := rr_Root r\<rparr>" by simp
  then show ?thesis by blast
next
  case False
  then show ?thesis by (auto simp: stamped_def split: option.splits if_splits)
qed

section \<open>The interface of a run store\<close>

text \<open>The Go interface \<^verbatim>\<open>binding.Runs\<close>: an append leaves the kept log, a reading gives its open
  runs.  \<open>good\<close> are the records the store can write.\<close>

locale run_store =
  fixes append_run :: "'st \<Rightarrow> RunRecord \<Rightarrow> 'st option"
    and open_runs :: "'st \<Rightarrow> bytes \<Rightarrow> OpenRun list option"
    and run_log :: "'st \<Rightarrow> RunRecord list"
    and good :: "RunRecord \<Rightarrow> bool"
  assumes append_kept: "\<forall>h \<in> set (keptAfter (run_log s) r). good h \<Longrightarrow>
          \<exists>s'. append_run s r = Some s' \<and> run_log s' = keptAfter (run_log s) r"
    and open_kept: "open_runs s sid = Some (openRuns (run_log s) sid)"
begin

lemma append_history:
  assumes "\<forall>h \<in> set (run_log s). good h" and "\<forall>r \<in> set rs. \<forall>root. good (r\<lparr>rr_Root := root\<rparr>)"
  shows "\<exists>s'. fold (\<lambda>r st. Option.bind st (\<lambda>s. append_run s r)) rs (Some s) = Some s' \<and>
              run_log s' = foldl keptAfter (run_log s) rs"
  using assms
proof (induction rs arbitrary: s)
  case Nil
  then show ?case by simp
next
  case (Cons r rs)
  have "good (stamped (run_log s) r)" using stamped_root [of "run_log s" r] Cons.prems(2) by auto
  then have kept: "\<forall>h \<in> set (keptAfter (run_log s) r). good h"
    using Cons.prems(1) by (auto simp: set_keptAfter)
  with append_kept obtain s1 where "append_run s r = Some s1" "run_log s1 = keptAfter (run_log s) r" by blast
  with Cons.IH [of s1] Cons.prems(2) kept show ?case by auto
qed

lemma answers_history:
  assumes "run_log s = []" and "\<forall>r \<in> set rs. \<forall>root. good (r\<lparr>rr_Root := root\<rparr>)" and "orderly [] rs"
  shows "\<exists>s'. fold (\<lambda>r st. Option.bind st (\<lambda>s. append_run s r)) rs (Some s) = Some s' \<and>
              open_runs s' sid = Some (openRuns rs sid)"
  using append_history [of s rs] assms openRuns_kept_history [OF assms(3)] open_kept by auto

end

interpretation memr: run_store "\<lambda>s r. Some (mem_AppendRun s r)" "\<lambda>s sid. Some (mem_OpenRuns s sid)"
  mr_records "\<lambda>_. True"
  by unfold_locales (simp_all add: mem_AppendRun_def mem_OpenRuns_def)

lemma fold_bind_Some: "fold (\<lambda>r st. Option.bind st (\<lambda>s. Some (f s r))) rs (Some s) = Some (foldl f s rs)"
  by (induction rs arbitrary: s) simp_all

text \<open>C19. Compaction loses nothing: after any orderly history of appended records, the memory store,
  which drops every record of a settled or replaced run as it goes, reports for every session
  exactly the open runs, in order, with their admission times, requests and roots, that the
  whole uncompacted history describes.\<close>

theorem compaction_refines_history:
  assumes "orderly [] rs"
  shows "mem_OpenRuns (foldl mem_AppendRun MemoryRuns rs) sessionID = openRuns rs sessionID"
  using memr.answers_history [of MemoryRuns rs sessionID] assms
  by (simp add: MemoryRuns_def fold_bind_Some)

definition run_record :: "bytes \<Rightarrow> int \<Rightarrow> bytes \<Rightarrow> bytes \<Rightarrow> RunRecord" where
  "run_record action at run replaces =
     \<lparr>rr_Action = action, rr_TimeMS = at, rr_SessionID = ''s'', rr_RunID = run,
      rr_Request = ''q'', rr_Replaces = replaces, rr_Root = []\<rparr>"

definition run_history :: "RunRecord list" where
  "run_history =
     [run_record RunAdmitted 1 ''a'' [], run_record RunStarted 2 ''a'' [],
      run_record RunAdmitted 3 ''b'' ''a'', run_record RunAdmitted 4 ''c'' [],
      run_record RunSettled 5 ''c'' []]"

theorem compaction_refines_history_witness:
  "orderly [] run_history \<and>
   mem_OpenRuns (foldl mem_AppendRun MemoryRuns run_history) ''s'' = openRuns run_history ''s'' \<and>
   openRuns run_history ''s'' =
     [\<lparr>or_RunID = ''b'', or_AdmittedMS = 3, or_Started = False, or_Request = ''q'', or_Root = ''a''\<rparr>]"
proof -
  have ord: "orderly [] run_history"
    by (simp add: run_history_def run_record_def run_action_defs fresh_record_def used_ids_iff
        run_over_def replacing_def)
  moreover have "openRuns run_history ''s'' =
     [\<lparr>or_RunID = ''b'', or_AdmittedMS = 3, or_Started = False, or_Request = ''q'', or_Root = ''a''\<rparr>]"
    by (simp add: openRuns_def open_step_def removeRun_def opened_run_def run_history_def
        run_record_def run_action_defs)
  ultimately show ?thesis using compaction_refines_history [OF ord, of "''s''"] by simp
qed

text \<open>The hypothesis is needed: a record of a run that arrives after the run was settled, a late
  \<open>started\<close>, is ignored by a reading of the whole history, which remembers the settlement,
  but brings the run back to life in a store, which has dropped it.\<close>

lemma late_record_revives_run:
  defines "rs \<equiv> [run_record RunAdmitted 1 ''a'' [], run_record RunSettled 2 ''a'' [],
                 run_record RunStarted 3 ''a'' []]"
  shows "openRuns rs ''s'' = [] \<and>
         map or_RunID (mem_OpenRuns (foldl mem_AppendRun MemoryRuns rs) ''s'') = [''a'']"
  unfolding rs_def
  by (simp add: mem_OpenRuns_def mem_AppendRun_def MemoryRuns_def keptAfter_def stamped_def
      log_sessions_def openRuns_def open_step_def removeRun_def opened_run_def run_record_def
      run_action_defs Let_def)

end
