(* ===== verification/Binding_File.thy ===== *)
theory Binding_File
  imports Binding_Store Go_Codec
begin

text \<open>
  The file store of \<^verbatim>\<open>go/binding/file.go\<close>: one framed line per entry, the checksum of the
  payload, a space, the payload and a line end.  The state is the content of the file and what
  the store remembers of its last repair.  Every system call takes its outcome from a record
  of type \<open>io\<close>: whether it succeeds, how many bytes a failing write wrote, how far a failing
  read could see.  \<^verbatim>\<open>json.Marshal\<close> and \<^verbatim>\<open>json.Unmarshal\<close> are parameters; what the theorems
  use of them is \<open>codec_ok\<close>: an entry survives the round trip and its JSON has no line feed.

  The theorems: a frame reads back; a repair keeps exactly the longest prefix of readable
  records, whatever stands behind it; a write torn at any byte, followed by a reopening, loses
  at most the entry being written; the store implements the interface \<open>binding_store\<close>, so it
  answers as the memory store does; and a read that fails part of the way makes a repair cut
  readable records.
\<close>

section \<open>Model\<close>

datatype fs_error =
    ErrPath | ErrIO | ErrMarshal | ErrContext
  | ErrNoChecksum | ErrChecksum | ErrPayload | ErrNoLineEnd nat

text \<open>\<^verbatim>\<open>errors.Is(err, ErrTorn)\<close>\<close>

fun is_torn :: "fs_error \<Rightarrow> bool" where
  "is_torn ErrNoChecksum = True"
| "is_torn ErrChecksum = True"
| "is_torn ErrPayload = True"
| "is_torn (ErrNoLineEnd n) = True"
| "is_torn _ = False"

record io =
  io_Mkdir :: bool
  io_Create :: bool
  io_Stat :: bool
  io_OpenRW :: bool
  io_LineView :: "nat option"
  io_TailView :: "nat option"
  io_Truncate :: bool
  io_LastView :: "nat option"
  io_OpenAppend :: bool
  io_Write :: "nat option"
  io_Sync :: bool
  io_Open :: bool
  io_ReadView :: "nat option"
  io_Cancelled :: "nat \<Rightarrow> bool"

definition io_fine :: io where
  "io_fine = \<lparr>io_Mkdir = True, io_Create = True, io_Stat = True, io_OpenRW = True,
     io_LineView = None, io_TailView = None, io_Truncate = True, io_LastView = None,
     io_OpenAppend = True, io_Write = None, io_Sync = True, io_Open = True, io_ReadView = None,
     io_Cancelled = (\<lambda>_. False)\<rparr>"

text \<open>What a sequence of reads sees of a file: all of it, or only its first bytes before an
  error.\<close>

definition visible :: "nat option \<Rightarrow> bytes \<Rightarrow> bytes" where
  "visible view file = (case view of None \<Rightarrow> file | Some n \<Rightarrow> take n file)"

subsection \<open>Frames\<close>

definition frame :: "bytes \<Rightarrow> bytes" where
  "frame payload = hex8 (crc32_ChecksumIEEE payload) @ [SP] @ payload @ [LF]"

definition trim_line_end :: "bytes \<Rightarrow> bytes" where
  "trim_line_end line = (if line \<noteq> [] \<and> last line = LF then butlast line else line)"

definition unframe :: "bytes \<Rightarrow> fs_error + bytes" where
  "unframe line =
     (case go_cut SP (trim_line_end line) of
        (checksum, payload, found) \<Rightarrow>
          if \<not> found then Inl ErrNoChecksum
          else if hex8 (crc32_ChecksumIEEE payload) \<noteq> checksum then Inl ErrChecksum
          else Inr payload)"

definition encode :: "('e \<Rightarrow> bytes option) \<Rightarrow> 'e \<Rightarrow> bytes option" where
  "encode marshal entry = map_option frame (marshal entry)"

definition decode :: "(bytes \<Rightarrow> 'e option) \<Rightarrow> bytes \<Rightarrow> fs_error + 'e" where
  "decode unmarshal line =
     (case unframe line of
        Inl err \<Rightarrow> Inl err
      | Inr payload \<Rightarrow> (case unmarshal payload of None \<Rightarrow> Inl ErrPayload | Some entry \<Rightarrow> Inr entry))"

abbreviation decodes :: "(bytes \<Rightarrow> 'e option) \<Rightarrow> bytes \<Rightarrow> bool" where
  "decodes unmarshal line \<equiv> (case decode unmarshal line of Inl _ \<Rightarrow> False | Inr _ \<Rightarrow> True)"

subsection \<open>Scanning the file\<close>

text \<open>\<^verbatim>\<open>readLineAt\<close> reads blocks of 512 bytes; a block that comes back short carries an error,
  which ends the loop after its bytes have been looked at.\<close>

function readLineAt_loop :: "bytes \<Rightarrow> nat \<Rightarrow> nat \<Rightarrow> bytes \<Rightarrow> bytes option" where
  "readLineAt_loop file offset fsize buffer =
     (if \<not> offset < fsize then None
      else let chunk = take 512 (drop offset file) in
        if LF \<in> set chunk then Some (buffer @ takeWhile (\<lambda>b. b \<noteq> LF) chunk @ [LF])
        else if length chunk < 512 then None
        else readLineAt_loop file (offset + length chunk) fsize (buffer @ chunk))"
  by pat_completeness auto
termination by (relation "measure (\<lambda>(file, offset, fsize, buffer). fsize - offset)") auto

declare readLineAt_loop.simps [simp del]

definition readLineAt :: "bytes \<Rightarrow> nat \<Rightarrow> nat \<Rightarrow> bytes option" where
  "readLineAt file start fsize = (if start \<ge> fsize then None else readLineAt_loop file start fsize [])"

text \<open>The loop of \<^verbatim>\<open>validatedThrough\<close>, byte by byte over the tail.\<close>

function valid_loop :: "(bytes \<Rightarrow> 'e option) \<Rightarrow> nat \<Rightarrow> bytes \<Rightarrow> nat \<Rightarrow> nat \<Rightarrow> nat \<Rightarrow> nat" where
  "valid_loop unmarshal from tail index start keep =
     (if \<not> index < length tail then keep
      else if tail ! index \<noteq> LF then valid_loop unmarshal from tail (Suc index) start keep
      else if decodes unmarshal (drop start (take (Suc index) tail))
      then valid_loop unmarshal from tail (Suc index) (Suc index) (from + Suc index)
      else keep)"
  by pat_completeness auto
termination by (relation "measure (\<lambda>(u, from, tail, index, start, keep). length tail - index)") auto

declare valid_loop.simps [simp del]

definition validatedThrough :: "(bytes \<Rightarrow> 'e option) \<Rightarrow> bytes \<Rightarrow> nat \<Rightarrow> nat \<Rightarrow> nat option" where
  "validatedThrough unmarshal file from fsize =
     (if from \<ge> fsize then Some fsize
      else let tail = take (fsize - from) (drop from file) in
        if tail = [] then None else Some (valid_loop unmarshal from tail 0 0 from))"

primrec last_start_loop :: "bytes \<Rightarrow> nat \<Rightarrow> nat \<Rightarrow> nat" where
  "last_start_loop buffer base 0 = 0"
| "last_start_loop buffer base (Suc index) =
     (if buffer ! index = LF then base + Suc index else last_start_loop buffer base index)"

definition lastRecordStart :: "bytes \<Rightarrow> nat \<Rightarrow> nat" where
  "lastRecordStart file fsize =
     (if fsize = 0 then 0
      else let window = min 4096 fsize; buffer = take window (drop (fsize - window) file) in
        if buffer = [] then 0 else last_start_loop buffer (fsize - window) (length buffer - 1))"

subsection \<open>The store\<close>

text \<open>\<open>fs_disk\<close> is the file at the store's path, \<^const>\<open>None\<close> when there is none.\<close>

record fileStore =
  fs_disk :: "bytes option"
  fs_validated :: nat
  fs_confirmed :: bool
  fs_lastStart :: nat

definition forget :: "fileStore \<Rightarrow> fileStore" where
  "forget s = s\<lparr>fs_validated := 0, fs_confirmed := False, fs_lastStart := 0\<rparr>"

text \<open>Where the validation resumes: behind what the last repair validated, when the record that
  was last then can still be read, and at the start otherwise.\<close>

definition resume_at :: "io \<Rightarrow> (bytes \<Rightarrow> 'e option) \<Rightarrow> fileStore \<Rightarrow> bytes \<Rightarrow> nat" where
  "resume_at io unmarshal s disk =
     (if fs_confirmed s \<and> length disk \<ge> fs_lastStart s \<and>
         (case readLineAt (visible (io_LineView io) disk) (fs_lastStart s) (length disk) of
            None \<Rightarrow> False
          | Some line \<Rightarrow> decodes unmarshal line)
      then fs_validated s else 0)"

definition repairLocked ::
  "io \<Rightarrow> (bytes \<Rightarrow> 'e option) \<Rightarrow> fileStore \<Rightarrow> fs_error option \<times> fileStore" where
  "repairLocked io unmarshal s =
     (case fs_disk s of
        None \<Rightarrow> (Some ErrIO, s)
      | Some disk \<Rightarrow>
          if \<not> io_Stat io then (Some ErrIO, s)
          else if length disk = 0 then (None, forget s)
          else if fs_confirmed s \<and> length disk = fs_validated s then (None, s)
          else if \<not> io_OpenRW io then (Some ErrIO, s)
          else
            case validatedThrough unmarshal (visible (io_TailView io) disk)
                   (resume_at io unmarshal s disk) (length disk) of
              None \<Rightarrow> (Some ErrIO, s)
            | Some keep \<Rightarrow>
                if keep \<noteq> length disk \<and> \<not> io_Truncate io then (Some ErrIO, s)
                else (None, s\<lparr>fs_disk := Some (take keep disk), fs_validated := keep,
                              fs_confirmed := True,
                              fs_lastStart := lastRecordStart (visible (io_LastView io) (take keep disk)) keep\<rparr>))"

text \<open>\<^verbatim>\<open>File(path)\<close> on the content of the path.\<close>

definition File ::
  "io \<Rightarrow> (bytes \<Rightarrow> 'e option) \<Rightarrow> bytes \<Rightarrow> bytes option \<Rightarrow> fs_error + fileStore" where
  "File io unmarshal path disk =
     (if path = [] then Inl ErrPath
      else if \<not> io_Mkdir io then Inl ErrIO
      else if disk \<noteq> None \<and> \<not> io_Stat io then Inl ErrIO
      else if disk = None \<and> \<not> io_Create io then Inl ErrIO
      else
        let created = (case disk of None \<Rightarrow> [] | Some content \<Rightarrow> content);
            store = \<lparr>fs_disk = Some created, fs_validated = 0, fs_confirmed = False, fs_lastStart = 0\<rparr>
        in case repairLocked io unmarshal store of
             (Some err, _) \<Rightarrow> Inl err
           | (None, repaired) \<Rightarrow> Inr repaired)"

definition fs_Append ::
  "io \<Rightarrow> ('e \<Rightarrow> bytes option) \<Rightarrow> (bytes \<Rightarrow> 'e option) \<Rightarrow> fileStore \<Rightarrow> 'e \<Rightarrow> fs_error option \<times> fileStore" where
  "fs_Append io marshal unmarshal s entry =
     (case encode marshal entry of
        None \<Rightarrow> (Some ErrMarshal, s)
      | Some line \<Rightarrow>
          (case repairLocked io unmarshal s of
             (Some err, s') \<Rightarrow> (Some err, s')
           | (None, s') \<Rightarrow>
               if \<not> io_OpenAppend io then (Some ErrIO, s')
               else
                 case io_Write io of
                   Some n \<Rightarrow> (Some ErrIO, s'\<lparr>fs_disk := map_option (\<lambda>d. d @ take n line) (fs_disk s')\<rparr>)
                 | None \<Rightarrow> (if io_Sync io then None else Some ErrIO,
                            s'\<lparr>fs_disk := map_option (\<lambda>d. d @ line) (fs_disk s')\<rparr>)))"

text \<open>The loop of \<^verbatim>\<open>read\<close>: \<open>rest\<close> is what the reader has not returned yet, \<open>fault\<close> that the
  reader ends with an error other than the end of the file.\<close>

function read_loop ::
  "(nat \<Rightarrow> bool) \<Rightarrow> (bytes \<Rightarrow> 'e option) \<Rightarrow> ('e \<Rightarrow> bool) \<Rightarrow> bool \<Rightarrow> nat \<Rightarrow> bytes \<Rightarrow> 'e list
     \<Rightarrow> (fs_error \<times> bool) + 'e list" where
  "read_loop cancelled unmarshal keep fault round rest entries =
     (if cancelled round then Inl (ErrContext, False)
      else case go_cut LF rest of
        (line, rest', found) \<Rightarrow>
          if \<not> found then
            (if line = [] \<and> \<not> fault then Inr entries else Inl (ErrNoLineEnd (length line), True))
          else case decode unmarshal (line @ [LF]) of
            Inl err \<Rightarrow> Inl (err, True)
          | Inr entry \<Rightarrow>
              read_loop cancelled unmarshal keep fault (Suc round) rest'
                (if keep entry then entries @ [entry] else entries))"
  by pat_completeness auto
termination
  by (relation "measure (\<lambda>(c, u, k, f, round, rest, entries). length rest)")
    (auto dest!: go_cut_parts [OF sym])

declare read_loop.simps [simp del]

definition fs_read ::
  "io \<Rightarrow> (bytes \<Rightarrow> 'e option) \<Rightarrow> fileStore \<Rightarrow> ('e \<Rightarrow> bool) \<Rightarrow> (fs_error + 'e list) \<times> fileStore" where
  "fs_read io unmarshal s keep =
     (case fs_disk s of
        None \<Rightarrow> (Inr [], s)
      | Some disk \<Rightarrow>
          if \<not> io_Open io then (Inl ErrIO, s)
          else
            case read_loop (io_Cancelled io) unmarshal keep (io_ReadView io \<noteq> None) 0
                   (visible (io_ReadView io) disk) [] of
              Inl (err, torn) \<Rightarrow> (Inl err, if torn then forget s else s)
            | Inr entries \<Rightarrow> (Inr entries, s))"

definition fs_History ::
  "io \<Rightarrow> (bytes \<Rightarrow> Entry option) \<Rightarrow> fileStore \<Rightarrow> bytes \<Rightarrow> (fs_error + Entry list) \<times> fileStore" where
  "fs_History io unmarshal s sessionID =
     fs_read io unmarshal s (\<lambda>entry. entry_session entry = sessionID)"

definition fs_Latest ::
  "io \<Rightarrow> (bytes \<Rightarrow> Entry option) \<Rightarrow> fileStore \<Rightarrow> bytes \<Rightarrow> (fs_error + Entry option) \<times> fileStore" where
  "fs_Latest io unmarshal s sessionID =
     (case fs_History io unmarshal s sessionID of
        (Inl err, s') \<Rightarrow> (Inl err, s')
      | (Inr entries, s') \<Rightarrow> (Inr (if entries = [] then None else Some (last entries)), s'))"

definition fs_Sessions ::
  "io \<Rightarrow> (bytes \<Rightarrow> Entry option) \<Rightarrow> fileStore \<Rightarrow> (fs_error + Entry list) \<times> fileStore" where
  "fs_Sessions io unmarshal s =
     (case fs_read io unmarshal s (\<lambda>_. True) of
        (Inl err, s') \<Rightarrow> (Inl err, s')
      | (Inr entries, s') \<Rightarrow> (Inr (Sessions entries), s'))"

section \<open>What a file says\<close>

text \<open>The readable records at the head of a file, and how many bytes they take.\<close>

function good_scan :: "(bytes \<Rightarrow> 'e option) \<Rightarrow> bytes \<Rightarrow> 'e list \<times> nat" where
  "good_scan unmarshal content =
     (case go_cut LF content of
        (line, rest, found) \<Rightarrow>
          if \<not> found then ([], 0)
          else case decode unmarshal (line @ [LF]) of
            Inl _ \<Rightarrow> ([], 0)
          | Inr entry \<Rightarrow>
              (case good_scan unmarshal rest of (es, n) \<Rightarrow> (entry # es, Suc (length line) + n)))"
  by pat_completeness auto
termination
  by (relation "measure (\<lambda>(u, content). length content)") (auto dest!: go_cut_parts [OF sym])

declare good_scan.simps [simp del]

abbreviation good_log :: "(bytes \<Rightarrow> 'e option) \<Rightarrow> bytes \<Rightarrow> 'e list" where
  "good_log u content \<equiv> fst (good_scan u content)"

abbreviation good_len :: "(bytes \<Rightarrow> 'e option) \<Rightarrow> bytes \<Rightarrow> nat" where
  "good_len u content \<equiv> snd (good_scan u content)"

definition clean :: "(bytes \<Rightarrow> 'e option) \<Rightarrow> bytes \<Rightarrow> bool" where
  "clean u content \<longleftrightarrow> good_len u content = length content"

definition codec_ok :: "('e \<Rightarrow> bytes option) \<Rightarrow> (bytes \<Rightarrow> 'e option) \<Rightarrow> 'e \<Rightarrow> bool" where
  "codec_ok marshal unmarshal e \<longleftrightarrow>
     (case marshal e of None \<Rightarrow> False | Some p \<Rightarrow> unmarshal p = Some e \<and> LF \<notin> set p)"

section \<open>Lemmas\<close>

lemma io_fine_fields [simp]:
  "io_Mkdir io_fine" "io_Create io_fine" "io_Stat io_fine" "io_OpenRW io_fine"
  "io_TailView io_fine = None" "io_Truncate io_fine" "io_OpenAppend io_fine"
  "io_Write io_fine = None" "io_Sync io_fine" "io_Open io_fine" "io_ReadView io_fine = None"
  "io_Cancelled io_fine = (\<lambda>_. False)"
  by (simp_all add: io_fine_def)

lemma unframe_frame_eq: "unframe (frame payload) = Inr payload"
proof -
  have "trim_line_end (frame payload) = hex8 (crc32_ChecksumIEEE payload) @ SP # payload"
    by (simp add: trim_line_end_def frame_def butlast_append)
  then show ?thesis by (simp add: unframe_def hex8_plain)
qed

lemma good_scan_line:
  "LF \<notin> set line \<Longrightarrow> good_scan u (line @ LF # rest) =
     (case decode u (line @ [LF]) of
        Inl _ \<Rightarrow> ([], 0)
      | Inr e \<Rightarrow> (e # good_log u rest, Suc (length line) + good_len u rest))"
  by (subst good_scan.simps) (simp split: sum.split prod.split)

lemma good_scan_no_line: "LF \<notin> set tail \<Longrightarrow> good_scan u tail = ([], 0)"
  by (subst good_scan.simps) simp

lemma good_scan_Nil [simp]: "good_scan u [] = ([], 0)"
  by (rule good_scan_no_line) simp

text \<open>Induction over the lines of a file.\<close>

lemma file_induct [case_names tail line]:
  assumes tail: "\<And>tail. LF \<notin> set tail \<Longrightarrow> P tail"
    and line: "\<And>line rest. LF \<notin> set line \<Longrightarrow> P rest \<Longrightarrow> P (line @ LF # rest)"
  shows "P content"
proof (induction content rule: length_induct)
  case (1 content)
  show ?case
  proof (cases "LF \<in> set content")
    case True
    then obtain a b where "content = a @ LF # b" "LF \<notin> set a" by (meson split_list_first)
    with 1 show ?thesis by (simp add: line)
  next
    case False
    then show ?thesis by (rule tail)
  qed
qed

lemma good_len_le: "good_len u content \<le> length content"
proof (induction content rule: file_induct)
  case (line a b)
  then show ?case by (simp add: good_scan_line split: sum.split)
qed (simp add: good_scan_no_line)

lemma good_scan_append:
  "clean u x \<Longrightarrow> good_scan u (x @ y) = (good_log u x @ good_log u y, length x + good_len u y)"
proof (induction x rule: file_induct)
  case (tail t)
  then have "t = []" by (simp add: clean_def good_scan_no_line)
  then show ?case by simp
next
  case (line a b)
  then have "clean u b" and "decodes u (a @ [LF])"
    by (auto simp: clean_def good_scan_line split: sum.splits)
  with line show ?case by (auto simp: good_scan_line split: sum.splits)
qed

lemma good_scan_prefix: "good_scan u (take (good_len u content) content) = good_scan u content"
proof (induction content rule: file_induct)
  case (line a b)
  then show ?case by (auto simp: good_scan_line split: sum.splits)
qed (simp add: good_scan_no_line)

lemma good_prefix_clean: "clean u (take (good_len u content) content)"
  by (simp add: clean_def good_scan_prefix good_len_le min_absorb2)

lemma frame_line: "LF \<notin> set payload \<Longrightarrow> \<exists>line. frame payload = line @ [LF] \<and> LF \<notin> set line"
  by (intro exI [of _ "hex8 (crc32_ChecksumIEEE payload) @ SP # payload"])
    (simp add: frame_def hex8_plain)

lemma encode_good:
  assumes "codec_ok m u e"
  obtains line where "encode m e = Some (line @ [LF])" "LF \<notin> set line" "decode u (line @ [LF]) = Inr e"
proof -
  from assms obtain p where p: "m e = Some p" "u p = Some e" "LF \<notin> set p"
    by (auto simp: codec_ok_def split: option.splits)
  from frame_line [OF p(3)] obtain line where l: "frame p = line @ [LF]" "LF \<notin> set line" by blast
  show thesis
  proof
    show "encode m e = Some (line @ [LF])" by (simp add: encode_def p l)
    show "LF \<notin> set line" by (rule l)
    show "decode u (line @ [LF]) = Inr e"
      using unframe_frame_eq [of p] by (simp add: decode_def p flip: l(1))
  qed
qed

lemma append_line:
  assumes "clean u content" and "LF \<notin> set line" and "decode u (line @ [LF]) = Inr e"
  shows "clean u (content @ line @ [LF]) \<and> good_log u (content @ line @ [LF]) = good_log u content @ [e]"
proof -
  have "good_scan u (line @ [LF]) = ([e], Suc (length line))"
    using assms(2,3) by (simp add: good_scan_line)
  with good_scan_append [OF assms(1), of "line @ [LF]"] show ?thesis by (simp add: clean_def)
qed

text \<open>The byte loop of the source counts what the scan by lines counts.\<close>

lemma valid_loop_skip:
  "LF \<notin> set (drop index (take (index + n) tail)) \<Longrightarrow> index + n \<le> length tail \<Longrightarrow>
   valid_loop u from tail index start keep = valid_loop u from tail (index + n) start keep"
proof (induction n arbitrary: index)
  case 0
  then show ?case by simp
next
  case (Suc n)
  have ix: "index < length tail" using Suc.prems(2) by simp
  have "drop index (take (index + Suc n) tail) = tail ! index # drop (Suc index) (take (Suc index + n) tail)"
    using Suc.prems(2) by (simp add: Cons_nth_drop_Suc [symmetric])
  with Suc.prems have "tail ! index \<noteq> LF" "LF \<notin> set (drop (Suc index) (take (Suc index + n) tail))" by auto
  with Suc.IH [of "Suc index"] Suc.prems(2) ix show ?case
    by (subst valid_loop.simps) simp
qed

lemma valid_loop_scan:
  "valid_loop u from (seen @ rest) (length seen) (length seen) keep =
     (if good_len u rest = 0 then keep else from + length seen + good_len u rest)"
proof (induction rest arbitrary: seen keep rule: file_induct)
  case (tail t)
  then have "valid_loop u from (seen @ t) (length seen) (length seen) keep =
      valid_loop u from (seen @ t) (length seen + length t) (length seen) keep"
    by (intro valid_loop_skip) auto
  also have "\<dots> = keep" by (subst valid_loop.simps) simp
  finally show ?case using tail by (simp add: good_scan_no_line)
next
  case (line a b)
  let ?t = "seen @ a @ LF # b" and ?i = "length seen + length a"
  have skip: "valid_loop u from ?t (length seen) (length seen) keep =
      valid_loop u from ?t ?i (length seen) keep"
    using line(1) by (intro valid_loop_skip) auto
  have at: "?t ! ?i = LF" by (simp add: nth_append)
  have piece: "drop (length seen) (take (Suc ?i) ?t) = a @ [LF]" by simp
  show ?case
  proof (cases "decode u (a @ [LF])")
    case (Inl err)
    then have "valid_loop u from ?t ?i (length seen) keep = keep"
      using at piece by (subst valid_loop.simps) simp
    with skip Inl line(1) show ?thesis by (simp add: good_scan_line)
  next
    case (Inr e)
    then have "valid_loop u from ?t ?i (length seen) keep =
        valid_loop u from ?t (Suc ?i) (Suc ?i) (from + Suc ?i)"
      using at piece by (subst valid_loop.simps) simp
    with skip Inr line(1) line(2) [of "seen @ a @ [LF]" "from + Suc ?i"] show ?thesis
      by (simp add: good_scan_line)
  qed
qed

lemma validatedThrough_scan:
  assumes "from \<le> length disk" and "clean u (take from disk)"
  shows "validatedThrough u disk from (length disk) = Some (good_len u disk)"
proof (cases "from = length disk")
  case True
  with assms(2) show ?thesis by (simp add: validatedThrough_def clean_def)
next
  case False
  have "good_len u disk = from + good_len u (drop from disk)"
    using good_scan_append [OF assms(2), of "drop from disk"] assms(1) by simp
  moreover have "valid_loop u from (drop from disk) 0 0 from = from + good_len u (drop from disk)"
    using valid_loop_scan [of u "from" "[]" "drop from disk" "from"] by simp
  ultimately show ?thesis using False assms(1) by (simp add: validatedThrough_def)
qed

section \<open>The invariant of the store\<close>

text \<open>The file is there, and what the store believes validated consists of readable records.\<close>

definition fs_inv :: "(bytes \<Rightarrow> 'e option) \<Rightarrow> fileStore \<Rightarrow> bool" where
  "fs_inv u s \<longleftrightarrow>
     (case fs_disk s of
        None \<Rightarrow> False
      | Some disk \<Rightarrow>
          fs_confirmed s \<longrightarrow> fs_validated s \<le> length disk \<and> clean u (take (fs_validated s) disk))"

definition fs_log :: "(bytes \<Rightarrow> 'e option) \<Rightarrow> fileStore \<Rightarrow> 'e list" where
  "fs_log u s = (case fs_disk s of None \<Rightarrow> [] | Some disk \<Rightarrow> good_log u disk)"

lemma clean_Nil [simp]: "clean u []"
  by (simp add: clean_def)

lemma fs_inv_forget [simp]: "fs_inv u s \<Longrightarrow> fs_inv u (forget s)"
  by (simp add: fs_inv_def forget_def split: option.splits)

lemma fs_inv_extend:
  "fs_inv u s \<Longrightarrow> fs_inv u (s\<lparr>fs_disk := map_option (\<lambda>d. d @ x) (fs_disk s)\<rparr>)"
  by (auto simp: fs_inv_def split: option.splits)

lemma resume_at_clean:
  assumes "fs_inv u s" and "fs_disk s = Some disk"
  shows "resume_at io u s disk \<le> length disk \<and> clean u (take (resume_at io u s disk) disk)"
  using assms by (simp add: resume_at_def fs_inv_def)

text \<open>A repair that is not misled by a failing read leaves an error and the store as it was, or
  exactly the readable prefix.\<close>

lemma repair_cases:
  assumes inv: "fs_inv u s" and disk: "fs_disk s = Some disk" and view: "io_TailView io = None"
  shows "(\<exists>err. repairLocked io u s = (Some err, s)) \<or>
         (\<exists>s'. repairLocked io u s = (None, s') \<and> fs_inv u s' \<and>
               fs_disk s' = Some (take (good_len u disk) disk))"
proof (cases "\<not> io_Stat io")
  case True
  then show ?thesis using disk by (simp add: repairLocked_def)
next
  case stat: False
  consider (empty) "disk = []" | (same) "disk \<noteq> []" "fs_confirmed s" "length disk = fs_validated s"
    | (scan) "disk \<noteq> []" "\<not> (fs_confirmed s \<and> length disk = fs_validated s)" by blast
  then show ?thesis
  proof cases
    case empty
    with stat disk inv show ?thesis by (simp add: repairLocked_def) (simp add: forget_def)
  next
    case same
    with inv disk have "clean u disk" by (simp add: fs_inv_def)
    with same stat disk inv show ?thesis by (auto simp: repairLocked_def clean_def)
  next
    case scan
    have valid: "validatedThrough u disk (resume_at io u s disk) (length disk) = Some (good_len u disk)"
      using resume_at_clean [OF inv disk] by (intro validatedThrough_scan) auto
    have inv': "fs_inv u (s\<lparr>fs_disk := Some (take (good_len u disk) disk),
        fs_validated := good_len u disk, fs_confirmed := True, fs_lastStart := l\<rparr>)" for l
      using good_prefix_clean [of u disk] good_len_le [of u disk] by (simp add: fs_inv_def)
    show ?thesis using scan stat disk view valid inv'
      by (cases "io_OpenRW io"; cases "io_Truncate io"; cases "good_len u disk = length disk")
        (auto simp: repairLocked_def visible_def)
  qed
qed

lemma repair_fine:
  assumes inv: "fs_inv u s" and disk: "fs_disk s = Some disk" and view: "io_TailView io = None"
    and ok: "io_Stat io" "io_OpenRW io" "io_Truncate io"
  shows "\<exists>s'. repairLocked io u s = (None, s') \<and> fs_inv u s' \<and>
               fs_disk s' = Some (take (good_len u disk) disk)"
proof -
  have "\<nexists>err. repairLocked io u s = (Some err, s)"
    using disk view ok validatedThrough_scan [of "resume_at io u s disk" disk u]
      resume_at_clean [OF inv disk, of io]
    by (simp add: repairLocked_def visible_def)
  with repair_cases [OF inv disk view] show ?thesis by blast
qed

lemma read_loop_clean:
  "clean u content \<Longrightarrow>
   read_loop (\<lambda>_. False) u keep False i content acc = Inr (acc @ filter keep (good_log u content))"
proof (induction content arbitrary: i acc rule: file_induct)
  case (tail t)
  then have "t = []" by (simp add: clean_def good_scan_no_line)
  then show ?case by (subst read_loop.simps) simp
next
  case (line a b)
  then obtain e where e: "decode u (a @ [LF]) = Inr e" and "clean u b"
    by (auto simp: clean_def good_scan_line split: sum.splits)
  with line show ?case by (subst read_loop.simps) (simp add: good_scan_line)
qed

lemma decode_torn: "decode u l = Inl err \<Longrightarrow> is_torn err"
  by (auto simp: decode_def unframe_def split: sum.splits option.splits prod.splits if_splits)

lemma read_loop_unclean:
  assumes "\<not> clean u content"
  shows "\<exists>err. read_loop (\<lambda>_. False) u keep fault i content acc = Inl (err, True) \<and> is_torn err"
  using assms
proof (induction content arbitrary: i acc rule: file_induct)
  case (tail t)
  then have "t \<noteq> []" by auto
  with tail show ?case by (subst read_loop.simps) simp
next
  case (line a b)
  show ?case
  proof (cases "decode u (a @ [LF])")
    case (Inl err)
    then show ?thesis using line(1) by (subst read_loop.simps) (simp add: decode_torn)
  next
    case (Inr e)
    with line(1,3) have "\<not> clean u b" by (simp add: clean_def good_scan_line)
    with Inr line show ?thesis by (subst read_loop.simps) simp
  qed
qed

lemma append_steps:
  assumes inv: "fs_inv u s" and ok: "codec_ok m u e" and view: "io_TailView io = None"
    and app: "fs_Append io m u s e = (r, s')"
  shows "fs_inv u s' \<and> fs_log u s' \<in> {fs_log u s, fs_log u s @ [e]} \<and>
         (r = None \<longrightarrow> fs_log u s' = fs_log u s @ [e] \<and> clean u (the (fs_disk s')))"
proof -
  obtain disk where disk: "fs_disk s = Some disk" using inv by (auto simp: fs_inv_def split: option.splits)
  obtain line where line: "encode m e = Some (line @ [LF])" "LF \<notin> set line" "decode u (line @ [LF]) = Inr e"
    using encode_good [OF ok] by blast
  let ?kept = "take (good_len u disk) disk"
  note kept = good_prefix_clean [of u disk] good_scan_prefix [of u disk]
  from repair_cases [OF inv disk view] show ?thesis
  proof
    assume "\<exists>err. repairLocked io u s = (Some err, s)"
    with app line inv show ?thesis by (auto simp: fs_Append_def)
  next
    assume "\<exists>s'. repairLocked io u s = (None, s') \<and> fs_inv u s' \<and> fs_disk s' = Some ?kept"
    then obtain t where t: "repairLocked io u s = (None, t)" "fs_inv u t" "fs_disk t = Some ?kept" by blast
    have full: "clean u (?kept @ line @ [LF])" "good_log u (?kept @ line @ [LF]) = good_log u disk @ [e]"
      using append_line [OF kept(1) line(2,3)] kept(2) by simp_all
    have torn: "good_log u (?kept @ take n (line @ [LF])) \<in> {good_log u disk, good_log u disk @ [e]}" for n
    proof (cases "n \<le> length line")
      case True
      then have "LF \<notin> set (take n (line @ [LF]))" using line(2) by (auto dest: in_set_takeD)
      then show ?thesis using good_scan_append [OF kept(1)] kept(2) by (simp add: good_scan_no_line)
    next
      case False
      then show ?thesis using full by simp
    qed
    have ext: "fs_inv u (t\<lparr>fs_disk := Some (?kept @ x)\<rparr>)" for x
      using fs_inv_extend [OF t(2), of x] t(3) by simp
    show ?thesis
    proof (cases "io_Write io")
      case None
      with app t line full disk kept ext show ?thesis
        by (auto simp: fs_Append_def fs_log_def split: if_splits)
    next
      case (Some n)
      with app t line disk kept ext torn [of n] show ?thesis
        by (auto simp: fs_Append_def fs_log_def split: if_splits)
    qed
  qed
qed

lemma reopen:
  assumes "io_TailView io = None" "io_Mkdir io" "io_Create io" "io_Stat io" "io_OpenRW io"
    "io_Truncate io" and "path \<noteq> []"
  shows "\<exists>t. File io u path disk = Inr t \<and> fs_inv u t \<and> clean u (the (fs_disk t)) \<and>
             fs_log u t = (case disk of None \<Rightarrow> [] | Some content \<Rightarrow> good_log u content)"
proof -
  let ?content = "case disk of None \<Rightarrow> [] | Some content \<Rightarrow> content"
  let ?s = "\<lparr>fs_disk = Some ?content, fs_validated = 0, fs_confirmed = False, fs_lastStart = 0\<rparr>"
  have "fs_inv u ?s" by (simp add: fs_inv_def)
  from repair_fine [OF this _ assms(1,4-6), of ?content] obtain t where
    t: "repairLocked io u ?s = (None, t)" "fs_inv u t" "fs_disk t = Some (take (good_len u ?content) ?content)"
    by auto
  have "File io u path disk = Inr t" using t(1) assms by (simp add: File_def)
  with t(2,3) good_prefix_clean [of u ?content] good_scan_prefix [of u ?content] show ?thesis
    by (auto simp: fs_log_def split: option.splits)
qed

section \<open>The file store is a binding store\<close>

text \<open>The calls when no system call fails.\<close>

definition fs_append_fine ::
  "(Entry \<Rightarrow> bytes option) \<Rightarrow> (bytes \<Rightarrow> Entry option) \<Rightarrow> fileStore \<Rightarrow> Entry \<Rightarrow> fileStore option" where
  "fs_append_fine m u s e = (case fs_Append io_fine m u s e of (None, s') \<Rightarrow> Some s' | (Some _, _) \<Rightarrow> None)"

definition sum_value :: "(fs_error + 'a) \<times> fileStore \<Rightarrow> 'a option" where
  "sum_value r = (case fst r of Inl _ \<Rightarrow> None | Inr x \<Rightarrow> Some x)"

definition fs_ok :: "(bytes \<Rightarrow> Entry option) \<Rightarrow> fileStore \<Rightarrow> bool" where
  "fs_ok u s \<longleftrightarrow> fs_inv u s \<and> clean u (the (fs_disk s))"

lemma fs_read_fine:
  "fs_ok u s \<Longrightarrow> fs_read io_fine u s keep = (Inr (filter keep (fs_log u s)), s)"
  by (auto simp: fs_ok_def fs_inv_def fs_read_def visible_def read_loop_clean fs_log_def
      split: option.splits)

lemma fs_append_fine_ok:
  assumes "fs_ok u s" and "codec_ok m u e"
  shows "\<exists>s'. fs_append_fine m u s e = Some s' \<and> fs_ok u s' \<and> fs_log u s' = fs_log u s @ [e]"
proof -
  obtain disk where disk: "fs_disk s = Some disk"
    using assms(1) by (auto simp: fs_ok_def fs_inv_def split: option.splits)
  have inv: "fs_inv u s" using assms(1) by (simp add: fs_ok_def)
  obtain line where line: "encode m e = Some (line @ [LF])" using encode_good [OF assms(2)] by blast
  from repair_fine [OF inv disk, of io_fine] obtain t where "repairLocked io_fine u s = (None, t)"
    by auto
  with line have "fst (fs_Append io_fine m u s e) = None" by (simp add: fs_Append_def)
  then obtain s' where s': "fs_Append io_fine m u s e = (None, s')" by (metis prod.collapse)
  from append_steps [OF inv assms(2) _ s'] show ?thesis
    by (simp add: fs_append_fine_def s' fs_ok_def)
qed

interpretation fs: binding_store "fs_append_fine m u" "\<lambda>s sid. sum_value (fs_History io_fine u s sid)"
  "\<lambda>s sid. sum_value (fs_Latest io_fine u s sid)" "\<lambda>s. sum_value (fs_Sessions io_fine u s)"
  "fs_log u" "fs_ok u" "codec_ok m u" for m u
  by unfold_locales
    (simp_all add: fs_append_fine_ok fs_History_def fs_Latest_def fs_Sessions_def fs_read_fine
      sum_value_def session_history_def)

section \<open>Properties\<close>

text \<open>A frame reads back: whatever the payload, \<^verbatim>\<open>unframe\<close> of its frame is the payload, and a
  payload without a line feed makes a frame with exactly one, at its end.\<close>

lemma unframe_frame:
  "unframe (frame payload) = Inr payload \<and>
   (LF \<notin> set payload \<longrightarrow> (\<exists>line. frame payload = line @ [LF] \<and> LF \<notin> set line))"
  using unframe_frame_eq frame_line by blast

text \<open>A repair keeps exactly the readable records: when no call fails, the file a repair leaves
  is the longest prefix of it that consists of readable records, every one of them, and a
  second repair changes nothing more.  Resuming behind what was validated before gives the
  same cut as reading the whole file.\<close>

lemma repair_keeps_readable_prefix:
  assumes "fs_inv u s" and "fs_disk s = Some disk"
    and "io_Stat io" and "io_OpenRW io" and "io_Truncate io" and "io_TailView io = None"
  shows "\<exists>s'. repairLocked io u s = (None, s') \<and> fs_inv u s' \<and>
           fs_disk s' = Some (take (good_len u disk) disk) \<and> clean u (take (good_len u disk) disk) \<and>
           fs_log u s' = good_log u disk \<and>
           (\<exists>s''. repairLocked io u s' = (None, s'') \<and> fs_disk s'' = fs_disk s')"
proof -
  from repair_fine [OF assms(1,2,6,3,4,5)] obtain s' where
    s': "repairLocked io u s = (None, s')" "fs_inv u s'" "fs_disk s' = Some (take (good_len u disk) disk)"
    by blast
  from repair_fine [OF s'(2,3) assms(6,3,4,5)] obtain s'' where
    "repairLocked io u s' = (None, s'')" "fs_disk s'' = fs_disk s'"
    using s'(3) by (auto simp: good_scan_prefix min_def good_len_le)
  with s' good_prefix_clean [of u disk] good_scan_prefix [of u disk] show ?thesis
    by (simp add: fs_log_def)
qed

text \<open>A codec for the witnesses: an entry is its action and the rest is fixed.\<close>

definition demo_entry :: "bytes \<Rightarrow> Entry" where
  "demo_entry sid = Opened (FromOpen sid [] [] [] [] [] []) 0"

definition demo_marshal :: "Entry \<Rightarrow> bytes option" where
  "demo_marshal e = (if e = demo_entry (entry_session e) then Some (base64_EncodeToString (entry_session e)) else None)"

definition demo_unmarshal :: "bytes \<Rightarrow> Entry option" where
  "demo_unmarshal p = map_option demo_entry (base64_DecodeString p)"

lemma demo_codec: "codec_ok demo_marshal demo_unmarshal (demo_entry sid)"
proof -
  have "entry_session (demo_entry sid) = sid" by (simp add: demo_entry_def Opened_def FromOpen_def)
  moreover have "LF \<notin> set (base64_EncodeToString sid)"
  proof -
    have "\<forall>v \<in> set (b64_encode_nats (map of_char sid)). v < 64" by (rule b64_encode_bound) simp
    then show ?thesis using b64_char_not_newline by (force simp: base64_EncodeToString_def)
  qed
  ultimately show ?thesis
    by (simp add: codec_ok_def demo_marshal_def demo_unmarshal_def base64_roundtrip)
qed

text \<open>A store whose file ends in half a record.\<close>

definition demo_torn :: fileStore where
  "demo_torn = \<lparr>fs_disk = Some (frame (base64_EncodeToString ''a'') @ ''0bad''),
     fs_validated = 0, fs_confirmed = False, fs_lastStart = 0\<rparr>"

lemma demo_torn_inv: "fs_inv demo_unmarshal demo_torn"
  by (simp add: fs_inv_def demo_torn_def)



text \<open>C17. The file store refines the memory store: after any sequence of encodable entries appended
  to a fresh file, with no failing call, both stores give the same history and the same latest
  entry for every session, and the same listing of sessions.\<close>

theorem file_store_refines_memory:
  assumes "\<forall>e \<in> set es. codec_ok m u e"
  shows "\<exists>s0 s ms.
     File io_fine u (CHR ''p'' # path) None = Inr s0 \<and>
     fold (\<lambda>e st. Option.bind st (\<lambda>s. fs_append_fine m u s e)) es (Some s0) = Some s \<and>
     fold (\<lambda>e st. Option.bind st (\<lambda>s. mem_Append s e)) es (Some Memory) = Some ms \<and>
     (\<forall>sid. sum_value (fs_History io_fine u s sid) = mem_History ms sid) \<and>
     (\<forall>sid. sum_value (fs_Latest io_fine u s sid) = mem_Latest ms sid) \<and>
     sum_value (fs_Sessions io_fine u s) = mem_Sessions ms"
proof -
  from reopen [of io_fine "CHR ''p'' # path" u None] obtain s0 where
    s0: "File io_fine u (CHR ''p'' # path) None = Inr s0" "fs_ok u s0" "fs_log u s0 = []"
    by (auto simp: fs_ok_def)
  from fs.append_all [OF s0(2) assms] obtain s where
    s: "fold (\<lambda>e st. Option.bind st (\<lambda>s. fs_append_fine m u s e)) es (Some s0) = Some s"
    "fs_ok u s" "fs_log u s = es" using s0(3) by auto
  from mem.append_all [of es Memory] obtain ms where
    ms: "fold (\<lambda>e st. Option.bind st (\<lambda>s. mem_Append s e)) es (Some Memory) = Some ms"
    "ms_entries ms = es" by (auto simp: Memory_def)
  have "\<forall>sid. sum_value (fs_History io_fine u s sid) = mem_History ms sid"
    by (simp add: fs.history_log [OF s(2)] mem.history_log s(3) ms(2))
  moreover have "\<forall>sid. sum_value (fs_Latest io_fine u s sid) = mem_Latest ms sid"
    by (simp add: fs.latest_log [OF s(2)] mem.latest_log s(3) ms(2))
  moreover have "sum_value (fs_Sessions io_fine u s) = mem_Sessions ms"
    by (simp add: fs.sessions_log [OF s(2)] mem.sessions_log s(3) ms(2))
  ultimately show ?thesis using s0(1) s(1) ms(1) by blast
qed

theorem file_store_refines_memory_witness:
  "\<exists>s0 s ms.
     File io_fine demo_unmarshal ''p'' None = Inr s0 \<and>
     fold (\<lambda>e st. Option.bind st (\<lambda>s. fs_append_fine demo_marshal demo_unmarshal s e))
       [demo_entry ''a'', demo_entry ''b''] (Some s0) = Some s \<and>
     fold (\<lambda>e st. Option.bind st (\<lambda>s. mem_Append s e)) [demo_entry ''a'', demo_entry ''b''] (Some Memory) = Some ms \<and>
     sum_value (fs_Latest io_fine demo_unmarshal s ''a'') = mem_Latest ms ''a''"
proof -
  have "\<forall>e \<in> set [demo_entry ''a'', demo_entry ''b'']. codec_ok demo_marshal demo_unmarshal e"
    by (simp add: demo_codec)
  from file_store_refines_memory [OF this, of "[]"] show ?thesis by blast
qed

text \<open>A log that does not end in a readable record is never served in part: every read of it
  fails with a torn-record error and makes the store forget what it had validated, so that the
  next append repairs from the start; a log readable to its end is returned whole.\<close>

lemma torn_log_refused:
  assumes "fs_disk s = Some disk"
  shows "if clean u disk then fs_read io_fine u s keep = (Inr (filter keep (good_log u disk)), s)
         else \<exists>err. fs_read io_fine u s keep = (Inl err, forget s) \<and> is_torn err"
proof (cases "clean u disk")
  case True
  with assms show ?thesis by (simp add: fs_read_def visible_def read_loop_clean)
next
  case False
  from read_loop_unclean [OF False, of keep False 0 "[]"] obtain err where
    "read_loop (\<lambda>_. False) u keep False 0 disk [] = Inl (err, True)" "is_torn err" by blast
  with assms False show ?thesis by (simp add: fs_read_def visible_def)
qed

text \<open>A read error makes a repair cut readable records: \<^verbatim>\<open>validatedThrough\<close> drops the error of a
  read that returned some bytes, so when the read of the tail of a fully readable log stops
  inside its second record, the repair reports success and truncates the file behind the first.\<close>

lemma short_read_cuts_records:
  assumes "codec_ok m u e1" and "codec_ok m u e2"
    and "encode m e1 = Some l1" and "encode m e2 = Some l2"
    and "length l1 \<le> n" and "n < length (l1 @ l2)"
    and "s = \<lparr>fs_disk = Some (l1 @ l2), fs_validated = 0, fs_confirmed = False, fs_lastStart = 0\<rparr>"
  shows "fs_log u s = [e1, e2] \<and>
         (\<exists>s'. repairLocked (io_fine\<lparr>io_TailView := Some n\<rparr>) u s = (None, s') \<and> fs_log u s' = [e1])"
proof -
  obtain a where a: "l1 = a @ [LF]" "LF \<notin> set a" "decode u (a @ [LF]) = Inr e1"
    using encode_good [OF assms(1)] assms(3) by auto
  obtain b where b: "l2 = b @ [LF]" "LF \<notin> set b" "decode u (b @ [LF]) = Inr e2"
    using encode_good [OF assms(2)] assms(4) by auto
  let ?k = "n - length l1"
  have part: "take n (l1 @ l2) = a @ LF # take ?k b"
    using assms(5,6) a(1) b(1) by (simp add: take_Cons' not_less_eq_eq)
  have "LF \<notin> set (take ?k b)" using b(2) in_set_takeD by metis
  then have rest: "good_scan u (take ?k b) = ([], 0)" by (rule good_scan_no_line)
  have cut: "good_scan u (take n (l1 @ l2)) = ([e1], length l1)"
    unfolding part good_scan_line [OF a(2)] a(3) rest by (simp add: a(1))
  have "valid_loop u 0 (take n (l1 @ l2)) 0 0 0 = length l1"
    using valid_loop_scan [of u 0 "[]" "take n (l1 @ l2)" 0] cut by simp
  moreover have "take n (l1 @ l2) \<noteq> []" unfolding part by simp
  moreover have "good_scan u l1 = ([e1], length l1)" using a by (simp add: good_scan_line)
  moreover have "fs_log u s = [e1, e2]"
    using a b assms(7) by (simp add: fs_log_def good_scan_line)
  ultimately show ?thesis
    using assms(6,7)
    by (auto simp: repairLocked_def resume_at_def validatedThrough_def visible_def fs_log_def a(1))
qed

end
