(* ===== verification/Binding_Runs_File.thy ===== *)
theory Binding_Runs_File
  imports Binding_Runs Binding_File
begin

text \<open>
  The file store of runs, the second half of \<^verbatim>\<open>go/binding/runs.go\<close>: every append writes the
  whole kept log to a staging file and renames it over the store's path.  The state is the
  content of both files; every system call takes its outcome from a record \<open>rio\<close>.
  \<^verbatim>\<open>marshalRun\<close> and \<^verbatim>\<open>json.Unmarshal\<close> are parameters, as in theory \<open>Binding_File\<close>.
\<close>

section \<open>Model\<close>

record rio =
  rio_Open :: bool
  rio_ReadView :: "nat option"
  rio_OpenStaging :: bool
  rio_Write :: "nat option"
  rio_Sync :: bool
  rio_Close :: bool
  rio_Rename :: bool

definition rio_fine :: rio where
  "rio_fine = \<lparr>rio_Open = True, rio_ReadView = None, rio_OpenStaging = True, rio_Write = None,
     rio_Sync = True, rio_Close = True, rio_Rename = True\<rparr>"

record fileRuns =
  fr_path :: "bytes option"
  fr_staging :: "bytes option"

definition RunsFile :: "bool \<Rightarrow> bytes \<Rightarrow> bytes option \<Rightarrow> fs_error + fileRuns" where
  "RunsFile mkdir path disk =
     (if path = [] then Inl ErrPath
      else if \<not> mkdir then Inl ErrIO
      else Inr \<lparr>fr_path = disk, fr_staging = None\<rparr>)"

text \<open>The loop of \<^verbatim>\<open>records\<close>: it ends at the end of the file, dropping an unfinished line, and
  at the first line that does not read, with what it has.\<close>

function records_loop ::
  "(bytes \<Rightarrow> 'e option) \<Rightarrow> bool \<Rightarrow> bytes \<Rightarrow> 'e list \<Rightarrow> fs_error + 'e list" where
  "records_loop unmarshal fault rest records =
     (case go_cut LF rest of
        (line, rest', found) \<Rightarrow>
          if \<not> found then (if fault then Inl ErrIO else Inr records)
          else case unframe (line @ [LF]) of
            Inl _ \<Rightarrow> Inr records
          | Inr payload \<Rightarrow>
              (case unmarshal payload of
                 None \<Rightarrow> Inr records
               | Some r \<Rightarrow> records_loop unmarshal fault rest' (records @ [r])))"
  by pat_completeness auto
termination
  by (relation "measure (\<lambda>(u, fault, rest, records). length rest)") (auto dest!: go_cut_parts [OF sym])

declare records_loop.simps [simp del]

definition fr_records :: "rio \<Rightarrow> (bytes \<Rightarrow> RunRecord option) \<Rightarrow> fileRuns \<Rightarrow> fs_error + RunRecord list" where
  "fr_records rio unmarshal s =
     (case fr_path s of
        None \<Rightarrow> Inr []
      | Some content \<Rightarrow>
          if \<not> rio_Open rio then Inl ErrIO
          else records_loop unmarshal (rio_ReadView rio \<noteq> None) (visible (rio_ReadView rio) content) [])"

text \<open>The new content: the frames of the kept records, or nothing when one cannot be encoded.\<close>

fun frames :: "('e \<Rightarrow> bytes option) \<Rightarrow> 'e list \<Rightarrow> bytes option" where
  "frames marshal [] = Some []"
| "frames marshal (held # rs) =
     (case marshal held of
        None \<Rightarrow> None
      | Some payload \<Rightarrow> map_option (\<lambda>rest. frame payload @ rest) (frames marshal rs))"

definition fr_AppendRun ::
  "rio \<Rightarrow> (RunRecord \<Rightarrow> bytes option) \<Rightarrow> (bytes \<Rightarrow> RunRecord option) \<Rightarrow> fileRuns \<Rightarrow> RunRecord
     \<Rightarrow> fs_error option \<times> fileRuns" where
  "fr_AppendRun rio marshal unmarshal s r =
     (case fr_records rio unmarshal s of
        Inl err \<Rightarrow> (Some err, s)
      | Inr records \<Rightarrow>
          (case frames marshal (keptAfter records r) of
             None \<Rightarrow> (Some ErrMarshal, s)
           | Some content \<Rightarrow>
               if \<not> rio_OpenStaging rio then (Some ErrIO, s)
               else
                 case rio_Write rio of
                   Some n \<Rightarrow> (Some ErrIO, s\<lparr>fr_staging := Some (take n content)\<rparr>)
                 | None \<Rightarrow>
                     if \<not> rio_Sync rio \<or> \<not> rio_Close rio \<or> \<not> rio_Rename rio
                     then (Some ErrIO, s\<lparr>fr_staging := Some content\<rparr>)
                     else (None, s\<lparr>fr_path := Some content, fr_staging := None\<rparr>)))"

definition fr_OpenRuns ::
  "rio \<Rightarrow> (bytes \<Rightarrow> RunRecord option) \<Rightarrow> fileRuns \<Rightarrow> bytes \<Rightarrow> fs_error + OpenRun list" where
  "fr_OpenRuns rio unmarshal s sessionID =
     (case fr_records rio unmarshal s of
        Inl err \<Rightarrow> Inl err
      | Inr records \<Rightarrow> Inr (openRuns records sessionID))"

section \<open>Lemmas\<close>

lemma records_loop_log: "records_loop u False content acc = Inr (acc @ good_log u content)"
proof (induction content arbitrary: acc rule: file_induct)
  case (tail t)
  then show ?case by (subst records_loop.simps) (simp add: good_scan_no_line)
next
  case (line a b)
  then show ?case
    by (subst records_loop.simps)
      (auto simp: good_scan_line decode_def split: sum.splits option.splits)
qed

lemma frames_log:
  "\<forall>r \<in> set rs. codec_ok m u r \<Longrightarrow> \<exists>content. frames m rs = Some content \<and> good_log u content = rs"
proof (induction rs)
  case Nil
  then show ?case by simp
next
  case (Cons r rs)
  then obtain rest where rest: "frames m rs = Some rest" "good_log u rest = rs" by auto
  have ok: "codec_ok m u r" using Cons.prems by simp
  then obtain p where p: "m r = Some p" by (auto simp: codec_ok_def split: option.splits)
  from encode_good [OF ok] p obtain line where
    line: "frame p = line @ [LF]" "LF \<notin> set line" "decode u (line @ [LF]) = Inr r"
    by (auto simp: encode_def)
  from rest p line show ?case by (simp add: good_scan_line)
qed

text \<open>The log the store's file holds.\<close>

definition fr_log :: "(bytes \<Rightarrow> RunRecord option) \<Rightarrow> fileRuns \<Rightarrow> RunRecord list" where
  "fr_log u s = (case fr_path s of None \<Rightarrow> [] | Some content \<Rightarrow> good_log u content)"

lemma fr_records_log:
  "rio_Open rio \<Longrightarrow> rio_ReadView rio = None \<Longrightarrow> fr_records rio u s = Inr (fr_log u s)"
  by (simp add: fr_records_def fr_log_def visible_def records_loop_log split: option.split)

lemma fr_append_steps:
  assumes "\<forall>h \<in> set (keptAfter (fr_log u s) r). codec_ok m u h" and "rio_ReadView rio = None"
    and "fr_AppendRun rio m u s r = (res, s')"
  shows "fr_log u s' = (if res = None then keptAfter (fr_log u s) r else fr_log u s) \<and>
         (res \<noteq> None \<longrightarrow> fr_path s' = fr_path s)"
proof -
  from frames_log [OF assms(1)] obtain content where
    c: "frames m (keptAfter (fr_log u s) r) = Some content"
    "good_log u content = keptAfter (fr_log u s) r" by blast
  have "(\<exists>e. fr_records rio u s = Inl e) \<or> fr_records rio u s = Inr (fr_log u s)"
    using assms(2)
    by (cases "rio_Open rio"; cases "fr_path s")
      (simp_all add: fr_records_def fr_log_def visible_def records_loop_log)
  then consider (err) e where "fr_records rio u s = Inl e" | (ok) "fr_records rio u s = Inr (fr_log u s)"
    by blast
  then show ?thesis
  proof cases
    case err
    with assms(3) show ?thesis by (auto simp: fr_AppendRun_def)
  next
    case ok
    with assms(3) c show ?thesis
      by (cases "rio_Write rio") (auto simp: fr_AppendRun_def fr_log_def split: if_splits)
  qed
qed

section \<open>The file store is a run store\<close>

definition fr_append_fine ::
  "(RunRecord \<Rightarrow> bytes option) \<Rightarrow> (bytes \<Rightarrow> RunRecord option) \<Rightarrow> fileRuns \<Rightarrow> RunRecord \<Rightarrow> fileRuns option" where
  "fr_append_fine m u s r =
     (case fr_AppendRun rio_fine m u s r of (None, s') \<Rightarrow> Some s' | (Some _, _) \<Rightarrow> None)"

definition fr_open_fine :: "(bytes \<Rightarrow> RunRecord option) \<Rightarrow> fileRuns \<Rightarrow> bytes \<Rightarrow> OpenRun list option" where
  "fr_open_fine u s sid = (case fr_OpenRuns rio_fine u s sid of Inl _ \<Rightarrow> None | Inr runs \<Rightarrow> Some runs)"

lemma fr_append_fine_ok:
  assumes "\<forall>h \<in> set (keptAfter (fr_log u s) r). codec_ok m u h"
  shows "\<exists>s'. fr_append_fine m u s r = Some s' \<and> fr_log u s' = keptAfter (fr_log u s) r"
proof -
  have records: "fr_records rio_fine u s = Inr (fr_log u s)"
    by (rule fr_records_log) (simp_all add: rio_fine_def)
  from frames_log [OF assms] obtain content where
    "frames m (keptAfter (fr_log u s) r) = Some content" "good_log u content = keptAfter (fr_log u s) r"
    by blast
  with records show ?thesis
    by (simp add: fr_append_fine_def fr_AppendRun_def) (simp add: rio_fine_def fr_log_def)
qed

interpretation fr: run_store "fr_append_fine m u" "fr_open_fine u" "fr_log u" "codec_ok m u" for m u
proof unfold_locales
  fix s r
  assume "\<forall>h \<in> set (keptAfter (fr_log u s) r). codec_ok m u h"
  then show "\<exists>s'. fr_append_fine m u s r = Some s' \<and> fr_log u s' = keptAfter (fr_log u s) r"
    by (rule fr_append_fine_ok)
next
  fix s sid
  have "fr_records rio_fine u s = Inr (fr_log u s)" by (rule fr_records_log) (simp_all add: rio_fine_def)
  then show "fr_open_fine u s sid = Some (openRuns (fr_log u s) sid)"
    by (simp add: fr_open_fine_def fr_OpenRuns_def)
qed

section \<open>Properties\<close>

text \<open>An append to the run file is atomic: whichever call fails, the file that is read is
  untouched, byte for byte; when the append reports success, the file holds exactly the kept
  log.  (The staging file may be left behind.)\<close>

lemma run_append_atomic:
  assumes "\<forall>h \<in> set (keptAfter (fr_log u s) r). codec_ok m u h" and "rio_ReadView rio = None"
    and "fr_AppendRun rio m u s r = (res, s')"
  shows "fr_log u s' = (if res = None then keptAfter (fr_log u s) r else fr_log u s) \<and>
         (res \<noteq> None \<longrightarrow> fr_path s' = fr_path s)"
  using assms by (rule fr_append_steps)

text \<open>A codec for the witnesses, on admissions of one session.\<close>

definition demo_run :: "bytes \<Rightarrow> RunRecord" where
  "demo_run k = run_record RunAdmitted 0 k []"

definition demo_run_marshal :: "RunRecord \<Rightarrow> bytes option" where
  "demo_run_marshal r =
     (if r = (demo_run (rr_RunID r))\<lparr>rr_Root := rr_Root r\<rparr>
      then Some (base64_EncodeToString (rr_RunID r) @ [SP] @ base64_EncodeToString (rr_Root r)) else None)"

definition demo_run_unmarshal :: "bytes \<Rightarrow> RunRecord option" where
  "demo_run_unmarshal p =
     (case go_cut SP p of
        (k, root, found) \<Rightarrow>
          (case (base64_DecodeString k, base64_DecodeString root) of
             (Some k', Some root') \<Rightarrow> Some ((demo_run k')\<lparr>rr_Root := root'\<rparr>)
           | _ \<Rightarrow> None))"

lemma base64_plain: "LF \<notin> set (base64_EncodeToString s)" "SP \<notin> set (base64_EncodeToString s)"
proof -
  have small: "\<forall>v \<in> set (b64_encode_nats (map of_char s)). v < 64" by (rule b64_encode_bound) simp
  have "b64_char v \<noteq> LF \<and> b64_char v \<noteq> SP" if "v < 64" for v
    using b64_value_char [OF that] by (auto simp: b64_value_def)
  with small show "LF \<notin> set (base64_EncodeToString s)" "SP \<notin> set (base64_EncodeToString s)"
    by (force simp: base64_EncodeToString_def)+
qed

lemma demo_run_codec: "codec_ok demo_run_marshal demo_run_unmarshal ((demo_run k)\<lparr>rr_Root := root\<rparr>)"
proof -
  have "rr_RunID (demo_run k) = k" by (simp add: demo_run_def run_record_def)
  then show ?thesis
    using base64_plain [of k] base64_plain [of root]
    by (simp add: codec_ok_def demo_run_marshal_def demo_run_unmarshal_def base64_roundtrip)
qed

text \<open>The run file answers as the whole history does: after any orderly history of encodable
  records appended with no failing call, the open runs of every session are those of the
  uncompacted history.\<close>

lemma run_file_refines_history:
  assumes "\<forall>r \<in> set rs. \<forall>root. codec_ok m u (r\<lparr>rr_Root := root\<rparr>)" and "orderly [] rs"
  shows "\<exists>s0 s'. RunsFile True (CHR ''p'' # path) None = Inr s0 \<and>
           fold (\<lambda>r st. Option.bind st (\<lambda>s. fr_append_fine m u s r)) rs (Some s0) = Some s' \<and>
           fr_OpenRuns rio_fine u s' sid = Inr (openRuns rs sid)"
proof -
  let ?s0 = "\<lparr>fr_path = None, fr_staging = None\<rparr>"
  have "fr_log u ?s0 = []" by (simp add: fr_log_def)
  from fr.answers_history [OF this assms, of sid] obtain s' where
    "fold (\<lambda>r st. Option.bind st (\<lambda>s. fr_append_fine m u s r)) rs (Some ?s0) = Some s'"
    "fr_open_fine u s' sid = Some (openRuns rs sid)" by blast
  then show ?thesis by (auto simp: RunsFile_def fr_open_fine_def split: sum.splits)
qed

end
