(* ===== verification/Client_Sse.thy ===== *)
theory Client_Sse
  imports Go_Codec
begin

text \<open>
  The event stream between server and client: the writer of \<^verbatim>\<open>go/serve/servehttp/sse.go\<close>, the
  scanner of \<^verbatim>\<open>go/client/sse.go\<close>, and the ids of the frames, which the server writes
  (\<^verbatim>\<open>eventID\<close>) and both sides read (\<^verbatim>\<open>splitEventID\<close>, \<^verbatim>\<open>parseFrameID\<close> of
  \<^verbatim>\<open>go/client/events.go\<close>).

  The client's reader is what it will still return, and the error it ends with.  The JSON of
  an envelope is a parameter; the theorems use that \<^verbatim>\<open>json.Marshal\<close> escapes line feeds and
  carriage returns.
\<close>

section \<open>The scanner\<close>

datatype read_error = ReadEOF | ReadFailed

record frame =
  fr_event :: bytes
  fr_data :: bytes
  fr_lastID :: bytes
  fr_hasID :: bool

record sseScanner =
  sc_started :: bool
  sc_event :: bytes
  sc_data :: bytes
  sc_nData :: nat
  sc_lastID :: bytes
  sc_hasID :: bool

definition sseScanner_new :: sseScanner where
  "sseScanner_new = \<lparr>sc_started = False, sc_event = [], sc_data = [], sc_nData = 0, sc_lastID = [],
     sc_hasID = False\<rparr>"

text \<open>The loop of \<^verbatim>\<open>readLine\<close>, before \<^verbatim>\<open>open\<close>: a line and what follows it, or the error of the
  reader.  A carriage return swallows a line feed behind it.\<close>

fun readLine :: "read_error \<Rightarrow> bytes \<Rightarrow> bytes \<Rightarrow> read_error + bytes \<times> bytes" where
  "readLine end_err [] line = Inl end_err"
| "readLine end_err (b # rest) line =
     (if b = LF then Inr (line, rest)
      else if b = CR then
        (case rest of
           [] \<Rightarrow> (if end_err = ReadEOF then Inr (line, []) else Inl end_err)
         | c # rest' \<Rightarrow> Inr (line, if c = LF then rest' else rest))
      else readLine end_err rest (line @ [b]))"

definition BOM :: bytes where "BOM = [CHR 0xEF, CHR 0xBB, CHR 0xBF]"

definition sc_open :: "sseScanner \<Rightarrow> bytes \<Rightarrow> bytes \<times> sseScanner" where
  "sc_open s line =
     (if \<not> sc_started s then (trim_prefix line BOM, s\<lparr>sc_started := True\<rparr>) else (line, s))"

definition field :: "sseScanner \<Rightarrow> bytes \<Rightarrow> sseScanner" where
  "field s line =
     (if hd line = CHR '':'' then s
      else case go_cut (CHR '':'') line of
        (name, value, found) \<Rightarrow>
          let value = (if found \<and> value \<noteq> [] \<and> hd value = SP then tl value else value) in
          if name = ''event'' then s\<lparr>sc_event := value\<rparr>
          else if name = ''data'' then
            s\<lparr>sc_data := (if sc_nData s > 0 then sc_data s @ [LF] else sc_data s) @ value,
              sc_nData := Suc (sc_nData s)\<rparr>
          else if name = ''id'' then
            (if NUL \<notin> set value then s\<lparr>sc_lastID := value, sc_hasID := True\<rparr> else s)
          else s)"

definition sc_reset :: "sseScanner \<Rightarrow> sseScanner" where
  "sc_reset s = s\<lparr>sc_event := [], sc_data := [], sc_nData := 0, sc_lastID := [], sc_hasID := False\<rparr>"

text \<open>\<^verbatim>\<open>dispatch\<close>: the handler takes and returns its own state with its answer.\<close>

definition dispatch :: "('h \<Rightarrow> frame \<Rightarrow> bool \<times> 'h) \<Rightarrow> 'h \<Rightarrow> sseScanner \<Rightarrow> bool \<times> 'h \<times> sseScanner" where
  "dispatch handle h s =
     (if sc_nData s = 0 then (True, h, sc_reset s)
      else
        let name = (if sc_event s = [] then ''message'' else sc_event s) in
        case handle h \<lparr>fr_event = name, fr_data = sc_data s, fr_lastID = sc_lastID s, fr_hasID = sc_hasID s\<rparr> of
          (cont, h') \<Rightarrow> (cont, h', sc_reset s))"

lemma readLine_shorter: "readLine e bs line = Inr (l, rest) \<Longrightarrow> length rest < length bs"
  by (induction e bs line rule: readLine.induct) (auto split: if_splits list.splits)

text \<open>The loop of \<^verbatim>\<open>scanSSE\<close>: why it stopped (\<^const>\<open>None\<close> when the handler said so), the
  handler's state, and what the reader still holds.\<close>

function scan_loop ::
  "('h \<Rightarrow> frame \<Rightarrow> bool \<times> 'h) \<Rightarrow> read_error \<Rightarrow> bytes \<Rightarrow> 'h \<Rightarrow> sseScanner \<Rightarrow> read_error option \<times> 'h \<times> bytes" where
  "scan_loop handle end_err bs h s =
     (case readLine end_err bs [] of
        Inl err \<Rightarrow> (Some err, h, [])
      | Inr (raw, rest) \<Rightarrow>
          (case sc_open s raw of
             (line, s1) \<Rightarrow>
               if line = [] then
                 (case dispatch handle h s1 of
                    (cont, h', s2) \<Rightarrow>
                      if \<not> cont then (None, h', rest) else scan_loop handle end_err rest h' s2)
               else scan_loop handle end_err rest h (field s1 line)))"
  by pat_completeness auto
termination
  by (relation "measure (\<lambda>(handle, e, bs, h, s). length bs)") (auto dest: readLine_shorter)

declare scan_loop.simps [simp del]

definition scanSSE :: "('h \<Rightarrow> frame \<Rightarrow> bool \<times> 'h) \<Rightarrow> read_error \<Rightarrow> bytes \<Rightarrow> 'h \<Rightarrow> read_error option \<times> 'h \<times> bytes" where
  "scanSSE handle end_err bs h = scan_loop handle end_err bs h sseScanner_new"

section \<open>The writer\<close>

definition sseEventOverflow :: bytes where "sseEventOverflow = ''oap-overflow''"
definition sseEventReplayGap :: bytes where "sseEventReplayGap = ''oap-replay-gap''"
definition sseEventSubscribed :: bytes where "sseEventSubscribed = ''oap-subscribed''"
definition sseKeepalive :: bytes where "sseKeepalive = '': keepalive'' @ [LF, LF]"

text \<open>\<^verbatim>\<open>strings.LastIndexByte\<close>, as the two sides of the byte.\<close>

definition cut_last :: "byte \<Rightarrow> bytes \<Rightarrow> (bytes \<times> bytes) option" where
  "cut_last sep s =
     (case go_cut sep (rev s) of (b, a, found) \<Rightarrow> if found then Some (rev a, rev b) else None)"

definition splitEventID :: "bytes \<Rightarrow> bytes \<times> bytes" where
  "splitEventID i =
     (case cut_last (CHR '':'') i of
        None \<Rightarrow> ([], i)
      | Some (run, position) \<Rightarrow> if run = [] then ([], []) else (run, position))"

definition eventID :: "bytes \<Rightarrow> nat \<Rightarrow> bytes option" where
  "eventID run sequence =
     (if CR \<in> set run \<or> LF \<in> set run \<or> NUL \<in> set run then None
      else if run = [] then Some (dec_nat sequence)
      else Some (run @ [CHR '':''] @ dec_nat sequence))"

definition parseFrameID :: "bytes \<Rightarrow> (bytes \<times> nat) option" where
  "parseFrameID i =
     (case cut_last (CHR '':'') i of
        None \<Rightarrow> map_option (\<lambda>n. ([], n)) (ParseUint i)
      | Some (run, sequence) \<Rightarrow>
          if run = [] then None else map_option (\<lambda>n. (run, n)) (ParseUint sequence))"

text \<open>What the server writes for an envelope with JSON \<open>data\<close>, and for a signal.  A failing
  \<^verbatim>\<open>json.Marshal\<close> is \<^const>\<open>None\<close>: nothing is written.\<close>

definition writeSSE :: "bytes \<Rightarrow> nat option \<Rightarrow> bytes option \<Rightarrow> bytes" where
  "writeSSE run sequence json =
     (case json of
        None \<Rightarrow> []
      | Some data \<Rightarrow>
          (case sequence of
             Some n \<Rightarrow>
               if run \<noteq> [] then
                 (case eventID run n of Some i \<Rightarrow> ''id: '' @ i @ [LF] | None \<Rightarrow> [])
               else []
           | None \<Rightarrow> []) @ ''data: '' @ data @ [LF, LF])"

definition writeSSESignal :: "bytes \<Rightarrow> bytes option \<Rightarrow> bytes" where
  "writeSSESignal event json =
     (case json of None \<Rightarrow> [] | Some body \<Rightarrow> ''event: '' @ event @ [LF] @ ''data: '' @ body @ [LF, LF])"

text \<open>What \<^verbatim>\<open>streamSubscription\<close> can write, in the order of the subscription.\<close>

datatype sse_item =
    Keepalive
  | Signal bytes bytes
  | Envelope bytes "nat option" bytes

fun write_item :: "sse_item \<Rightarrow> bytes" where
  "write_item Keepalive = sseKeepalive"
| "write_item (Signal event body) = writeSSESignal event (Some body)"
| "write_item (Envelope run sequence data) = writeSSE run sequence (Some data)"

text \<open>One round of \<^verbatim>\<open>streamSubscription\<close>: what the subscription returned, what is written, and
  whether the loop goes on.  The errors are a quiet period, an overflow and an end.\<close>

datatype sub_result = SubEnvelope bytes "nat option" "bytes option" | SubQuiet | SubOverflow bytes | SubEnd

definition stream_round :: "sub_result \<Rightarrow> bytes \<times> bool" where
  "stream_round r =
     (case r of
        SubQuiet \<Rightarrow> (sseKeepalive, True)
      | SubOverflow body \<Rightarrow> (writeSSESignal sseEventOverflow (Some body), False)
      | SubEnd \<Rightarrow> ([], False)
      | SubEnvelope run sequence json \<Rightarrow> (writeSSE run sequence json, json \<noteq> None))"

fun streamSubscription :: "sub_result list \<Rightarrow> bytes" where
  "streamSubscription [] = []"
| "streamSubscription (r # rs) =
     (case stream_round r of (out, go_on) \<Rightarrow> out @ (if go_on then streamSubscription rs else []))"

section \<open>What a reader should see\<close>

definition plain :: "bytes \<Rightarrow> bool" where
  "plain s \<longleftrightarrow> LF \<notin> set s \<and> CR \<notin> set s"

fun item_ok :: "sse_item \<Rightarrow> bool" where
  "item_ok Keepalive = True"
| "item_ok (Signal event body) = (plain event \<and> event \<noteq> [] \<and> plain body)"
| "item_ok (Envelope run sequence data) = plain data"

fun item_frames :: "sse_item \<Rightarrow> frame list" where
  "item_frames Keepalive = []"
| "item_frames (Signal event body) =
     [\<lparr>fr_event = event, fr_data = body, fr_lastID = [], fr_hasID = False\<rparr>]"
| "item_frames (Envelope run sequence data) =
     [let i = (if run = [] then None else Option.bind sequence (eventID run)) in
      \<lparr>fr_event = ''message'', fr_data = data, fr_lastID = (case i of None \<Rightarrow> [] | Some x \<Rightarrow> x),
       fr_hasID = (i \<noteq> None)\<rparr>]"

text \<open>The handler that keeps every frame.\<close>

definition record_frame :: "frame list \<Rightarrow> frame \<Rightarrow> bool \<times> frame list" where
  "record_frame fs f = (True, fs @ [f])"

section \<open>Lemmas\<close>

lemma readLine_plain:
  "plain l \<Longrightarrow> readLine e (l @ LF # rest) acc = Inr (acc @ l, rest)"
  by (induction l arbitrary: acc) (auto simp: plain_def)

lemma readLine_LF [simp]: "readLine e (LF # rest) acc = Inr (acc, rest)"
  by simp

text \<open>One plain line, not starting like a byte-order mark, is one step of the loop.\<close>

lemma scan_field:
  assumes "plain l" and "l \<noteq> []" and "hd l \<noteq> CHR 0xEF"
  shows "scan_loop handle e (l @ LF # rest) h s =
         scan_loop handle e rest h (field (s\<lparr>sc_started := True\<rparr>) l)"
proof -
  have open': "sc_open s l = (l, s\<lparr>sc_started := True\<rparr>)"
  proof (cases "sc_started s")
    case True
    then have "s\<lparr>sc_started := True\<rparr> = s" by simp
    with True show ?thesis by (simp add: sc_open_def)
  next
    case False
    with assms(2,3) show ?thesis
      by (cases l) (auto simp: sc_open_def trim_prefix_def BOM_def)
  qed
  with assms show ?thesis
    by (subst scan_loop.simps) (simp add: readLine_plain [of l e rest "[]", simplified])
qed

lemma scan_blank:
  "scan_loop handle e (LF # rest) h s =
     (case dispatch handle h (s\<lparr>sc_started := True\<rparr>) of
        (cont, h', s2) \<Rightarrow> if \<not> cont then (None, h', rest) else scan_loop handle e rest h' s2)"
proof -
  have "sc_open s [] = ([], s\<lparr>sc_started := True\<rparr>)"
    by (cases "sc_started s") (simp_all add: sc_open_def trim_prefix_def BOM_def)
  then show ?thesis by (subst scan_loop.simps) simp
qed

lemma go_cut_literal:
  "go_cut (CHR '':'') (CHR ''d'' # CHR ''a'' # CHR ''t'' # CHR ''a'' # CHR '':'' # v) = (''data'', v, True)"
  "go_cut (CHR '':'') (CHR ''i'' # CHR ''d'' # CHR '':'' # v) = (''id'', v, True)"
  "go_cut (CHR '':'') (CHR ''e'' # CHR ''v'' # CHR ''e'' # CHR ''n'' # CHR ''t'' # CHR '':'' # v) = (''event'', v, True)"
  using go_cut_hit [of "CHR '':''" "''data''" v] go_cut_hit [of "CHR '':''" "''id''" v]
    go_cut_hit [of "CHR '':''" "''event''" v]
  by simp_all

lemma field_lines:
  "field s (''data: '' @ v) =
     s\<lparr>sc_data := (if sc_nData s > 0 then sc_data s @ [LF] else sc_data s) @ v, sc_nData := Suc (sc_nData s)\<rparr>"
  "NUL \<notin> set v \<Longrightarrow> field s (''id: '' @ v) = s\<lparr>sc_lastID := v, sc_hasID := True\<rparr>"
  "field s (''event: '' @ v) = s\<lparr>sc_event := v\<rparr>"
  by (simp_all add: field_def go_cut_literal)

lemma scan_data:
  "plain v \<Longrightarrow> scan_loop handle e (''data: '' @ v @ LF # rest) h s =
     scan_loop handle e rest h (field (s\<lparr>sc_started := True\<rparr>) (''data: '' @ v))"
  using scan_field [of "''data: '' @ v" handle e rest h s] by (simp add: plain_def)

lemma scan_id:
  "plain v \<Longrightarrow> scan_loop handle e (''id: '' @ v @ LF # rest) h s =
     scan_loop handle e rest h (field (s\<lparr>sc_started := True\<rparr>) (''id: '' @ v))"
  using scan_field [of "''id: '' @ v" handle e rest h s] by (simp add: plain_def)

lemma scan_event:
  "plain v \<Longrightarrow> scan_loop handle e (''event: '' @ v @ LF # rest) h s =
     scan_loop handle e rest h (field (s\<lparr>sc_started := True\<rparr>) (''event: '' @ v))"
  using scan_field [of "''event: '' @ v" handle e rest h s] by (simp add: plain_def)

lemma scan_keepalive:
  "scan_loop handle e (sseKeepalive @ rest) h s =
     (case dispatch handle h (s\<lparr>sc_started := True\<rparr>) of
        (cont, h', s2) \<Rightarrow> if \<not> cont then (None, h', rest) else scan_loop handle e rest h' s2)"
proof -
  have "field (s\<lparr>sc_started := True\<rparr>) '': keepalive'' = s\<lparr>sc_started := True\<rparr>" by (simp add: field_def)
  then show ?thesis
    using scan_field [of "'': keepalive''" handle e "LF # rest" h s]
    by (simp add: sseKeepalive_def plain_def scan_blank)
qed

lemma eventID_plain: "eventID run n = Some i \<Longrightarrow> plain i \<and> NUL \<notin> set i"
  by (auto simp: eventID_def plain_def dec_nat_notin split: if_splits)

text \<open>A scanner between two frames.\<close>

definition between :: "bool \<Rightarrow> sseScanner" where
  "between started = \<lparr>sc_started = started, sc_event = [], sc_data = [], sc_nData = 0, sc_lastID = [],
     sc_hasID = False\<rparr>"

lemma dispatch_between: "dispatch handle h (between b) = (True, h, between b)"
  by (simp add: dispatch_def between_def sc_reset_def)

lemma scan_item:
  assumes "item_ok it"
  shows "scan_loop record_frame e (write_item it @ rest) fs (between b) =
         scan_loop record_frame e rest (fs @ item_frames it) (between True)"
proof (cases it)
  case Keepalive
  have "(between b)\<lparr>sc_started := True\<rparr> = between True" by (simp add: between_def)
  then show ?thesis by (simp add: Keepalive scan_keepalive dispatch_between)
next
  case (Signal event body)
  then have ok: "plain event" "event \<noteq> []" "plain body" using assms by auto
  have w: "write_item it @ rest = ''event: '' @ event @ LF # ''data: '' @ body @ LF # LF # rest"
    by (simp add: Signal writeSSESignal_def)
  show ?thesis
    unfolding w scan_event [OF ok(1)] scan_data [OF ok(3)] scan_blank field_lines
    using ok(2) by (simp add: between_def dispatch_def record_frame_def sc_reset_def Signal)
next
  case (Envelope run sequence data)
  then have ok: "plain data" using assms by simp
  define i where "i = (if run = [] then None else Option.bind sequence (eventID run))"
  have w: "write_item it @ rest =
      (case i of None \<Rightarrow> [] | Some x \<Rightarrow> ''id: '' @ x @ [LF]) @ ''data: '' @ data @ LF # LF # rest"
    by (auto simp: Envelope writeSSE_def i_def split: option.splits)
  show ?thesis
  proof (cases i)
    case None
    then show ?thesis
      unfolding w using ok i_def
      by (simp add: scan_data [simplified] scan_blank field_lines [simplified] between_def dispatch_def
          record_frame_def sc_reset_def Envelope Let_def)
  next
    case (Some x)
    then have x: "plain x" "NUL \<notin> set x"
      using eventID_plain [of run _ x] by (auto simp: i_def split: if_splits bind_splits)
    have "write_item it @ rest = ''id: '' @ x @ LF # ''data: '' @ data @ LF # LF # rest"
      by (simp add: w Some)
    then show ?thesis
      unfolding scan_id [OF x(1)] scan_data [OF ok] scan_blank field_lines(1) field_lines(2) [OF x(2)]
      using Some i_def
      by (simp add: scan_id [OF x(1), simplified] scan_data [OF ok, simplified] scan_blank
          field_lines(1) [simplified] field_lines(2) [OF x(2), simplified] between_def dispatch_def
          record_frame_def sc_reset_def Envelope Let_def)
  qed
qed

lemma cut_last_hit: "sep \<notin> set b \<Longrightarrow> cut_last sep (a @ sep # b) = Some (a, b)"
  using go_cut_hit [of sep "rev b" "rev a"] by (simp add: cut_last_def)

lemma cut_last_miss: "sep \<notin> set a \<Longrightarrow> cut_last sep a = None"
  by (simp add: cut_last_def)

lemma some_digits: "digit_char (Suc 0) = CHR ''1''" "digit_char 2 = CHR ''2''" "digit_char 7 = CHR ''7''"
  by (simp_all add: digit_char_def char_of_def bit_iff_odd)

section \<open>Properties\<close>

text \<open>C28. What the server writes is what the client reads: for every sequence of keepalives, signals
  and envelopes, whose JSON has no line end in it, the scanner hands over exactly the frames,
  in order, with their event names, data and ids, and then reports the end of the reader.\<close>

theorem scan_written_stream:
  assumes "\<forall>it \<in> set items. item_ok it"
  shows "scanSSE record_frame end_err (concat (map write_item items)) [] =
         (Some end_err, concat (map item_frames items), [])"
proof -
  have "scan_loop record_frame end_err (concat (map write_item items)) fs (between b) =
      (Some end_err, fs @ concat (map item_frames items), [])" for fs b
    using assms
  proof (induction items arbitrary: fs b)
    case Nil
    then show ?case by (subst scan_loop.simps) simp
  next
    case (Cons it items)
    then show ?case by (simp add: scan_item)
  qed
  then show ?thesis by (simp add: scanSSE_def sseScanner_new_def flip: between_def)
qed

theorem scan_written_stream_witness:
  "scanSSE record_frame ReadEOF
     (concat (map write_item [Keepalive, Envelope ''r'' (Some 7) ''{}'', Signal ''oap-overflow'' ''{}''])) [] =
   (Some ReadEOF,
    [\<lparr>fr_event = ''message'', fr_data = ''{}'', fr_lastID = ''r:7'', fr_hasID = True\<rparr>,
     \<lparr>fr_event = ''oap-overflow'', fr_data = ''{}'', fr_lastID = [], fr_hasID = False\<rparr>], [])"
  using scan_written_stream [of "[Keepalive, Envelope ''r'' (Some 7) ''{}'', Signal ''oap-overflow'' ''{}'']" ReadEOF]
  by (simp add: plain_def eventID_def dec_nat.simps some_digits)

text \<open>Frame ids round trip: an id the server writes for a run and a 64-bit sequence number reads
  back as that run and number on the client, and as that run and position where a reconnecting
  client sends it to the server, whatever colons the run's name has in it.\<close>

lemma event_id_roundtrip:
  assumes "eventID run sequence = Some i" and "sequence < 2 ^ 64"
  shows "parseFrameID i = Some (run, sequence) \<and> splitEventID i = (run, dec_nat sequence)"
proof (cases "run = []")
  case True
  with assms show ?thesis
    by (auto simp: eventID_def parseFrameID_def splitEventID_def cut_last_miss dec_nat_notin
        ParseUint_dec_nat)
next
  case False
  then have i: "i = run @ CHR '':'' # dec_nat sequence"
    using assms(1) by (auto simp: eventID_def split: if_splits)
  have "cut_last (CHR '':'') i = Some (run, dec_nat sequence)"
    unfolding i by (intro cut_last_hit) (simp add: dec_nat_notin)
  with False assms(2) show ?thesis
    by (simp add: parseFrameID_def splitEventID_def ParseUint_dec_nat)
qed

end
