(* ===== verification/Client_Events.thy ===== *)
theory Client_Events
  imports Client_Sse Protocol_Types
begin

text \<open>
  The client's side of a session's event stream, \<^verbatim>\<open>go/client/events.go\<close> and
  \<^verbatim>\<open>go/client/scope.go\<close>: what an \<^verbatim>\<open>EventStream\<close> remembers, the cursor it connects with, and
  \<^verbatim>\<open>deliver\<close>, which accepts or refuses every envelope.  HTTP, timers and the goroutine of
  \<^verbatim>\<open>Next\<close> are outside; a stream is driven by the steps \<open>es_step\<close>: a connection that was
  accepted, a server that has no run to resume, a dropped connection, a delivered envelope.

  Sequence numbers are 64-bit words, so the \<^verbatim>\<open>lastSeq+1\<close> of the source wraps as it does there.
  The JSON decoders of a payload's scope members are parameters.

  The theorem: over the whole life of a stream, reconnections included, the accepted events
  of a run have consecutive sequence numbers, and another run begins with number one.
\<close>

section \<open>Model\<close>

datatype deliver_error =
    MalformedFrame
  | ResumeMismatch seq bytes bytes seq
  | SequenceGap bytes seq seq
  | DuplicateSequence bytes seq

subsection \<open>The scope of a payload\<close>

record payloadScope =
  ps_SessionID :: bytes
  ps_RunID :: bytes
  ps_ToolCallID :: bytes

text \<open>The raw members, and the decoder of a JSON string.\<close>

record scope_codec =
  sc_scope :: "bytes \<Rightarrow> payloadScope option"
  sc_string :: "bytes \<Rightarrow> bytes option"

definition scopeMember :: "scope_codec \<Rightarrow> bytes \<Rightarrow> bytes \<times> bool" where
  "scopeMember codec raw =
     (if raw = [] then ([], False)
      else case sc_string codec raw of None \<Rightarrow> ([], True) | Some value \<Rightarrow> (value, True))"

definition payloadScopeDefect :: "scope_codec \<Rightarrow> Envelope \<Rightarrow> deliver_error option" where
  "payloadScopeDefect codec envelope =
     (case sc_scope codec (env_Payload envelope) of
        None \<Rightarrow> None
      | Some scope \<Rightarrow>
          (case (scopeMember codec (ps_SessionID scope), scopeMember codec (ps_RunID scope),
                 scopeMember codec (ps_ToolCallID scope)) of
             ((sid, has_sid), (rid, has_rid), (tid, has_tid)) \<Rightarrow>
               if has_sid \<and> sid \<noteq> env_SessionID envelope then Some MalformedFrame
               else if has_rid \<and> rid \<noteq> env_RunID envelope then Some MalformedFrame
               else if has_tid \<and> env_ToolCallID envelope \<noteq> [] \<and> tid \<noteq> env_ToolCallID envelope
               then Some MalformedFrame
               else None))"

subsection \<open>The stream\<close>

record EventStream =
  es_session :: bytes
  es_startAfter :: "seq option"
  es_response :: bool
  es_runID :: bytes
  es_lastSeq :: seq
  es_resumed :: bool
  es_everConnected :: bool
  es_speculated :: bool
  es_terminal :: bool
  es_connEvents :: nat

definition Events :: "bytes \<Rightarrow> EventStream" where
  "Events session =
     \<lparr>es_session = session, es_startAfter = None, es_response = False, es_runID = [], es_lastSeq = 0,
      es_resumed = False, es_everConnected = False, es_speculated = False, es_terminal = False,
      es_connEvents = 0\<rparr>"

definition EventsAfter :: "bytes \<Rightarrow> bytes \<Rightarrow> seq \<Rightarrow> EventStream" where
  "EventsAfter session runID after =
     (Events session)\<lparr>es_startAfter := Some after, es_lastSeq := after, es_runID := runID\<rparr>"

text \<open>\<^verbatim>\<open>cursor\<close>: the cursor, empty for none, and whether it is only a guess.\<close>

definition es_cursor :: "EventStream \<Rightarrow> bytes \<times> bool" where
  "es_cursor es =
     (if es_everConnected es \<and> es_runID es \<noteq> [] then (dec_nat (unat (es_lastSeq es)), False)
      else case es_startAfter es of
        Some after \<Rightarrow> (dec_nat (unat after), False)
      | None \<Rightarrow> if es_everConnected es \<and> \<not> es_speculated es then (''0'', True) else ([], False))"

text \<open>The two rounds of the loop of \<^verbatim>\<open>connect\<close> that change the stream: a response was opened,
  or a guessed cursor was refused because there is no run to resume.\<close>

definition es_connected :: "EventStream \<Rightarrow> EventStream" where
  "es_connected es =
     es\<lparr>es_everConnected := True, es_response := True, es_resumed := (fst (es_cursor es) \<noteq> []),
        es_connEvents := 0\<rparr>"

definition es_no_run :: "EventStream \<Rightarrow> EventStream" where
  "es_no_run es = (if snd (es_cursor es) then es\<lparr>es_speculated := True\<rparr> else es)"

definition isTerminal :: "bytes \<Rightarrow> bool" where
  "isTerminal typ \<longleftrightarrow> typ = ''run.completed'' \<or> typ = ''run.failed'' \<or> typ = ''run.cancelled''"

text \<open>The check of the frame's id against the envelope.\<close>

definition frame_id_defect :: "Envelope \<Rightarrow> seq \<Rightarrow> frame \<Rightarrow> bool" where
  "frame_id_defect envelope sequence f \<longleftrightarrow>
     fr_hasID f \<and>
     (case parseFrameID (fr_lastID f) of
        None \<Rightarrow> True
      | Some (run, i) \<Rightarrow> sequence \<noteq> of_nat i \<or> (run \<noteq> [] \<and> run \<noteq> env_RunID envelope))"

text \<open>The last part of \<^verbatim>\<open>deliver\<close>: which run the event belongs to, and whether it continues it.\<close>

definition deliver_sequence :: "EventStream \<Rightarrow> bool \<Rightarrow> Envelope \<Rightarrow> seq \<Rightarrow> deliver_error + EventStream" where
  "deliver_sequence es resumed envelope sequence =
     (let entered =
        (if env_RunID envelope \<noteq> es_runID es then
           (if resumed \<and> es_runID es = [] then
              Inr (es\<lparr>es_runID := env_RunID envelope, es_terminal := isTerminal (env_Type envelope)\<rparr>)
            else if es_runID es = [] then
              Inr (es\<lparr>es_runID := env_RunID envelope, es_lastSeq := 0,
                      es_terminal := isTerminal (env_Type envelope)\<rparr>)
            else if sequence \<noteq> 1 then Inl (SequenceGap (env_RunID envelope) 1 sequence)
            else
              Inr (es\<lparr>es_runID := env_RunID envelope, es_lastSeq := 0,
                      es_terminal := isTerminal (env_Type envelope)\<rparr>))
         else if isTerminal (env_Type envelope) then Inr (es\<lparr>es_terminal := True\<rparr>)
         else Inr es)
      in case entered of
           Inl err \<Rightarrow> Inl err
         | Inr es1 \<Rightarrow>
             if es_lastSeq es1 > 0 \<and> sequence \<le> es_lastSeq es1
             then Inl (DuplicateSequence (env_RunID envelope) sequence)
             else if es_lastSeq es1 > 0 \<and> sequence \<noteq> es_lastSeq es1 + 1
             then Inl (SequenceGap (env_RunID envelope) (es_lastSeq es1 + 1) sequence)
             else Inr (es1\<lparr>es_lastSeq := sequence, es_connEvents := Suc (es_connEvents es1)\<rparr>))"

definition deliver :: "scope_codec \<Rightarrow> EventStream \<Rightarrow> Envelope \<Rightarrow> frame \<Rightarrow> deliver_error + EventStream" where
  "deliver codec es envelope f =
     (if env_SessionID envelope \<noteq> es_session es then Inl MalformedFrame
      else case payloadScopeDefect codec envelope of
        Some err \<Rightarrow> Inl err
      | None \<Rightarrow>
          (case env_Sequence envelope of
             None \<Rightarrow> Inl MalformedFrame
           | Some sequence \<Rightarrow>
               if sequence = 0 then Inl MalformedFrame
               else if frame_id_defect envelope sequence f then Inl MalformedFrame
               else if env_RunID envelope = [] \<and> has_prefix (env_Type envelope) ''session.''
               then Inr (es\<lparr>es_connEvents := Suc (es_connEvents es)\<rparr>)
               else if es_resumed es then
                 (let es' = es\<lparr>es_resumed := False\<rparr> in
                  if es_runID es \<noteq> [] \<and> env_RunID envelope \<noteq> es_runID es
                  then Inl (ResumeMismatch (es_lastSeq es) (es_runID es) (env_RunID envelope) sequence)
                  else if sequence \<noteq> es_lastSeq es + 1
                  then Inl (SequenceGap (env_RunID envelope) (es_lastSeq es + 1) sequence)
                  else deliver_sequence es' True envelope sequence)
               else deliver_sequence es False envelope sequence))"

section \<open>The life of a stream\<close>

datatype es_step = Connected | NoRunToResume | Dropped | Delivered Envelope frame

definition run_event :: "Envelope \<Rightarrow> bool" where
  "run_event envelope \<longleftrightarrow> \<not> (env_RunID envelope = [] \<and> has_prefix (env_Type envelope) ''session.'')"

text \<open>The steps of a stream, with the run events accepted so far.  An envelope is only polled
  from an open response, and a connection only made without one; a refused envelope ends the
  stream.\<close>

fun es_steps :: "scope_codec \<Rightarrow> EventStream \<Rightarrow> Envelope list \<Rightarrow> es_step list \<Rightarrow> EventStream \<times> Envelope list" where
  "es_steps codec es acc [] = (es, acc)"
| "es_steps codec es acc (Connected # steps) =
     (if es_response es then (es, acc) else es_steps codec (es_connected es) acc steps)"
| "es_steps codec es acc (NoRunToResume # steps) =
     (if es_response es then (es, acc) else es_steps codec (es_no_run es) acc steps)"
| "es_steps codec es acc (Dropped # steps) = es_steps codec (es\<lparr>es_response := False\<rparr>) acc steps"
| "es_steps codec es acc (Delivered envelope f # steps) =
     (if \<not> es_response es then (es, acc)
      else case deliver codec es envelope f of
        Inl err \<Rightarrow> (es, acc)
      | Inr es' \<Rightarrow>
          es_steps codec es' (if run_event envelope then acc @ [envelope] else acc) steps)"

text \<open>One accepted run event after another.\<close>

definition follows :: "Envelope \<Rightarrow> Envelope \<Rightarrow> bool" where
  "follows a b \<longleftrightarrow> env_RunID a \<noteq> [] \<longrightarrow>
     (if env_RunID b = env_RunID a then the (env_Sequence b) = the (env_Sequence a) + 1
      else the (env_Sequence b) = 1)"

text \<open>What the stream remembers of the accepted events.  The last part is for a stream that began
  with a cursor: its first event is the one behind the cursor.\<close>

definition es_inv :: "EventStream \<Rightarrow> Envelope list \<Rightarrow> bool" where
  "es_inv es acc \<longleftrightarrow>
     successively follows acc \<and>
     (acc \<noteq> [] \<longrightarrow> es_runID es = env_RunID (last acc) \<and> env_Sequence (last acc) = Some (es_lastSeq es) \<and>
                   es_lastSeq es \<noteq> 0)"

definition es_start_inv :: "bytes \<Rightarrow> seq \<Rightarrow> EventStream \<Rightarrow> Envelope list \<Rightarrow> bool" where
  "es_start_inv run n es acc \<longleftrightarrow>
     es_startAfter es = Some n \<and>
     (case acc of
        [] \<Rightarrow> es_lastSeq es = n \<and> es_runID es = run \<and> (es_response es \<longrightarrow> es_resumed es)
      | e # _ \<Rightarrow> env_Sequence e = Some (n + 1) \<and> (run = [] \<or> env_RunID e = run))"

lemma deliver_sequence_fields:
  "deliver_sequence es r envelope n = Inr es' \<Longrightarrow>
     es_runID es' = env_RunID envelope \<and> es_lastSeq es' = n \<and> es_response es' = es_response es \<and>
     es_everConnected es' = es_everConnected es \<and> es_startAfter es' = es_startAfter es \<and>
     es_resumed es' = es_resumed es"
  by (auto simp: deliver_sequence_def Let_def split: if_splits sum.splits)

lemma deliver_sequence_follows:
  assumes "deliver_sequence es r envelope n = Inr es'" and "es_runID es \<noteq> []" and "es_lastSeq es \<noteq> 0"
  shows "if env_RunID envelope = es_runID es then n = es_lastSeq es + 1 else n = 1"
  using assms
  by (auto simp: deliver_sequence_def Let_def word_gt_0 split: if_splits sum.splits)

lemma deliver_session_event:
  "deliver codec es envelope f = Inr es' \<Longrightarrow> \<not> run_event envelope \<Longrightarrow>
     es' = es\<lparr>es_connEvents := Suc (es_connEvents es)\<rparr>"
  by (auto simp: deliver_def run_event_def split: if_splits option.splits)

lemma deliver_run_event:
  assumes "deliver codec es envelope f = Inr es'" and "run_event envelope"
  shows "\<exists>n. env_Sequence envelope = Some n \<and> n \<noteq> 0 \<and>
           (es_resumed es \<longrightarrow> n = es_lastSeq es + 1 \<and> (es_runID es = [] \<or> env_RunID envelope = es_runID es)) \<and>
           deliver_sequence (es\<lparr>es_resumed := False\<rparr>) (es_resumed es) envelope n = Inr es'"
proof -
  from assms obtain n where n: "env_Sequence envelope = Some n" "n \<noteq> 0"
    by (auto simp: deliver_def split: if_splits option.splits)
  show ?thesis
  proof (cases "es_resumed es")
    case True
    with assms n show ?thesis
      by (auto simp: deliver_def run_event_def Let_def split: if_splits option.splits)
  next
    case False
    then have eq: "es\<lparr>es_resumed := False\<rparr> = es" by (cases es) simp
    from False assms n have "deliver_sequence es False envelope n = Inr es'"
      by (auto simp: deliver_def run_event_def split: if_splits option.splits)
    with False n show ?thesis by (simp add: eq)
  qed
qed

lemma es_inv_deliver:
  assumes inv: "es_inv es acc" and del: "deliver codec es envelope f = Inr es'" and run: "run_event envelope"
  shows "es_inv es' (acc @ [envelope])"
proof -
  from deliver_run_event [OF del run] obtain n where
    n: "env_Sequence envelope = Some n" "n \<noteq> 0"
    and seq: "deliver_sequence (es\<lparr>es_resumed := False\<rparr>) (es_resumed es) envelope n = Inr es'" by blast
  have "follows (last acc) envelope" if "acc \<noteq> []"
    using deliver_sequence_follows [OF seq] inv that n by (auto simp: es_inv_def follows_def)
  with deliver_sequence_fields [OF seq] inv n show ?thesis
    by (auto simp: es_inv_def successively_append_iff)
qed

lemma es_start_inv_deliver:
  assumes inv: "es_start_inv run n es acc" and del: "deliver codec es envelope f = Inr es'"
    and run: "run_event envelope" and resp: "es_response es"
  shows "es_start_inv run n es' (acc @ [envelope])"
proof -
  from deliver_run_event [OF del run] obtain k where
    k: "env_Sequence envelope = Some k"
    "es_resumed es \<longrightarrow> k = es_lastSeq es + 1 \<and> (es_runID es = [] \<or> env_RunID envelope = es_runID es)"
    and seq: "deliver_sequence (es\<lparr>es_resumed := False\<rparr>) (es_resumed es) envelope k = Inr es'" by blast
  from deliver_sequence_fields [OF seq] k inv resp show ?thesis
    by (cases acc) (auto simp: es_start_inv_def)
qed

lemma es_cursor_started: "es_startAfter es = Some n \<Longrightarrow> fst (es_cursor es) \<noteq> [] \<and> \<not> snd (es_cursor es)"
  by (simp add: es_cursor_def)

lemma es_steps_inv:
  "es_inv es acc \<Longrightarrow> es_steps codec es acc steps = (es', acc') \<Longrightarrow> es_inv es' acc'"
proof (induction codec es acc steps rule: es_steps.induct)
  case (5 codec es acc envelope f steps)
  show ?case
  proof (cases "es_response es")
    case True
    show ?thesis
    proof (cases "deliver codec es envelope f")
      case (Inl err)
      with True 5 show ?thesis by simp
    next
      case (Inr es1)
      have "es_inv es1 (if run_event envelope then acc @ [envelope] else acc)"
        using es_inv_deliver [OF 5(2) Inr] deliver_session_event [OF Inr] 5(2)
        by (auto simp: es_inv_def)
      with True Inr 5 show ?thesis by simp
    qed
  qed (use 5 in simp)
qed (auto simp: es_inv_def es_connected_def es_no_run_def split: if_splits)

lemma es_steps_start:
  "es_start_inv run n es acc \<Longrightarrow> es_steps codec es acc steps = (es', acc') \<Longrightarrow> es_start_inv run n es' acc'"
proof (induction codec es acc steps rule: es_steps.induct)
  case (5 codec es acc envelope f steps)
  show ?case
  proof (cases "es_response es")
    case True
    show ?thesis
    proof (cases "deliver codec es envelope f")
      case (Inl err)
      with True 5 show ?thesis by simp
    next
      case (Inr es1)
      have "es_start_inv run n es1 (if run_event envelope then acc @ [envelope] else acc)"
        using es_start_inv_deliver [OF 5(2) Inr _ True] deliver_session_event [OF Inr] 5(2)
        by (auto simp: es_start_inv_def split: list.splits)
      with True Inr 5 show ?thesis by simp
    qed
  qed (use 5 in simp)
next
  case (2 codec es acc steps)
  then have "es_start_inv run n (es_connected es) acc"
    using es_cursor_started [of es n] by (auto simp: es_start_inv_def es_connected_def split: list.splits)
  with 2 show ?case by (auto split: if_splits)
next
  case (3 codec es acc steps)
  then have "es_no_run es = es" using es_cursor_started [of es n] by (simp add: es_start_inv_def es_no_run_def)
  with 3 show ?case by (auto split: if_splits)
next
  case (4 codec es acc steps)
  then have "es_start_inv run n (es\<lparr>es_response := False\<rparr>) acc"
    by (auto simp: es_start_inv_def split: list.splits)
  with 4 show ?case by simp
qed simp

section \<open>Properties\<close>


text \<open>The server's frame ids pass the client's check: the frame the scanner hands over for an
  envelope the server wrote is never refused for its id.\<close>

lemma written_id_accepted:
  assumes "item_frames (sse_item.Envelope run (Some n) data) = [f]" and "n < 2 ^ 64"
    and "env_RunID envelope = run"
  shows "\<not> frame_id_defect envelope (of_nat n) f"
proof (cases "run \<noteq> [] \<and> eventID run n \<noteq> None")
  case True
  then obtain i where i: "eventID run n = Some i" by blast
  have "parseFrameID i = Some (run, n)"
  proof -
    have "i = run @ CHR '':'' # dec_nat n" using i True by (auto simp: eventID_def split: if_splits)
    then have "cut_last (CHR '':'') i = Some (run, dec_nat n)"
      by (simp add: cut_last_hit dec_nat_notin)
    with True assms(2) show ?thesis by (simp add: parseFrameID_def ParseUint_dec_nat)
  qed
  with True i assms show ?thesis by (auto simp: frame_id_defect_def Let_def)
next
  case False
  with assms show ?thesis by (auto simp: frame_id_defect_def Let_def split: if_splits)
qed

end
