(* ===== verification/Pre_Transform.thy ===== *)
theory Pre_Transform
  imports Provider_Types
begin

text \<open>
  The rewriting of a conversation for another model, \<^verbatim>\<open>go/internal/provider/pretransform.go\<close>:
  tool call ids are normalised, thinking of other models becomes text, aborted turns are
  dropped, and calls nobody answered get a synthetic result.

  \<^verbatim>\<open>strings.EqualFold\<close> is a parameter.  The main theorem is that, with synthetic results
  switched on, every tool call of the output is answered before the next turn.
\<close>

section \<open>Model\<close>

record TransformConfig =
  tf_TargetAPI :: bytes
  tf_TargetProvider :: bytes
  tf_TargetModelID :: bytes
  tf_MaxToolIDLen :: int
  tf_MistralToolIDs :: bool
  tf_InsertSyntheticResult :: bool
  tf_IsOAuth :: bool
  tf_Tools :: "Tool list"

definition isSameModel :: "AssistantContent \<Rightarrow> TransformConfig \<Rightarrow> bool" where
  "isSameModel a config =
     (if tf_TargetAPI config = [] \<or> tf_TargetProvider config = [] \<or> tf_TargetModelID config = [] then False
      else ac_API a = tf_TargetAPI config \<and> ac_Provider a = tf_TargetProvider config \<and>
           ac_Model a = tf_TargetModelID config)"

definition tool_id_char :: "byte \<Rightarrow> bool" where
  "tool_id_char c \<longleftrightarrow>
     (CHR ''a'' \<le> c \<and> c \<le> CHR ''z'') \<or> (CHR ''A'' \<le> c \<and> c \<le> CHR ''Z'') \<or>
     (CHR ''0'' \<le> c \<and> c \<le> CHR ''9'') \<or> c = CHR ''_'' \<or> c = CHR ''-''"

definition NormalizeToolID :: "bytes \<Rightarrow> int \<Rightarrow> bytes" where
  "NormalizeToolID i maxLen =
     (let effective = fst (go_cut (CHR ''|'') i);
          limit = (if maxLen > 0 then nat maxLen else length effective);
          effective' = (if length effective > limit then take limit effective else effective)
      in map (\<lambda>c. if tool_id_char c then c else CHR ''_'') effective')"

definition mistralIDChars :: bytes where
  "mistralIDChars = ''ABCDEFGHIJKLMNOPQRSTUVWXYZabcdefghijklmnopqrstuvwxyz0123456789''"

definition mistral_hash :: "bytes \<Rightarrow> 64 word" where
  "mistral_hash sourceID = foldl (\<lambda>hash b. hash * 31 + of_nat (of_char b)) 0 sourceID"

definition MistralToolID :: "bytes \<Rightarrow> bytes" where
  "MistralToolID sourceID =
     map (\<lambda>i. mistralIDChars !
       (unat (and (drop_bit (i * 6) (mistral_hash sourceID)) 0x3F) mod length mistralIDChars)) [0..<9]"

definition fromClaudeCodeName :: "(bytes \<Rightarrow> bytes \<Rightarrow> bool) \<Rightarrow> bytes \<Rightarrow> Tool list \<Rightarrow> bytes" where
  "fromClaudeCodeName equalFold name tools =
     (case find (\<lambda>tool. equalFold name (t_Name tool)) tools of None \<Rightarrow> name | Some tool \<Rightarrow> t_Name tool)"

record pendingCall =
  pc_id :: bytes
  pc_name :: bytes

definition syntheticResult :: "bytes \<Rightarrow> bytes \<Rightarrow> ToolResult" where
  "syntheticResult i name =
     \<lparr>tr_ToolCallID = i, tr_ToolName = name, tr_Parts = [text_content ''No result provided''], tr_IsError = True\<rparr>"

text \<open>The first loop: the new ids of the calls that need one.\<close>

definition new_id :: "TransformConfig \<Rightarrow> bytes \<Rightarrow> bytes option" where
  "new_id config i =
     (if tf_MaxToolIDLen config > 0 \<or> tf_MistralToolIDs config \<or> contains_sub i ''|'' then
        Some (if tf_MistralToolIDs config then MistralToolID i else NormalizeToolID i (tf_MaxToolIDLen config))
      else None)"

definition map_call :: "TransformConfig \<Rightarrow> (bytes \<rightharpoonup> bytes) \<Rightarrow> ContentPart \<Rightarrow> (bytes \<rightharpoonup> bytes)" where
  "map_call config ids part =
     (case cp_ToolCall part of
        None \<Rightarrow> ids
      | Some call \<Rightarrow>
          (case new_id config (tc_ID call) of None \<Rightarrow> ids | Some normalized \<Rightarrow> ids(tc_ID call \<mapsto> normalized)))"

definition toolIDMap :: "TransformConfig \<Rightarrow> Message list \<Rightarrow> (bytes \<rightharpoonup> bytes)" where
  "toolIDMap config messages =
     foldl (\<lambda>ids msg. case m_Assistant msg of None \<Rightarrow> ids | Some a \<Rightarrow> foldl (map_call config) ids (ac_Parts a))
       Map.empty messages"

definition renamed :: "(bytes \<rightharpoonup> bytes) \<Rightarrow> bytes \<Rightarrow> bytes" where
  "renamed ids i = (case ids i of Some mapped \<Rightarrow> mapped | None \<Rightarrow> i)"

text \<open>What the second loop carries: the output, the calls that wait for a result, and the
  ids that have one.\<close>

record transform =
  tx_out :: "Message list"
  tx_pending :: "pendingCall list"
  tx_answered :: "bytes set"

definition unanswered :: "(bytes \<rightharpoonup> bytes) \<Rightarrow> transform \<Rightarrow> Message list" where
  "unanswered ids t =
     map (\<lambda>call. result_message (syntheticResult (renamed ids (pc_id call)) (pc_name call)))
       (filter (\<lambda>call. pc_id call \<notin> tx_answered t) (tx_pending t))"

definition flush :: "TransformConfig \<Rightarrow> (bytes \<rightharpoonup> bytes) \<Rightarrow> transform \<Rightarrow> transform" where
  "flush config ids t =
     (if \<not> tf_InsertSyntheticResult config then t
      else \<lparr>tx_out = tx_out t @ unanswered ids t, tx_pending = [], tx_answered = {}\<rparr>)"

text \<open>One part of an assistant message: the parts kept so far and the pending calls.\<close>

definition rewrite_call ::
  "(bytes \<Rightarrow> bytes \<Rightarrow> bool) \<Rightarrow> TransformConfig \<Rightarrow> (bytes \<rightharpoonup> bytes) \<Rightarrow> bool \<Rightarrow> ToolCall \<Rightarrow> ToolCall" where
  "rewrite_call equalFold config ids sameModel call =
     \<lparr>tc_ID = renamed ids (tc_ID call),
      tc_Name = (if tf_IsOAuth config then fromClaudeCodeName equalFold (tc_Name call) (tf_Tools config) else tc_Name call),
      tc_Arguments = tc_Arguments call,
      tc_ThoughtSig = (if sameModel \<and> tc_HasThought call then tc_ThoughtSig call else []),
      tc_HasThought = (sameModel \<and> tc_HasThought call)\<rparr>"

definition transform_part ::
  "(bytes \<Rightarrow> bytes \<Rightarrow> bool) \<Rightarrow> TransformConfig \<Rightarrow> (bytes \<rightharpoonup> bytes) \<Rightarrow> bool \<Rightarrow>
     ContentPart list \<times> pendingCall list \<Rightarrow> ContentPart \<Rightarrow> ContentPart list \<times> pendingCall list" where
  "transform_part equalFold config ids sameModel acc part =
     (case acc of (parts, pending) \<Rightarrow>
        case cp_Thinking part of
          Some thinking \<Rightarrow>
            if sameModel then
              (if tp_Signature thinking \<noteq> [] then (parts @ [part], pending)
               else if \<not> hasVisibleText (tp_Thinking thinking) then (parts, pending)
               else (parts @ [part], pending))
            else if \<not> hasVisibleText (tp_Thinking thinking) then (parts, pending)
            else (parts @ [text_content (tp_Thinking thinking)], pending)
        | None \<Rightarrow>
            (case cp_ToolCall part of
               Some call \<Rightarrow>
                 (let rewritten = rewrite_call equalFold config ids sameModel call
                  in (parts @ [\<lparr>cp_Text = None, cp_Image = None, cp_Thinking = None, cp_ToolCall = Some rewritten\<rparr>],
                      pending @ [\<lparr>pc_id = tc_ID rewritten, pc_name = tc_Name rewritten\<rparr>]))
             | None \<Rightarrow> (parts @ [part], pending)))"

definition transform_message ::
  "(bytes \<Rightarrow> bytes \<Rightarrow> bool) \<Rightarrow> TransformConfig \<Rightarrow> (bytes \<rightharpoonup> bytes) \<Rightarrow> transform \<Rightarrow> Message \<Rightarrow> transform" where
  "transform_message equalFold config ids t msg =
     (case m_Assistant msg of
        Some a \<Rightarrow>
          (let t1 = flush config ids t in
           if ac_StopReason a = StopAborted \<or> ac_StopReason a = StopError then t1
           else
             case foldl (transform_part equalFold config ids (isSameModel a config)) ([], tx_pending t1) (ac_Parts a) of
               (parts, pending) \<Rightarrow>
                 t1\<lparr>tx_out := tx_out t1 @ [assistant_message (a\<lparr>ac_Parts := parts\<rparr>)], tx_pending := pending\<rparr>)
      | None \<Rightarrow>
          (case m_ToolResult msg of
             Some r \<Rightarrow>
               (case ids (tr_ToolCallID r) of
                  None \<Rightarrow> t\<lparr>tx_answered := insert (tr_ToolCallID r) (tx_answered t), tx_out := tx_out t @ [msg]\<rparr>
                | Some mapped \<Rightarrow>
                    t\<lparr>tx_answered := insert mapped (tx_answered t),
                      tx_out := tx_out t @ [result_message (r\<lparr>tr_ToolCallID := mapped\<rparr>)]\<rparr>)
           | None \<Rightarrow>
               (let t1 = flush config ids t in t1\<lparr>tx_out := tx_out t1 @ [msg]\<rparr>)))"

definition PreTransform ::
  "(bytes \<Rightarrow> bytes \<Rightarrow> bool) \<Rightarrow> Message list \<Rightarrow> TransformConfig \<Rightarrow> Message list" where
  "PreTransform equalFold messages config =
     (let ids = toolIDMap config messages in
      tx_out (flush config ids
        (foldl (transform_message equalFold config ids) \<lparr>tx_out = [], tx_pending = [], tx_answered = {}\<rparr> messages)))"

section \<open>Ids\<close>

lemma tool_id_char_underscore [simp]: "tool_id_char (CHR ''_'')" "\<not> tool_id_char (CHR ''|'')"
  by (simp_all add: tool_id_char_def less_eq_char_def)

lemma normalized_chars: "c \<in> set (NormalizeToolID i n) \<Longrightarrow> tool_id_char c"
  by (auto simp: NormalizeToolID_def Let_def split: if_splits)

lemma normalized_length: "n > 0 \<Longrightarrow> length (NormalizeToolID i n) \<le> nat n"
  by (simp add: NormalizeToolID_def Let_def)

lemma normalize_stable:
  assumes "\<forall>c \<in> set i. tool_id_char c" and "n > 0 \<Longrightarrow> length i \<le> nat n"
  shows "NormalizeToolID i n = i"
proof -
  have "CHR ''|'' \<notin> set i" using assms(1) tool_id_char_underscore(2) by metis
  with assms show ?thesis by (simp add: NormalizeToolID_def Let_def map_idI)
qed

lemma normalize_idem: "NormalizeToolID (NormalizeToolID i n) n = NormalizeToolID i n"
  using normalized_chars [of _ i n] normalized_length [of n i] by (intro normalize_stable) auto

lemma map_call_new:
  "map_call config ids part i = Some m \<Longrightarrow> ids i = Some m \<or> new_id config i = Some m"
  by (auto simp: map_call_def split: option.splits if_splits)

lemma map_calls_new:
  "foldl (map_call config) ids ps i = Some m \<Longrightarrow> ids i = Some m \<or> new_id config i = Some m"
proof (induction ps arbitrary: ids)
  case (Cons p ps)
  then show ?case using map_call_new [of config ids p i m] by auto
qed simp

lemma map_messages_new:
  "foldl (\<lambda>ids msg. case m_Assistant msg of None \<Rightarrow> ids | Some a \<Rightarrow> foldl (map_call config) ids (ac_Parts a)) ids ms i = Some m
     \<Longrightarrow> ids i = Some m \<or> new_id config i = Some m"
proof (induction ms arbitrary: ids)
  case (Cons msg ms)
  then show ?case
  proof (cases "m_Assistant msg")
    case (Some a)
    from Cons.IH [of "foldl (map_call config) ids (ac_Parts a)"] Cons.prems Some
    show ?thesis using map_calls_new [of config ids "ac_Parts a" i m] by auto
  qed simp
qed simp

lemma toolIDMap_new: "toolIDMap config messages i = Some m \<Longrightarrow> new_id config i = Some m"
  using map_messages_new [of config Map.empty messages i m] by (simp add: toolIDMap_def)

text \<open>Renaming twice is renaming once.\<close>

definition stable :: "(bytes \<rightharpoonup> bytes) \<Rightarrow> bool" where
  "stable ids \<longleftrightarrow> (\<forall>i. renamed ids (renamed ids i) = renamed ids i)"

lemma normalised_stable: "\<not> tf_MistralToolIDs config \<Longrightarrow> stable (toolIDMap config messages)"
  unfolding stable_def
proof
  fix i
  assume m: "\<not> tf_MistralToolIDs config"
  let ?ids = "toolIDMap config messages"
  show "renamed ?ids (renamed ?ids i) = renamed ?ids i"
  proof (cases "?ids i")
    case None
    then show ?thesis by (simp add: renamed_def)
  next
    case (Some a)
    then have a: "a = NormalizeToolID i (tf_MaxToolIDLen config)"
      using m toolIDMap_new [OF Some] by (auto simp: new_id_def split: if_splits)
    show ?thesis
    proof (cases "?ids a")
      case None
      with Some show ?thesis by (simp add: renamed_def)
    next
      case (Some b)
      then have "b = NormalizeToolID a (tf_MaxToolIDLen config)"
        using m toolIDMap_new [OF Some] by (auto simp: new_id_def split: if_splits)
      then have "b = a" by (simp add: a normalize_idem)
      with Some \<open>?ids i = Some a\<close> show ?thesis by (simp add: renamed_def)
    qed
  qed
qed

section \<open>Answers\<close>

definition is_result :: "Message \<Rightarrow> bool" where
  "is_result m \<longleftrightarrow> m_Assistant m = None \<and> m_ToolResult m \<noteq> None"

definition result_id :: "Message \<Rightarrow> bytes" where
  "result_id m = tr_ToolCallID (the (m_ToolResult m))"

definition call_ids :: "Message \<Rightarrow> bytes set" where
  "call_ids m =
     (case m_Assistant m of
        None \<Rightarrow> {}
      | Some a \<Rightarrow>
          set (map tc_ID (List.map_filter (\<lambda>p. if cp_Thinking p = None then cp_ToolCall p else None) (ac_Parts a))))"

lemma call_ids_assistant:
  "m_Assistant m = Some a \<Longrightarrow>
   call_ids m = {tc_ID c | c. \<exists>p \<in> set (ac_Parts a). cp_Thinking p = None \<and> cp_ToolCall p = Some c}"
  by (auto simp: call_ids_def map_filter_def image_iff split: if_splits) (metis option.sel)

text \<open>The ids answered by the results that directly follow.\<close>

fun answers :: "Message list \<Rightarrow> bytes set" where
  "answers [] = {}"
| "answers (m # ms) = (if is_result m then insert (result_id m) (answers ms) else {})"

fun all_answered :: "Message list \<Rightarrow> bool" where
  "all_answered [] = True"
| "all_answered (m # ms) = (call_ids m \<subseteq> answers ms \<and> all_answered ms)"

lemma answers_mono: "answers xs \<subseteq> answers (xs @ ys)"
  by (induction xs) auto

lemma all_answered_append: "all_answered xs \<Longrightarrow> all_answered ys \<Longrightarrow> all_answered (xs @ ys)"
  by (induction xs) (use answers_mono in auto)

lemma answers_results: "\<forall>m \<in> set rs. is_result m \<Longrightarrow> answers rs = result_id ` set rs"
  by (induction rs) auto

lemma answers_tail:
  "answers rs \<subseteq> answers rs' \<Longrightarrow> answers (xs @ rs) \<subseteq> answers (xs @ rs')"
  by (induction xs) auto

lemma all_answered_tail:
  "all_answered (xs @ rs) \<Longrightarrow> answers rs \<subseteq> answers rs' \<Longrightarrow> all_answered rs' \<Longrightarrow> all_answered (xs @ rs')"
proof (induction xs)
  case (Cons m xs)
  then show ?case using answers_tail [of rs rs' xs] by auto
qed simp

lemma results_answered: "\<forall>m \<in> set rs. is_result m \<Longrightarrow> all_answered rs"
  by (induction rs) (auto simp: is_result_def call_ids_def)

text \<open>The invariant of the second loop: if it were flushed now, everything would be answered.\<close>

definition tx_inv :: "(bytes \<rightharpoonup> bytes) \<Rightarrow> transform \<Rightarrow> bool" where
  "tx_inv ids t \<longleftrightarrow> all_answered (tx_out t @ unanswered ids t) \<and>
     (\<forall>c \<in> set (tx_pending t). renamed ids (pc_id c) = pc_id c)"

lemma unanswered_results: "m \<in> set (unanswered ids t) \<Longrightarrow> is_result m"
  by (auto simp: unanswered_def is_result_def result_message_def)

lemma answers_unanswered:
  "answers (unanswered ids t) =
     {renamed ids (pc_id c) | c. c \<in> set (tx_pending t) \<and> pc_id c \<notin> tx_answered t}"
  using answers_results [of "unanswered ids t"] unanswered_results
  by (auto simp: unanswered_def result_id_def result_message_def syntheticResult_def image_iff)

lemma answers_pending:
  assumes "\<forall>c \<in> set (tx_pending t). renamed ids (pc_id c) = pc_id c"
  shows "answers (unanswered ids t) = {pc_id c | c. c \<in> set (tx_pending t) \<and> pc_id c \<notin> tx_answered t}"
  unfolding answers_unanswered by (rule Collect_cong) (use assms in metis)

lemma flush_inv:
  assumes "tx_inv ids t" and "tf_InsertSyntheticResult config"
  shows "tx_inv ids (flush config ids t) \<and> all_answered (tx_out (flush config ids t)) \<and>
         tx_pending (flush config ids t) = [] \<and> tx_answered (flush config ids t) = {}"
  using assms by (simp add: tx_inv_def flush_def unanswered_def)

lemma transform_parts_calls:
  assumes "stable ids"
  shows "foldl (transform_part equalFold config ids same) (parts, pending) ps = (parts', pending') \<Longrightarrow>
    \<forall>c \<in> set pending. renamed ids (pc_id c) = pc_id c \<Longrightarrow>
    {tc_ID c | c. \<exists>p \<in> set parts. cp_Thinking p = None \<and> cp_ToolCall p = Some c} \<subseteq> pc_id ` set pending \<Longrightarrow>
    (\<forall>c \<in> set pending'. renamed ids (pc_id c) = pc_id c) \<and>
    {tc_ID c | c. \<exists>p \<in> set parts'. cp_Thinking p = None \<and> cp_ToolCall p = Some c} \<subseteq> pc_id ` set pending'"
proof (induction ps arbitrary: parts pending)
  case Nil
  then show ?case by simp
next
  case (Cons p ps)
  obtain parts1 pending1 where s: "transform_part equalFold config ids same (parts, pending) p = (parts1, pending1)" by fastforce
  have ren: "renamed ids (renamed ids i) = renamed ids i" for i using assms by (simp add: stable_def)
  have "(\<forall>c \<in> set pending1. renamed ids (pc_id c) = pc_id c) \<and>
    {tc_ID c | c. \<exists>p \<in> set parts1. cp_Thinking p = None \<and> cp_ToolCall p = Some c} \<subseteq> pc_id ` set pending1"
  proof (cases "cp_Thinking p = None \<and> cp_ToolCall p \<noteq> None")
    case True
    then obtain call where c: "cp_Thinking p = None" "cp_ToolCall p = Some call" by auto
    let ?r = "rewrite_call equalFold config ids same call"
    have eq: "parts1 = parts @ [\<lparr>cp_Text = None, cp_Image = None, cp_Thinking = None, cp_ToolCall = Some ?r\<rparr>]"
      "pending1 = pending @ [\<lparr>pc_id = tc_ID ?r, pc_name = tc_Name ?r\<rparr>]"
      using s c by (auto simp: transform_part_def Let_def)
    have "tc_ID ?r = renamed ids (tc_ID call)" by (simp add: rewrite_call_def)
    then have "renamed ids (tc_ID ?r) = tc_ID ?r" using ren by simp
    then show ?thesis using Cons.prems(2,3) unfolding eq by auto
  next
    case False
    have tt: "cp_ToolCall (text_content x) = None" for x by (simp add: text_content_def)
    have same: "pending1 = pending"
      and sub: "set parts1 \<subseteq> set parts \<union> {p, text_content (tp_Thinking (the (cp_Thinking p)))}"
      using s False by (auto simp: transform_part_def split: option.splits if_splits)
    have "q \<in> set parts" if "q \<in> set parts1" "cp_Thinking q = None" "cp_ToolCall q = Some c" for q c
      using sub that False tt [of "tp_Thinking (the (cp_Thinking p))"] by auto
    then have "{tc_ID c | c. \<exists>p \<in> set parts1. cp_Thinking p = None \<and> cp_ToolCall p = Some c} \<subseteq>
        {tc_ID c | c. \<exists>p \<in> set parts. cp_Thinking p = None \<and> cp_ToolCall p = Some c}" by blast
    with Cons.prems(2,3) show ?thesis unfolding same by (meson subset_trans)
  qed
  with Cons.IH [of parts1 pending1] Cons.prems(1) s show ?case by simp
qed

lemma assistant_inv:
  assumes st: "stable ids" and ins: "tf_InsertSyntheticResult config" and inv: "tx_inv ids t"
    and a: "m_Assistant msg = Some a"
  shows "tx_inv ids (transform_message equalFold config ids t msg)"
proof -
  let ?t1 = "flush config ids t"
  note fl = flush_inv [OF inv ins]
  show ?thesis
  proof (cases "ac_StopReason a = StopAborted \<or> ac_StopReason a = StopError")
    case True
    with fl a show ?thesis by (simp add: transform_message_def)
  next
    case False
    obtain parts pending where f: "foldl (transform_part equalFold config ids (isSameModel a config)) ([], []) (ac_Parts a) = (parts, pending)"
      by fastforce
    from transform_parts_calls [OF st f] have
      p: "\<forall>c \<in> set pending. renamed ids (pc_id c) = pc_id c"
      "{tc_ID c | c. \<exists>p \<in> set parts. cp_Thinking p = None \<and> cp_ToolCall p = Some c} \<subseteq> pc_id ` set pending" by auto
    let ?m = "assistant_message (a\<lparr>ac_Parts := parts\<rparr>)"
    let ?t2 = "?t1\<lparr>tx_out := tx_out ?t1 @ [?m], tx_pending := pending\<rparr>"
    have eq: "transform_message equalFold config ids t msg = ?t2"
      using a False f fl by (simp add: transform_message_def Let_def)
    have "call_ids ?m = {tc_ID c | c. \<exists>p \<in> set parts. cp_Thinking p = None \<and> cp_ToolCall p = Some c}"
      by (simp add: call_ids_assistant assistant_message_def)
    moreover have "answers (unanswered ids ?t2) = pc_id ` set pending"
      using answers_pending [of ?t2 ids] p(1) fl by auto
    ultimately have "call_ids ?m \<subseteq> answers (unanswered ids ?t2)" using p(2) by simp
    moreover have "all_answered (unanswered ids ?t2)" using unanswered_results results_answered by blast
    ultimately have "all_answered (?m # unanswered ids ?t2)" by simp
    then have "all_answered (tx_out ?t1 @ ?m # unanswered ids ?t2)" using fl by (intro all_answered_append) auto
    with p(1) show ?thesis unfolding eq tx_inv_def by simp
  qed
qed

lemma result_inv:
  assumes inv: "tx_inv ids t" and m: "is_result m" "result_id m = i"
  shows "tx_inv ids (t\<lparr>tx_answered := insert i (tx_answered t), tx_out := tx_out t @ [m]\<rparr>)"
proof -
  let ?t = "t\<lparr>tx_answered := insert i (tx_answered t), tx_out := tx_out t @ [m]\<rparr>"
  have more: "answers (unanswered ids t) \<subseteq> answers (m # unanswered ids ?t)"
  proof -
    have p: "\<forall>c \<in> set (tx_pending t). renamed ids (pc_id c) = pc_id c" using inv by (simp add: tx_inv_def)
    then have "answers (unanswered ids ?t) = {pc_id c | c. c \<in> set (tx_pending t) \<and> pc_id c \<notin> insert i (tx_answered t)}"
      using answers_pending [of ?t ids] by simp
    with answers_pending [OF p] m show ?thesis by auto
  qed
  have res: "all_answered (m # unanswered ids ?t)"
  proof (rule results_answered)
    show "\<forall>x \<in> set (m # unanswered ids ?t). is_result x" using m(1) unanswered_results [of _ ids ?t] by auto
  qed
  have "all_answered (tx_out t @ unanswered ids t)" using inv by (simp add: tx_inv_def)
  from all_answered_tail [OF this more res] have "all_answered (tx_out t @ m # unanswered ids ?t)" .
  with inv show ?thesis by (simp add: tx_inv_def)
qed

lemma transform_message_inv:
  assumes st: "stable ids" and ins: "tf_InsertSyntheticResult config" and inv: "tx_inv ids t"
  shows "tx_inv ids (transform_message equalFold config ids t msg)"
proof (cases "m_Assistant msg")
  case (Some a)
  then show ?thesis by (rule assistant_inv [OF st ins inv])
next
  case None
  show ?thesis
  proof (cases "m_ToolResult msg")
    case (Some r)
    show ?thesis
    proof (cases "ids (tr_ToolCallID r)")
      case None
      with Some \<open>m_Assistant msg = None\<close> result_inv [OF inv, of msg "tr_ToolCallID r"] show ?thesis
        by (simp add: transform_message_def is_result_def result_id_def)
    next
      case (Some mapped)
      with \<open>m_ToolResult msg = Some r\<close> \<open>m_Assistant msg = None\<close>
        result_inv [OF inv, of "result_message (r\<lparr>tr_ToolCallID := mapped\<rparr>)" mapped] show ?thesis
        by (simp add: transform_message_def is_result_def result_id_def result_message_def)
    qed
  next
    case none: None
    let ?t1 = "flush config ids t"
    note fl = flush_inv [OF inv ins]
    have "call_ids msg = {}" using None by (simp add: call_ids_def)
    with fl have "all_answered (tx_out ?t1 @ [msg])" by (intro all_answered_append) auto
    with fl none None show ?thesis by (simp add: transform_message_def Let_def tx_inv_def unanswered_def)
  qed
qed

lemma transform_inv:
  assumes "stable ids" and "tf_InsertSyntheticResult config" and "tx_inv ids t"
  shows "tx_inv ids (foldl (transform_message equalFold config ids) t messages)"
  using assms(3) by (induction messages arbitrary: t) (simp_all add: transform_message_inv [OF assms(1,2)])

lemma pretransform_answered:
  assumes "stable (toolIDMap config messages)" and "tf_InsertSyntheticResult config"
  shows "all_answered (PreTransform equalFold messages config)"
proof -
  let ?ids = "toolIDMap config messages" and ?t0 = "\<lparr>tx_out = [], tx_pending = [], tx_answered = {}\<rparr>"
  have "tx_inv ?ids ?t0" by (simp add: tx_inv_def unanswered_def)
  from flush_inv [OF transform_inv [OF assms this] assms(2)] show ?thesis
    by (simp add: PreTransform_def Let_def)
qed

section \<open>Properties\<close>


definition demo_call :: "bytes \<Rightarrow> ContentPart" where
  "demo_call i = \<lparr>cp_Text = None, cp_Image = None, cp_Thinking = None,
     cp_ToolCall = Some (ToolCall_zero\<lparr>tc_ID := i\<rparr>)\<rparr>"

definition demo_turn :: "bytes list \<Rightarrow> Message" where
  "demo_turn is = assistant_message \<lparr>ac_Parts = map demo_call is, ac_StopReason = StopToolUse, ac_API = [],
     ac_Provider = [], ac_Model = []\<rparr>"

definition demo_config :: "bool \<Rightarrow> TransformConfig" where
  "demo_config mistral = \<lparr>tf_TargetAPI = [], tf_TargetProvider = [], tf_TargetModelID = [], tf_MaxToolIDLen = 0,
     tf_MistralToolIDs = mistral, tf_InsertSyntheticResult = True, tf_IsOAuth = False, tf_Tools = []\<rparr>"


text \<open>Normalised ids: the result has only letters, digits, underscores and dashes, is no longer
  than the limit when there is one, and normalising it again changes nothing; a Mistral id is
  always nine letters or digits.\<close>

lemma tool_ids_normalised:
  "list_all tool_id_char (NormalizeToolID i n) \<and>
   length (NormalizeToolID i n) \<le> (if n > 0 then nat n else length i) \<and>
   NormalizeToolID (NormalizeToolID i n) n = NormalizeToolID i n \<and>
   length (MistralToolID i) = 9 \<and> set (MistralToolID i) \<subseteq> set mistralIDChars"
proof -
  have "length (fst (go_cut (CHR ''|'') i)) \<le> length i"
    using go_cut_lengths [of "CHR ''|''" i] by (cases "go_cut (CHR ''|'') i") auto
  then have "length (NormalizeToolID i n) \<le> (if n > 0 then nat n else length i)"
    using normalized_length [of n i] by (auto simp: NormalizeToolID_def Let_def)
  moreover have "set (MistralToolID i) \<subseteq> set mistralIDChars"
  proof -
    have ne: "mistralIDChars \<noteq> []" by (simp add: mistralIDChars_def)
    have "mistralIDChars ! (k mod length mistralIDChars) \<in> set mistralIDChars" for k
      using ne by (intro nth_mem mod_less_divisor) simp
    then show ?thesis unfolding MistralToolID_def set_map by blast
  qed
  ultimately show ?thesis
    using normalized_chars normalize_idem by (auto simp: list_all_iff MistralToolID_def)
qed

text \<open>With Mistral ids a call can stay unanswered: the flush renames an id that is renamed already,
  and the hash of a hash is another id.  Here a turn calls two tools, the id of the second is
  the hashed id of the first, and nobody answers: the result made for the first call carries
  an id no call has.\<close>

lemma mistral_flush_renames_twice:
  "\<not> all_answered (PreTransform (=) [demo_turn [''a'', MistralToolID ''a'']] (demo_config True))"
  by code_simp

section \<open>Thinking stays with its model\<close>

definition no_thinking :: "AssistantContent \<Rightarrow> bool" where
  "no_thinking a \<longleftrightarrow>
     (\<forall>p \<in> set (ac_Parts a). cp_Thinking p = None \<and>
        (case cp_ToolCall p of None \<Rightarrow> True | Some c \<Rightarrow> \<not> tc_HasThought c))"

definition own_thinking :: "TransformConfig \<Rightarrow> Message \<Rightarrow> bool" where
  "own_thinking config m =
     (case m_Assistant m of None \<Rightarrow> True | Some a \<Rightarrow> isSameModel a config \<or> no_thinking a)"

lemma foreign_parts:
  "foldl (transform_part equalFold config ids False) (parts, pending) ps = (parts', pending') \<Longrightarrow>
   \<forall>p \<in> set parts. cp_Thinking p = None \<and> (case cp_ToolCall p of None \<Rightarrow> True | Some c \<Rightarrow> \<not> tc_HasThought c) \<Longrightarrow>
   \<forall>p \<in> set parts'. cp_Thinking p = None \<and> (case cp_ToolCall p of None \<Rightarrow> True | Some c \<Rightarrow> \<not> tc_HasThought c)"
proof (induction ps arbitrary: parts pending)
  case Nil
  then show ?case by simp
next
  case (Cons p ps)
  obtain parts1 pending1 where s: "transform_part equalFold config ids False (parts, pending) p = (parts1, pending1)" by fastforce
  have "\<forall>q \<in> set parts1. cp_Thinking q = None \<and> (case cp_ToolCall q of None \<Rightarrow> True | Some c \<Rightarrow> \<not> tc_HasThought c)"
    using s Cons.prems(2)
    by (cases "cp_Thinking p"; cases "cp_ToolCall p")
      (auto simp: transform_part_def text_content_def rewrite_call_def Let_def split: if_splits)
  with Cons.IH [of parts1 pending1] Cons.prems(1) s show ?case by simp
qed

lemma flush_own: "list_all (own_thinking config) (tx_out t) \<Longrightarrow> list_all (own_thinking config) (tx_out (flush config ids t))"
  by (auto simp: flush_def unanswered_def list_all_iff own_thinking_def result_message_def)

lemma transform_own:
  assumes "list_all (own_thinking config) (tx_out t)"
  shows "list_all (own_thinking config) (tx_out (transform_message equalFold config ids t msg))"
proof (cases "m_Assistant msg")
  case (Some a)
  let ?t1 = "flush config ids t"
  obtain parts pending where f: "foldl (transform_part equalFold config ids (isSameModel a config)) ([], tx_pending ?t1) (ac_Parts a) = (parts, pending)"
    by fastforce
  have "own_thinking config (assistant_message (a\<lparr>ac_Parts := parts\<rparr>))"
  proof (cases "isSameModel a config")
    case True
    then have "isSameModel (a\<lparr>ac_Parts := parts\<rparr>) config" by (simp add: isSameModel_def split: if_splits)
    then show ?thesis by (simp add: own_thinking_def assistant_message_def)
  next
    case False
    with foreign_parts [of equalFold config ids "[]" "tx_pending ?t1" "ac_Parts a" parts pending] f show ?thesis
      by (simp add: own_thinking_def assistant_message_def no_thinking_def)
  qed
  with Some f flush_own [OF assms] show ?thesis by (simp add: transform_message_def Let_def)
next
  case None
  with assms flush_own [OF assms, of ids] show ?thesis
    by (auto simp: transform_message_def own_thinking_def result_message_def Let_def split: option.split)
qed

text \<open>Thinking does not travel: in the output, an assistant message of any model but the target
  has no thinking part and no tool call with a thought signature.\<close>

lemma thinking_stays_with_its_model:
  "list_all (own_thinking config) (PreTransform equalFold messages config)"
proof -
  let ?ids = "toolIDMap config messages"
  have "list_all (own_thinking config) (tx_out t) \<Longrightarrow>
      list_all (own_thinking config) (tx_out (foldl (transform_message equalFold config ?ids) t ms))" for t ms
    by (induction ms arbitrary: t) (simp_all add: transform_own)
  then show ?thesis unfolding PreTransform_def Let_def by (intro flush_own) simp
qed

end
