(* ===== verification/Serve_Work.thy ===== *)
theory Serve_Work
  imports Protocol_Types
begin

text \<open>
  The first half of \<^verbatim>\<open>go/serve/work.go\<close>: what a session of the server remembers of its work,
  the turns it keeps, its last outcome, the runs that wait for input, and the transcript
  and the status it answers from them.

  Decoding a payload with \<^verbatim>\<open>encoding/json\<close> is a parameter, the record \<open>json_api\<close>: each field
  stands for one call of \<^verbatim>\<open>json.Unmarshal\<close> with the members the code then reads, \<^const>\<open>None\<close>
  for an error.  The clock is an argument.
\<close>

section \<open>Data\<close>

definition TurnsKept :: nat where "TurnsKept = 512"
definition TurnTextLimit :: nat where "TurnTextLimit = 64 * 1024"
definition LastReplyLimit :: nat where "LastReplyLimit = 4096"

datatype WorkStatus = WorkQueued | WorkRunning | WorkNeedsYou | WorkDone | WorkFailed | WorkStopped

record Work =
  wk_SessionID :: bytes
  wk_Adapter :: bytes
  wk_Directory :: bytes
  wk_Status :: WorkStatus
  wk_RunID :: bytes
  wk_Title :: bytes
  wk_Link :: bytes
  wk_LastReply :: bytes
  wk_UpdatedAtMS :: int
  wk_PendingInteraction :: bytes

record Turn =
  tn_Role :: bytes
  tn_Text :: bytes
  tn_RunID :: bytes
  tn_Outcome :: bytes
  tn_AtMS :: int

record Transcript =
  tr_FirstIndex :: "64 word"
  tr_Turns :: "Turn list"

record workOutcome =
  wo_status :: WorkStatus
  wo_runID :: bytes
  wo_reply :: bytes

record waitState =
  ws_waiting :: bool
  ws_pending :: bytes

record workLog =
  wl_title :: bytes
  wl_directory :: bytes
  wl_turns :: "Turn list"
  wl_dropped :: "64 word"
  wl_outcome :: "workOutcome option"
  wl_waits :: "bytes \<rightharpoonup> waitState"

definition workLog_zero :: workLog where
  "workLog_zero = \<lparr>wl_title = [], wl_directory = [], wl_turns = [], wl_dropped = 0, wl_outcome = None,
     wl_waits = Map.empty\<rparr>"

text \<open>The members of a message, of a part of its content and of a session's state that the
  server reads.\<close>

record proto_Part =
  pp_Type :: bytes
  pp_Text :: bytes

record proto_Message =
  pm_Role :: bytes
  pm_Content :: bytes

record ActiveRun =
  ar_RunID :: bytes
  ar_Status :: bytes
  ar_PendingInteractions :: "bytes list"

datatype SessionStatus =
  SessionIdle | SessionQueued | SessionRunning | SessionWaitingForInput | SessionClosed | SessionError

record SessionState =
  st_SessionID :: bytes
  st_Status :: SessionStatus
  st_ActiveRunID :: bytes
  st_ActiveRuns :: "ActiveRun list"
  st_UpdatedAtMS :: int

text \<open>\<^verbatim>\<open>js_status\<close>: the status and the pending input of a status update; \<^verbatim>\<open>js_final\<close>: the raw
  content of the final response, if there is one; \<^verbatim>\<open>js_string\<close>: a JSON string; \<^verbatim>\<open>js_texts\<close>:
  the texts of an array of parts, those that have one; \<^verbatim>\<open>js_parts\<close>: the parts of a content;
  \<^verbatim>\<open>js_request\<close>: the request id of a steering settlement.\<close>

record json_api =
  js_status :: "bytes \<Rightarrow> (bytes \<times> bytes) option"
  js_final :: "bytes \<Rightarrow> bytes option option"
  js_string :: "bytes \<Rightarrow> bytes option"
  js_texts :: "bytes \<Rightarrow> bytes option list option"
  js_parts :: "bytes \<Rightarrow> proto_Part list option"
  js_request :: "bytes \<Rightarrow> bytes option"

section \<open>Operations\<close>

text \<open>\<^verbatim>\<open>utf8.RuneStart\<close>: the two top bits of a continuation byte are 10.\<close>

definition RuneStart :: "byte \<Rightarrow> bool" where
  "RuneStart c \<longleftrightarrow> \<not> (128 \<le> (of_char c :: nat) \<and> (of_char c :: nat) < 192)"

fun cut_loop :: "bytes \<Rightarrow> nat \<Rightarrow> nat" where
  "cut_loop s 0 = 0"
| "cut_loop s (Suc n) = (if RuneStart (s ! Suc n) then Suc n else cut_loop s n)"

definition cutAt :: "bytes \<Rightarrow> nat \<Rightarrow> bytes" where
  "cutAt s limit = (if length s \<le> limit then s else take (cut_loop s limit) s)"

definition recordTurnLocked :: "workLog \<Rightarrow> bytes \<Rightarrow> bytes \<Rightarrow> bytes \<Rightarrow> bytes \<Rightarrow> int \<Rightarrow> workLog" where
  "recordTurnLocked w role s run outcome atMS =
     (let w1 = (if length (wl_turns w) = TurnsKept
                then w\<lparr>wl_turns := tl (wl_turns w), wl_dropped := wl_dropped w + 1\<rparr> else w)
      in w1\<lparr>wl_turns := wl_turns w1 @ [\<lparr>tn_Role = role, tn_Text = cutAt s TurnTextLimit, tn_RunID = run,
            tn_Outcome = outcome, tn_AtMS = atMS\<rparr>]\<rparr>)"

definition write_line :: "bytes \<Rightarrow> bytes \<Rightarrow> bytes" where
  "write_line joined s = (if joined \<noteq> [] then joined @ [LF] @ s else s)"

definition message_text :: "json_api \<Rightarrow> bytes \<Rightarrow> proto_Message \<Rightarrow> bytes" where
  "message_text js joined m =
     (if pm_Role m \<noteq> ''user'' then joined
      else case js_string js (pm_Content m) of
        Some s \<Rightarrow> write_line joined s
      | None \<Rightarrow> foldl (\<lambda>j p. if pp_Type p \<noteq> ''text'' then j else write_line j (pp_Text p)) joined
                  (case js_parts js (pm_Content m) of None \<Rightarrow> [] | Some parts \<Rightarrow> parts))"

definition userText :: "json_api \<Rightarrow> proto_Message list \<Rightarrow> bytes" where
  "userText js messages = foldl (message_text js) [] messages"

definition recordSubmitted :: "json_api \<Rightarrow> workLog \<Rightarrow> proto_Message list \<Rightarrow> bytes \<Rightarrow> int \<Rightarrow> workLog" where
  "recordSubmitted js w messages run atMS = recordTurnLocked w ''user'' (userText js messages) run [] atMS"

definition replyText :: "json_api \<Rightarrow> bytes \<Rightarrow> bytes" where
  "replyText js payload =
     (case js_final js payload of
        None \<Rightarrow> []
      | Some None \<Rightarrow> []
      | Some (Some content) \<Rightarrow>
          (case js_string js content of
             Some plain \<Rightarrow> plain
           | None \<Rightarrow>
               (case js_texts js content of
                  None \<Rightarrow> []
                | Some parts \<Rightarrow> concat (map (case_option [] (\<lambda>s. s)) parts))))"

definition terminal_work :: "bytes \<Rightarrow> (WorkStatus \<times> bytes) option" where
  "terminal_work typ =
     (if typ = ''run.completed'' then Some (WorkDone, ''completed'')
      else if typ = ''run.failed'' then Some (WorkFailed, ''failed'')
      else if typ = ''run.cancelled'' then Some (WorkStopped, ''cancelled'')
      else None)"

definition observeWorkLocked :: "json_api \<Rightarrow> workLog \<Rightarrow> Envelope \<Rightarrow> int \<Rightarrow> workLog" where
  "observeWorkLocked js w envelope atMS =
     (case terminal_work (env_Type envelope) of
        Some (status, outcome) \<Rightarrow>
          (let reply = (if status = WorkDone then replyText js (env_Payload envelope) else [])
           in recordTurnLocked
                (w\<lparr>wl_outcome := Some \<lparr>wo_status = status, wo_runID = env_RunID envelope, wo_reply = reply\<rparr>\<rparr>)
                ''assistant'' reply (env_RunID envelope) outcome atMS)
      | None \<Rightarrow>
          if env_Type envelope = ''run.status.updated''
          then case js_status js (env_Payload envelope) of
                 None \<Rightarrow> w
               | Some (status, pending) \<Rightarrow>
                   w\<lparr>wl_waits := (wl_waits w)(env_RunID envelope \<mapsto>
                        \<lparr>ws_waiting = (status = ''waiting_for_input''), ws_pending = pending\<rparr>)\<rparr>
          else w)"

text \<open>\<^verbatim>\<open>workOf\<close>, after the adapter answered with its state: \<^const>\<open>None\<close> for a session that is
  closed.  \<open>created\<close> is the time the session was made.\<close>

definition workOf :: "workLog \<Rightarrow> bytes \<Rightarrow> bytes \<Rightarrow> int \<Rightarrow> SessionState \<Rightarrow> Work option" where
  "workOf w sid adapter created state =
     (let pending = foldl (\<lambda>p r. case ar_PendingInteractions r of [] \<Rightarrow> p | i # _ \<Rightarrow> i) [] (st_ActiveRuns state);
          wait = (if st_Status state = SessionRunning \<and> pending = [] \<and> st_ActiveRunID state \<noteq> []
                  then case wl_waits w (st_ActiveRunID state) of
                         Some v \<Rightarrow> if ws_waiting v then Some (ws_pending v) else None
                       | None \<Rightarrow> None
                  else None);
          pending1 = (case wait of Some p \<Rightarrow> p | None \<Rightarrow> pending);
          found = \<lparr>wk_SessionID = sid, wk_Adapter = adapter, wk_Directory = wl_directory w, wk_Status = WorkDone,
             wk_RunID = st_ActiveRunID state, wk_Title = wl_title w, wk_Link = [], wk_LastReply = [],
             wk_UpdatedAtMS = (if st_UpdatedAtMS state = 0 then created else st_UpdatedAtMS state),
             wk_PendingInteraction = pending1\<rparr>
      in case st_Status state of
           SessionClosed \<Rightarrow> None
         | SessionQueued \<Rightarrow> Some (found\<lparr>wk_Status := WorkQueued\<rparr>)
         | SessionWaitingForInput \<Rightarrow> Some (found\<lparr>wk_Status := WorkNeedsYou\<rparr>)
         | SessionRunning \<Rightarrow>
             Some (found\<lparr>wk_Status := (if wait \<noteq> None \<or> pending1 \<noteq> [] then WorkNeedsYou else WorkRunning)\<rparr>)
         | SessionError \<Rightarrow> Some (found\<lparr>wk_Status := WorkFailed\<rparr>)
         | SessionIdle \<Rightarrow>
             (case wl_outcome w of
                None \<Rightarrow> Some found
              | Some out \<Rightarrow>
                  Some (found\<lparr>wk_Status := wo_status out, wk_RunID := wo_runID out,
                    wk_LastReply := (if wo_status out = WorkDone then cutAt (wo_reply out) LastReplyLimit else [])\<rparr>)))"

text \<open>\<^verbatim>\<open>s.work.turns[from:to]\<close>: Go panics when the bounds cross, which is \<^const>\<open>None\<close> here.  The
  limit is a Go \<^verbatim>\<open>int\<close>, converted to 64 bits.\<close>

definition slice_turns :: "Turn list \<Rightarrow> 64 word \<Rightarrow> 64 word \<Rightarrow> Turn list option" where
  "slice_turns turns from to =
     (if from \<le> to \<and> unat to \<le> length turns then Some (take (unat to - unat from) (drop (unat from) turns))
      else None)"

definition transcript :: "workLog \<Rightarrow> 64 word option \<Rightarrow> int \<Rightarrow> Transcript option" where
  "transcript w after limit =
     (let held = word_of_nat (length (wl_turns w)) :: 64 word
      in if after = Some (- 1) then Some \<lparr>tr_FirstIndex = wl_dropped w + held, tr_Turns = []\<rparr>
         else let start = (case after of Some a \<Rightarrow> a + 1 | None \<Rightarrow> wl_dropped w);
                  from = (if wl_dropped w < start then min (start - wl_dropped w) held else 0);
                  to = min held (from + word_of_int limit)
              in map_option (\<lambda>turns. \<lparr>tr_FirstIndex = wl_dropped w + from, tr_Turns = turns\<rparr>)
                   (slice_turns (wl_turns w) from to))"

section \<open>The turns kept are the last of all turns\<close>

type_synonym turn_input = "bytes \<times> bytes \<times> bytes \<times> bytes \<times> int"

definition turn_of :: "turn_input \<Rightarrow> Turn" where
  "turn_of = (\<lambda>(role, s, run, outcome, atMS). \<lparr>tn_Role = role, tn_Text = cutAt s TurnTextLimit, tn_RunID = run,
     tn_Outcome = outcome, tn_AtMS = atMS\<rparr>)"

definition record_turns :: "turn_input list \<Rightarrow> workLog \<Rightarrow> workLog" where
  "record_turns = fold (\<lambda>(role, s, run, outcome, atMS) w. recordTurnLocked w role s run outcome atMS)"

definition keeps_history :: "workLog \<Rightarrow> Turn list \<Rightarrow> bool" where
  "keeps_history w H \<longleftrightarrow> wl_turns w = drop (length H - TurnsKept) H
     \<and> wl_dropped w = word_of_nat (length H - TurnsKept)"

lemma drop_tl_snoc: "0 < length xs \<Longrightarrow> n < length xs \<Longrightarrow> tl (drop n xs) @ [x] = drop (Suc n) (xs @ [x])"
  by (simp add: drop_Suc tl_drop)

lemma keeps_history_record:
  assumes "keeps_history w H"
  shows "keeps_history (recordTurnLocked w role s run outcome atMS) (H @ [turn_of (role, s, run, outcome, atMS)])"
proof (cases "TurnsKept \<le> length H")
  case True
  let ?n = "length H - TurnsKept"
  from True have n: "?n < length H" "Suc (length H) - TurnsKept = Suc ?n"
    by (simp_all add: TurnsKept_def)
  from assms True have "length (wl_turns w) = TurnsKept" by (simp add: keeps_history_def)
  with assms n show ?thesis
    by (simp add: keeps_history_def recordTurnLocked_def turn_of_def tl_drop drop_Suc[symmetric] Let_def del: drop_append)
      (simp add: drop_Suc tl_drop[symmetric])
next
  case False
  with assms show ?thesis
    by (simp add: keeps_history_def recordTurnLocked_def turn_of_def Let_def)
qed

lemma record_turns_history:
  "keeps_history w H \<Longrightarrow> keeps_history (record_turns rs w) (H @ map turn_of rs)"
proof (induction rs arbitrary: w H)
  case (Cons r rs)
  obtain role s run outcome atMS where r: "r = (role, s, run, outcome, atMS)" by (cases r) auto
  show ?case
    using Cons.IH[OF keeps_history_record[OF Cons.prems, of role s run outcome atMS]]
    by (simp add: record_turns_def r)
qed (simp add: record_turns_def)

lemma word_min_nat: "unat (min a b) = min (unat a) (unat (b :: 64 word))"
  by (simp add: min_def word_le_nat_alt)

lemma slice_turns_take:
  assumes "unat from \<le> length turns" "unat from \<le> unat to" "unat to = min (length turns) (unat from + n)"
  shows "slice_turns turns from to = Some (take n (drop (unat from) turns))"
  using assms by (auto simp: slice_turns_def word_le_nat_alt min_def)

lemma keeps_history_words:
  assumes "keeps_history w H" "length H < 2 ^ 64"
  shows "unat (wl_dropped w) = length H - TurnsKept"
    and "unat (word_of_nat (length (wl_turns w)) :: 64 word) = length (wl_turns w)"
    and "length (wl_turns w) + (length H - TurnsKept) = length H"
    and "length (wl_turns w) \<le> TurnsKept"
proof -
  have len: "length (wl_turns w) = length H - (length H - TurnsKept)"
    using assms(1) by (simp add: keeps_history_def)
  then show "length (wl_turns w) + (length H - TurnsKept) = length H" and small: "length (wl_turns w) \<le> TurnsKept"
    by simp_all
  show "unat (wl_dropped w) = length H - TurnsKept"
    using assms by (simp add: keeps_history_def unat_of_nat)
  show "unat (word_of_nat (length (wl_turns w)) :: 64 word) = length (wl_turns w)"
    using small by (simp add: unat_of_nat TurnsKept_def)
qed

lemma unat_add_small: "unat a + unat b < 2 ^ 64 \<Longrightarrow> unat (a + b) = unat a + unat (b :: 64 word)"
  by (simp add: unat_word_ariths)

lemma unat_sub_le: "b \<le> a \<Longrightarrow> unat (a - b) = unat a - unat (b :: 64 word)"
  by (rule unat_sub)

lemma unat_limit: "0 \<le> limit \<Longrightarrow> limit < 2 ^ 63 \<Longrightarrow> unat (word_of_int limit :: 64 word) = nat limit"
  by (simp add: unat_eq_nat_uint uint_word_of_int_eq take_bit_int_eq_self)

lemma unat_max: "unat (- 1 :: 64 word) = 2 ^ 64 - 1"
  by (simp only: unsigned_minus_1_eq_mask mask_eq_exp_minus_1) simp

text \<open>The position in the kept turns at which a transcript begins.\<close>

definition transcript_from :: "workLog \<Rightarrow> 64 word option \<Rightarrow> 64 word" where
  "transcript_from w after =
     (let held = word_of_nat (length (wl_turns w)); start = (case after of Some a \<Rightarrow> a + 1 | None \<Rightarrow> wl_dropped w)
      in if wl_dropped w < start then min (start - wl_dropped w) held else 0)"

lemma transcript_from_nat:
  assumes "keeps_history w H" "length H < 2 ^ 64" "after \<noteq> Some (- 1)"
  shows "unat (transcript_from w after) =
    min ((case after of Some a \<Rightarrow> unat a + 1 | None \<Rightarrow> 0) - (length H - TurnsKept)) (length (wl_turns w))"
proof -
  note W = keeps_history_words[OF assms(1,2)]
  show ?thesis
  proof (cases after)
    case None
    with W show ?thesis by (simp add: transcript_from_def Let_def)
  next
    case (Some a)
    with assms(3) have "a + 1 \<noteq> 0" by (metis add_eq_0_iff2)
    then have a: "unat (a + 1) = unat a + 1" by (simp add: unatSuc add.commute)
    with Some W show ?thesis
      by (auto simp: transcript_from_def Let_def word_min_nat word_less_nat_alt unat_sub_le word_le_nat_alt)
  qed
qed

lemma transcript_slice:
  assumes "keeps_history w H" "length H < 2 ^ 64" "0 \<le> limit" "limit < 2 ^ 63" "after \<noteq> Some (- 1)"
  shows "transcript w after limit =
    Some \<lparr>tr_FirstIndex = wl_dropped w + transcript_from w after,
          tr_Turns = take (nat limit) (drop (unat (transcript_from w after)) (wl_turns w))\<rparr>"
proof -
  note W = keeps_history_words[OF assms(1,2)]
  let ?f = "transcript_from w after"
  let ?to = "min (word_of_nat (length (wl_turns w))) (?f + word_of_int limit)"
  have f: "unat ?f \<le> length (wl_turns w)"
    by (simp add: transcript_from_nat[OF assms(1,2,5)])
  have lim: "unat (word_of_int limit :: 64 word) = nat limit" by (rule unat_limit[OF assms(3,4)])
  have "unat (?f + word_of_int limit) = unat ?f + nat limit"
    using f W(4) lim assms(3,4) by (subst unat_add_small) (auto simp: TurnsKept_def)
  then have to: "unat ?to = min (length (wl_turns w)) (unat ?f + nat limit)"
    using W(2) by (simp add: word_min_nat)
  have "slice_turns (wl_turns w) ?f ?to = Some (take (nat limit) (drop (unat ?f) (wl_turns w)))"
    by (rule slice_turns_take) (use f to in auto)
  with assms(5) show ?thesis
    by (simp add: transcript_def transcript_from_def Let_def)
qed

section \<open>Properties\<close>

text \<open>C34. A reader that asks for the transcript after an index gets the turns with the next
  indices, in order and at most as many as it asked for, of all turns ever recorded; the
  index of a turn is its number among them, so pages of a growing transcript never overlap
  and miss only turns that are older than the last 512.  The slice never panics for a limit
  that is not negative.\<close>

theorem transcript_reads_history:
  fixes rs :: "turn_input list" and after :: "64 word option" and limit :: int
  assumes "length rs < 2 ^ 64" and "0 \<le> limit" and "limit < 2 ^ 63"
  defines "H \<equiv> map turn_of rs"
  defines "from \<equiv> min (max (case after of Some a \<Rightarrow> unat a + 1 | None \<Rightarrow> 0) (length H - TurnsKept)) (length H)"
  shows "\<exists>tr. transcript (record_turns rs workLog_zero) after limit = Some tr
    \<and> unat (tr_FirstIndex tr) = from \<and> tr_Turns tr = take (nat limit) (drop from H)"
proof -
  let ?w = "record_turns rs workLog_zero"
  have K: "keeps_history ?w H"
    using record_turns_history[of workLog_zero "[]" rs]
    by (simp add: H_def keeps_history_def workLog_zero_def)
  have len: "length H < 2 ^ 64" using assms(1) by (simp add: H_def)
  note W = keeps_history_words[OF K len]
  show ?thesis
  proof (cases "after = Some (- 1)")
    case True
    then have "from = length H" using len by (simp add: from_def unat_max)
    moreover have "unat (wl_dropped ?w + word_of_nat (length (wl_turns ?w))) = length H"
      using W len by (simp add: unat_add_small)
    ultimately show ?thesis using True by (simp add: transcript_def Let_def)
  next
    case False
    have f: "unat (transcript_from ?w after) + (length H - TurnsKept) = from"
      using W(3) by (auto simp: transcript_from_nat[OF K len False] from_def split: option.split)
    then have "unat (wl_dropped ?w + transcript_from ?w after) = from"
      using W(1) len by (subst unat_add_small) (auto simp: from_def)
    moreover have "drop (unat (transcript_from ?w after)) (wl_turns ?w) = drop from H"
      using K f by (simp add: keeps_history_def)
    ultimately show ?thesis
      by (simp add: transcript_slice[OF K len assms(2,3) False])
  qed
qed

theorem transcript_reads_history_witness:
  "\<exists>tr. transcript (record_turns [(''user'', ''hi'', ''r'', [], 1), (''assistant'', ''yo'', ''r'', ''completed'', 2)]
      workLog_zero) (Some 0) 10 = Some tr
    \<and> unat (tr_FirstIndex tr) = 1 \<and> map tn_Text (tr_Turns tr) = [''yo'']"
  using transcript_reads_history[of "[(''user'', ''hi'', ''r'', [], 1), (''assistant'', ''yo'', ''r'', ''completed'', 2)]" 10 "Some 0"]
  by (auto simp: TurnsKept_def turn_of_def cutAt_def TurnTextLimit_def)

end
