(* ===== verification/Serve_Subscriber.thy ===== *)
theory Serve_Subscriber
  imports Serve_Work
begin

text \<open>
  The parts of \<^verbatim>\<open>go/serve/session.go\<close> that a session of the server is made of: the queue of
  one subscriber with its bookkeeping of runs, the gate that holds events back while a
  request is answered, and the index of the runs of all sessions.

  A Go map that is ranged over is an association list in the order of first insertion (Go
  leaves that order open); a map that is only looked up is a function with Go's zero value
  as default.  The fields \<open>sb_got\<close> and \<open>sb_since\<close> of a subscriber record what was ever sent
  to its channel and how many events had been delivered when it attached; no operation reads
  them.  Serial numbers of runs count submissions and are natural numbers.
\<close>

section \<open>Association lists\<close>

fun al_get :: "'v \<Rightarrow> (bytes \<times> 'v) list \<Rightarrow> bytes \<Rightarrow> 'v" where
  "al_get z [] k = z"
| "al_get z ((k1, v) # m) k = (if k1 = k then v else al_get z m k)"

fun al_put :: "bytes \<Rightarrow> 'v \<Rightarrow> (bytes \<times> 'v) list \<Rightarrow> (bytes \<times> 'v) list" where
  "al_put k v [] = [(k, v)]"
| "al_put k v ((k1, v1) # m) = (if k1 = k then (k, v) # m else (k1, v1) # al_put k v m)"

fun al_del :: "bytes \<Rightarrow> (bytes \<times> 'v) list \<Rightarrow> (bytes \<times> 'v) list" where
  "al_del k [] = []"
| "al_del k ((k1, v1) # m) = (if k1 = k then al_del k m else (k1, v1) # al_del k m)"

lemma al_get_put [simp]: "al_get z (al_put k v m) k' = (if k = k' then v else al_get z m k')"
  by (induction m) auto

lemma al_get_del [simp]: "al_get z (al_del k m) k' = (if k = k' then z else al_get z m k')"
  by (induction m) auto

section \<open>The index of runs\<close>

type_synonym runIndex = "(bytes \<times> bytes list) list"

definition claim :: "runIndex \<Rightarrow> bytes \<Rightarrow> bytes \<Rightarrow> runIndex" where
  "claim r session run =
     (if run = [] then r
      else let holders = al_get [] r run
           in al_put run (if session \<in> set holders then holders else holders @ [session]) r)"

definition foreign :: "runIndex \<Rightarrow> bytes \<Rightarrow> bytes \<Rightarrow> bool" where
  "foreign r run self = (let holders = al_get [] r run in \<not> (holders = [] \<or> self \<in> set holders))"

definition release :: "runIndex \<Rightarrow> bytes \<Rightarrow> runIndex" where
  "release r session =
     filter (\<lambda>(run, holders). holders \<noteq> []) (map (\<lambda>(run, holders). (run, removeAll session holders)) r)"

section \<open>The subscriber\<close>

datatype base_error =
    ErrSessionClosed | ErrEventStreamOverflow | ErrRunActive | ErrUnexpectedEOF
  | InvalidSteerTarget bytes "seq option" | OtherError bytes

record terminalState =
  te_overflow :: bool
  te_run :: bytes
  te_err :: "base_error option"

record subscriber =
  sb_sessionOnly :: bool
  sb_ch :: "Envelope list"
  sb_queue :: nat
  sb_finish :: bool
  sb_terminal :: "terminalState option"
  sb_attached :: bytes
  sb_attachedSerial :: "nat"
  sb_lastRun :: bytes
  sb_ack :: "bytes option"
  sb_pending :: "(bytes \<times> int) list"
  sb_runSerials :: "bytes \<Rightarrow> nat"
  sb_ackSerial :: "nat"
  sb_got :: "Envelope list"
  sb_since :: nat

definition newSubscriber :: "nat \<Rightarrow> bytes \<Rightarrow> nat \<Rightarrow> subscriber" where
  "newSubscriber queue attached attachedSerial =
     \<lparr>sb_sessionOnly = False, sb_ch = [], sb_queue = queue, sb_finish = False, sb_terminal = None,
      sb_attached = attached, sb_attachedSerial = attachedSerial, sb_lastRun = [], sb_ack = None,
      sb_pending = [], sb_runSerials = (\<lambda>_. 0), sb_ackSerial = 0, sb_got = [], sb_since = 0\<rparr>"

text \<open>\<^verbatim>\<open>terminal.CompareAndSwap(nil, state)\<close>, then \<^verbatim>\<open>close(sub.finish)\<close> once.\<close>

definition stop :: "subscriber \<Rightarrow> terminalState option \<Rightarrow> subscriber" where
  "stop sub state =
     sub\<lparr>sb_terminal := (if sb_terminal sub = None then state else sb_terminal sub), sb_finish := True\<rparr>"

definition stopRun :: "subscriber \<Rightarrow> terminalState option \<Rightarrow> subscriber" where
  "stopRun sub state = stop sub (if sb_sessionOnly sub then None else state)"

definition untrack :: "subscriber \<Rightarrow> bytes \<Rightarrow> subscriber" where
  "untrack sub run =
     (let n = al_get 0 (sb_pending sub) run
      in if 0 < n then sub\<lparr>sb_pending := al_put run (n - 1) (sb_pending sub)\<rparr> else sub)"

definition track :: "subscriber \<Rightarrow> bytes \<Rightarrow> nat \<Rightarrow> subscriber" where
  "track sub run serial =
     sub\<lparr>sb_pending := al_put run (al_get 0 (sb_pending sub) run + 1) (sb_pending sub),
         sb_runSerials := (sb_runSerials sub)(run := serial)\<rparr>"

definition acknowledge :: "subscriber \<Rightarrow> bytes \<Rightarrow> subscriber" where
  "acknowledge sub run =
     (let sub1 = untrack sub run; serial = sb_runSerials sub1 run
      in if sb_ackSerial sub1 < serial then sub1\<lparr>sb_ackSerial := serial, sb_ack := Some run\<rparr>
         else if sb_ack sub1 = None then sub1\<lparr>sb_ack := Some run\<rparr>
         else sub1)"

text \<open>\<^verbatim>\<open>lossRun\<close>: the run a subscriber that lost an event has to resume.  The triple is the
  closure's \<^verbatim>\<open>newest\<close>, \<^verbatim>\<open>newestSerial\<close> and \<^verbatim>\<open>live\<close>.\<close>

definition consider_run :: "(bytes \<Rightarrow> bool) \<Rightarrow> bytes \<Rightarrow> nat \<Rightarrow> bytes \<times> nat \<times> bool \<Rightarrow> bytes \<times> nat \<times> bool" where
  "consider_run spent run serial = (\<lambda>(newest, newestSerial, live).
     if live \<and> spent run then (newest, newestSerial, live)
     else if \<not> live \<and> \<not> spent run then (run, serial, True)
     else if newestSerial < serial then (run, serial, live)
     else (newest, newestSerial, live))"

definition lossRun :: "subscriber \<Rightarrow> bytes \<Rightarrow> nat \<Rightarrow> bytes \<Rightarrow> nat \<Rightarrow> (bytes \<Rightarrow> bool) \<Rightarrow> bytes" where
  "lossRun sub dropped droppedSerial current currentSerial finished =
     (let spent = (\<lambda>run. run \<noteq> current \<and> finished run);
          c0 = (dropped, droppedSerial, \<not> spent dropped);
          c1 = (case sb_ack sub of Some ack \<Rightarrow> consider_run spent ack (sb_ackSerial sub) c0 | None \<Rightarrow> c0);
          c2 = (if sb_ackSerial sub = 0 then consider_run spent (sb_attached sub) (sb_attachedSerial sub) c1 else c1);
          c3 = foldl (\<lambda>c (run, queued). if queued = 0 then c else consider_run spent run (sb_runSerials sub run) c)
                 c2 (sb_pending sub)
      in fst (consider_run spent current currentSerial c3))"

definition exposedTo :: "subscriber \<Rightarrow> bytes \<Rightarrow> nat \<Rightarrow> bool" where
  "exposedTo sub runID serial =
     (if sb_ackSerial sub = 0 then
        (if sb_attached sub = runID then True
         else if sb_attachedSerial sub = 0 then 0 < al_get 0 (sb_pending sub) runID
         else 0 < al_get 0 (sb_pending sub) runID \<and> sb_attachedSerial sub \<le> serial)
      else if serial = 0 then False
      else serial = sb_ackSerial sub \<or> (sb_ackSerial sub < serial \<and> 0 < al_get 0 (sb_pending sub) runID))"

section \<open>The publication gate\<close>

record publicationGate =
  pg_runs :: "bytes list"
  pg_task :: bytes
  pg_unnamed :: bool
  pg_request :: bytes
  pg_boundary :: seq
  pg_withheld :: "Envelope list"
  pg_requested :: bool
  pg_drained :: bool

definition cover :: "publicationGate \<Rightarrow> bytes \<Rightarrow> publicationGate" where
  "cover g run =
     (if run = [] then g\<lparr>pg_unnamed := True\<rparr>
      else if run \<in> set (pg_runs g) then g
      else g\<lparr>pg_runs := pg_runs g @ [run]\<rparr>)"

definition covers :: "publicationGate \<Rightarrow> bytes \<Rightarrow> bool" where
  "covers g run = (if pg_unnamed g then True else if run = [] then False else run \<in> set (pg_runs g))"

definition markDrainRequested :: "publicationGate \<Rightarrow> publicationGate" where
  "markDrainRequested g = g\<lparr>pg_requested := True\<rparr>"

definition drainPending :: "publicationGate \<Rightarrow> bool" where
  "drainPending g \<longleftrightarrow> pg_requested g \<and> \<not> pg_drained g"

definition finishDrain :: "publicationGate \<Rightarrow> publicationGate" where
  "finishDrain g = g\<lparr>pg_drained := True\<rparr>"

definition settlementRequest :: "json_api \<Rightarrow> Envelope \<Rightarrow> bytes" where
  "settlementRequest js envelope =
     (if env_Type envelope = ''run.steer.applied'' \<or> env_Type envelope = ''run.steer.dropped''
      then (if env_Payload envelope = [] then []
            else case js_request js (env_Payload envelope) of Some request \<Rightarrow> request | None \<Rightarrow> [])
      else [])"

definition withholds :: "json_api \<Rightarrow> publicationGate \<Rightarrow> Envelope \<Rightarrow> bool" where
  "withholds js g envelope \<longleftrightarrow>
     (if pg_task g \<noteq> [] \<and> env_RunID envelope = [] then True
      else if env_RunID envelope \<in> set (pg_runs g) then True
      else pg_request g \<noteq> [] \<and> settlementRequest js envelope = pg_request g)"

definition within :: "seq \<Rightarrow> Envelope \<Rightarrow> bool" where
  "within boundary envelope = (case env_Sequence envelope of Some n \<Rightarrow> n \<le> boundary | None \<Rightarrow> False)"

definition split_gate :: "publicationGate \<Rightarrow> seq \<Rightarrow> Envelope list \<times> Envelope list" where
  "split_gate g boundary =
     (filter (within boundary) (pg_withheld g), filter (\<lambda>e. \<not> within boundary e) (pg_withheld g))"

end
