(* ===== verification/Serve_Session.thy ===== *)
theory Serve_Session
  imports Serve_Subscriber "HOL-Library.Multiset"
begin

text \<open>
  The session of the server, \<^verbatim>\<open>go/serve/session.go\<close>: it reads the streams of its adapter's runs,
  one goroutine per stream, and hands every event to its subscribers.

  A section under the session's mutex is one step.  The code of a goroutine is a list of
  \<open>action\<close>s, one per section or blocking call, in the order the source has them; \<open>turn\<close> runs
  the first of them and says what remains to be done, so that \<open>serve_step\<close> has every
  interleaving of the readers, the requests, the subscribers and the timers.  What the
  adapter, a stream or a context does is the \<open>input\<close> of a turn, and \<^verbatim>\<open>time.Now\<close> its argument
  \<open>now\<close>.  Pointers to subscribers and gates are numbers, looked up in \<open>s_sub\<close> and \<open>s_gates\<close>.
  Condition variables and wake-up channels only say when a waiting goroutine looks again; here
  it may look at any time.  A timer that was stopped may still fire, and then finds its gate
  gone.  The answers a request returns to its caller are not kept.  \<open>s_delivered\<close> and
  \<open>s_published\<close> record what was delivered to the subscribers and what was published; \<open>s_released\<close>
  counts the calls of the callback \<^verbatim>\<open>release\<close>.  No operation reads these three.
\<close>

section \<open>Data\<close>

record Session =
  s_id :: bytes
  s_runID :: bytes
  s_closed :: bool
  s_closing :: bool
  s_release :: bool
  s_work :: workLog
  s_readers :: int
  s_reservations :: int
  s_finishDue :: bool
  s_pendingEnd :: "terminalState option"
  s_deferred :: "nat list option"
  s_subs :: "nat list"
  s_nextSerial :: nat
  s_serials :: "(bytes \<times> nat) list"
  s_sequences :: "bytes \<Rightarrow> seq"
  s_stateSequence :: seq
  s_sessionEventsStop :: bool
  s_sessionEventErr :: "base_error option"
  s_finished :: "bytes \<Rightarrow> bool"
  s_runs :: "runIndex option"
  s_gate :: "nat option"
  s_sub :: "nat \<Rightarrow> subscriber"
  s_nsub :: nat
  s_gates :: "nat \<Rightarrow> publicationGate"
  s_ngate :: nat
  s_delivered :: "Envelope list"
  s_published :: "Envelope list"
  s_released :: nat

definition gate_zero :: publicationGate where
  "gate_zero = \<lparr>pg_runs = [], pg_task = [], pg_unnamed = False, pg_request = [], pg_boundary = 0, pg_withheld = [],
     pg_requested = False, pg_drained = False\<rparr>"

definition newSession :: "bytes \<Rightarrow> bool \<Rightarrow> runIndex option \<Rightarrow> Session" where
  "newSession sid rel runs = \<lparr>s_id = sid, s_runID = [], s_closed = False, s_closing = False, s_release = rel,
     s_work = workLog_zero, s_readers = 0, s_reservations = 0, s_finishDue = False, s_pendingEnd = None,
     s_deferred = None, s_subs = [], s_nextSerial = 0, s_serials = [], s_sequences = (\<lambda>_. 0), s_stateSequence = 0,
     s_sessionEventsStop = False, s_sessionEventErr = None, s_finished = (\<lambda>_. False), s_runs = runs, s_gate = None,
     s_sub = (\<lambda>_. newSubscriber 0 [] 0), s_nsub = 0, s_gates = (\<lambda>_. gate_zero), s_ngate = 0,
     s_delivered = [], s_published = [], s_released = 0\<rparr>"

definition serial :: "Session \<Rightarrow> bytes \<Rightarrow> nat" where
  "serial s run = al_get 0 (s_serials s) run"

definition upd_sub :: "Session \<Rightarrow> nat \<Rightarrow> subscriber \<Rightarrow> Session" where
  "upd_sub s i sub = s\<lparr>s_sub := (s_sub s)(i := sub)\<rparr>"

definition upd_gate :: "Session \<Rightarrow> nat \<Rightarrow> publicationGate \<Rightarrow> Session" where
  "upd_gate s g gate = s\<lparr>s_gates := (s_gates s)(g := gate)\<rparr>"

definition del_subs :: "nat list \<Rightarrow> Session \<Rightarrow> Session" where
  "del_subs is s = s\<lparr>s_subs := filter (\<lambda>i. i \<notin> set is) (s_subs s)\<rparr>"

definition cohort :: "nat list option \<Rightarrow> nat list" where
  "cohort d = (case d of Some is \<Rightarrow> is | None \<Rightarrow> [])"

section \<open>Delivery\<close>

definition deliver_to :: "Envelope \<Rightarrow> Session \<Rightarrow> nat \<Rightarrow> Session" where
  "deliver_to e s i =
     (let sub = s_sub s i; run = env_RunID e
      in if sb_sessionOnly sub \<and> run \<noteq> [] then s
         else let sub1 = (if run \<noteq> [] then track sub run (serial s run) else sub)
              in if length (sb_ch sub1) < sb_queue sub1
                 then let sub2 = sub1\<lparr>sb_ch := sb_ch sub1 @ [e], sb_got := sb_got sub1 @ [e]\<rparr>
                      in upd_sub s i (if run \<noteq> [] then sub2\<lparr>sb_lastRun := run\<rparr> else sub2)
                 else let sub2 = (if run \<noteq> [] then untrack sub1 run else sub1)
                      in upd_sub (del_subs [i] s) i
                           (stop sub2 (Some \<lparr>te_overflow = True,
                              te_run = lossRun sub2 run (serial s run) (s_runID s) (serial s (s_runID s)) (s_finished s),
                              te_err = None\<rparr>)))"

definition deliverLocked :: "json_api \<Rightarrow> int \<Rightarrow> Session \<Rightarrow> Envelope \<Rightarrow> Session" where
  "deliverLocked js now s e =
     (let s1 = s\<lparr>s_work := observeWorkLocked js (s_work s) e now, s_delivered := s_delivered s @ [e]\<rparr>;
          s2 = (case env_Sequence e of
                  Some n \<Rightarrow> if env_RunID e \<noteq> [] \<and> s_sequences s1 (env_RunID e) < n
                            then s1\<lparr>s_sequences := (s_sequences s1)(env_RunID e := n)\<rparr> else s1
                | None \<Rightarrow> s1)
      in foldl (deliver_to e) s2 (s_subs s2))"

definition withhold :: "Session \<Rightarrow> nat \<Rightarrow> Envelope \<Rightarrow> Session" where
  "withhold s g e = upd_gate s g ((s_gates s g)\<lparr>pg_withheld := pg_withheld (s_gates s g) @ [e]\<rparr>)"

text \<open>\<^verbatim>\<open>publish\<close>, which is also \<^verbatim>\<open>drainInto\<close>.\<close>

definition publish :: "json_api \<Rightarrow> int \<Rightarrow> Session \<Rightarrow> Envelope \<Rightarrow> Session" where
  "publish js now s e =
     (let s1 = s\<lparr>s_published := s_published s @ [e]\<rparr>
      in case s_gate s1 of
           Some g \<Rightarrow> if withholds js (s_gates s1 g) e then withhold s1 g e else deliverLocked js now s1 e
         | None \<Rightarrow> deliverLocked js now s1 e)"

definition publishSessionEventLocked :: "json_api \<Rightarrow> int \<Rightarrow> Session \<Rightarrow> Envelope \<Rightarrow> Session" where
  "publishSessionEventLocked js now s event =
     (let s1 = s\<lparr>s_stateSequence := s_stateSequence s + 1\<rparr>
      in publish js now s1 (event\<lparr>env_Sequence := Some (s_stateSequence s1)\<rparr>))"

definition has_suffix :: "bytes \<Rightarrow> bytes \<Rightarrow> bool" where
  "has_suffix s t = has_prefix (rev s) (rev t)"

definition session_event :: "Session \<Rightarrow> Envelope \<Rightarrow> bool" where
  "session_event s e \<longleftrightarrow> \<not> (env_SessionID e \<noteq> s_id s \<or> env_RunID e \<noteq> [] \<or> env_ID e = []
     \<or> \<not> has_prefix (env_Type e) ''session.'' \<or> has_suffix (env_Type e) ''.request'' \<or> has_suffix (env_Type e) ''.response'')"

section \<open>Subscribers of a session\<close>

definition subscribe :: "Session \<Rightarrow> nat \<Rightarrow> bool \<Rightarrow> (nat \<times> bytes \<times> seq \<times> Session) option" where
  "subscribe s queue only =
     (if s_closed s then None
      else let i = s_nsub s;
               sub = (newSubscriber queue (s_runID s) (serial s (s_runID s)))\<lparr>sb_sessionOnly := only,
                        sb_since := length (s_delivered s)\<rparr>;
               s1 = (upd_sub s i sub)\<lparr>s_nsub := Suc i\<rparr>
           in Some (i, s_runID s, s_sequences s (s_runID s),
                case s_sessionEventErr s of
                  Some err \<Rightarrow> upd_sub s1 i (stop sub (Some \<lparr>te_overflow = False, te_run = [], te_err = Some err\<rparr>))
                | None \<Rightarrow> s1\<lparr>s_subs := s_subs s1 @ [i]\<rparr>))"

definition unsubscribe :: "Session \<Rightarrow> nat \<Rightarrow> Session" where
  "unsubscribe s i = del_subs [i] s"

definition snapshotSubsLocked :: "Session \<Rightarrow> nat list" where
  "snapshotSubsLocked s = filter (\<lambda>i. \<not> (sb_sessionOnly (s_sub s i) \<and> \<not> s_closed s)) (s_subs s)"

definition detachRunSubsLocked :: "Session \<Rightarrow> nat list \<times> Session" where
  "detachRunSubsLocked s = (let subs = snapshotSubsLocked s in (subs, del_subs subs s))"

definition detachSubsLocked :: "Session \<Rightarrow> nat list \<times> Session" where
  "detachSubsLocked s = (s_subs s, s\<lparr>s_subs := []\<rparr>)"

definition detachExposedLocked :: "Session \<Rightarrow> bytes \<Rightarrow> nat list \<times> Session" where
  "detachExposedLocked s runID =
     (let affected = filter (\<lambda>i. \<not> sb_sessionOnly (s_sub s i) \<and> exposedTo (s_sub s i) runID (serial s runID)) (s_subs s)
      in (affected, del_subs affected s))"

definition failed_end :: "terminalState option \<Rightarrow> bool" where
  "failed_end e = (case e of Some t \<Rightarrow> te_err t \<noteq> None | None \<Rightarrow> False)"

definition clear_end :: "Session \<Rightarrow> Session" where
  "clear_end s = s\<lparr>s_pendingEnd := None, s_finishDue := False, s_deferred := None\<rparr>"

definition supersedeLocked :: "Session \<Rightarrow> nat list \<times> terminalState option \<times> Session" where
  "supersedeLocked s =
     (if failed_end (s_pendingEnd s)
      then (cohort (s_deferred s), s_pendingEnd s, clear_end (del_subs (cohort (s_deferred s)) s))
      else ([], None, clear_end s))"

section \<open>Runs of a session\<close>

definition bindRun :: "Session \<Rightarrow> bytes \<Rightarrow> nat \<Rightarrow> nat list \<times> terminalState option \<times> Session" where
  "bindRun s runID reserved =
     (let s1 = (if serial s runID = 0 then s\<lparr>s_serials := al_put runID reserved (s_serials s)\<rparr> else s);
          s2 = (if 0 < s_reservations s1 then s1\<lparr>s_reservations := s_reservations s1 - 1\<rparr> else s1)
      in if serial s2 (s_runID s2) < reserved then supersedeLocked (s2\<lparr>s_runID := runID\<rparr>) else ([], None, s2))"

definition claimRun :: "Session \<Rightarrow> bytes \<Rightarrow> Session" where
  "claimRun s runID = (case s_runs s of None \<Rightarrow> s | Some r \<Rightarrow> s\<lparr>s_runs := Some (claim r (s_id s) runID)\<rparr>)"

definition foreignRun :: "Session \<Rightarrow> bytes \<Rightarrow> bool" where
  "foreignRun s run = (case s_runs s of None \<Rightarrow> False | Some r \<Rightarrow> foreign r run (s_id s))"

definition adoptRun :: "Session \<Rightarrow> bytes \<Rightarrow> bool \<Rightarrow> nat list \<times> terminalState option \<times> Session" where
  "adoptRun s runID queued =
     (let s1 = s\<lparr>s_reservations := s_reservations s - 1, s_readers := s_readers s + 1, s_nextSerial := s_nextSerial s + 1,
                 s_serials := al_put runID (s_nextSerial s + 1) (s_serials s),
                 s_finished := (s_finished s)(runID := False)\<rparr>
      in if \<not> queued then supersedeLocked (s1\<lparr>s_runID := runID\<rparr>) else ([], None, s1))"

definition adoptOrphan :: "Session \<Rightarrow> Session" where
  "adoptOrphan s = s\<lparr>s_readers := s_readers s + 1, s_nextSerial := s_nextSerial s + 1\<rparr>"

definition promoteCurrent :: "Session \<Rightarrow> bytes \<Rightarrow> Envelope \<Rightarrow> nat list \<times> terminalState option \<times> Session" where
  "promoteCurrent s runID e =
     (if terminal_work (env_Type e) \<noteq> None then ([], None, s)
      else if s_runID s = runID \<or> serial s runID \<le> serial s (s_runID s) then ([], None, s)
      else supersedeLocked (s\<lparr>s_runID := runID\<rparr>))"

definition releaseReservation :: "Session \<Rightarrow> nat list \<times> terminalState option \<times> Session" where
  "releaseReservation s =
     (let s1 = s\<lparr>s_reservations := s_reservations s - 1\<rparr>
      in if s_finishDue s1 \<and> s_readers s1 = 0 \<and> s_reservations s1 = 0
         then (cohort (s_deferred s1), s_pendingEnd s1, clear_end (del_subs (cohort (s_deferred s1)) s1))
         else ([], None, s1))"

text \<open>The flush of a cohort: the deferred subscribers, or all of them if none were deferred.\<close>

definition flush_cohort :: "Session \<Rightarrow> nat list \<times> Session" where
  "flush_cohort s =
     (case s_deferred s of
        None \<Rightarrow> detachRunSubsLocked s
      | Some is \<Rightarrow> (is, del_subs is s))"

text \<open>The end of a reader whose stream never named a run.\<close>

definition exit_unnamed :: "Session \<Rightarrow> nat list \<times> terminalState option \<times> Session" where
  "exit_unnamed s =
     (let s1 = s\<lparr>s_readers := s_readers s - 1\<rparr>
      in if s_readers s1 = 0 \<and> s_reservations s1 = 1
            \<and> (s_pendingEnd s1 \<noteq> None \<or> s_deferred s1 \<noteq> None \<or> s_finishDue s1 \<or> s_closed s1)
         then (case flush_cohort s1 of (is, s2) \<Rightarrow> (is, s_pendingEnd s1, clear_end s2))
         else ([], None, s1))"

text \<open>\<^verbatim>\<open>exitReader\<close>: the subscribers exposed to a failed run, the cohort that ends with the
  session's last reader, what the cohort is told, and the session.\<close>

definition exitReader :: "Session \<Rightarrow> bytes \<Rightarrow> terminalState option \<Rightarrow> nat list \<times> nat list \<times> terminalState option \<times> Session" where
  "exitReader s runID end =
     (let s1 = s\<lparr>s_readers := s_readers s - 1, s_finished := (s_finished s)(runID := True)\<rparr>
      in if end = None \<and> \<not> s_closed s1 \<and> s_pendingEnd s1 = None \<and> s_deferred s1 = None \<and> \<not> s_finishDue s1
         then ([], [], None, s1)
         else
           let (exposed, s2) = (if failed_end end \<and> s_runID s1 \<noteq> runID then detachExposedLocked s1 runID else ([], s1));
               s3 = (if s_runID s1 = runID then s2\<lparr>s_pendingEnd := end, s_deferred := Some (snapshotSubsLocked s2)\<rparr> else s2)
           in if 0 < s_readers s3 then (exposed, [], None, s3)
              else if 0 < s_reservations s3
              then (exposed, [], None, s3\<lparr>s_finishDue := True,
                      s_deferred := (if s_deferred s3 = None then Some (snapshotSubsLocked s3) else s_deferred s3)\<rparr>)
              else if s_runID s1 \<noteq> runID
              then (case flush_cohort s3 of (is, s4) \<Rightarrow>
                      (exposed, is, s_pendingEnd s3, s4\<lparr>s_pendingEnd := None, s_deferred := None\<rparr>))
              else (case detachRunSubsLocked (s3\<lparr>s_pendingEnd := None, s_deferred := None\<rparr>) of (is, s4) \<Rightarrow>
                      (exposed, is, end, s4)))"

text \<open>The runs that started after a run, in the order of their serial numbers.\<close>

definition laterRuns :: "Session \<Rightarrow> bytes \<Rightarrow> bytes list" where
  "laterRuns s runID =
     (if serial s runID = 0 then []
      else map fst (sort_key snd (filter (\<lambda>(run, n). serial s runID < n) (s_serials s))))"

section \<open>The gate of a session\<close>

definition gateServedLocked :: "Session \<Rightarrow> publicationGate \<Rightarrow> bool" where
  "gateServedLocked s gate =
     (if pg_unnamed gate then 0 < s_readers s
      else (\<exists>run \<in> set (pg_runs gate). serial s run \<noteq> 0 \<and> \<not> s_finished s run))"

definition armGateFor :: "Session \<Rightarrow> bytes \<Rightarrow> bytes \<Rightarrow> bytes \<Rightarrow> nat \<times> Session" where
  "armGateFor s run task request =
     (let g = s_ngate s;
          gate = cover (gate_zero\<lparr>pg_request := request, pg_task := task, pg_boundary := s_sequences s run\<rparr>) run
      in (g, (upd_gate s g gate)\<lparr>s_ngate := Suc g, s_gate := Some g\<rparr>))"

definition releaseToBoundary :: "json_api \<Rightarrow> int \<Rightarrow> Session \<Rightarrow> nat \<Rightarrow> seq \<Rightarrow> Session" where
  "releaseToBoundary js now s g boundary =
     (if s_gate s \<noteq> Some g then s
      else case split_gate (s_gates s g) boundary of (prefix, rest) \<Rightarrow>
        foldl (deliverLocked js now) (upd_gate s g ((s_gates s g)\<lparr>pg_withheld := rest, pg_boundary := boundary\<rparr>)) prefix)"

definition liftGate :: "json_api \<Rightarrow> int \<Rightarrow> Session \<Rightarrow> nat \<Rightarrow> Session" where
  "liftGate js now s g =
     (if s_gate s \<noteq> Some g then s
      else foldl (deliverLocked js now)
             (upd_gate (s\<lparr>s_gate := None\<rparr>) g ((finishDrain (s_gates s g))\<lparr>pg_withheld := []\<rparr>))
             (pg_withheld (s_gates s g)))"

definition retargetGate :: "Session \<Rightarrow> nat \<Rightarrow> bytes \<Rightarrow> Session" where
  "retargetGate s g run =
     (if run = [] then s else if s_gate s = Some g then upd_gate s g (cover (s_gates s g) run) else s)"

definition drainingGate :: "Session \<Rightarrow> bytes \<Rightarrow> nat option" where
  "drainingGate s run =
     (case s_gate s of
        None \<Rightarrow> None
      | Some g \<Rightarrow> if drainPending (s_gates s g) \<and> covers (s_gates s g) run then Some g else None)"

definition steerDrainBatch :: nat where "steerDrainBatch = 64"

section \<open>Closing\<close>

definition drop_failed :: "Session \<Rightarrow> nat list \<times> terminalState option \<times> Session" where
  "drop_failed s =
     (if failed_end (s_pendingEnd s)
      then (cohort (s_deferred s), s_pendingEnd s, (del_subs (cohort (s_deferred s)) s)\<lparr>s_pendingEnd := None\<rparr>)
      else ([], None, s))"

definition drop_gate :: "json_api \<Rightarrow> int \<Rightarrow> Session \<Rightarrow> Session" where
  "drop_gate js now s = (case s_gate s of None \<Rightarrow> s | Some g \<Rightarrow> liftGate js now s g)"

text \<open>The locked section of \<^verbatim>\<open>markClosed\<close>: whether \<^verbatim>\<open>finishSubs\<close> follows, the subscribers that
  learn of a failed run and of which failure, and the session.\<close>

definition markClosed :: "json_api \<Rightarrow> int \<Rightarrow> Session \<Rightarrow> bool \<times> nat list \<times> terminalState option \<times> Session" where
  "markClosed js now s =
     (let s1 = drop_gate js now (s\<lparr>s_sessionEventsStop := True, s_closed := True,
                  s_runs := map_option (\<lambda>r. release r (s_id s)) (s_runs s)\<rparr>)
      in if 0 < s_readers s1
         then (case drop_failed s1 of (errored, failed, s2) \<Rightarrow>
                 (False, errored, failed, s2\<lparr>s_deferred := Some (snapshotSubsLocked s2)\<rparr>))
         else if 0 < s_reservations s1
         then (case drop_failed s1 of (errored, failed, s2) \<Rightarrow>
                 (False, errored, failed, s2\<lparr>s_finishDue := True, s_deferred := Some (snapshotSubsLocked s2)\<rparr>))
         else (True, [], None, s1))"

text \<open>\<^verbatim>\<open>failSessionEvents\<close>: the subscribers that are stopped, and the session.\<close>

definition failSessionEvents :: "Session \<Rightarrow> base_error \<Rightarrow> nat list \<times> Session" where
  "failSessionEvents s err =
     (if s_closed s then ([], s)
      else let s1 = s\<lparr>s_sessionEventErr := Some err\<rparr>
           in if s_closing s1 then ([], s1) else detachSubsLocked s1)"

definition beginClose :: "Session \<Rightarrow> Session" where
  "beginClose s = s\<lparr>s_closing := True\<rparr>"

section \<open>Goroutines\<close>

record SubmitRequest =
  sm_SessionID :: bytes
  sm_Delivery :: bytes
  sm_TargetRunID :: bytes
  sm_Messages :: "proto_Message list"
  sm_EnvelopeID :: bytes

record SubmitResponse =
  sr_Admission :: bytes
  sr_RunID :: bytes
  sr_TargetSequence :: "seq option"

datatype gate_use = ForSteer SubmitRequest | ForCancel | ForTask bytes

datatype (plugins only: code size) action =
    Submit SubmitRequest | CallSubmit SubmitRequest | Compact bytes bool | CallCompact
  | RecordSubmitted "proto_Message list" bytes | ClaimRun bytes | AdoptRun bytes bool | AdoptOrphan | ReleaseReservation
  | NextResult bytes nat | ReceiveResult bytes nat | DrainGate bytes nat nat nat | FinishDrain nat
  | BindResult bytes nat Envelope "base_error option" | HandleResult bytes nat Envelope "base_error option"
  | Publish Envelope | WaitGateLifted bytes | ExitRun bytes nat "terminalState option"
  | SubmitSteer SubmitRequest | CheckForeign SubmitRequest bytes | ArmGate bytes bytes bytes gate_use
  | ReserveSteer SubmitRequest nat | CallSteer SubmitRequest nat | RetargetGate nat bytes | RequestDrain nat
  | AwaitDrain nat int | ReleaseToBoundary nat "seq option" | LiftGate nat | Published bytes
  | CallCancel nat | CallCancelTask nat bytes
  | MarkClosed | FinishSubs | Release | BeginClose | CallClose nat | CancelRuns nat | FailedClose
  | SessionEvents | FailSessionEvents base_error | PublishSessionEvent Envelope
  | Unsubscribe nat | Stop nat "terminalState option" | StopRun nat "terminalState option"

datatype input =
    Go | Done | Timeout | Received Envelope "base_error option" | StreamClosed | NothingReady
  | Answered SubmitResponse bool "base_error option"

text \<open>The stream of a run: what it brings after its reader has checked the gate.\<close>

definition ended :: "bytes \<Rightarrow> nat \<Rightarrow> terminalState option \<Rightarrow> action list" where
  "ended run reserved e = [WaitGateLifted run, ExitRun run reserved e]"

definition error_end :: "base_error \<Rightarrow> terminalState" where
  "error_end err = \<lparr>te_overflow = False, te_run = [], te_err = Some err\<rparr>"

definition stop_runs :: "nat list \<Rightarrow> terminalState option \<Rightarrow> action list" where
  "stop_runs is state = map (\<lambda>i. StopRun i state) is"

text \<open>What follows the adapter's answer to a submission, a steering submission and a
  compaction.\<close>

definition close_if :: "base_error option \<Rightarrow> action list" where
  "close_if err = (if err = Some ErrSessionClosed then [MarkClosed] else [])"

definition after_submit :: "SubmitRequest option \<Rightarrow> SubmitResponse \<Rightarrow> bool \<Rightarrow> base_error option \<Rightarrow> action list" where
  "after_submit sm adm stream err =
     (if err \<noteq> None then (if stream then AdoptOrphan else ReleaseReservation) # close_if err
      else (case sm of Some m \<Rightarrow> [RecordSubmitted (sm_Messages m) (sr_RunID adm)] | None \<Rightarrow> []) @
           (if sm \<noteq> None \<and> sr_Admission adm = ''steered'' then [ReleaseReservation]
            else [ClaimRun (sr_RunID adm), AdoptRun (sr_RunID adm) (sr_Admission adm = ''queued'')]))"

definition after_steer :: "SubmitRequest \<Rightarrow> nat \<Rightarrow> SubmitResponse \<Rightarrow> bool \<Rightarrow> base_error option \<Rightarrow> action list" where
  "after_steer sm g adm stream err =
     [RetargetGate g (sr_RunID adm), RequestDrain g] @
     (case err of
        Some e \<Rightarrow>
          (case e of InvalidSteerTarget run target \<Rightarrow> [RetargetGate g run, ReleaseToBoundary g target]
                   | _ \<Rightarrow> [ReleaseToBoundary g None]) @
          [if stream then AdoptOrphan else ReleaseReservation] @ close_if err
      | None \<Rightarrow> [ReleaseToBoundary g (sr_TargetSequence adm), RecordSubmitted (sm_Messages sm) (sr_RunID adm),
                 if stream then AdoptOrphan else ReleaseReservation])"

type_synonym turned = "(Session \<times> action list \<times> action list list) option"

text \<open>The end of a section: the actions that follow in the same goroutine.\<close>

definition next_do :: "Session \<Rightarrow> action list \<Rightarrow> turned" where
  "next_do s as = Some (s, as, [])"

definition next_stop :: "nat list \<times> terminalState option \<times> Session \<Rightarrow> action list \<Rightarrow> turned" where
  "next_stop r as = (case r of (is, state, s) \<Rightarrow> next_do s (stop_runs is state @ as))"

definition answered :: "input \<Rightarrow> (SubmitResponse \<Rightarrow> bool \<Rightarrow> base_error option \<Rightarrow> turned) \<Rightarrow> turned" where
  "answered inp f = (case inp of Answered adm stream err \<Rightarrow> f adm stream err | _ \<Rightarrow> None)"

definition gave_up :: "input \<Rightarrow> bool" where
  "gave_up inp = (case inp of Done \<Rightarrow> True | _ \<Rightarrow> False)"

definition timed_out :: "input \<Rightarrow> bool" where
  "timed_out inp = (case inp of Timeout \<Rightarrow> True | _ \<Rightarrow> False)"

text \<open>The sections of the requests.\<close>

definition submit_turn :: "SubmitRequest \<Rightarrow> Session \<Rightarrow> turned" where
  [simp]: "submit_turn sm s =
     (if sm_SessionID sm \<noteq> s_id s then next_do s []
      else if sm_Delivery sm = ''steer'' then next_do s [SubmitSteer sm]
      else next_do (s\<lparr>s_reservations := s_reservations s + 1\<rparr>) [CallSubmit sm])"

definition compact_turn :: "bytes \<Rightarrow> bool \<Rightarrow> Session \<Rightarrow> turned" where
  [simp]: "compact_turn sid compactor s =
     (if sid \<noteq> s_id s \<or> \<not> compactor then next_do s []
      else next_do (s\<lparr>s_reservations := s_reservations s + 1\<rparr>) [CallCompact])"

definition adopt_turn :: "bytes \<Rightarrow> bool \<Rightarrow> Session \<Rightarrow> turned" where
  [simp]: "adopt_turn run queued s =
     (case adoptRun s run queued of (is, state, s1) \<Rightarrow> Some (s1, stop_runs is state, [[NextResult run 0]]))"

definition submitSteer :: "SubmitRequest \<Rightarrow> Session \<Rightarrow> turned" where
  [simp]: "submitSteer sm s =
     next_do s [CheckForeign sm (if sm_TargetRunID sm = [] then s_runID s else sm_TargetRunID sm)]"

definition steer_check :: "SubmitRequest \<Rightarrow> bytes \<Rightarrow> Session \<Rightarrow> turned" where
  [simp]: "steer_check sm target s =
     (if foreignRun s target then next_do s [] else next_do s [ArmGate target [] (sm_EnvelopeID sm) (ForSteer sm)])"

definition arm_turn :: "input \<Rightarrow> bytes \<Rightarrow> bytes \<Rightarrow> bytes \<Rightarrow> gate_use \<Rightarrow> Session \<Rightarrow> turned" where
  [simp]: "arm_turn inp run task request use s =
     (if s_gate s \<noteq> None then (if gave_up inp then next_do s [] else None)
      else if s_closed s then next_do s []
      else case armGateFor s run task request of (g, s1) \<Rightarrow>
        Some (s1, [case use of ForSteer sm \<Rightarrow> ReserveSteer sm g | ForCancel \<Rightarrow> CallCancel g
                             | ForTask t \<Rightarrow> CallCancelTask g t], [[LiftGate g]]))"

definition awaitDrain :: "input \<Rightarrow> nat \<Rightarrow> int \<Rightarrow> Session \<Rightarrow> turned" where
  [simp]: "awaitDrain inp g readers s =
     (if readers = 0 then next_do s []
      else if s_gate s = Some g \<and> gateServedLocked s (s_gates s g) \<and> \<not> pg_drained (s_gates s g) \<and> \<not> timed_out inp then None
      else next_do s [])"

definition published_turn :: "bytes \<Rightarrow> Session \<Rightarrow> turned" where
  [simp]: "published_turn request s =
     (case s_gate s of
        None \<Rightarrow> next_do s []
      | Some g \<Rightarrow> if pg_request (s_gates s g) \<noteq> request then next_do s [] else next_do s [LiftGate g])"

definition CancelAndHold :: "input \<Rightarrow> nat \<Rightarrow> Session \<Rightarrow> turned" where
  [simp]: "CancelAndHold inp g s =
     answered inp (\<lambda>adm stream err.
     next_do s (if err \<noteq> None then [LiftGate g] else []))"

definition CancelTaskAndHold :: "input \<Rightarrow> nat \<Rightarrow> bytes \<Rightarrow> Session \<Rightarrow> turned" where
  [simp]: "CancelTaskAndHold inp g task s =
     (if s_closed s \<or> s_closing s \<or> task = [] then next_do s [LiftGate g]
      else answered inp (\<lambda>adm stream err. next_do s (if err \<noteq> None then [LiftGate g] else [])))"

text \<open>The sections of the goroutine that reads the stream of a run.\<close>

definition nextResult :: "bytes \<Rightarrow> nat \<Rightarrow> Session \<Rightarrow> turned" where
  [simp]: "nextResult run reserved s =
     (case drainingGate s run of
        Some g \<Rightarrow> next_do s [DrainGate run reserved g 0]
      | None \<Rightarrow> next_do s [ReceiveResult run reserved])"

definition receive_turn :: "input \<Rightarrow> bytes \<Rightarrow> nat \<Rightarrow> Session \<Rightarrow> turned" where
  [simp]: "receive_turn inp run reserved s =
     (case inp of
        Received e err \<Rightarrow> next_do s [BindResult run reserved e err]
      | StreamClosed \<Rightarrow> next_do s (ended run reserved None)
      | Go \<Rightarrow> next_do s [NextResult run reserved]
      | _ \<Rightarrow> None)"

definition drainGate :: "json_api \<Rightarrow> int \<Rightarrow> input \<Rightarrow> bytes \<Rightarrow> nat \<Rightarrow> nat \<Rightarrow> nat \<Rightarrow> Session \<Rightarrow> turned" where
  [simp]: "drainGate js now inp run reserved g n s =
     (if steerDrainBatch \<le> n then next_do s [FinishDrain g, NextResult run reserved]
      else case inp of
        Received e None \<Rightarrow> next_do (publish js now s e) [DrainGate run reserved g (Suc n)]
      | Received e (Some err) \<Rightarrow> next_do s [FinishDrain g, BindResult run reserved e (Some err)]
      | StreamClosed \<Rightarrow> next_do s (FinishDrain g # ended run reserved None)
      | NothingReady \<Rightarrow> next_do s [FinishDrain g, NextResult run reserved]
      | _ \<Rightarrow> None)"

definition bind_turn :: "bytes \<Rightarrow> nat \<Rightarrow> Envelope \<Rightarrow> base_error option \<Rightarrow> Session \<Rightarrow> turned" where
  [simp]: "bind_turn run reserved e err s =
     (if run = [] \<and> env_RunID e \<noteq> []
      then next_stop (bindRun s (env_RunID e) reserved) [HandleResult (env_RunID e) reserved e err]
      else next_do s [HandleResult run reserved e err])"

definition handle_turn :: "bytes \<Rightarrow> nat \<Rightarrow> Envelope \<Rightarrow> base_error option \<Rightarrow> Session \<Rightarrow> turned" where
  [simp]: "handle_turn run reserved e err s =
     (case err of
        Some ErrEventStreamOverflow \<Rightarrow>
          (case detachExposedLocked s run of (is, s1) \<Rightarrow>
             next_stop (is, Some \<lparr>te_overflow = True, te_run = run, te_err = None\<rparr>, s1) [NextResult run reserved])
      | Some x \<Rightarrow> next_do s (ended run reserved (Some (error_end x)))
      | None \<Rightarrow> next_stop (promoteCurrent s run e) [Publish e, NextResult run reserved])"

definition waitGateLifted :: "bytes \<Rightarrow> Session \<Rightarrow> turned" where
  [simp]: "waitGateLifted run s =
     (case s_gate s of
        None \<Rightarrow> next_do s []
      | Some g \<Rightarrow>
          if covers (s_gates s g) run
          then next_do (if drainPending (s_gates s g) then upd_gate s g (finishDrain (s_gates s g)) else s) [WaitGateLifted run]
          else next_do s [])"

definition exit_turn :: "bytes \<Rightarrow> nat \<Rightarrow> terminalState option \<Rightarrow> Session \<Rightarrow> turned" where
  [simp]: "exit_turn run reserved e s =
     (if 0 < reserved \<and> run = [] then next_stop (exit_unnamed s) [ReleaseReservation]
      else case exitReader s run e of (exposed, is, state, s1) \<Rightarrow> next_do s1 (stop_runs exposed e @ stop_runs is state))"

text \<open>The sections of closing and of the events of the session.\<close>

definition close_turn :: "json_api \<Rightarrow> int \<Rightarrow> Session \<Rightarrow> turned" where
  [simp]: "close_turn js now s =
     (case markClosed js now s of (finish, errored, failed, s1) \<Rightarrow>
        next_do s1 ((if finish then [FinishSubs] else []) @ stop_runs errored failed @
                    (if \<not> s_closed s \<and> s_release s then [Release] else [])))"

definition closeForShutdown :: "input \<Rightarrow> nat \<Rightarrow> Session \<Rightarrow> turned" where
  [simp]: "closeForShutdown inp attempts s =
     answered inp (\<lambda>adm stream err.
     next_do s (case err of
        None \<Rightarrow> [MarkClosed]
      | Some ErrRunActive \<Rightarrow> if 0 < attempts then [CancelRuns (attempts - 1)] else [FailedClose]
      | Some x \<Rightarrow> [FailedClose]))"

definition cancel_runs_turn :: "input \<Rightarrow> nat \<Rightarrow> Session \<Rightarrow> turned" where
  [simp]: "cancel_runs_turn inp attempts s =
     (if gave_up inp then next_do s [FailedClose] else next_do s [CallClose attempts])"

definition failedClose :: "Session \<Rightarrow> turned" where
  [simp]: "failedClose s =
     next_do (s\<lparr>s_closing := False\<rparr>) (case s_sessionEventErr s of Some e \<Rightarrow> [FailSessionEvents e] | None \<Rightarrow> [])"

definition startSessionEvents :: "json_api \<Rightarrow> int \<Rightarrow> input \<Rightarrow> Session \<Rightarrow> turned" where
  [simp]: "startSessionEvents js now inp s =
     (case inp of
        Done \<Rightarrow> if s_sessionEventsStop s then next_do s [] else None
      | StreamClosed \<Rightarrow> next_do s [FailSessionEvents ErrUnexpectedEOF]
      | Received e (Some err) \<Rightarrow> next_do s [FailSessionEvents err]
      | Received e None \<Rightarrow>
          (if \<not> session_event s e then next_do s [FailSessionEvents (OtherError ''serve: invalid session-scoped event'')]
           else if s_closed s then next_do s []
           else next_do (publishSessionEventLocked js now s e) [SessionEvents])
      | _ \<Rightarrow> None)"

definition publish_session_turn :: "json_api \<Rightarrow> int \<Rightarrow> Envelope \<Rightarrow> Session \<Rightarrow> turned" where
  [simp]: "publish_session_turn js now e s =
     (if \<not> session_event s e \<or> s_closed s then next_do s [] else next_do (publishSessionEventLocked js now s e) [])"

text \<open>One turn: requests, then the reader of a run's stream, then closing, session events and
  the subscribers.\<close>

primrec turn :: "json_api \<Rightarrow> int \<Rightarrow> input \<Rightarrow> action \<Rightarrow> Session \<Rightarrow> turned" where
  "turn js now inp (Submit sm) s = submit_turn sm s"
| "turn js now inp (CallSubmit sm) s =
     answered inp (\<lambda>adm stream err.
     next_do s (after_submit (Some sm) adm stream err))"
| "turn js now inp (Compact sid compactor) s = compact_turn sid compactor s"
| "turn js now inp CallCompact s =
     answered inp (\<lambda>adm stream err.
     next_do s (after_submit None adm stream err))"
| "turn js now inp (RecordSubmitted messages run) s =
     next_do (s\<lparr>s_work := recordSubmitted js (s_work s) messages run now\<rparr>) []"
| "turn js now inp (ClaimRun run) s =
     next_do (claimRun s run) []"
| "turn js now inp (AdoptRun run queued) s = adopt_turn run queued s"
| "turn js now inp AdoptOrphan s =
     (let s1 = adoptOrphan s in Some (s1, [], [[NextResult [] (s_nextSerial s1)]]))"
| "turn js now inp ReleaseReservation s =
     next_stop (releaseReservation s) []"
| "turn js now inp (SubmitSteer sm) s = submitSteer sm s"
| "turn js now inp (CheckForeign sm target) s = steer_check sm target s"
| "turn js now inp (ArmGate run task request use) s = arm_turn inp run task request use s"
| "turn js now inp (ReserveSteer sm g) s =
     next_do (s\<lparr>s_reservations := s_reservations s + 1\<rparr>) [CallSteer sm g]"
| "turn js now inp (CallSteer sm g) s =
     answered inp (\<lambda>adm stream err.
     next_do s (after_steer sm g adm stream err))"
| "turn js now inp (RetargetGate g run) s =
     next_do (retargetGate s g run) []"
| "turn js now inp (RequestDrain g) s =
     next_do (upd_gate s g (markDrainRequested (s_gates s g))) [AwaitDrain g (s_readers s)]"
| "turn js now inp (AwaitDrain g readers) s = awaitDrain inp g readers s"
| "turn js now inp (ReleaseToBoundary g target) s =
     next_do (releaseToBoundary js now s g (case target of Some n \<Rightarrow> n | None \<Rightarrow> pg_boundary (s_gates s g))) []"
| "turn js now inp (LiftGate g) s =
     next_do (liftGate js now s g) []"
| "turn js now inp (Published request) s = published_turn request s"
| "turn js now inp (CallCancel g) s = CancelAndHold inp g s"
| "turn js now inp (CallCancelTask g task) s = CancelTaskAndHold inp g task s"
| "turn js now inp (NextResult run reserved) s = nextResult run reserved s"
| "turn js now inp (ReceiveResult run reserved) s = receive_turn inp run reserved s"
| "turn js now inp (DrainGate run reserved g n) s = drainGate js now inp run reserved g n s"
| "turn js now inp (FinishDrain g) s =
     next_do (upd_gate s g (finishDrain (s_gates s g))) []"
| "turn js now inp (BindResult run reserved e err) s = bind_turn run reserved e err s"
| "turn js now inp (HandleResult run reserved e err) s = handle_turn run reserved e err s"
| "turn js now inp (Publish e) s =
     next_do (publish js now s e) []"
| "turn js now inp (WaitGateLifted run) s = waitGateLifted run s"
| "turn js now inp (ExitRun run reserved e) s = exit_turn run reserved e s"
| "turn js now inp MarkClosed s = close_turn js now s"
| "turn js now inp FinishSubs s =
     (case detachSubsLocked s of (is, s1) \<Rightarrow> next_do s1 (map (\<lambda>i. Stop i None) is))"
| "turn js now inp Release s =
     next_do (s\<lparr>s_released := Suc (s_released s)\<rparr>) []"
| "turn js now inp BeginClose s =
     next_do (beginClose s) []"
| "turn js now inp (CallClose attempts) s = closeForShutdown inp attempts s"
| "turn js now inp (CancelRuns attempts) s = cancel_runs_turn inp attempts s"
| "turn js now inp FailedClose s = failedClose s"
| "turn js now inp SessionEvents s = startSessionEvents js now inp s"
| "turn js now inp (FailSessionEvents err) s =
     (case failSessionEvents s err of (is, s1) \<Rightarrow> next_do s1 (map (\<lambda>i. Stop i (Some (error_end err))) is))"
| "turn js now inp (PublishSessionEvent e) s = publish_session_turn js now e s"
| "turn js now inp (Unsubscribe i) s =
     next_do (unsubscribe s i) []"
| "turn js now inp (Stop i state) s =
     next_do (upd_sub s i (stop (s_sub s i) state)) []"
| "turn js now inp (StopRun i state) s =
     next_do (upd_sub s i (stopRun (s_sub s i) state)) []"

section \<open>Every interleaving\<close>

text \<open>The calls that start a goroutine: the requests, the answer of the adapter that its session
  is closed, \<^verbatim>\<open>EndSubscriptions\<close>, the goroutine of session events and \<^verbatim>\<open>Subscription.detach\<close>.
  A shutdown tries to close at most four times, a request once.\<close>

inductive called :: "action list \<Rightarrow> bool" where
  "called [Submit sm]"
| "called [Compact sid compactor]"
| "called [ArmGate run [] request ForCancel]"
| "called [ArmGate [] task request (ForTask task)]"
| "called [Published request]"
| "called [MarkClosed]"
| "called [FinishSubs]"
| "attempts \<in> {0, 3} \<Longrightarrow> called [BeginClose, CallClose attempts]"
| "called [SessionEvents]"
| "called [PublishSessionEvent e]"
| "called [Unsubscribe i, Stop i None]"

text \<open>\<open>adm\<close> says which inputs the outside may bring; only a subscriber that exists unsubscribes.\<close>

inductive serve_step :: "json_api \<Rightarrow> (Session \<Rightarrow> action \<Rightarrow> input \<Rightarrow> bool) \<Rightarrow>
    Session \<times> action list multiset \<Rightarrow> Session \<times> action list multiset \<Rightarrow> bool" for js adm where
  takes_turn: "turn js now inp a s = Some (s1, as, spawned) \<Longrightarrow> adm s a inp \<Longrightarrow>
    serve_step js adm (s, add_mset (a # rest) M) (s1, add_mset (as @ rest) (mset spawned + M))"
| calls: "called t \<Longrightarrow> (\<forall>i. Unsubscribe i \<in> set t \<longrightarrow> i < s_nsub s) \<Longrightarrow> serve_step js adm (s, M) (s, add_mset t M)"
| subscribes: "subscribe s queue only = Some (i, run, at, s1) \<Longrightarrow> 0 < queue \<Longrightarrow> serve_step js adm (s, M) (s1, M)"
| consumes: "sb_ch (s_sub s i) = e # es \<Longrightarrow> serve_step js adm (s, M) (upd_sub s i ((s_sub s i)\<lparr>sb_ch := es\<rparr>), M)"
| acknowledges: "serve_step js adm (s, M) (upd_sub s i (acknowledge (s_sub s i) run), M)"
| untracks: "serve_step js adm (s, M) (upd_sub s i (untrack (s_sub s i) run), M)"
| others: "s_runs s = Some r \<Longrightarrow> serve_step js adm (s, M) (s\<lparr>s_runs := Some r'\<rparr>, M)"

inductive serving :: "json_api \<Rightarrow> (Session \<Rightarrow> action \<Rightarrow> input \<Rightarrow> bool) \<Rightarrow> Session \<times> action list multiset \<Rightarrow> bool"
  for js adm where
  opened: "serving js adm (newSession sid rel runs, {#})"
| steps: "serving js adm c \<Longrightarrow> serve_step js adm c c1 \<Longrightarrow> serving js adm c1"

end
