(* ===== verification/Serve_Counts.thy ===== *)
theory Serve_Counts
  imports Serve_Session
begin

text \<open>
  What the sections of a server session leave alone, and that its counters of readers and of
  reservations are the readers and the reservations there are, over every interleaving.
\<close>

section \<open>What the sections leave alone\<close>

lemma upd_simps [serve_simps]:
  "s_subs (upd_sub s i v) = s_subs s" "s_sub (upd_sub s i v) = (s_sub s)(i := v)"
  "s_readers (upd_sub s i v) = s_readers s" "s_reservations (upd_sub s i v) = s_reservations s"
  "s_closed (upd_sub s i v) = s_closed s" "s_deferred (upd_sub s i v) = s_deferred s"
  "s_finishDue (upd_sub s i v) = s_finishDue s" "s_pendingEnd (upd_sub s i v) = s_pendingEnd s"
  "s_gate (upd_sub s i v) = s_gate s" "s_gates (upd_sub s i v) = s_gates s" "s_ngate (upd_sub s i v) = s_ngate s"
  "s_nsub (upd_sub s i v) = s_nsub s" "s_delivered (upd_sub s i v) = s_delivered s"
  "s_published (upd_sub s i v) = s_published s" "s_release (upd_sub s i v) = s_release s"
  "s_released (upd_sub s i v) = s_released s"
  by (simp_all add: upd_sub_def)

lemma gate_simps [serve_simps]:
  "s_subs (upd_gate s g v) = s_subs s" "s_sub (upd_gate s g v) = s_sub s"
  "s_readers (upd_gate s g v) = s_readers s" "s_reservations (upd_gate s g v) = s_reservations s"
  "s_closed (upd_gate s g v) = s_closed s" "s_deferred (upd_gate s g v) = s_deferred s"
  "s_finishDue (upd_gate s g v) = s_finishDue s" "s_pendingEnd (upd_gate s g v) = s_pendingEnd s"
  "s_gate (upd_gate s g v) = s_gate s" "s_gates (upd_gate s g v) = (s_gates s)(g := v)" "s_ngate (upd_gate s g v) = s_ngate s"
  "s_nsub (upd_gate s g v) = s_nsub s" "s_delivered (upd_gate s g v) = s_delivered s"
  "s_published (upd_gate s g v) = s_published s" "s_release (upd_gate s g v) = s_release s"
  "s_released (upd_gate s g v) = s_released s"
  by (simp_all add: upd_gate_def)

lemma del_simps [serve_simps]:
  "s_subs (del_subs is s) = filter (\<lambda>i. i \<notin> set is) (s_subs s)" "s_sub (del_subs is s) = s_sub s"
  "s_readers (del_subs is s) = s_readers s" "s_reservations (del_subs is s) = s_reservations s"
  "s_closed (del_subs is s) = s_closed s" "s_deferred (del_subs is s) = s_deferred s"
  "s_finishDue (del_subs is s) = s_finishDue s" "s_pendingEnd (del_subs is s) = s_pendingEnd s"
  "s_gate (del_subs is s) = s_gate s" "s_gates (del_subs is s) = s_gates s" "s_ngate (del_subs is s) = s_ngate s"
  "s_nsub (del_subs is s) = s_nsub s" "s_delivered (del_subs is s) = s_delivered s"
  "s_published (del_subs is s) = s_published s" "s_release (del_subs is s) = s_release s"
  "s_released (del_subs is s) = s_released s" "s_runID (del_subs is s) = s_runID s"
  by (simp_all add: del_subs_def)

text \<open>Delivery changes the subscribers, and what it records.\<close>

definition same_ends :: "Session \<Rightarrow> Session \<Rightarrow> bool" where
  "same_ends s t \<longleftrightarrow> s_readers t = s_readers s \<and> s_reservations t = s_reservations s \<and> s_closed t = s_closed s
     \<and> s_deferred t = s_deferred s \<and> s_finishDue t = s_finishDue s \<and> s_pendingEnd t = s_pendingEnd s
     \<and> s_nsub t = s_nsub s \<and> s_release t = s_release s \<and> s_released t = s_released s"

lemma same_ends_refl [simp]: "same_ends s s"
  by (simp add: same_ends_def)

lemma same_ends_trans: "same_ends s t \<Longrightarrow> same_ends t u \<Longrightarrow> same_ends s u"
  by (simp add: same_ends_def)

lemma deliver_to_ends: "same_ends s (deliver_to e s i)"
  by (simp add: deliver_to_def Let_def same_ends_def serve_simps)

lemma fold_deliver_to_ends: "same_ends s (foldl (deliver_to e) s is)"
  by (induction "is" arbitrary: s) (auto intro: same_ends_trans[OF deliver_to_ends])

lemma deliverLocked_ends: "same_ends s (deliverLocked js now s e)"
  unfolding deliverLocked_def Let_def
  by (rule same_ends_trans[OF _ fold_deliver_to_ends]) (auto simp: same_ends_def split: option.split)

lemma fold_deliver_ends: "same_ends s (foldl (deliverLocked js now) s es)"
  by (induction es arbitrary: s) (auto intro: same_ends_trans[OF deliverLocked_ends])

section \<open>Readers and reservations are counted right\<close>

text \<open>The reader and the reservation an action stands for.\<close>

definition reader_of :: "action \<Rightarrow> nat" where
  "reader_of a = (case a of NextResult run n \<Rightarrow> 1 | ReceiveResult run n \<Rightarrow> 1 | DrainGate run n g k \<Rightarrow> 1
     | BindResult run n e err \<Rightarrow> 1 | HandleResult run n e err \<Rightarrow> 1 | ExitRun run n e \<Rightarrow> 1 | _ \<Rightarrow> 0)"

definition unnamed :: "bytes \<Rightarrow> nat" where
  "unnamed run = (if run = [] then 1 else 0)"

definition reserve_of :: "action \<Rightarrow> nat" where
  "reserve_of a = (case a of CallSubmit sm \<Rightarrow> 1 | CallCompact \<Rightarrow> 1 | CallSteer sm g \<Rightarrow> 1 | ReleaseReservation \<Rightarrow> 1
     | AdoptRun run q \<Rightarrow> 1 | AdoptOrphan \<Rightarrow> 1
     | NextResult run n \<Rightarrow> unnamed run | ReceiveResult run n \<Rightarrow> unnamed run | DrainGate run n g k \<Rightarrow> unnamed run
     | BindResult run n e err \<Rightarrow> unnamed run | HandleResult run n e err \<Rightarrow> unnamed run
     | ExitRun run n e \<Rightarrow> unnamed run | _ \<Rightarrow> 0)"

text \<open>An accepted submission names its run, and then so does its reader; the serial number that
  a reader without a name has reserved is not 0.\<close>

definition names_runs :: "Session \<Rightarrow> action \<Rightarrow> input \<Rightarrow> bool" where
  "names_runs s a inp =
     (case inp of
        Answered r stream err \<Rightarrow>
          (case a of
             CallSubmit sm \<Rightarrow> err = None \<and> sr_Admission r \<noteq> ''steered'' \<longrightarrow> sr_RunID r \<noteq> []
           | CallCompact \<Rightarrow> err = None \<longrightarrow> sr_RunID r \<noteq> []
           | _ \<Rightarrow> True)
      | _ \<Rightarrow> True)"

definition named_ok :: "action \<Rightarrow> bool" where
  "named_ok a = (case a of AdoptRun run q \<Rightarrow> run \<noteq> []
     | NextResult run n \<Rightarrow> run = [] \<longrightarrow> 0 < n | ReceiveResult run n \<Rightarrow> run = [] \<longrightarrow> 0 < n
     | DrainGate run n g k \<Rightarrow> run = [] \<longrightarrow> 0 < n
     | BindResult run n e err \<Rightarrow> run = [] \<longrightarrow> 0 < n | HandleResult run n e err \<Rightarrow> run = [] \<longrightarrow> 0 < n
     | ExitRun run n e \<Rightarrow> run = [] \<longrightarrow> 0 < n | _ \<Rightarrow> True)"

lemmas count_defs = reader_of_def reserve_of_def named_ok_def unnamed_def

definition load :: "(action \<Rightarrow> nat) \<Rightarrow> action list \<Rightarrow> nat" where
  "load w as = sum_list (map w as)"

definition loads :: "(action \<Rightarrow> nat) \<Rightarrow> action list multiset \<Rightarrow> nat" where
  "loads w M = sum_mset (image_mset (load w) M)"

lemma load_simps [simp]:
  "load w [] = 0" "load w (a # as) = w a + load w as" "load w (as @ bs) = load w as + load w bs"
  by (simp_all add: load_def)

lemma loads_simps [simp]:
  "loads w {#} = 0" "loads w (add_mset t M) = load w t + loads w M" "loads w (M + N) = loads w M + loads w N"
  by (simp_all add: loads_def)

lemma loads_mset [simp]: "loads w (mset ts) = sum_list (map (load w) ts)"
  by (simp add: loads_def flip: sum_mset_sum_list)

lemma load_stop_runs [simp]: "load reader_of (stop_runs is st) = 0" "load reserve_of (stop_runs is st) = 0"
  by (induction "is") (simp_all add: stop_runs_def count_defs)

lemma load_stops [simp]:
  "load reader_of (map (\<lambda>i. Stop i st) is) = 0" "load reserve_of (map (\<lambda>i. Stop i st) is) = 0"
  by (induction "is") (simp_all add: count_defs)

lemma mem_stop_runs [simp]: "x \<in> set (stop_runs is st) \<longleftrightarrow> (\<exists>i \<in> set is. x = StopRun i st)"
  by (auto simp: stop_runs_def)

section \<open>Sections and the counters\<close>

definition same_counts :: "Session \<Rightarrow> Session \<Rightarrow> bool" where
  "same_counts s t \<longleftrightarrow> s_readers t = s_readers s \<and> s_reservations t = s_reservations s"

lemma ends_counts: "same_ends s t \<Longrightarrow> same_counts s t"
  by (simp add: same_ends_def same_counts_def)

lemma publish_ends: "same_ends s (publish js now s e)"
  using deliverLocked_ends[of "s\<lparr>s_published := s_published s @ [e]\<rparr>" js now e]
  by (auto simp: publish_def same_ends_def withhold_def serve_simps Let_def split: option.split)

lemma session_event_ends: "same_ends s (publishSessionEventLocked js now s e)"
  using publish_ends[of "s\<lparr>s_stateSequence := s_stateSequence s + 1\<rparr>" js now]
  by (simp add: publishSessionEventLocked_def Let_def same_ends_def)

lemma liftGate_ends: "same_ends s (liftGate js now s g)"
  using fold_deliver_ends by (simp add: liftGate_def same_ends_def serve_simps)

lemma boundary_ends: "same_ends s (releaseToBoundary js now s g b)"
  using fold_deliver_ends by (simp add: releaseToBoundary_def split_gate_def same_ends_def serve_simps)

lemmas kept_ends [serve_simps] = publish_ends[unfolded same_ends_def] session_event_ends[unfolded same_ends_def]
  liftGate_ends[unfolded same_ends_def] boundary_ends[unfolded same_ends_def]

lemma supersede_counts: "supersedeLocked s = (is, st, t) \<Longrightarrow> same_counts s t"
  by (auto simp: supersedeLocked_def clear_end_def same_counts_def serve_simps split: if_splits)

lemma markClosed_counts:
  assumes "markClosed js now s = (fin, is, st, t)"
  shows "same_counts s t"
proof -
  define s0 where "s0 = s\<lparr>s_sessionEventsStop := True, s_closed := True,
                  s_runs := map_option (\<lambda>r. release r (s_id s)) (s_runs s)\<rparr>"
  have "same_counts s0 (drop_gate js now s0)"
    by (auto simp: drop_gate_def same_counts_def serve_simps split: option.split)
  then show ?thesis
    using assms unfolding markClosed_def Let_def s0_def[symmetric]
    by (auto simp: same_counts_def drop_failed_def serve_simps s0_def split: if_splits)
qed

lemma detach_counts: "detachExposedLocked s run = (is, t) \<Longrightarrow> same_counts s t" "flush_cohort s = (is, t) \<Longrightarrow> same_counts s t"
    "detachRunSubsLocked s = (is, t) \<Longrightarrow> same_counts s t" "detachSubsLocked s = (is, t) \<Longrightarrow> same_counts s t"
    "failSessionEvents s err = (is, t) \<Longrightarrow> same_counts s t"
  by (auto simp: detachExposedLocked_def flush_cohort_def detachRunSubsLocked_def detachSubsLocked_def
      failSessionEvents_def same_counts_def serve_simps Let_def split: if_splits option.splits)

lemma exitReader_counts:
  assumes "exitReader s run e = (exposed, is, st, t)"
  shows "s_readers t = s_readers s - 1 \<and> s_reservations t = s_reservations s"
  using assms detach_counts(1)[of "s\<lparr>s_readers := s_readers s - 1, s_finished := (s_finished s)(run := True)\<rparr>" run]
  by (auto simp: exitReader_def Let_def flush_cohort_def detachRunSubsLocked_def detachExposedLocked_def
      same_counts_def serve_simps split: if_splits option.splits prod.splits)

lemma exit_unnamed_counts:
  "exit_unnamed s = (is, st, t) \<Longrightarrow> s_readers t = s_readers s - 1 \<and> s_reservations t = s_reservations s"
  by (auto simp: exit_unnamed_def flush_cohort_def detachRunSubsLocked_def clear_end_def Let_def serve_simps
      split: if_splits option.splits)

lemma bindRun_counts:
  assumes "bindRun s run n = (is, st, t)" "0 < s_reservations s"
  shows "s_readers t = s_readers s \<and> s_reservations t = s_reservations s - 1"
  using assms by (auto simp: bindRun_def Let_def same_counts_def dest!: supersede_counts split: if_splits)

lemma adoptRun_counts:
  "adoptRun s run q = (is, st, t) \<Longrightarrow> s_readers t = s_readers s + 1 \<and> s_reservations t = s_reservations s - 1"
  by (auto simp: adoptRun_def Let_def same_counts_def dest!: supersede_counts split: if_splits)

lemma promote_counts: "promoteCurrent s run e = (is, st, t) \<Longrightarrow> same_counts s t"
  by (auto simp: promoteCurrent_def same_counts_def dest!: supersede_counts split: if_splits)

lemma release_counts:
  "releaseReservation s = (is, st, t) \<Longrightarrow> s_readers t = s_readers s \<and> s_reservations t = s_reservations s - 1"
  by (auto simp: releaseReservation_def clear_end_def Let_def serve_simps split: if_splits)

lemmas section_counts = exitReader_counts exit_unnamed_counts adoptRun_counts promote_counts release_counts
  detach_counts markClosed_counts

lemmas turn_defs = next_do_def next_stop_def answered_def ended_def

definition counted :: "Session \<Rightarrow> action \<Rightarrow> Session \<Rightarrow> action list \<Rightarrow> action list list \<Rightarrow> bool" where
  "counted s a t as sp \<longleftrightarrow>
     s_readers t + int (reader_of a) = s_readers s + int (load reader_of as + loads reader_of (mset sp))
   \<and> s_reservations t + int (reserve_of a) = s_reservations s + int (load reserve_of as + loads reserve_of (mset sp))
   \<and> (\<forall>b \<in> set as \<union> (\<Union>u \<in> set sp. set u). named_ok b)"

lemma turn_counted:
  assumes "turn js now inp a s = Some (t, as, sp)" "names_runs s a inp" "named_ok a" "int (reserve_of a) \<le> s_reservations s"
  shows "counted s a t as sp"
proof (cases a)
  case (BindResult run n e err)
  with assms show ?thesis
    by (auto simp: turn_defs counted_def count_defs dest!: bindRun_counts split: if_splits prod.splits)
next
  case (HandleResult run n e err)
  show ?thesis
  proof (cases "promoteCurrent s run e")
    case (fields "is" st t1)
    note promote_counts[OF this]
    with assms fields HandleResult show ?thesis
      by (auto simp: turn_defs counted_def count_defs same_counts_def detachExposedLocked_def serve_simps Let_def
          split: option.splits base_error.splits)
  qed
next
  case (CallSteer sm g)
  with assms show ?thesis
    by (auto simp: turn_defs counted_def count_defs after_steer_def close_if_def
        split: input.splits option.splits base_error.splits)
next
  case (CallSubmit sm)
  with assms show ?thesis
    by (auto simp: turn_defs counted_def count_defs after_submit_def close_if_def names_runs_def
        split: input.splits if_splits)
next
  case CallCompact
  with assms show ?thesis
    by (auto simp: turn_defs counted_def count_defs after_submit_def close_if_def names_runs_def
        split: input.splits if_splits)
next
  case (ArmGate run task request u)
  with assms show ?thesis
    by (auto simp: turn_defs counted_def count_defs armGateFor_def serve_simps Let_def
        split: if_splits gate_use.splits)
next
  case (DrainGate run n g k)
  with assms show ?thesis
    by (auto simp: turn_defs counted_def count_defs serve_simps split: if_splits input.splits option.splits)
qed (use assms in
   \<open>auto simp: turn_defs counted_def count_defs same_counts_def serve_simps adoptOrphan_def claimRun_def
      retargetGate_def unsubscribe_def beginClose_def Let_def
      dest!: section_counts split: if_splits option.splits input.splits prod.splits base_error.splits\<close>)

lemma next_counted:
  assumes "counted s a t as sp" "s_readers s = int (loads reader_of (add_mset (a # rest) M))"
    "s_reservations s = int (loads reserve_of (add_mset (a # rest) M))"
    "\<forall>u \<in># add_mset (a # rest) M. \<forall>b \<in> set u. named_ok b"
  shows "s_readers t = int (loads reader_of (add_mset (as @ rest) (mset sp + M)))"
    and "s_reservations t = int (loads reserve_of (add_mset (as @ rest) (mset sp + M)))"
    and "\<forall>u \<in># add_mset (as @ rest) (mset sp + M). \<forall>b \<in> set u. named_ok b"
  using assms by (auto simp: counted_def)

definition counts_right :: "Session \<times> action list multiset \<Rightarrow> bool" where
  "counts_right c \<longleftrightarrow> s_readers (fst c) = int (loads reader_of (snd c))
     \<and> s_reservations (fst c) = int (loads reserve_of (snd c)) \<and> (\<forall>u \<in># snd c. \<forall>b \<in> set u. named_ok b)"

lemma called_load: "called t \<Longrightarrow> load reader_of t = 0 \<and> load reserve_of t = 0 \<and> (\<forall>b \<in> set t. named_ok b)"
  by (induction rule: called.induct) (simp_all add: count_defs)

lemma subscribe_ends:
  "subscribe s q only = Some (i, run, at, t) \<Longrightarrow>
     s_readers t = s_readers s \<and> s_reservations t = s_reservations s \<and> s_closed t = s_closed s
   \<and> s_deferred t = s_deferred s \<and> s_finishDue t = s_finishDue s \<and> s_pendingEnd t = s_pendingEnd s
   \<and> s_delivered t = s_delivered s \<and> s_nsub t = Suc (s_nsub s) \<and> \<not> s_closed s"
  by (auto simp: subscribe_def Let_def serve_simps split: if_splits option.splits)

lemma step_counts:
  assumes "serve_step js adm c c1" "\<And>s a inp. adm s a inp \<Longrightarrow> names_runs s a inp" "counts_right c"
  shows "counts_right c1"
  using assms(1,3)
proof (induction rule: serve_step.induct)
  case (takes_turn now inp a s s1 as spawned rest M)
  have R: "s_readers s = int (loads reader_of (add_mset (a # rest) M))"
    and V: "s_reservations s = int (loads reserve_of (add_mset (a # rest) M))"
    and N: "\<forall>u \<in># add_mset (a # rest) M. \<forall>b \<in> set u. named_ok b"
    using takes_turn(3) by (simp_all add: counts_right_def)
  have "counted s a s1 as spawned"
    by (rule turn_counted[OF takes_turn(1) assms(2)[OF takes_turn(2)]]) (use V N in simp_all)
  from next_counted[OF this R V N] show ?case unfolding counts_right_def fst_conv snd_conv by blast
next
  case (calls t s M)
  then show ?case using called_load[of t] by (auto simp: counts_right_def)
qed (auto simp: counts_right_def serve_simps dest!: subscribe_ends)

end
