(* ===== verification/Serve_Detach.thy ===== *)
theory Serve_Detach
  imports Serve_Counts
begin

text \<open>
  Over every interleaving of \<open>serve_step\<close>, a subscriber of a server session is attached, or
  stopped, or a goroutine is about to stop it.
\<close>

section \<open>No subscriber is stranded\<close>

definition stops :: "nat \<Rightarrow> action \<Rightarrow> bool" where
  "stops i a = (case a of Stop j st \<Rightarrow> i = j | StopRun j st \<Rightarrow> i = j | _ \<Rightarrow> False)"

lemma stops_simps [simp]: "stops i (Stop j st) \<longleftrightarrow> i = j" "stops i (StopRun j st) \<longleftrightarrow> i = j"
  by (simp_all add: stops_def)

text \<open>A change of the subscribers in which everyone who is taken out is stopped, and no one else.\<close>

definition shrinks :: "Session \<Rightarrow> Session \<Rightarrow> bool" where
  "shrinks s t \<longleftrightarrow> s_nsub t = s_nsub s \<and> set (s_subs t) \<subseteq> set (s_subs s)
     \<and> (\<forall>i \<in> set (s_subs s) - set (s_subs t). sb_finish (s_sub t i))
     \<and> (\<forall>i. sb_finish (s_sub s i) \<longrightarrow> sb_finish (s_sub t i))
     \<and> (\<forall>i. sb_finish (s_sub t i) \<longrightarrow> sb_finish (s_sub s i) \<or> i \<notin> set (s_subs t))"

lemma shrinks_same: "s_nsub t = s_nsub s \<Longrightarrow> s_subs t = s_subs s \<Longrightarrow> s_sub t = s_sub s \<Longrightarrow> shrinks s t"
  by (simp add: shrinks_def)

lemma shrinks_trans: "shrinks s t \<Longrightarrow> shrinks t u \<Longrightarrow> shrinks s u"
  unfolding shrinks_def by (intro conjI) (simp, blast, metis Diff_iff, metis, metis subsetD)

lemma sub_flags [simp]:
  "sb_finish (track v run n) = sb_finish v" "sb_finish (untrack v run) = sb_finish v"
  "sb_finish (acknowledge v run) = sb_finish v" "sb_finish (stop v st)" "sb_finish (stopRun v st)"
  by (simp_all add: track_def untrack_def acknowledge_def stop_def stopRun_def Let_def)

lemma deliver_to_shrinks: "shrinks s (deliver_to e s i)"
  by (auto simp: deliver_to_def shrinks_def Let_def serve_simps)

lemma fold_deliver_to_shrinks: "shrinks s (foldl (deliver_to e) s is)"
  by (induction "is" arbitrary: s) (auto intro: shrinks_same shrinks_trans[OF deliver_to_shrinks])

lemma deliverLocked_shrinks: "shrinks s (deliverLocked js now s e)"
  unfolding deliverLocked_def Let_def
  by (rule shrinks_trans[OF _ fold_deliver_to_shrinks]) (auto intro: shrinks_same split: option.split)

lemma fold_deliver_shrinks: "shrinks s (foldl (deliverLocked js now) s es)"
  by (induction es arbitrary: s) (auto intro: shrinks_same shrinks_trans[OF deliverLocked_shrinks])

lemma publish_shrinks: "shrinks s (publish js now s e)"
proof -
  let ?s = "s\<lparr>s_published := s_published s @ [e]\<rparr>"
  have "shrinks s ?s" by (rule shrinks_same) simp_all
  moreover have "shrinks ?s (publish js now s e)"
    using deliverLocked_shrinks[of ?s js now e]
    by (auto simp: publish_def withhold_def Let_def serve_simps intro: shrinks_same split: option.split)
  ultimately show ?thesis by (rule shrinks_trans)
qed

lemma session_event_shrinks: "shrinks s (publishSessionEventLocked js now s e)"
  unfolding publishSessionEventLocked_def Let_def by (rule shrinks_trans[OF _ publish_shrinks]) (rule shrinks_same; simp)

lemma liftGate_shrinks: "shrinks s (liftGate js now s g)"
proof (cases "s_gate s = Some g")
  case True
  have "shrinks s (upd_gate (s\<lparr>s_gate := None\<rparr>) g ((finishDrain (s_gates s g))\<lparr>pg_withheld := []\<rparr>))"
    by (rule shrinks_same) (simp_all add: serve_simps)
  with True show ?thesis by (simp add: liftGate_def shrinks_trans[OF _ fold_deliver_shrinks])
qed (simp add: liftGate_def shrinks_same)

lemma boundary_shrinks: "shrinks s (releaseToBoundary js now s g b)"
proof (cases "s_gate s = Some g")
  case True
  have "shrinks s (upd_gate s g v)" for v by (rule shrinks_same) (simp_all add: serve_simps)
  with True show ?thesis
    by (simp add: releaseToBoundary_def split_gate_def shrinks_trans[OF _ fold_deliver_shrinks])
qed (simp add: releaseToBoundary_def shrinks_same)

text \<open>A section that takes subscribers out and leaves it to its goroutine to stop them.\<close>

definition deferrals :: "Session \<Rightarrow> nat set" where
  "deferrals s = set (s_subs s) \<union> set (cohort (s_deferred s))"

definition detached :: "Session \<Rightarrow> nat list \<Rightarrow> Session \<Rightarrow> bool" where
  "detached s is t \<longleftrightarrow> s_nsub t = s_nsub s \<and> s_sub t = s_sub s \<and> set (s_subs t) = set (s_subs s) - set is
     \<and> set is \<subseteq> deferrals s \<and> deferrals t \<subseteq> deferrals s
     \<and> s_delivered t = s_delivered s \<and> (distinct (s_subs s) \<longrightarrow> distinct (s_subs t))"

lemma cohort_simps [simp]: "cohort None = []" "cohort (Some is) = is"
  by (simp_all add: cohort_def)

lemmas detached_defs = detached_def deferrals_def clear_end_def snapshotSubsLocked_def

lemma supersede_detached: "supersedeLocked s = (is, st, t) \<Longrightarrow> detached s is t"
  by (auto simp: supersedeLocked_def detached_defs serve_simps split: if_splits)

lemma bind_detached: "bindRun s run n = (is, st, t) \<Longrightarrow> detached s is t"
  by (auto simp: bindRun_def Let_def detached_defs dest!: supersede_detached split: if_splits)

lemma adopt_detached: "adoptRun s run q = (is, st, t) \<Longrightarrow> detached s is t"
  by (auto simp: adoptRun_def Let_def detached_defs dest!: supersede_detached split: if_splits)

lemma promote_detached: "promoteCurrent s run e = (is, st, t) \<Longrightarrow> detached s is t"
  by (auto simp: promoteCurrent_def detached_defs dest!: supersede_detached split: if_splits)

lemma release_detached: "releaseReservation s = (is, st, t) \<Longrightarrow> detached s is t"
  by (auto simp: releaseReservation_def detached_defs serve_simps Let_def split: if_splits)

lemma flush_detached: "flush_cohort s = (is, t) \<Longrightarrow> detached s is t"
  by (auto simp: flush_cohort_def detachRunSubsLocked_def detached_defs serve_simps Let_def split: option.splits)

lemma exposed_detached: "detachExposedLocked s run = (is, t) \<Longrightarrow> detached s is t"
  by (auto simp: detachExposedLocked_def detached_defs serve_simps Let_def)

lemma all_detached: "detachSubsLocked s = (is, t) \<Longrightarrow> detached s is t"
  by (auto simp: detachSubsLocked_def detached_defs)

lemma fail_detached: "failSessionEvents s err = (is, t) \<Longrightarrow> detached s is t"
  by (auto simp: failSessionEvents_def detachSubsLocked_def detached_defs Let_def split: if_splits)

lemma exit_unnamed_detached: "exit_unnamed s = (is, st, t) \<Longrightarrow> detached s is t"
  by (auto simp: exit_unnamed_def Let_def detached_defs dest!: flush_detached split: if_splits prod.splits)

lemma run_subs_detached: "detachRunSubsLocked s = (is, t) \<Longrightarrow> detached s is t"
  by (auto simp: detachRunSubsLocked_def detached_defs serve_simps Let_def)

lemma exitReader_detached:
  assumes "exitReader s run e = (exposed, is, st, t)"
  shows "detached s (exposed @ is) t"
proof -
  let ?s1 = "s\<lparr>s_readers := s_readers s - 1, s_finished := (s_finished s)(run := True)\<rparr>"
  obtain ex s2 where x: "(if failed_end e \<and> s_runID ?s1 \<noteq> run then detachExposedLocked ?s1 run else ([], ?s1)) = (ex, s2)"
    by fastforce
  have X: "detached ?s1 ex s2"
  proof (cases "failed_end e \<and> s_runID ?s1 \<noteq> run")
    case True
    with x show ?thesis by (intro exposed_detached[of _ run]) simp
  qed (use x in \<open>auto simp: detached_defs\<close>)
  let ?s3 = "if s_runID ?s1 = run then s2\<lparr>s_pendingEnd := e, s_deferred := Some (snapshotSubsLocked s2)\<rparr> else s2"
  have Y: "detached s ex ?s3" using X by (auto simp: detached_defs)
  have Z: "detached s (ex @ js) u" if "detached ?s3 js u" for js u
    using Y that by (auto simp: detached_def)
  show ?thesis
  proof (cases "e = None \<and> \<not> s_closed ?s1 \<and> s_pendingEnd ?s1 = None \<and> s_deferred ?s1 = None \<and> \<not> s_finishDue ?s1")
    case True
    with assms show ?thesis by (auto simp: exitReader_def detached_defs)
  next
    case False
    with assms x have E: "(exposed, is, st, t) =
      (if 0 < s_readers ?s3 then (ex, [], None, ?s3)
       else if 0 < s_reservations ?s3
       then (ex, [], None, ?s3\<lparr>s_finishDue := True,
               s_deferred := (if s_deferred ?s3 = None then Some (snapshotSubsLocked ?s3) else s_deferred ?s3)\<rparr>)
       else if s_runID ?s1 \<noteq> run
       then (case flush_cohort ?s3 of (is, s4) \<Rightarrow> (ex, is, s_pendingEnd ?s3, s4\<lparr>s_pendingEnd := None, s_deferred := None\<rparr>))
       else (case detachRunSubsLocked (?s3\<lparr>s_pendingEnd := None, s_deferred := None\<rparr>) of (is, s4) \<Rightarrow> (ex, is, e, s4)))"
      unfolding exitReader_def Let_def by (simp only: if_False prod.case)
    show ?thesis
    proof (cases "0 < s_readers ?s3 \<or> 0 < s_reservations ?s3")
      case True
      with E Y show ?thesis by (auto simp: detached_defs split: if_splits)
    next
      case rest: False
      show ?thesis
      proof (cases "s_runID ?s1 = run")
        case True
        let ?s4 = "?s3\<lparr>s_pendingEnd := None, s_deferred := None\<rparr>"
        obtain js u where d: "detachRunSubsLocked ?s4 = (js, u)" by fastforce
        have "detached ?s3 js u" using run_subs_detached[OF d] by (auto simp: detached_defs)
        with E rest True d show ?thesis using Z by auto
      next
        case False
        obtain js u where d: "flush_cohort ?s3 = (js, u)" by fastforce
        have "detached ?s3 js (u\<lparr>s_pendingEnd := None, s_deferred := None\<rparr>)"
          using flush_detached[OF d] by (auto simp: detached_defs)
        with E rest False d show ?thesis using Z by auto
      qed
    qed
  qed
qed

definition plain :: "action list \<Rightarrow> bool" where
  "plain as \<longleftrightarrow> (\<forall>b \<in> set as. \<forall>i. \<not> stops i b \<and> b \<noteq> Unsubscribe i)"

definition turned_ok :: "Session \<Rightarrow> action \<Rightarrow> Session \<Rightarrow> action list \<Rightarrow> action list list \<Rightarrow> bool" where
  "turned_ok s a t as sp \<longleftrightarrow> s_nsub t = s_nsub s \<and> deferrals t \<subseteq> deferrals s \<and> set (s_subs t) \<subseteq> set (s_subs s)
     \<and> (\<forall>i \<in> set (s_subs s) - set (s_subs t). sb_finish (s_sub t i) \<or> (\<exists>b \<in> set as. stops i b) \<or> a = Unsubscribe i)
     \<and> (\<forall>i. sb_finish (s_sub s i) \<longrightarrow> sb_finish (s_sub t i))
     \<and> (\<forall>i. stops i a \<longrightarrow> sb_finish (s_sub t i))
     \<and> (\<forall>i. sb_finish (s_sub t i) \<longrightarrow> sb_finish (s_sub s i) \<or> i \<notin> set (s_subs t) \<or> stops i a)
     \<and> (\<forall>b \<in> set as. \<forall>i. b \<noteq> Unsubscribe i \<and> (stops i b \<longrightarrow> i \<in> deferrals s - set (s_subs t)))
     \<and> (\<forall>u \<in> set sp. plain u)"

lemma turned_okI:
  assumes "shrinks s s1" "s_deferred s1 = s_deferred s" "detached s1 is t"
    "\<And>i b. b \<in> set as \<Longrightarrow> b \<noteq> Unsubscribe i" "\<And>i b. b \<in> set as \<Longrightarrow> stops i b \<Longrightarrow> i \<in> set is"
    "\<And>i. i \<in> set is \<Longrightarrow> \<exists>b \<in> set as. stops i b" "\<And>u. u \<in> set sp \<Longrightarrow> plain u" "\<And>i. \<not> stops i a"
  shows "turned_ok s a t as sp"
proof -
  have d: "deferrals s1 \<subseteq> deferrals s" using assms(1,2) by (auto simp: shrinks_def deferrals_def)
  show ?thesis
    unfolding turned_ok_def
  proof (intro conjI ballI allI impI)
    fix i assume i: "i \<in> set (s_subs s) - set (s_subs t)"
    show "sb_finish (s_sub t i) \<or> (\<exists>b \<in> set as. stops i b) \<or> a = Unsubscribe i"
    proof (cases "i \<in> set (s_subs s1)")
      case True
      with i assms(3) have "i \<in> set is" by (auto simp: detached_def)
      with assms(6) show ?thesis by blast
    next
      case False
      with i assms(1,3) show ?thesis by (auto simp: shrinks_def detached_def)
    qed
  next
    fix b i assume b: "b \<in> set as" "stops i b"
    with assms(5) have "i \<in> set is" by blast
    with assms(3) d show "i \<in> deferrals s - set (s_subs t)" by (auto simp: detached_def)
  qed (use assms d in \<open>auto simp: shrinks_def detached_def\<close>)
qed

lemma detached_none: "s_nsub t = s_nsub s \<Longrightarrow> s_sub t = s_sub s \<Longrightarrow> s_subs t = s_subs s \<Longrightarrow> s_deferred t = s_deferred s
   \<Longrightarrow> s_delivered t = s_delivered s \<Longrightarrow> detached s [] t"
  by (simp add: detached_def deferrals_def)

lemma turned_ok_plain:
  "shrinks s t \<Longrightarrow> s_deferred t = s_deferred s \<Longrightarrow> plain as \<Longrightarrow> \<forall>u \<in> set sp. plain u \<Longrightarrow> \<forall>i. \<not> stops i a
   \<Longrightarrow> turned_ok s a t as sp"
  by (rule turned_okI[of s t "[]"]) (auto simp: plain_def detached_none)

lemma turned_ok_stops:
  "detached s is t \<Longrightarrow> plain rest \<Longrightarrow> \<forall>u \<in> set sp. plain u \<Longrightarrow> \<forall>i. \<not> stops i a
   \<Longrightarrow> turned_ok s a t (stop_runs is st @ rest) sp"
  by (rule turned_okI[of s s "is"])
    (auto simp: plain_def shrinks_same intro: bexI[of _ "StopRun _ st"] dest: bspec)

lemma turned_ok_stop_list:
  "detached s is t \<Longrightarrow> \<forall>i. \<not> stops i a \<Longrightarrow> turned_ok s a t (map (\<lambda>i. Stop i st) is) []"
  by (rule turned_okI[of s s "is"]) (auto simp: shrinks_same)

lemma next_stop_ok:
  assumes "next_stop r rest = Some (t, as, sp)" "\<And>is st u. r = (is, st, u) \<Longrightarrow> detached s is u" "plain rest" "\<forall>i. \<not> stops i a"
  shows "turned_ok s a t as sp"
proof -
  obtain "is" st u where r: "r = (is, st, u)" by (cases r)
  with assms(1) have "t = u" "as = stop_runs is st @ rest" "sp = []" by (simp_all add: next_stop_def next_do_def)
  with turned_ok_stops[OF assms(2)[OF r] assms(3) _ assms(4), of "[]" st] show ?thesis by simp
qed

lemma next_do_ok:
  assumes "next_do u bs = Some (t, as, sp)" "shrinks s u" "s_deferred u = s_deferred s" "plain bs" "\<forall>i. \<not> stops i a"
  shows "turned_ok s a t as sp"
  using assms turned_ok_plain[of s u bs "[]" a] by (auto simp: next_do_def)

lemma answered_ok:
  assumes "answered inp (\<lambda>x y z. next_do s (f x y z)) = Some (t, as, sp)" "\<And>x y z. plain (f x y z)" "\<forall>i. \<not> stops i a"
  shows "turned_ok s a t as sp"
  using assms next_do_ok[of s _ t as sp s a] shrinks_same[of s s]
  by (auto simp: answered_def split: input.splits)

lemma plain_simps [simp]:
  "plain []" "plain (as @ bs) \<longleftrightarrow> plain as \<and> plain bs"
  by (auto simp: plain_def)

lemma plain_Cons: "plain (b # bs) \<longleftrightarrow> (\<forall>i. \<not> stops i b \<and> b \<noteq> Unsubscribe i) \<and> plain bs"
  by (simp add: plain_def)

lemma after_plain:
  "plain (after_submit sm r st err)" "plain (after_steer m g r st err)"
  by (auto simp: after_submit_def after_steer_def close_if_def plain_Cons stops_def split: option.split base_error.split)

lemma markClosed_ok:
  assumes "markClosed js now s = (fin, is, st, t)"
  obtains s1 where "shrinks s s1" "s_deferred s1 = s_deferred s" "detached s1 is t"
proof -
  define s0 where "s0 = s\<lparr>s_sessionEventsStop := True, s_closed := True,
                  s_runs := map_option (\<lambda>r. release r (s_id s)) (s_runs s)\<rparr>"
  have "shrinks s s0" by (rule shrinks_same) (simp_all add: s0_def)
  moreover have "shrinks s0 (drop_gate js now s0)"
    by (auto simp: drop_gate_def liftGate_shrinks shrinks_same split: option.split)
  ultimately have "shrinks s (drop_gate js now s0)" by (rule shrinks_trans)
  moreover have "s_deferred (drop_gate js now s0) = s_deferred s"
    by (auto simp: drop_gate_def s0_def serve_simps split: option.split)
  moreover have "detached (drop_gate js now s0) is t"
    using assms unfolding markClosed_def Let_def s0_def[symmetric]
    by (auto simp: drop_failed_def detached_defs serve_simps split: if_splits)
  ultimately show thesis by (rule that)
qed

lemma adopt_turn_ok:
  assumes "turn js now inp (AdoptRun run q) s = Some (t, as, sp)"
  shows "turned_ok s (AdoptRun run q) t as sp"
proof -
  obtain "is" st u where r: "adoptRun s run q = (is, st, u)" by (cases "adoptRun s run q")
  with assms have "t = u" "as = stop_runs is st @ []" "sp = [[NextResult run 0]]" by simp_all
  with turned_ok_stops[OF adopt_detached[OF r], of "[]" sp "AdoptRun run q" st] show ?thesis
    by (simp add: plain_Cons stops_def)
qed

lemma exit_turn_ok:
  assumes "turn js now inp (ExitRun run n e) s = Some (t, as, sp)"
  shows "turned_ok s (ExitRun run n e) t as sp"
proof (cases "0 < n \<and> run = []")
  case True
  with assms show ?thesis
    by (auto intro: next_stop_ok exit_unnamed_detached simp: plain_Cons stops_def)
next
  case False
  obtain ex "is" st u where r: "exitReader s run e = (ex, is, st, u)" by (cases "exitReader s run e")
  with assms False have "t = u" "as = stop_runs ex e @ stop_runs is st" "sp = []" by (auto simp: next_do_def)
  with exitReader_detached[OF r] show ?thesis
    by (intro turned_okI[of s s "ex @ is"])
      (auto simp: stops_def shrinks_same intro: bexI[of _ "StopRun _ e"] bexI[of _ "StopRun _ st"])
qed

lemma close_turn_ok:
  assumes "turn js now inp MarkClosed s = Some (t, as, sp)"
  shows "turned_ok s MarkClosed t as sp"
proof -
  obtain fin "is" st u where r: "markClosed js now s = (fin, is, st, u)" by (cases "markClosed js now s")
  then obtain s1 where M: "shrinks s s1" "s_deferred s1 = s_deferred s" "detached s1 is u" by (rule markClosed_ok)
  have "t = u" "as = (if fin then [FinishSubs] else []) @ stop_runs is st @
                    (if \<not> s_closed s \<and> s_release s then [Release] else [])" "sp = []"
    using assms r by (simp_all add: next_do_def)
  with M show ?thesis
    by (intro turned_okI[OF M(1,2)]) (auto simp: stops_def intro: bexI[of _ "StopRun _ st"] split: if_splits)
qed

lemma stop_turn_ok:
  "turn js now inp (Stop i st) s = Some (t, as, sp) \<Longrightarrow> turned_ok s (Stop i st) t as sp"
  "turn js now inp (StopRun i st) s = Some (t, as, sp) \<Longrightarrow> turned_ok s (StopRun i st) t as sp"
  "turn js now inp (Unsubscribe i) s = Some (t, as, sp) \<Longrightarrow> turned_ok s (Unsubscribe i) t as sp"
  by (auto simp: next_do_def turned_ok_def deferrals_def serve_simps unsubscribe_def stops_def)

lemma handle_turn_ok:
  assumes "turn js now inp (HandleResult run n e err) s = Some (t, as, sp)"
  shows "turned_ok s (HandleResult run n e err) t as sp"
proof -
  have p: "plain (ended run n x)" "plain [NextResult run n]" "plain [Publish e, NextResult run n]" for x
    by (simp_all add: plain_Cons stops_def ended_def)
  have a: "\<forall>i. \<not> stops i (HandleResult run n e err)" by (simp add: stops_def)
  obtain ex u where x: "detachExposedLocked s run = (ex, u)" by fastforce
  show ?thesis
    using assms x p a next_stop_ok[OF _ promote_detached] next_stop_ok[OF _ exposed_detached] next_do_ok[OF _ shrinks_same]
    by (auto split: option.splits base_error.splits)
qed

lemma fail_turn_ok:
  "turn js now inp (FailSessionEvents err) s = Some (t, as, sp) \<Longrightarrow> turned_ok s (FailSessionEvents err) t as sp"
  "turn js now inp FinishSubs s = Some (t, as, sp) \<Longrightarrow> turned_ok s FinishSubs t as sp"
  by (auto simp: next_do_def stops_def intro!: turned_ok_stop_list dest: fail_detached all_detached split: prod.splits)

lemma turn_turned_ok:
  assumes T: "turn js now inp a s = Some (t, as, sp)"
  shows "turned_ok s a t as sp"
proof (cases a)
  case (CallSubmit sm)
  with T show ?thesis by (auto intro: answered_ok simp: after_plain stops_def)
next
  case CallCompact
  with T show ?thesis by (auto intro: answered_ok simp: after_plain stops_def)
next
  case (CallSteer sm g)
  with T show ?thesis by (auto intro: answered_ok simp: after_plain stops_def)
next
  case (AdoptRun run q)
  with T show ?thesis by (simp only: adopt_turn_ok)
next
  case (ReleaseReservation)
  with T show ?thesis by (auto intro: next_stop_ok release_detached simp: stops_def)
next
  case (BindResult run n e err)
  with T show ?thesis
    by (auto intro: next_stop_ok bind_detached next_do_ok shrinks_same simp: plain_Cons stops_def split: if_splits)
next
  case (HandleResult run n e err)
  with T show ?thesis by (simp only: handle_turn_ok)
next
  case (ExitRun run n e)
  with T show ?thesis by (simp only: exit_turn_ok)
next
  case MarkClosed
  with T show ?thesis by (simp only: close_turn_ok)
next
  case (FailSessionEvents err)
  with T show ?thesis by (simp only: fail_turn_ok)
next
  case FinishSubs
  with T show ?thesis by (simp only: fail_turn_ok)
next
  case (Unsubscribe i)
  with T show ?thesis by (simp only: stop_turn_ok)
next
  case (Stop i st)
  with T show ?thesis by (simp only: stop_turn_ok)
next
  case (StopRun i st)
  with T show ?thesis by (simp only: stop_turn_ok)
qed (use T in \<open>auto simp: turn_defs plain_Cons stops_def serve_simps adoptOrphan_def claimRun_def retargetGate_def
      beginClose_def armGateFor_def Let_def
      intro!: turned_ok_plain publish_shrinks session_event_shrinks liftGate_shrinks boundary_shrinks
      intro: shrinks_same
      split: if_splits option.splits input.splits gate_use.splits base_error.splits\<close>)

definition thread_fine :: "Session \<Rightarrow> action list \<Rightarrow> bool" where
  "thread_fine s u \<longleftrightarrow> (\<exists>i < s_nsub s. u = [Unsubscribe i, Stop i None])
     \<or> (\<forall>b \<in> set u. \<forall>i. b \<noteq> Unsubscribe i \<and> (stops i b \<longrightarrow> i < s_nsub s \<and> i \<notin> set (s_subs s)))"

definition none_stranded :: "Session \<times> action list multiset \<Rightarrow> bool" where
  "none_stranded c \<longleftrightarrow> (case c of (s, M) \<Rightarrow>
     deferrals s \<subseteq> {..<s_nsub s}
   \<and> (\<forall>i < s_nsub s. i \<in> set (s_subs s) \<or> sb_finish (s_sub s i) \<or> (\<exists>u \<in># M. \<exists>b \<in> set u. stops i b))
   \<and> (\<forall>i \<in> set (s_subs s). \<not> sb_finish (s_sub s i))
   \<and> (\<forall>u \<in># M. thread_fine s u))"

lemma thread_fine_mono:
  "thread_fine s u \<Longrightarrow> s_nsub s \<le> s_nsub t \<Longrightarrow> set (s_subs t) \<inter> {..<s_nsub s} \<subseteq> set (s_subs s) \<Longrightarrow> thread_fine t u"
proof -
  assume u: "thread_fine s u" and le: "s_nsub s \<le> s_nsub t" and sub: "set (s_subs t) \<inter> {..<s_nsub s} \<subseteq> set (s_subs s)"
  have "i < s_nsub t \<and> i \<notin> set (s_subs t)" if "i < s_nsub s" "i \<notin> set (s_subs s)" for i
    using that le sub by auto
  moreover have "i < s_nsub t" if "i < s_nsub s" for i using that le by simp
  ultimately show "thread_fine t u" using u unfolding thread_fine_def by metis
qed

lemma plain_fine: "plain u \<Longrightarrow> thread_fine s u"
  by (auto simp: plain_def thread_fine_def)

lemma fine_head:
  assumes "thread_fine s (a # rest)" "turned_ok s a t as sp" "deferrals s \<subseteq> {..<s_nsub s}" "turn js now inp a s = Some (t, as, sp)"
  shows "thread_fine t (as @ rest)" and "stops i a \<Longrightarrow> i \<notin> set (s_subs t)"
    and "a = Unsubscribe i \<Longrightarrow> Stop i None \<in> set rest"
proof -
  show "stops i a \<Longrightarrow> i \<notin> set (s_subs t)"
    using assms(1,2) by (auto simp: thread_fine_def turned_ok_def stops_def)
  show "a = Unsubscribe i \<Longrightarrow> Stop i None \<in> set rest"
    using assms(1) by (auto simp: thread_fine_def)
  show "thread_fine t (as @ rest)"
  proof (cases "\<exists>i. a = Unsubscribe i")
    case True
    then obtain i where i: "a = Unsubscribe i" "rest = [Stop i None]" "i < s_nsub s"
      using assms(1) by (auto simp: thread_fine_def)
    with assms(4) show ?thesis
      by (auto simp: thread_fine_def next_do_def unsubscribe_def serve_simps)
  next
    case False
    then have "\<forall>b \<in> set rest. \<forall>i. b \<noteq> Unsubscribe i \<and> (stops i b \<longrightarrow> i < s_nsub s \<and> i \<notin> set (s_subs s))"
      using assms(1) by (auto simp: thread_fine_def)
    moreover have "\<forall>b \<in> set as. \<forall>i. b \<noteq> Unsubscribe i \<and> (stops i b \<longrightarrow> i < s_nsub s \<and> i \<notin> set (s_subs t))"
    proof (intro ballI allI conjI impI)
      fix b i assume b: "b \<in> set as"
      have as: "\<forall>b \<in> set as. \<forall>i. b \<noteq> Unsubscribe i \<and> (stops i b \<longrightarrow> i \<in> deferrals s - set (s_subs t))"
        using assms(2) unfolding turned_ok_def by (elim conjE)
      with b show "b \<noteq> Unsubscribe i" by simp
      assume "stops i b"
      with as b have "i \<in> deferrals s - set (s_subs t)" by simp
      with assms(3) show "i < s_nsub s" "i \<notin> set (s_subs t)" by auto
    qed
    moreover have "s_nsub t = s_nsub s" "set (s_subs t) \<subseteq> set (s_subs s)" using assms(2) by (simp_all add: turned_ok_def)
    ultimately show ?thesis unfolding thread_fine_def set_append by auto
  qed
qed

lemma turn_none_stranded:
  assumes T: "turn js now inp a s = Some (t, as, sp)" and I: "none_stranded (s, add_mset (a # rest) M)"
  shows "none_stranded (t, add_mset (as @ rest) (mset sp + M))"
proof -
  note ok = turn_turned_ok[OF T]
  have D: "deferrals s \<subseteq> {..<s_nsub s}" and F: "thread_fine s (a # rest)" "\<forall>u \<in># M. thread_fine s u"
    and S: "\<forall>i \<in> set (s_subs s). \<not> sb_finish (s_sub s i)"
    and K: "\<And>i. i < s_nsub s \<Longrightarrow> i \<in> set (s_subs s) \<or> sb_finish (s_sub s i) \<or> stops i a \<or> (\<exists>b \<in> set rest. stops i b)
              \<or> (\<exists>u \<in># M. \<exists>b \<in> set u. stops i b)"
    using I by (auto simp: none_stranded_def)
  note H = fine_head[OF F(1) ok D T]
  have N: "s_nsub t = s_nsub s" "deferrals t \<subseteq> deferrals s" "set (s_subs t) \<subseteq> set (s_subs s)"
    using ok by (simp_all add: turned_ok_def)
  have "i \<in> set (s_subs t) \<or> sb_finish (s_sub t i) \<or> (\<exists>u \<in># add_mset (as @ rest) (mset sp + M). \<exists>b \<in> set u. stops i b)"
    if i: "i < s_nsub s" for i
  proof -
    have gone: "i \<in> set (s_subs s) \<Longrightarrow> i \<notin> set (s_subs t) \<Longrightarrow>
        sb_finish (s_sub t i) \<or> (\<exists>b \<in> set as. stops i b) \<or> a = Unsubscribe i"
      and fin: "sb_finish (s_sub s i) \<or> stops i a \<Longrightarrow> sb_finish (s_sub t i)"
      using ok unfolding turned_ok_def by (elim conjE, blast)+
    have rest: "a = Unsubscribe i \<Longrightarrow> \<exists>b \<in> set rest. stops i b" using H(3)[of i] by (metis stops_simps(1))
    have "(\<exists>u \<in># add_mset (as @ rest) (mset sp + M). \<exists>b \<in> set u. stops i b) \<longleftrightarrow>
        (\<exists>b \<in> set as. stops i b) \<or> (\<exists>b \<in> set rest. stops i b) \<or> (\<exists>u \<in> set sp. \<exists>b \<in> set u. stops i b)
        \<or> (\<exists>u \<in># M. \<exists>b \<in> set u. stops i b)" by auto
    then show ?thesis using K[OF i] gone fin rest by blast
  qed
  moreover have "\<forall>i \<in> set (s_subs t). \<not> sb_finish (s_sub t i)"
  proof
    fix i assume i: "i \<in> set (s_subs t)"
    have "sb_finish (s_sub t i) \<longrightarrow> sb_finish (s_sub s i) \<or> i \<notin> set (s_subs t) \<or> stops i a"
      using ok by (simp add: turned_ok_def)
    moreover have "\<not> sb_finish (s_sub s i)" using i N(3) S by auto
    moreover have "\<not> stops i a" using i H(2) by auto
    ultimately show "\<not> sb_finish (s_sub t i)" using i by simp
  qed
  moreover have "\<forall>u \<in># add_mset (as @ rest) (mset sp + M). thread_fine t u"
  proof
    fix u assume "u \<in># add_mset (as @ rest) (mset sp + M)"
    then consider "u = as @ rest" | "u \<in> set sp" | "u \<in># M" by auto
    then show "thread_fine t u"
    proof cases
      case 2
      with ok show ?thesis by (intro plain_fine) (simp add: turned_ok_def)
    next
      case 3
      with F(2) have "thread_fine s u" by blast
      then show ?thesis by (rule thread_fine_mono) (use N in auto)
    qed (simp add: H(1))
  qed
  ultimately show ?thesis using N D by (auto simp: none_stranded_def)
qed

lemma subscribe_fresh:
  assumes "subscribe s q only = Some (i, run, at, t)"
  shows "i = s_nsub s \<and> s_nsub t = Suc i \<and> (\<forall>j. j \<noteq> i \<longrightarrow> s_sub t j = s_sub s j)
    \<and> (s_subs t = s_subs s @ [i] \<and> \<not> sb_finish (s_sub t i) \<or> s_subs t = s_subs s \<and> sb_finish (s_sub t i))
    \<and> s_deferred t = s_deferred s"
  using assms by (auto simp: subscribe_def newSubscriber_def Let_def serve_simps split: if_splits option.splits)

lemma called_fine: "called u \<Longrightarrow> \<forall>i. Unsubscribe i \<in> set u \<longrightarrow> i < s_nsub s \<Longrightarrow> thread_fine s u"
  by (induction rule: called.induct) (auto simp: thread_fine_def stops_def)

lemma step_none_stranded:
  assumes "serve_step js adm c c1" "none_stranded c"
  shows "none_stranded c1"
  using assms
proof (induction rule: serve_step.induct)
  case (takes_turn now inp a s s1 as spawned rest M)
  then show ?case by (blast intro: turn_none_stranded)
next
  case (calls u s M)
  with called_fine[of u s] show ?case by (fastforce simp: none_stranded_def)
next
  case (subscribes s queue only i run at s1 M)
  note f = subscribe_fresh[OF subscribes(1)]
  have D: "deferrals s \<subseteq> {..<s_nsub s}" using subscribes(3) by (simp add: none_stranded_def)
  have "\<forall>u \<in># M. thread_fine s1 u"
  proof
    fix u assume "u \<in># M"
    with subscribes(3) have "thread_fine s u" by (simp add: none_stranded_def)
    then show "thread_fine s1 u" by (rule thread_fine_mono) (use f in auto)
  qed
  moreover have "deferrals s1 \<subseteq> {..<s_nsub s1}" using f D by (auto simp: deferrals_def)
  moreover have "\<forall>j \<in> set (s_subs s1). \<not> sb_finish (s_sub s1 j)"
    using f D subscribes(3) by (auto simp: none_stranded_def deferrals_def)
  moreover have "\<forall>j < s_nsub s1. j \<in> set (s_subs s1) \<or> sb_finish (s_sub s1 j) \<or> (\<exists>u \<in># M. \<exists>b \<in> set u. stops j b)"
    using f subscribes(3) by (auto simp: none_stranded_def less_Suc_eq)
  ultimately show ?case by (simp add: none_stranded_def)
qed (auto simp: none_stranded_def serve_simps deferrals_def thread_fine_def)

end
