(* ===== verification/Serve_Closing.thy ===== *)
theory Serve_Closing
  imports Serve_Detach
begin

text \<open>
  Over every interleaving of \<open>serve_step\<close>, a server session that is closed ends its subscribers,
  if the streams of its adapter name their runs; and a trace in which one does not.
\<close>

section \<open>A closed session ends its subscribers\<close>

text \<open>A stream that an answer with an error brings names its run before it ends.\<close>

definition named_input :: "input \<Rightarrow> bool" where
  "named_input inp = (case inp of StreamClosed \<Rightarrow> False | Received e err \<Rightarrow> err = None \<or> env_RunID e \<noteq> [] | _ \<Rightarrow> True)"

definition names_streams :: "Session \<Rightarrow> action \<Rightarrow> input \<Rightarrow> bool" where
  "names_streams s a inp \<longleftrightarrow> names_runs s a inp \<and>
     (case a of
        ReceiveResult run n \<Rightarrow> run = [] \<longrightarrow> named_input inp
      | DrainGate run n g k \<Rightarrow> run = [] \<longrightarrow> named_input inp
      | _ \<Rightarrow> True)"

definition named_end :: "action \<Rightarrow> bool" where
  "named_end a = (case a of ExitRun run n e \<Rightarrow> run \<noteq> []
     | BindResult run n e err \<Rightarrow> run = [] \<and> err \<noteq> None \<longrightarrow> env_RunID e \<noteq> []
     | HandleResult run n e err \<Rightarrow> err \<noteq> None \<longrightarrow> run \<noteq> [] | _ \<Rightarrow> True)"

text \<open>\<open>p\<close> says whether a goroutine is about to call \<^verbatim>\<open>finishSubs\<close>.\<close>

definition ends_ok :: "Session \<Rightarrow> bool \<Rightarrow> bool" where
  "ends_ok s p \<longleftrightarrow>
     (s_closed s \<longrightarrow> s_subs s = [] \<or> 0 < s_readers s \<or> (0 < s_reservations s \<and> s_finishDue s) \<or> p)
   \<and> (s_closed s \<and> s_finishDue s \<and> s_deferred s = None \<longrightarrow> s_subs s = [] \<or> p)
   \<and> (s_closed s \<longrightarrow> (\<forall>d. s_deferred s = Some d \<longrightarrow> set (s_subs s) \<subseteq> set d))
   \<and> (s_deferred s \<noteq> None \<longrightarrow> 0 < s_readers s \<or> (0 < s_reservations s \<and> s_finishDue s))"

lemma ends_ok_frame:
  "ends_ok s p \<Longrightarrow> s_closed t = s_closed s \<Longrightarrow> s_readers t = s_readers s \<Longrightarrow> s_reservations t = s_reservations s \<Longrightarrow>
   s_finishDue t = s_finishDue s \<Longrightarrow> s_deferred t = s_deferred s \<Longrightarrow> set (s_subs t) \<subseteq> set (s_subs s) \<Longrightarrow> ends_ok t p"
  by (cases "s_subs s = []") (auto simp: ends_ok_def)

lemma ends_ok_mono: "ends_ok s p \<Longrightarrow> (p \<Longrightarrow> q) \<Longrightarrow> ends_ok s q"
  unfolding ends_ok_def by blast

lemma filter_none: "set xs \<subseteq> set d \<Longrightarrow> filter (\<lambda>i. i \<notin> set d) xs = []"
  by (auto simp: filter_empty_conv)

lemma shrinks_subs: "shrinks s t \<Longrightarrow> set (s_subs t) \<subseteq> set (s_subs s)"
  by (simp add: shrinks_def)

lemma superseded_ok:
  assumes "supersedeLocked s = (is, st, t)" "0 < s_readers s"
  shows "ends_ok t p"
  using assms by (auto simp: supersedeLocked_def ends_ok_def clear_end_def serve_simps split: if_splits)

lemma bind_ends:
  assumes "bindRun s run n = (is, st, t)" "0 < s_readers s" "ends_ok s p"
  shows "ends_ok t p"
proof -
  let ?s1 = "if serial s run = 0 then s\<lparr>s_serials := al_put run n (s_serials s)\<rparr> else s"
  let ?s2 = "if 0 < s_reservations ?s1 then ?s1\<lparr>s_reservations := s_reservations ?s1 - 1\<rparr> else ?s1"
  have "ends_ok ?s2 p" using assms(2,3) by (simp add: ends_ok_def)
  moreover have "ends_ok t p" if "supersedeLocked (?s2\<lparr>s_runID := run\<rparr>) = (is, st, t)"
    by (rule superseded_ok[OF that]) (use assms(2) in auto)
  ultimately show ?thesis
    using assms(1) unfolding bindRun_def Let_def by (auto split: if_splits)
qed

lemma adopt_ends:
  assumes "adoptRun s run q = (is, st, t)" "0 \<le> s_readers s" "ends_ok s p"
  shows "ends_ok t p"
proof (cases q)
  case True
  with assms(1) have t: "s_closed t = s_closed s" "s_readers t = s_readers s + 1" "s_finishDue t = s_finishDue s"
    "s_deferred t = s_deferred s" "s_subs t = s_subs s"
    by (auto simp: adoptRun_def Let_def)
  from assms(2) have "0 < s_readers s + 1" by simp
  with assms(3) show ?thesis unfolding ends_ok_def t by blast
next
  case False
  with assms show ?thesis by (auto simp: adoptRun_def Let_def intro: superseded_ok)
qed

lemma promote_ends:
  assumes "promoteCurrent s run e = (is, st, t)" "0 < s_readers s" "ends_ok s p"
  shows "ends_ok t p"
  using assms superseded_ok[of "s\<lparr>s_runID := run\<rparr>" "is" st t p] by (auto simp: promoteCurrent_def split: if_splits)

lemma release_ends:
  assumes "releaseReservation s = (is, st, t)" "0 \<le> s_readers s" "0 < s_reservations s" "ends_ok s p"
  shows "ends_ok t p"
proof (cases "s_finishDue s \<and> s_readers s = 0 \<and> s_reservations s = 1")
  case True
  with assms(1) have t: "t = clear_end (del_subs (cohort (s_deferred s)) (s\<lparr>s_reservations := 0\<rparr>))"
    by (auto simp: releaseReservation_def Let_def)
  have "s_closed s \<Longrightarrow> s_subs t = [] \<or> p"
    using assms(4) True by (cases "s_deferred s") (auto simp: t clear_end_def ends_ok_def serve_simps filter_none)
  then show ?thesis by (auto simp: t ends_ok_def clear_end_def serve_simps)
next
  case False
  with assms(1) have t: "s_closed t = s_closed s" "s_readers t = s_readers s" "s_reservations t = s_reservations s - 1"
    "s_finishDue t = s_finishDue s" "s_deferred t = s_deferred s" "s_subs t = s_subs s"
    by (auto simp: releaseReservation_def Let_def split: if_splits)
  from False assms(2,3) have "s_finishDue s \<Longrightarrow> 0 < s_readers s \<or> 0 < s_reservations s - 1" by linarith
  with assms(4) show ?thesis unfolding ends_ok_def t by blast
qed

lemma flush_closed:
  assumes "flush_cohort s = (is, t)" "s_closed s" "\<forall>d. s_deferred s = Some d \<longrightarrow> set (s_subs s) \<subseteq> set d"
  shows "s_subs t = []"
  using assms
  by (auto simp: flush_cohort_def detachRunSubsLocked_def snapshotSubsLocked_def serve_simps filter_none Let_def
      split: option.splits)

lemma flush_keeps:
  "flush_cohort s = (is, t) \<Longrightarrow> s_closed t = s_closed s \<and> s_readers t = s_readers s \<and> s_reservations t = s_reservations s
   \<and> s_finishDue t = s_finishDue s"
  by (auto simp: flush_cohort_def detachRunSubsLocked_def serve_simps Let_def split: option.splits)

lemma exposed_keeps:
  "detachExposedLocked s run = (is, t) \<Longrightarrow> s_closed t = s_closed s \<and> s_readers t = s_readers s
   \<and> s_reservations t = s_reservations s \<and> s_finishDue t = s_finishDue s \<and> s_deferred t = s_deferred s
   \<and> set (s_subs t) \<subseteq> set (s_subs s)"
  by (auto simp: detachExposedLocked_def serve_simps Let_def)

text \<open>The last steps of \<^verbatim>\<open>exitReader\<close>, after the exposed subscribers are out.\<close>

lemma exit_tail:
  assumes c: "s_closed s3 \<longrightarrow> (\<forall>d. s_deferred s3 = Some d \<longrightarrow> set (s_subs s3) \<subseteq> set d)"
    and f: "s_closed s3 \<and> s_finishDue s3 \<and> s_deferred s3 = None \<longrightarrow> s_subs s3 = [] \<or> p"
    and tail: "t = (if 0 < s_readers s3 then s3
      else if 0 < s_reservations s3
      then s3\<lparr>s_finishDue := True, s_deferred := (if s_deferred s3 = None then Some (snapshotSubsLocked s3) else s_deferred s3)\<rparr>
      else if other then (snd (flush_cohort s3))\<lparr>s_pendingEnd := None, s_deferred := None\<rparr>
      else snd (detachRunSubsLocked (s3\<lparr>s_pendingEnd := None, s_deferred := None\<rparr>)))"
  shows "ends_ok t p"
proof -
  consider "0 < s_readers s3" | "\<not> 0 < s_readers s3" "0 < s_reservations s3"
    | "\<not> 0 < s_readers s3" "\<not> 0 < s_reservations s3" other | "\<not> 0 < s_readers s3" "\<not> 0 < s_reservations s3" "\<not> other"
    by blast
  then show ?thesis
  proof cases
    case 1
    then have "t = s3" using tail by simp
    with 1 c f show ?thesis by (auto simp: ends_ok_def)
  next
    case 2
    have snap: "s_closed s3 \<longrightarrow> set (s_subs s3) \<subseteq> set (snapshotSubsLocked s3)" by (auto simp: snapshotSubsLocked_def)
    from 2 have t: "t = s3\<lparr>s_finishDue := True,
        s_deferred := (if s_deferred s3 = None then Some (snapshotSubsLocked s3) else s_deferred s3)\<rparr>"
      using tail by simp
    with 2 c snap show ?thesis by (cases "s_deferred s3") (simp_all add: ends_ok_def)
  next
    case 3
    obtain "is" u where u: "flush_cohort s3 = (is, u)" by fastforce
    have t: "t = u\<lparr>s_pendingEnd := None, s_deferred := None\<rparr>" using tail 3 u by simp
    have "s_closed u \<longrightarrow> s_subs u = []" using flush_closed[OF u] flush_keeps[OF u] c by simp
    with t show ?thesis by (simp add: ends_ok_def)
  next
    case 4
    then have "t = snd (detachRunSubsLocked (s3\<lparr>s_pendingEnd := None, s_deferred := None\<rparr>))" using tail by simp
    moreover have "s_closed s3 \<longrightarrow> filter (\<lambda>i. i \<notin> set (s_subs s3)) (s_subs s3) = []" by (simp add: filter_none)
    ultimately show ?thesis
      by (auto simp: ends_ok_def detachRunSubsLocked_def snapshotSubsLocked_def serve_simps Let_def)
  qed
qed

lemma exit_ends:
  assumes E: "exitReader s run e = (exposed, is, st, t)" and R: "0 < s_readers s" and I: "ends_ok s p"
  shows "ends_ok t p"
proof -
  let ?s1 = "s\<lparr>s_readers := s_readers s - 1, s_finished := (s_finished s)(run := True)\<rparr>"
  show ?thesis
  proof (cases "e = None \<and> \<not> s_closed ?s1 \<and> s_pendingEnd ?s1 = None \<and> s_deferred ?s1 = None \<and> \<not> s_finishDue ?s1")
    case True
    with E have "t = ?s1" by (simp add: exitReader_def)
    with True show ?thesis by (simp add: ends_ok_def)
  next
    case False
    obtain ex s2 where x: "(if failed_end e \<and> s_runID ?s1 \<noteq> run then detachExposedLocked ?s1 run else ([], ?s1)) = (ex, s2)"
      by fastforce
    have k: "s_closed s2 = s_closed s" "s_finishDue s2 = s_finishDue s" "s_deferred s2 = s_deferred s"
      "set (s_subs s2) \<subseteq> set (s_subs s)"
      using x exposed_keeps[of ?s1 run ex s2] by (auto split: if_splits)
    let ?s3 = "if s_runID ?s1 = run then s2\<lparr>s_pendingEnd := e, s_deferred := Some (snapshotSubsLocked s2)\<rparr> else s2"
    have c: "s_closed s2 \<longrightarrow> (\<forall>d. s_deferred s2 = Some d \<longrightarrow> set (s_subs s2) \<subseteq> set d)"
      and f: "s_closed s2 \<and> s_finishDue s2 \<and> s_deferred s2 = None \<longrightarrow> s_subs s2 = [] \<or> p"
      using I k by (auto simp: ends_ok_def)
    have c3: "s_closed ?s3 \<longrightarrow> (\<forall>d. s_deferred ?s3 = Some d \<longrightarrow> set (s_subs ?s3) \<subseteq> set d)"
      using c by (auto simp: snapshotSubsLocked_def)
    have f3: "s_closed ?s3 \<and> s_finishDue ?s3 \<and> s_deferred ?s3 = None \<longrightarrow> s_subs ?s3 = [] \<or> p"
      using f by auto
    have "t = (if 0 < s_readers ?s3 then ?s3
      else if 0 < s_reservations ?s3
      then ?s3\<lparr>s_finishDue := True, s_deferred := (if s_deferred ?s3 = None then Some (snapshotSubsLocked ?s3) else s_deferred ?s3)\<rparr>
      else if s_runID ?s1 \<noteq> run then (snd (flush_cohort ?s3))\<lparr>s_pendingEnd := None, s_deferred := None\<rparr>
      else snd (detachRunSubsLocked (?s3\<lparr>s_pendingEnd := None, s_deferred := None\<rparr>)))"
      using E[unfolded exitReader_def Let_def x prod.case] False
      by (auto split: if_splits prod.splits)
    from exit_tail[OF c3 f3 this] show ?thesis .
  qed
qed

lemma markClosed_ends:
  assumes M: "markClosed js now s = (fin, is, st, t)" and I: "ends_ok s p"
  shows "ends_ok t (p \<or> fin)"
proof -
  define s0 where "s0 = s\<lparr>s_sessionEventsStop := True, s_closed := True,
                  s_runs := map_option (\<lambda>r. release r (s_id s)) (s_runs s)\<rparr>"
  define s1 where "s1 = drop_gate js now s0"
  have k: "s_closed s1" "s_readers s1 = s_readers s" "s_reservations s1 = s_reservations s" "s_deferred s1 = s_deferred s"
    by (auto simp: s1_def drop_gate_def s0_def serve_simps split: option.split)
  have snap: "s_closed u \<Longrightarrow> set (s_subs u) \<subseteq> set (snapshotSubsLocked u)" for u
    by (auto simp: snapshotSubsLocked_def)
  note M' = M[unfolded markClosed_def Let_def, folded s0_def s1_def]
  consider "0 < s_readers s1 \<or> 0 < s_reservations s1" | "\<not> 0 < s_readers s1" "\<not> 0 < s_reservations s1" by blast
  then show ?thesis
  proof cases
    case 1
    obtain er fa u where d: "drop_failed s1 = (er, fa, u)" by (cases "drop_failed s1")
    then have u: "s_closed u" "s_readers u = s_readers s1" "s_reservations u = s_reservations s1"
      using k by (auto simp: drop_failed_def serve_simps split: if_splits)
    have "t = (if 0 < s_readers s1 then u\<lparr>s_deferred := Some (snapshotSubsLocked u)\<rparr>
        else u\<lparr>s_finishDue := True, s_deferred := Some (snapshotSubsLocked u)\<rparr>)"
      using M' d 1 by (auto split: if_splits)
    with 1 u snap[of u] show ?thesis by (cases "0 < s_readers s1") (simp_all add: ends_ok_def)
  next
    case 2
    then have "t = s1" "fin" using M' by auto
    with 2 k I show ?thesis by (auto simp: ends_ok_def)
  qed
qed

lemma ends_ok_shrinks:
  "ends_ok s p \<Longrightarrow> same_ends s t \<Longrightarrow> shrinks s t \<Longrightarrow> ends_ok t p"
  using shrinks_subs[of s t] by (auto simp: same_ends_def elim!: ends_ok_frame)

lemma ends_ok_reserve: "ends_ok s p \<Longrightarrow> 0 \<le> s_reservations s \<Longrightarrow> ends_ok (s\<lparr>s_reservations := s_reservations s + 1\<rparr>) p"
  by (auto simp: ends_ok_def)

lemma ends_ok_orphan: "ends_ok s p \<Longrightarrow> 0 \<le> s_readers s \<Longrightarrow> ends_ok (adoptOrphan s) p"
  by (auto simp: ends_ok_def adoptOrphan_def)

lemma ends_ok_fail: "failSessionEvents s err = (is, t) \<Longrightarrow> ends_ok s p \<Longrightarrow> ends_ok t p"
  by (auto simp: failSessionEvents_def detachSubsLocked_def ends_ok_def Let_def split: if_splits)

lemma ends_ok_finish: "detachSubsLocked s = (is, t) \<Longrightarrow> ends_ok s True \<Longrightarrow> ends_ok t p"
  by (auto simp: detachSubsLocked_def ends_ok_def)

lemma ends_ok_same:
  "ends_ok s p \<Longrightarrow> s_closed t = s_closed s \<and> s_readers t = s_readers s \<and> s_reservations t = s_reservations s
   \<and> s_finishDue t = s_finishDue s \<and> s_deferred t = s_deferred s \<and> s_subs t = s_subs s \<Longrightarrow> ends_ok t p"
  by (simp add: ends_ok_def)

lemma ends_ok_event:
  "ends_ok s p \<Longrightarrow> ends_ok (publish js now s e) p" "ends_ok s p \<Longrightarrow> ends_ok (publishSessionEventLocked js now s e) p"
  "ends_ok s p \<Longrightarrow> ends_ok (liftGate js now s g) p" "ends_ok s p \<Longrightarrow> ends_ok (releaseToBoundary js now s g b) p"
  by (erule ends_ok_shrinks, rule publish_ends, rule publish_shrinks)
    (erule ends_ok_shrinks, rule session_event_ends, rule session_event_shrinks,
     erule ends_ok_shrinks, rule liftGate_ends, rule liftGate_shrinks,
     erule ends_ok_shrinks, rule boundary_ends, rule boundary_shrinks)

lemma exposed_ends: "detachExposedLocked s run = (is, t) \<Longrightarrow> ends_ok s p \<Longrightarrow> ends_ok t p"
  using exposed_keeps[of s run "is" t] by (auto elim!: ends_ok_frame)

lemma turn_ends:
  assumes T: "turn js now inp a s = Some (t, as, sp)" and N: "named_end a"
    and R: "0 \<le> s_readers s" "int (reader_of a) \<le> s_readers s" "0 \<le> s_reservations s" "int (reserve_of a) \<le> s_reservations s"
    and I: "ends_ok s (p \<or> a = FinishSubs)"
  shows "ends_ok t (p \<or> FinishSubs \<in> set as)"
proof -
  have J: "a \<noteq> FinishSubs \<Longrightarrow> ends_ok s p" using I by simp
  have K: "ends_ok t p \<Longrightarrow> ?thesis" by (erule ends_ok_mono) simp
  show ?thesis
  proof (cases a)
    case (AdoptRun run q)
    with T R J show ?thesis by (auto intro!: K dest: adopt_ends split: prod.splits)
  next
    case ReleaseReservation
    with T R J show ?thesis
      by (auto intro!: K dest: release_ends simp: next_stop_def next_do_def count_defs split: prod.splits)
  next
    case (BindResult run n e err)
    with T R J show ?thesis
      by (auto intro!: K dest: bind_ends simp: next_stop_def next_do_def count_defs split: prod.splits if_splits)
  next
    case (HandleResult run n e err)
    with T R J show ?thesis
      by (auto intro!: K dest: promote_ends exposed_ends
          simp: next_stop_def next_do_def count_defs split: prod.splits if_splits option.splits base_error.splits)
  next
    case (ExitRun run n e)
    with T R J N show ?thesis
      by (auto intro!: K dest: exit_ends simp: next_do_def count_defs named_end_def split: prod.splits if_splits)
  next
    case MarkClosed
    obtain fin "is" st u where m: "markClosed js now s = (fin, is, st, u)" by (cases "markClosed js now s")
    have "ends_ok u (p \<or> fin)" using markClosed_ends[OF m] J MarkClosed by simp
    with T MarkClosed m show ?thesis by (auto simp: next_do_def elim: ends_ok_mono)
  next
    case (FailSessionEvents err)
    with T J show ?thesis by (auto intro!: K dest: ends_ok_fail simp: next_do_def split: prod.splits)
  next
    case FinishSubs
    with T I show ?thesis by (auto intro!: K dest: ends_ok_finish simp: next_do_def split: prod.splits)
  next
    case (Unsubscribe i)
    with T J show ?thesis
      by (auto intro!: K simp: next_do_def unsubscribe_def serve_simps elim!: ends_ok_frame)
  next
    case (Submit sm)
    with T J R show ?thesis
      by (auto intro!: K ends_ok_event ends_ok_reserve ends_ok_orphan simp: turn_defs Let_def
          split: if_splits option.splits input.splits)
  next
    case (Compact sid compactor)
    with T J R show ?thesis
      by (auto intro!: K ends_ok_event ends_ok_reserve ends_ok_orphan simp: turn_defs Let_def
          split: if_splits option.splits input.splits)
  next
    case (ReserveSteer sm g)
    with T J R show ?thesis
      by (auto intro!: K ends_ok_event ends_ok_reserve ends_ok_orphan simp: turn_defs Let_def
          split: if_splits option.splits input.splits)
  next
    case AdoptOrphan
    with T J R show ?thesis
      by (auto intro!: K ends_ok_event ends_ok_reserve ends_ok_orphan simp: turn_defs Let_def
          split: if_splits option.splits input.splits)
  next
    case (Publish e)
    with T J R show ?thesis
      by (auto intro!: K ends_ok_event ends_ok_reserve ends_ok_orphan simp: turn_defs Let_def
          split: if_splits option.splits input.splits)
  next
    case (DrainGate run n g k)
    with T J R show ?thesis
      by (auto intro!: K ends_ok_event ends_ok_reserve ends_ok_orphan simp: turn_defs Let_def
          split: if_splits option.splits input.splits)
  next
    case (ReleaseToBoundary g b)
    with T J R show ?thesis
      by (auto intro!: K ends_ok_event ends_ok_reserve ends_ok_orphan simp: turn_defs Let_def
          split: if_splits option.splits input.splits)
  next
    case (LiftGate g)
    with T J R show ?thesis
      by (auto intro!: K ends_ok_event ends_ok_reserve ends_ok_orphan simp: turn_defs Let_def
          split: if_splits option.splits input.splits)
  next
    case SessionEvents
    with T J R show ?thesis
      by (auto intro!: K ends_ok_event ends_ok_reserve ends_ok_orphan simp: turn_defs Let_def
          split: if_splits option.splits input.splits)
  next
    case (PublishSessionEvent e)
    with T J R show ?thesis
      by (auto intro!: K ends_ok_event ends_ok_reserve ends_ok_orphan simp: turn_defs Let_def
          split: if_splits option.splits input.splits)
  qed (use T in \<open>auto intro!: K ends_ok_same[OF J]
      simp: turn_defs serve_simps claimRun_def retargetGate_def beginClose_def armGateFor_def Let_def
      split: if_splits option.splits input.splits gate_use.splits base_error.splits\<close>)
qed

lemma turn_named_end:
  assumes "turn js now inp a s = Some (t, as, sp)" "names_streams s a inp" "named_end a"
  shows "\<forall>b \<in> set as \<union> (\<Union>u \<in> set sp. set u). named_end b"
proof (cases a)
  case (DrainGate run n g k)
  with assms show ?thesis
    by (auto simp: turn_defs named_end_def names_streams_def named_input_def split: if_splits input.splits option.splits)
next
  case (ReceiveResult run n)
  with assms show ?thesis by (auto simp: turn_defs named_end_def names_streams_def named_input_def split: input.splits)
next
  case (CallSteer sm g)
  with assms show ?thesis
    by (auto simp: turn_defs named_end_def after_steer_def close_if_def split: input.splits option.splits base_error.splits)
next
  case (HandleResult run n e err)
  with assms show ?thesis
    by (auto simp: turn_defs named_end_def split: option.splits base_error.splits prod.splits)
qed (use assms in \<open>auto simp: turn_defs named_end_def after_submit_def close_if_def Let_def
      split: if_splits option.splits input.splits prod.splits gate_use.splits base_error.splits\<close>)

definition closing_inv :: "Session \<times> action list multiset \<Rightarrow> bool" where
  "closing_inv c \<longleftrightarrow> counts_right c \<and> none_stranded c \<and> ends_ok (fst c) (\<exists>u \<in># snd c. FinishSubs \<in> set u)
     \<and> (\<forall>u \<in># snd c. \<forall>b \<in> set u. named_end b)"

lemma called_named: "called u \<Longrightarrow> \<forall>b \<in> set u. named_end b"
  by (induction rule: called.induct) (simp_all add: named_end_def)

lemma subscribe_ends_ok:
  assumes "subscribe s q only = Some (i, run, at, t)" "ends_ok s p"
  shows "ends_ok t p"
  using subscribe_ends[OF assms(1)] assms(2) by (simp add: ends_ok_def)

lemma step_ends:
  assumes "serve_step js names_streams c c1" "counts_right c" "ends_ok (fst c) (\<exists>u \<in># snd c. FinishSubs \<in> set u)"
    "\<forall>u \<in># snd c. \<forall>b \<in> set u. named_end b"
  shows "ends_ok (fst c1) (\<exists>u \<in># snd c1. FinishSubs \<in> set u) \<and> (\<forall>u \<in># snd c1. \<forall>b \<in> set u. named_end b)"
  using assms
proof (induction rule: serve_step.induct)
  case (takes_turn now inp a s s1 as spawned rest M)
  let ?p = "FinishSubs \<in> set rest \<or> (\<exists>u \<in># M. FinishSubs \<in> set u)"
  have N: "named_end a" using takes_turn(5) by simp
  have R: "0 \<le> s_readers s" "int (reader_of a) \<le> s_readers s" "0 \<le> s_reservations s" "int (reserve_of a) \<le> s_reservations s"
    using takes_turn(3) by (simp_all add: counts_right_def)
  have "ends_ok s (?p \<or> a = FinishSubs)" using takes_turn(4) by (auto elim!: ends_ok_mono)
  from turn_ends[OF takes_turn(1) N R this] have "ends_ok s1 (?p \<or> FinishSubs \<in> set as)" .
  then have "ends_ok s1 (\<exists>u \<in># add_mset (as @ rest) (mset spawned + M). FinishSubs \<in> set u)"
    by (rule ends_ok_mono) auto
  moreover have "\<forall>b \<in> set as \<union> (\<Union>u \<in> set spawned. set u). named_end b"
    by (rule turn_named_end[OF takes_turn(1,2) N])
  ultimately show ?case using takes_turn(5) by auto
next
  case (calls t s M)
  then show ?case using called_named[of t] by (auto elim!: ends_ok_mono)
next
  case (subscribes s queue only i run at s1 M)
  then show ?case by (auto intro: subscribe_ends_ok)
qed (auto elim!: ends_ok_same simp: serve_simps)

lemma serving_closing:
  assumes "serving js names_streams c"
  shows "closing_inv c"
  using assms
proof (induction rule: serving.induct)
  case (opened sid rel runs)
  then show ?case
    by (simp add: closing_inv_def counts_right_def none_stranded_def ends_ok_def newSession_def deferrals_def)
next
  case (steps c c1)
  have "names_streams s a inp \<Longrightarrow> names_runs s a inp" for s a inp by (simp add: names_streams_def)
  with steps step_counts[OF steps(2)] step_none_stranded[OF steps(2)] step_ends[OF steps(2)]
  show ?case by (simp add: closing_inv_def)
qed

lemma serving_none_stranded:
  assumes "serving js adm c"
  shows "none_stranded c"
  using assms
proof (induction rule: serving.induct)
  case (opened sid rel runs)
  then show ?case by (simp add: none_stranded_def newSession_def deferrals_def)
qed (blast intro: step_none_stranded)

text \<open>The goroutines that are left hold neither a stream nor a submission and are not about to
  stop a subscriber: timers, waiting requests, the reader of session events.\<close>

definition at_rest :: "action list multiset \<Rightarrow> bool" where
  "at_rest M \<longleftrightarrow> (\<forall>u \<in># M. \<forall>a \<in> set u. reader_of a = 0 \<and> reserve_of a = 0 \<and> a \<noteq> FinishSubs \<and> (\<forall>i. \<not> stops i a))"

lemma load_zero: "\<forall>a \<in> set u. w a = 0 \<Longrightarrow> load w u = 0"
  by (induction u) simp_all

lemma loads_zero: "\<forall>u \<in># M. load w u = 0 \<Longrightarrow> loads w M = 0"
  by (induction M) simp_all

lemma at_rest_counts: "at_rest M \<Longrightarrow> loads reader_of M = 0 \<and> loads reserve_of M = 0"
  by (simp add: at_rest_def load_zero loads_zero)

section \<open>Playing a schedule\<close>

text \<open>A schedule as a list of moves, so that a reachable state can be computed.\<close>

datatype move = Turn nat int input | Call "action list" | Subscribe nat bool | Consume nat

primrec play :: "json_api \<Rightarrow> (Session \<Rightarrow> action \<Rightarrow> input \<Rightarrow> bool) \<Rightarrow> move list \<Rightarrow> Session \<times> action list list \<Rightarrow>
    (Session \<times> action list list) option" where
  "play js adm [] c = Some c"
| "play js adm (m # ms) c =
     (case c of (s, ts) \<Rightarrow>
       (case m of
          Turn k now inp \<Rightarrow>
            (if k < length ts then
               (case ts ! k of
                  [] \<Rightarrow> None
                | a # rest \<Rightarrow>
                    (if adm s a inp then
                       (case turn js now inp a s of
                          None \<Rightarrow> None
                        | Some (s1, as, sp) \<Rightarrow> play js adm ms (s1, ts[k := as @ rest] @ sp))
                     else None))
             else None)
        | Call t \<Rightarrow> play js adm ms (s, ts @ [t])
        | Subscribe queue only \<Rightarrow>
            (if 0 < queue then
               (case subscribe s queue only of None \<Rightarrow> None | Some (i, run, at, s1) \<Rightarrow> play js adm ms (s1, ts))
             else None)
        | Consume i \<Rightarrow>
            (case sb_ch (s_sub s i) of
               [] \<Rightarrow> None
             | e # es \<Rightarrow> play js adm ms (upd_sub s i ((s_sub s i)\<lparr>sb_ch := es\<rparr>), ts))))"

definition proper_calls :: "move list \<Rightarrow> bool" where
  "proper_calls ms \<longleftrightarrow> (\<forall>t. Call t \<in> set ms \<longrightarrow> called t \<and> (\<forall>i. Unsubscribe i \<notin> set t))"

lemma play_step:
  assumes "play js adm [m] (s, ts) = Some (t, us)" "proper_calls [m]"
  shows "serve_step js adm (s, mset ts) (t, mset us)"
proof (cases m)
  case (Turn k now inp)
  with assms(1) obtain a rest as sp where k: "k < length ts" "ts ! k = a # rest" "adm s a inp"
    "turn js now inp a s = Some (t, as, sp)" and us: "us = ts[k := as @ rest] @ sp"
    by (auto split: if_splits list.splits option.splits)
  obtain M where M: "mset ts = add_mset (a # rest) M" using k(1,2) by (metis nth_mem_mset mset_add)
  then have "mset us = add_mset (as @ rest) (mset sp + M)"
    using k(1,2) by (simp add: us mset_update)
  with takes_turn[where adm = adm, OF k(4,3), of rest M] M show ?thesis by simp
next
  case (Call u)
  with assms(2) have "called u" "\<forall>i. Unsubscribe i \<in> set u \<longrightarrow> i < s_nsub s" by (auto simp: proper_calls_def)
  from calls[OF this, of js adm "mset ts"] assms(1) Call show ?thesis by auto
next
  case (Subscribe queue only)
  with assms(1) obtain i run at where q: "0 < queue" "subscribe s queue only = Some (i, run, at, t)" and "us = ts"
    by (auto split: if_splits option.splits)
  with subscribes[OF q(2,1)] show ?thesis by simp
next
  case (Consume i)
  with assms(1) obtain e es where c: "sb_ch (s_sub s i) = e # es" and "us = ts" "t = upd_sub s i ((s_sub s i)\<lparr>sb_ch := es\<rparr>)"
    by (auto split: list.splits)
  with consumes[OF c] show ?thesis by simp
qed

lemma play_Cons: "play js adm (m # ms) c = (case play js adm [m] c of None \<Rightarrow> None | Some c1 \<Rightarrow> play js adm ms c1)"
  by (cases c; cases m) (auto split: option.split list.split)

lemma play_serving:
  assumes "serving js adm (s, mset ts)" "play js adm ms (s, ts) = Some (t, us)" "proper_calls ms"
  shows "serving js adm (t, mset us)"
  using assms
proof (induction ms arbitrary: s ts)
  case (Cons m ms)
  from Cons.prems(2) obtain s1 ts1 where p: "play js adm [m] (s, ts) = Some (s1, ts1)" "play js adm ms (s1, ts1) = Some (t, us)"
    unfolding play_Cons[of _ _ m ms] by (auto split: option.splits)
  have P: "proper_calls [m]" "proper_calls ms" using Cons.prems(3) by (simp_all add: proper_calls_def)
  from Cons.IH[OF serving.steps[OF Cons.prems(1) play_step[OF p(1) P(1)]] p(2) P(2)] show ?case .
qed simp

lemma play_new:
  assumes "play js adm ms (newSession sid rel runs, []) = Some (t, us)" "proper_calls ms"
  shows "serving js adm (t, mset us)"
  by (rule play_serving[OF _ assms]) (simp add: opened)

definition json_demo :: json_api where
  "json_demo = \<lparr>js_status = (\<lambda>_. None), js_final = (\<lambda>_. None), js_string = (\<lambda>_. None), js_texts = (\<lambda>_. None),
     js_parts = (\<lambda>_. None), js_request = (\<lambda>_. None)\<rparr>"

definition submit_demo :: SubmitRequest where
  "submit_demo = \<lparr>sm_SessionID = ''s'', sm_Delivery = ''auto'', sm_TargetRunID = [], sm_Messages = [], sm_EnvelopeID = ''e''\<rparr>"

definition answer_demo :: "bytes \<Rightarrow> SubmitResponse" where
  "answer_demo run = \<lparr>sr_Admission = ''started'', sr_RunID = run, sr_TargetSequence = None\<rparr>"

definition stranding :: "move list" where
  "stranding = [Subscribe 1 False, Call [Submit submit_demo], Call [Submit submit_demo], Call [MarkClosed],
     Turn 0 0 Go, Turn 1 0 Go,
     Turn 0 0 (Answered (answer_demo []) True (Some (OtherError []))), Turn 0 0 Go,
     Turn 2 0 Go,
     Turn 3 0 Go, Turn 3 0 StreamClosed, Turn 3 0 Go, Turn 3 0 Go, Turn 3 0 Go,
     Turn 1 0 (Answered (answer_demo []) False (Some (OtherError []))), Turn 1 0 Go]"

lemma stranding_played:
  "case play json_demo names_runs stranding (newSession ''s'' False None, []) of None \<Rightarrow> False
   | Some (s, us) \<Rightarrow> s_closed s \<and> list_all List.null us \<and> s_subs s = [0] \<and> s_nsub s = 1 \<and> \<not> sb_finish (s_sub s 0)"
  by code_simp

lemma proper_stranding: "proper_calls stranding"
  by (auto simp: proper_calls_def stranding_def intro: called.intros)

definition closing_demo :: "move list" where
  "closing_demo = [Subscribe 1 False, Call [Compact ''s'' True], Turn 0 0 Go,
     Turn 0 0 (Answered (answer_demo ''r'') True None), Turn 0 0 Go, Turn 0 0 Go,
     Call [MarkClosed], Turn 2 0 Go, Turn 1 0 Go, Turn 1 0 StreamClosed, Turn 1 0 Go, Turn 1 0 Go, Turn 1 0 Go]"

lemma closing_demo_played:
  "case play json_demo names_streams closing_demo (newSession ''s'' False None, []) of None \<Rightarrow> False
   | Some (s, us) \<Rightarrow> s_closed s \<and> list_all List.null us \<and> s_nsub s = 1"
  by code_simp

lemma proper_closing_demo: "proper_calls closing_demo"
  by (auto simp: proper_calls_def closing_demo_def intro: called.intros)

lemma at_rest_empty: "list_all List.null us \<Longrightarrow> at_rest (mset us)"
  by (auto simp: at_rest_def list_all_iff)

section \<open>Properties\<close>

text \<open>C1. In every interleaving of readers, requests, subscribers and timers, and whatever the
  adapter does, a subscriber is never lost: either it is attached and not stopped, or it is
  detached for good and has been stopped or a goroutine is about to stop it.  No event is
  delivered to a stopped subscriber, and no stopped subscriber keeps its place.\<close>

theorem subscriber_never_stranded:
  assumes "serving js adm (s, M)" and "i < s_nsub s"
  shows "(i \<in> set (s_subs s) \<and> \<not> sb_finish (s_sub s i))
    \<or> (i \<notin> set (s_subs s) \<and> (sb_finish (s_sub s i) \<or> (\<exists>u \<in># M. \<exists>b \<in> set u. stops i b)))"
  using serving_none_stranded[OF assms(1)] assms(2) by (auto simp: none_stranded_def)

theorem subscriber_never_stranded_witness:
  "\<exists>s M. serving json_demo names_streams (s, M) \<and> 0 < s_nsub s \<and>
    ((0 \<in> set (s_subs s) \<and> \<not> sb_finish (s_sub s 0))
    \<or> (0 \<notin> set (s_subs s) \<and> (sb_finish (s_sub s 0) \<or> (\<exists>u \<in># M. \<exists>b \<in> set u. stops 0 b))))"
proof -
  obtain s us where p: "play json_demo names_streams closing_demo (newSession ''s'' False None, []) = Some (s, us)"
    and n: "s_nsub s = 1"
    using closing_demo_played by (auto split: option.splits)
  have S: "serving json_demo names_streams (s, mset us)" by (rule play_new[OF p proper_closing_demo])
  show ?thesis
  proof (intro exI conjI)
    show "serving json_demo names_streams (s, mset us)" by (rule S)
    show "0 < s_nsub s" using n by simp
    then show "(0 \<in> set (s_subs s) \<and> \<not> sb_finish (s_sub s 0))
      \<or> (0 \<notin> set (s_subs s) \<and> (sb_finish (s_sub s 0) \<or> (\<exists>u \<in># mset us. \<exists>b \<in> set u. stops 0 b)))"
      by (rule subscriber_never_stranded[OF S])
  qed
qed

text \<open>C2. When a session is closed and its readers, its submissions and the goroutines that stop
  subscribers have returned, every subscriber has been stopped, so that no consumer waits for
  ever; this needs an adapter that names the run of an accepted submission, and the run of
  a stream that comes with an error before that stream ends.\<close>

theorem closed_session_ends_subscribers:
  assumes "serving js names_streams (s, M)" and "s_closed s" and "at_rest M" and "i < s_nsub s"
  shows "sb_finish (s_sub s i)"
proof -
  have I: "closing_inv (s, M)" by (rule serving_closing[OF assms(1)])
  have "s_readers s = 0" "s_reservations s = 0" "\<not> (\<exists>u \<in># M. FinishSubs \<in> set u)"
    using I at_rest_counts[OF assms(3)] assms(3) by (auto simp: closing_inv_def counts_right_def at_rest_def)
  then have "s_subs s = []" using I assms(2) by (simp add: closing_inv_def ends_ok_def)
  moreover have "\<not> (\<exists>u \<in># M. \<exists>b \<in> set u. stops i b)" using assms(3) by (auto simp: at_rest_def)
  ultimately show ?thesis using I assms(4) by (auto simp: closing_inv_def none_stranded_def)
qed

theorem closed_session_ends_subscribers_witness:
  "\<exists>s M. serving json_demo names_streams (s, M) \<and> s_closed s \<and> at_rest M \<and> 0 < s_nsub s \<and> sb_finish (s_sub s 0)"
proof -
  obtain s us where p: "play json_demo names_streams closing_demo (newSession ''s'' False None, []) = Some (s, us)"
    and c: "s_closed s" "list_all List.null us" "s_nsub s = 1"
    using closing_demo_played by (auto split: option.splits)
  have S: "serving json_demo names_streams (s, mset us)" by (rule play_new[OF p proper_closing_demo])
  have "0 < s_nsub s" using c(3) by simp
  with closed_session_ends_subscribers[OF S c(1) at_rest_empty[OF c(2)] this] S c(1) at_rest_empty[OF c(2)]
  show ?thesis by blast
qed

text \<open>Two submissions are under way when the session is closed; the first is refused with a
  stream that brings no event, the second is refused with an error of its own.  All
  goroutines return, the session is closed, and the subscriber is still attached and never
  stopped: its consumer waits for ever.\<close>

lemma unnamed_stream_strands_subscriber:
  "\<exists>s M. serving json_demo names_runs (s, M) \<and> s_closed s \<and> at_rest M \<and> s_subs s = [0] \<and> \<not> sb_finish (s_sub s 0)"
proof -
  obtain s us where p: "play json_demo names_runs stranding (newSession ''s'' False None, []) = Some (s, us)"
    and c: "s_closed s" "list_all List.null us" "s_subs s = [0]" "\<not> sb_finish (s_sub s 0)"
    using stranding_played by (auto split: option.splits)
  have "serving json_demo names_runs (s, mset us)" by (rule play_new[OF p proper_stranding])
  with c at_rest_empty[OF c(2)] show ?thesis by blast
qed

end
