(* ===== verification/Serve_Delivery.thy ===== *)
theory Serve_Delivery
  imports Serve_Closing "HOL-Library.Sublist"
begin

text \<open>
  What a server session delivers: every subscriber gets every event that is delivered while it is
  attached, in order, and the gate keeps the order of a run's events, if a settlement only
  concerns a run that the gate covers; and a trace in which it does not.
\<close>

section \<open>The queue of a subscriber\<close>

definition wants :: "subscriber \<Rightarrow> Envelope \<Rightarrow> bool" where
  "wants sub e \<longleftrightarrow> \<not> (sb_sessionOnly sub \<and> env_RunID e \<noteq> [])"

definition due :: "subscriber \<Rightarrow> Envelope list \<Rightarrow> Envelope list" where
  "due sub D = filter (wants sub) (drop (sb_since sub) D)"

definition queue_ok :: "Envelope list \<Rightarrow> subscriber \<Rightarrow> bool \<Rightarrow> bool" where
  "queue_ok D sub att \<longleftrightarrow> sb_since sub \<le> length D \<and> prefix (sb_got sub) (due sub D) \<and> (att \<longrightarrow> sb_got sub = due sub D)
     \<and> suffix (sb_ch sub) (sb_got sub) \<and> length (sb_ch sub) \<le> sb_queue sub"

lemma queue_frame:
  "sb_sessionOnly v = sb_sessionOnly u \<Longrightarrow> sb_since v = sb_since u \<Longrightarrow> sb_got v = sb_got u \<Longrightarrow> sb_ch v = sb_ch u \<Longrightarrow>
   sb_queue v = sb_queue u \<Longrightarrow> queue_ok D v att = queue_ok D u att"
  by (simp add: queue_ok_def due_def wants_def cong: filter_cong)

lemma queue_keeps [simp]:
  "queue_ok D (stop u st) att = queue_ok D u att" "queue_ok D (stopRun u st) att = queue_ok D u att"
  "queue_ok D (track u run n) att = queue_ok D u att" "queue_ok D (untrack u run) att = queue_ok D u att"
  "queue_ok D (acknowledge u run) att = queue_ok D u att" "queue_ok D (u\<lparr>sb_lastRun := run\<rparr>) att = queue_ok D u att"
  by (rule queue_frame; simp add: stop_def stopRun_def track_def untrack_def acknowledge_def Let_def)+

lemma queue_detach: "queue_ok D u att \<Longrightarrow> queue_ok D u False"
  by (simp add: queue_ok_def)

lemma queue_any: "queue_ok D u True \<Longrightarrow> queue_ok D u p"
  by (auto simp: queue_ok_def)

lemma due_snoc: "sb_since u \<le> length D \<Longrightarrow> due u (D @ [e]) = due u D @ (if wants u e then [e] else [])"
  by (simp add: due_def)

lemma queue_later: "queue_ok D u att \<Longrightarrow> queue_ok (D @ [e]) u (att \<and> \<not> wants u e)"
  by (auto simp: queue_ok_def due_snoc)

lemma queue_send:
  "queue_ok D u True \<Longrightarrow> wants u e \<Longrightarrow> length (sb_ch u) < sb_queue u \<Longrightarrow>
   queue_ok (D @ [e]) (u\<lparr>sb_ch := sb_ch u @ [e], sb_got := sb_got u @ [e]\<rparr>) True"
proof -
  assume q: "queue_ok D u True" "wants u e" "length (sb_ch u) < sb_queue u"
  let ?v = "u\<lparr>sb_ch := sb_ch u @ [e], sb_got := sb_got u @ [e]\<rparr>"
  have "due ?v (D @ [e]) = due u D @ [e]" using q by (simp add: due_def wants_def queue_ok_def cong: filter_cong)
  moreover have "suffix (sb_ch u @ [e]) (sb_got u @ [e])" using q(1) by (auto simp: queue_ok_def)
  ultimately show "queue_ok (D @ [e]) ?v True" using q by (simp add: queue_ok_def)
qed

lemma wants_track [simp]: "wants (track u run n) e = wants u e"
  by (simp add: wants_def track_def)

lemma deliver_to_queue:
  assumes "queue_ok D (s_sub s i) True"
  shows "queue_ok (D @ [e]) (s_sub (deliver_to e s i) i) (i \<in> set (s_subs (deliver_to e s i)))"
proof -
  let ?u = "s_sub s i" and ?r = "env_RunID e"
  let ?v = "if ?r \<noteq> [] then track ?u ?r (serial s ?r) else ?u"
  have V: "queue_ok D ?v True" "wants ?v e = wants ?u e" using assms by simp_all
  show ?thesis
  proof (cases "wants ?u e")
    case False
    with queue_later[OF assms, of e] show ?thesis
      by (auto simp: deliver_to_def wants_def intro: queue_any)
  next
    case W: True
    show ?thesis
    proof (cases "length (sb_ch ?v) < sb_queue ?v")
      case True
      have "queue_ok (D @ [e]) (?v\<lparr>sb_ch := sb_ch ?v @ [e], sb_got := sb_got ?v @ [e]\<rparr>) True"
        using queue_send[OF V(1) _ True] V(2) W by simp
      with True W show ?thesis
        by (auto simp: deliver_to_def wants_def serve_simps Let_def intro: queue_any)
    next
      case False
      have "queue_ok (D @ [e]) ?v False" using queue_later[OF V(1)] by (rule queue_detach)
      with False W show ?thesis
        by (auto simp: deliver_to_def wants_def serve_simps Let_def)
    qed
  qed
qed

lemma deliver_to_other:
  "j \<noteq> i \<Longrightarrow> s_sub (deliver_to e s i) j = s_sub s j \<and> (j \<in> set (s_subs (deliver_to e s i)) \<longleftrightarrow> j \<in> set (s_subs s))"
  by (auto simp: deliver_to_def serve_simps Let_def)

lemma fold_deliver_to_other:
  "j \<notin> set is \<Longrightarrow> s_sub (foldl (deliver_to e) s is) j = s_sub s j
   \<and> (j \<in> set (s_subs (foldl (deliver_to e) s is)) \<longleftrightarrow> j \<in> set (s_subs s))"
  by (induction "is" arbitrary: s) (auto simp: deliver_to_other)

lemma fold_deliver_to_queue:
  assumes "distinct is" "j \<in> set is" "queue_ok D (s_sub s j) True"
  shows "queue_ok (D @ [e]) (s_sub (foldl (deliver_to e) s is) j) (j \<in> set (s_subs (foldl (deliver_to e) s is)))"
  using assms
proof (induction "is" arbitrary: s)
  case (Cons i "is")
  show ?case
  proof (cases "j = i")
    case True
    with Cons.prems(1) have "j \<notin> set is" by simp
    with deliver_to_queue[of D s i e] Cons.prems(3) True show ?thesis
      by (simp add: fold_deliver_to_other)
  next
    case False
    with Cons.prems Cons.IH[of "deliver_to e s i"] show ?thesis by (simp add: deliver_to_other)
  qed
qed simp

lemma deliver_to_subs: "\<exists>P. s_subs (deliver_to e s i) = filter P (s_subs s)"
  by (auto simp: deliver_to_def serve_simps Let_def intro: exI[of _ "\<lambda>_. True"] exI[of _ "\<lambda>j. j \<noteq> i"])

lemma distinct_deliver_to: "distinct (s_subs s) \<Longrightarrow> distinct (s_subs (deliver_to e s i))"
  using deliver_to_subs[of e s i] by auto

lemma distinct_fold_deliver_to: "distinct (s_subs s) \<Longrightarrow> distinct (s_subs (foldl (deliver_to e) s is))"
  by (induction "is" arbitrary: s) (auto intro: distinct_deliver_to)

text \<open>The fields that \<open>fan_ok\<close> reads.\<close>

definition fan_ok :: "Session \<Rightarrow> bool" where
  "fan_ok s \<longleftrightarrow> distinct (s_subs s) \<and> set (s_subs s) \<subseteq> {..<s_nsub s}
     \<and> (\<forall>i < s_nsub s. queue_ok (s_delivered s) (s_sub s i) (i \<in> set (s_subs s)))"

lemma deliver_to_delivered [simp]: "s_delivered (deliver_to e s i) = s_delivered s"
  by (simp add: deliver_to_def serve_simps Let_def)

lemma fold_deliver_to_delivered [simp]: "s_delivered (foldl (deliver_to e) s is) = s_delivered s"
  by (induction "is" arbitrary: s) simp_all

lemma deliverLocked_delivered [simp]: "s_delivered (deliverLocked js now s e) = s_delivered s @ [e]"
  by (auto simp: deliverLocked_def Let_def split: option.split)

lemma deliverLocked_fan:
  assumes "fan_ok s"
  shows "fan_ok (deliverLocked js now s e)"
proof -
  obtain s2 where s2: "deliverLocked js now s e = foldl (deliver_to e) s2 (s_subs s2)" "s_subs s2 = s_subs s"
    "s_sub s2 = s_sub s" "s_nsub s2 = s_nsub s"
    by (rule that[of "case env_Sequence e of
                  Some n \<Rightarrow> if env_RunID e \<noteq> [] \<and> s_sequences s (env_RunID e) < n
                            then (s\<lparr>s_work := observeWorkLocked js (s_work s) e now, s_delivered := s_delivered s @ [e]\<rparr>)
                                   \<lparr>s_sequences := (s_sequences s)(env_RunID e := n)\<rparr>
                            else s\<lparr>s_work := observeWorkLocked js (s_work s) e now, s_delivered := s_delivered s @ [e]\<rparr>
                | None \<Rightarrow> s\<lparr>s_work := observeWorkLocked js (s_work s) e now, s_delivered := s_delivered s @ [e]\<rparr>"])
      (auto simp: deliverLocked_def Let_def split: option.split)
  let ?t = "deliverLocked js now s e"
  have "s_nsub ?t = s_nsub s" "set (s_subs ?t) \<subseteq> set (s_subs s)"
    using deliverLocked_shrinks[of s js now e] by (simp_all add: shrinks_def)
  moreover have "distinct (s_subs ?t)" using assms s2 by (simp add: distinct_fold_deliver_to fan_ok_def)
  moreover have "queue_ok (s_delivered s @ [e]) (s_sub ?t i) (i \<in> set (s_subs ?t))" if i: "i < s_nsub s" for i
  proof (cases "i \<in> set (s_subs s)")
    case True
    from assms i have "distinct (s_subs s)" "queue_ok (s_delivered s) (s_sub s i) (i \<in> set (s_subs s))"
      by (simp_all add: fan_ok_def)
    with True s2(3) have "distinct (s_subs s)" "queue_ok (s_delivered s) (s_sub s2 i) True" by simp_all
    from fold_deliver_to_queue[OF this(1) True this(2), of e] s2 show ?thesis by simp
  next
    case False
    from assms i have "queue_ok (s_delivered s) (s_sub s i) (i \<in> set (s_subs s))" by (simp add: fan_ok_def)
    then have "queue_ok (s_delivered s) (s_sub s i) False" by (rule queue_detach)
    from queue_later[OF this, of e] False s2 show ?thesis by (simp add: fold_deliver_to_other)
  qed
  ultimately show ?thesis using assms by (auto simp: fan_ok_def)
qed

lemma fan_frame:
  assumes "fan_ok s" "s_nsub t = s_nsub s" "s_delivered t = s_delivered s" "set (s_subs t) \<subseteq> set (s_subs s)"
    "distinct (s_subs s) \<longrightarrow> distinct (s_subs t)" "\<And>D b i. queue_ok D (s_sub t i) b = queue_ok D (s_sub s i) b"
  shows "fan_ok t"
proof -
  have "queue_ok (s_delivered s) (s_sub s i) (i \<in> set (s_subs t))" if "i < s_nsub s" for i
  proof (cases "i \<in> set (s_subs t)")
    case True
    with assms(4) have "i \<in> set (s_subs s)" by auto
    with assms(1) that True show ?thesis by (auto simp: fan_ok_def)
  next
    case False
    from assms(1) that have "queue_ok (s_delivered s) (s_sub s i) (i \<in> set (s_subs s))" by (simp add: fan_ok_def)
    with False show ?thesis by (auto dest: queue_detach)
  qed
  with assms show ?thesis by (auto simp: fan_ok_def)
qed

text \<open>What holds of the queues and of the deliveries and survives a delivery holds after every turn.\<close>

definition same_queue :: "subscriber \<Rightarrow> subscriber \<Rightarrow> bool" where
  "same_queue v u \<longleftrightarrow> sb_sessionOnly v = sb_sessionOnly u \<and> sb_since v = sb_since u \<and> sb_got v = sb_got u
     \<and> sb_ch v = sb_ch u \<and> sb_queue v = sb_queue u"

lemma same_queue_simps [simp]:
  "same_queue u u" "same_queue (stop u st) u" "same_queue (stopRun u st) u"
  by (simp_all add: same_queue_def stop_def stopRun_def)

locale delivery_invariant =
  fixes I :: "Session \<Rightarrow> bool"
  assumes deliver: "I s \<Longrightarrow> I (deliverLocked js now s e)"
    and frame: "I s \<Longrightarrow> s_nsub t = s_nsub s \<Longrightarrow> s_delivered t = s_delivered s \<Longrightarrow> set (s_subs t) \<subseteq> set (s_subs s) \<Longrightarrow>
      distinct (s_subs s) \<longrightarrow> distinct (s_subs t) \<Longrightarrow> (\<And>i. same_queue (s_sub t i) (s_sub s i)) \<Longrightarrow> I t"
begin

lemma fold_deliver_keeps: "I s \<Longrightarrow> I (foldl (deliverLocked js now) s es)"
  by (induction es arbitrary: s) (simp_all add: deliver)

lemma detached_keeps: "detached s is t \<Longrightarrow> I s \<Longrightarrow> I t"
  by (rule frame[of s]) (auto simp: detached_def)

lemma same_keeps: "I s \<Longrightarrow> s_nsub t = s_nsub s \<and> s_delivered t = s_delivered s \<and> s_subs t = s_subs s \<and> s_sub t = s_sub s
   \<Longrightarrow> I t"
  by (rule frame[of s]) simp_all

lemma publish_keeps: "I s \<Longrightarrow> I (publish js now s e)"
proof -
  assume "I s"
  then have p: "I (s\<lparr>s_published := s_published s @ [e]\<rparr>)" by (rule same_keeps) simp
  then have "I (upd_gate (s\<lparr>s_published := s_published s @ [e]\<rparr>) g v)" for g v
    by (rule same_keeps) (simp add: serve_simps)
  with p show ?thesis by (auto simp: publish_def withhold_def Let_def deliver split: option.split)
qed

lemma session_event_keeps: "I s \<Longrightarrow> I (publishSessionEventLocked js now s e)"
  unfolding publishSessionEventLocked_def Let_def by (rule publish_keeps) (erule same_keeps; simp)

lemma liftGate_keeps: "I s \<Longrightarrow> I (liftGate js now s g)"
  using fold_deliver_keeps[OF same_keeps[of s]] by (auto simp: liftGate_def serve_simps)

lemma boundary_keeps: "I s \<Longrightarrow> I (releaseToBoundary js now s g b)"
  using fold_deliver_keeps[OF same_keeps[of s]] by (auto simp: releaseToBoundary_def split_gate_def serve_simps)

lemma markClosed_keeps:
  assumes "markClosed js now s = (fin, is, st, t)" "I s"
  shows "I t"
proof -
  define s0 where "s0 = s\<lparr>s_sessionEventsStop := True, s_closed := True,
                  s_runs := map_option (\<lambda>r. release r (s_id s)) (s_runs s)\<rparr>"
  have "I s0" using assms(2) by (rule same_keeps) (simp add: s0_def)
  then have "I (drop_gate js now s0)" by (auto simp: drop_gate_def liftGate_keeps split: option.split)
  moreover have "detached (drop_gate js now s0) is t"
    using assms(1) unfolding markClosed_def Let_def s0_def[symmetric]
    by (auto simp: drop_failed_def detached_defs serve_simps split: if_splits)
  ultimately show ?thesis by (blast intro: detached_keeps)
qed

lemma next_stop_keeps:
  "next_stop r rest = Some (t, as, sp) \<Longrightarrow> (\<And>is st u. r = (is, st, u) \<Longrightarrow> detached s is u) \<Longrightarrow> I s \<Longrightarrow> I t"
  by (cases r) (auto simp: next_stop_def next_do_def intro: detached_keeps)

lemma turn_keeps:
  assumes T: "turn js now inp a s = Some (t, as, sp)" and F: "I s"
  shows "I t"
proof (cases a)
  case (AdoptRun run q)
  with T F show ?thesis by (auto dest: adopt_detached intro: detached_keeps split: prod.splits)
next
  case ReleaseReservation
  with T F show ?thesis by (auto intro: next_stop_keeps release_detached)
next
  case (BindResult run n e err)
  with T F show ?thesis by (auto intro: next_stop_keeps bind_detached simp: next_do_def split: if_splits)
next
  case (HandleResult run n e err)
  with T F show ?thesis
    by (auto intro: next_stop_keeps[OF _ promote_detached] next_stop_keeps dest: exposed_detached
        simp: next_do_def split: option.splits base_error.splits prod.splits)
next
  case (ExitRun run n e)
  with T F show ?thesis
    by (auto intro: next_stop_keeps exit_unnamed_detached simp: next_do_def dest!: exitReader_detached dest: detached_keeps
        split: if_splits prod.splits)
next
  case MarkClosed
  with T F show ?thesis by (auto simp: next_do_def intro: markClosed_keeps split: prod.splits)
next
  case (FailSessionEvents err)
  with T F show ?thesis by (auto simp: next_do_def dest: fail_detached intro: detached_keeps split: prod.splits)
next
  case FinishSubs
  with T F show ?thesis by (auto simp: next_do_def dest: all_detached intro: detached_keeps split: prod.splits)
next
  case (Unsubscribe i)
  with T F show ?thesis by (auto simp: next_do_def unsubscribe_def serve_simps elim!: frame)
next
  case (Stop i st)
  with T F show ?thesis by (auto simp: next_do_def serve_simps elim!: frame split: if_splits)
next
  case (StopRun i st)
  with T F show ?thesis by (auto simp: next_do_def serve_simps elim!: frame split: if_splits)
next
  case (Publish e)
  with T F show ?thesis by (auto simp: next_do_def publish_keeps)
next
  case (DrainGate run n g k)
  with T F show ?thesis by (auto simp: turn_defs publish_keeps split: if_splits input.splits option.splits)
next
  case (ReleaseToBoundary g b)
  with T F show ?thesis by (auto simp: next_do_def boundary_keeps)
next
  case (LiftGate g)
  with T F show ?thesis by (auto simp: next_do_def liftGate_keeps)
next
  case SessionEvents
  with T F show ?thesis by (auto simp: next_do_def session_event_keeps split: input.splits option.splits if_splits)
next
  case (PublishSessionEvent e)
  with T F show ?thesis by (auto simp: next_do_def session_event_keeps split: if_splits)
qed (use T F in \<open>auto simp: turn_defs serve_simps claimRun_def retargetGate_def beginClose_def armGateFor_def
      adoptOrphan_def Let_def
      intro!: same_keeps[OF F] split: if_splits option.splits input.splits gate_use.splits base_error.splits\<close>)

end

interpretation fan: delivery_invariant fan_ok
proof
  show "fan_ok t" if "fan_ok s" "s_nsub t = s_nsub s" "s_delivered t = s_delivered s" "set (s_subs t) \<subseteq> set (s_subs s)"
    "distinct (s_subs s) \<longrightarrow> distinct (s_subs t)" "\<And>i. same_queue (s_sub t i) (s_sub s i)" for s t
    by (rule fan_frame[OF that(1-5) queue_frame]) (use that(6) in \<open>simp_all add: same_queue_def\<close>)
qed (rule deliverLocked_fan)

lemma subscribe_fan:
  assumes "subscribe s q only = Some (i, run, at, t)" "fan_ok s"
  shows "fan_ok t"
proof -
  note f = subscribe_fresh[OF assms(1)] and d = subscribe_ends[OF assms(1)]
  have "queue_ok (s_delivered s) (s_sub t i) b" for b
    using assms(1) by (auto simp: subscribe_def newSubscriber_def queue_ok_def due_def stop_def serve_simps Let_def
        split: if_splits option.splits)
  moreover have "queue_ok (s_delivered s) (s_sub t j) (j \<in> set (s_subs t))" if "j < s_nsub s" for j
  proof -
    from that assms(2) have "queue_ok (s_delivered s) (s_sub s j) (j \<in> set (s_subs s))" by (simp add: fan_ok_def)
    moreover have "j \<in> set (s_subs t) \<longleftrightarrow> j \<in> set (s_subs s)" "s_sub t j = s_sub s j" using f that by auto
    ultimately show ?thesis by simp
  qed
  moreover have "distinct (s_subs t)" "set (s_subs t) \<subseteq> {..<s_nsub t}"
    using f assms(2) by (auto simp: fan_ok_def)
  ultimately show ?thesis using f d unfolding fan_ok_def by (metis less_Suc_eq)
qed

lemma consume_queue: "sb_ch u = e # es \<Longrightarrow> queue_ok D u b \<Longrightarrow> queue_ok D (u\<lparr>sb_ch := es\<rparr>) b"
  by (auto simp: queue_ok_def due_def wants_def intro: suffix_ConsD cong: filter_cong)

lemma upd_fan:
  assumes "fan_ok s" "\<And>b. queue_ok (s_delivered s) (s_sub s i) b \<Longrightarrow> queue_ok (s_delivered s) v b"
  shows "fan_ok (upd_sub s i v)"
  using assms by (auto simp: fan_ok_def serve_simps)

lemma serving_fan:
  assumes "serving js adm c"
  shows "fan_ok (fst c)"
  using assms
proof (induction rule: serving.induct)
  case (opened sid rel runs)
  then show ?case by (simp add: fan_ok_def newSession_def)
next
  case (steps c c1)
  from steps(2,3) show ?case
  proof (induction rule: serve_step.induct)
    case (takes_turn now inp a s s1 as spawned rest M)
    then show ?case by (auto intro: fan.turn_keeps)
  next
    case (subscribes s queue only i run at s1 M)
    then show ?case by (auto intro: subscribe_fan)
  next
    case (consumes s i e es M)
    then show ?case by (auto intro!: upd_fan consume_queue)
  next
    case (others s r M r')
    then show ?case by (auto elim!: fan.same_keeps)
  qed (auto intro!: upd_fan)
qed

section \<open>The gate keeps the order of a run\<close>

abbreviation of_run :: "bytes \<Rightarrow> Envelope list \<Rightarrow> Envelope list" where
  "of_run r \<equiv> filter (\<lambda>e. env_RunID e = r)"

definition withheld :: "Session \<Rightarrow> Envelope list" where
  "withheld s = (case s_gate s of Some g \<Rightarrow> pg_withheld (s_gates s g) | None \<Rightarrow> [])"

definition covered :: "Session \<Rightarrow> bytes \<Rightarrow> bool" where
  "covered s r = (case s_gate s of Some g \<Rightarrow> r \<in> set (pg_runs (s_gates s g)) | None \<Rightarrow> False)"

text \<open>The event an action publishes.\<close>

definition event_of :: "action \<Rightarrow> input \<Rightarrow> Envelope option" where
  "event_of a inp = (case a of Publish e \<Rightarrow> Some e
     | DrainGate run n g k \<Rightarrow> (if steerDrainBatch \<le> k then None else
         (case inp of Received e err \<Rightarrow> (if err = None then Some e else None) | _ \<Rightarrow> None))
     | _ \<Rightarrow> None)"

text \<open>The sequence numbers of the events published for a run, and the settlement of the request
  a gate is armed for names a run the gate covers.\<close>

definition seq_of :: "Envelope \<Rightarrow> seq" where
  "seq_of e = (case env_Sequence e of Some n \<Rightarrow> n | None \<Rightarrow> 0)"

definition orderly :: "json_api \<Rightarrow> Session \<Rightarrow> action \<Rightarrow> input \<Rightarrow> bool" where
  "orderly js s a inp =
     (case event_of a inp of
        None \<Rightarrow> True
      | Some e \<Rightarrow> env_RunID e \<noteq> [] \<longrightarrow>
          env_Sequence e \<noteq> None \<and> list_all (\<lambda>x. env_RunID x = env_RunID e \<longrightarrow> seq_of x < seq_of e) (s_published s)
          \<and> (case s_gate s of
               None \<Rightarrow> True
             | Some g \<Rightarrow> pg_request (s_gates s g) \<noteq> [] \<and> settlementRequest js e = pg_request (s_gates s g) \<longrightarrow>
                 env_RunID e \<in> set (pg_runs (s_gates s g))))"

definition run_order :: "Envelope list \<Rightarrow> Envelope list \<Rightarrow> Envelope list \<Rightarrow> bool \<Rightarrow> bool" where
  "run_order P D W c \<longleftrightarrow> P = D @ W \<and> (\<forall>e \<in> set P. env_Sequence e \<noteq> None)
     \<and> sorted_wrt (\<lambda>x y. seq_of x < seq_of y) P \<and> (W \<noteq> [] \<longrightarrow> c)"

definition order_ok :: "Session \<Rightarrow> bool" where
  "order_ok s \<longleftrightarrow>
     (\<forall>r. r \<noteq> [] \<longrightarrow> run_order (of_run r (s_published s)) (of_run r (s_delivered s)) (of_run r (withheld s)) (covered s r))
   \<and> (\<forall>g. s_gate s = Some g \<longrightarrow> g < s_ngate s)"

lemma run_order_mono: "run_order P D W c \<Longrightarrow> (c \<Longrightarrow> d) \<Longrightarrow> run_order P D W d"
  by (auto simp: run_order_def)

lemma run_order_move: "run_order P D (A @ B) c \<Longrightarrow> run_order P (D @ A) B c"
  by (auto simp: run_order_def)

lemma run_order_all: "run_order P D [] c \<Longrightarrow> run_order P D [] d"
  by (simp only: run_order_def) blast

lemma run_order_snoc:
  assumes "run_order P D W c" "env_Sequence e \<noteq> None" "\<forall>x \<in> set P. seq_of x < seq_of e"
  shows "run_order (P @ [e]) (D @ (if c then [] else [e])) (W @ (if c then [e] else [])) c"
  using assms by (auto simp: run_order_def sorted_wrt_append)

lemma order_frame:
  assumes "order_ok s" "s_published t = s_published s" "s_delivered t = s_delivered s" "withheld t = withheld s"
    "\<And>r. covered s r \<Longrightarrow> covered t r" "\<And>g. s_gate t = Some g \<Longrightarrow> g < s_ngate t"
  shows "order_ok t"
  using assms by (auto simp: order_ok_def elim!: run_order_mono)

lemma order_same:
  "order_ok s \<Longrightarrow> s_published t = s_published s \<and> s_delivered t = s_delivered s \<and> s_gate t = s_gate s
   \<and> s_gates t = s_gates s \<and> s_ngate t = s_ngate s \<Longrightarrow> order_ok t"
  by (rule order_frame[of s]) (auto simp: order_ok_def withheld_def covered_def split: option.splits)

text \<open>Delivery leaves the gates and what was published alone.\<close>

definition same_gates :: "Session \<Rightarrow> Session \<Rightarrow> bool" where
  "same_gates s t \<longleftrightarrow> s_gate t = s_gate s \<and> s_gates t = s_gates s \<and> s_ngate t = s_ngate s \<and> s_published t = s_published s"

lemma deliver_to_gates: "same_gates s (deliver_to e s i)"
  by (simp add: deliver_to_def same_gates_def serve_simps Let_def)

lemma fold_deliver_to_gates: "same_gates s (foldl (deliver_to e) s is)"
proof (induction "is" arbitrary: s)
  case (Cons i "is")
  from Cons.IH[of "deliver_to e s i"] deliver_to_gates[of s e i] show ?case by (simp add: same_gates_def)
qed (simp add: same_gates_def)

lemma deliverLocked_gates: "same_gates s (deliverLocked js now s e)"
proof -
  have "same_gates u (foldl (deliver_to e) u (s_subs u))" for u by (rule fold_deliver_to_gates)
  then show ?thesis unfolding deliverLocked_def Let_def same_gates_def by (simp split: option.split)
qed

lemma fold_deliver_gates:
  "same_gates s (foldl (deliverLocked js now) s es) \<and> s_delivered (foldl (deliverLocked js now) s es) = s_delivered s @ es"
proof (induction es arbitrary: s)
  case (Cons e es)
  from Cons.IH[of "deliverLocked js now s e"] deliverLocked_gates[of s js now e] show ?case by (simp add: same_gates_def)
qed (simp add: same_gates_def)

lemma publish_order:
  assumes I: "order_ok s" and O: "orderly js s (Publish e) inp"
  shows "order_ok (publish js now s e)"
proof -
  let ?s = "s\<lparr>s_published := s_published s @ [e]\<rparr>"
  let ?t = "publish js now s e"
  have ends: "order_ok ?t" if D: "s_delivered ?t = s_delivered s @ (if w then [] else [e])"
      and W: "withheld ?t = withheld s @ (if w then [e] else [])"
      and G: "s_gate ?t = s_gate s" "s_ngate ?t = s_ngate s" "\<And>r. covered ?t r = covered s r"
      and P: "s_published ?t = s_published s @ [e]"
      and H: "\<And>r. env_RunID e = r \<Longrightarrow> r \<noteq> [] \<Longrightarrow> w = covered s r" for w
  proof -
    have "run_order (of_run r (s_published ?t)) (of_run r (s_delivered ?t)) (of_run r (withheld ?t)) (covered ?t r)"
      if r: "r \<noteq> []" for r
    proof (cases "env_RunID e = r")
      case True
      have R: "run_order (of_run r (s_published s)) (of_run r (s_delivered s)) (of_run r (withheld s)) (covered s r)"
        using I r by (simp add: order_ok_def)
      have "env_Sequence e \<noteq> None" "\<forall>x \<in> set (of_run r (s_published s)). seq_of x < seq_of e"
        using O r True by (auto simp: orderly_def event_of_def list_all_iff)
      from run_order_snoc[OF R this] H[OF True r] show ?thesis
        by (simp add: D W G P True)
    next
      case False
      with I r show ?thesis by (simp add: D W G P order_ok_def)
    qed
    with I show ?thesis by (simp add: order_ok_def G)
  qed
  have H: "covered s r \<longleftrightarrow> (\<exists>g. s_gate s = Some g \<and> withholds js (s_gates s g) e)" if "env_RunID e = r" "r \<noteq> []" for r
    using O that by (auto simp: covered_def withholds_def orderly_def event_of_def split: option.splits)
  show ?thesis
  proof (cases "\<exists>g. s_gate s = Some g \<and> withholds js (s_gates s g) e")
    case True
    then obtain g where g: "s_gate s = Some g" "withholds js (s_gates s g) e" by blast
    then have t: "?t = withhold ?s g e" by (simp add: publish_def)
    show ?thesis
      by (rule ends[of True]) (use g H True in \<open>auto simp: t withhold_def withheld_def covered_def serve_simps\<close>)
  next
    case False
    then have t: "?t = deliverLocked js now ?s e" by (auto simp: publish_def Let_def split: option.split)
    have "same_gates ?s ?t" unfolding t by (rule deliverLocked_gates)
    then show ?thesis
      by (intro ends[of False]) (use H False in \<open>auto simp: t same_gates_def withheld_def covered_def split: option.splits\<close>)
  qed
qed

lemma sorted_split:
  "sorted_wrt (\<lambda>x y. f x < (f y :: seq)) xs \<Longrightarrow> filter (\<lambda>x. f x \<le> b) xs @ filter (\<lambda>x. \<not> f x \<le> b) xs = xs"
proof (induction xs)
  case (Cons x xs)
  show ?case
  proof (cases "f x \<le> b")
    case False
    with Cons.prems have "\<forall>y \<in> set xs. \<not> f y \<le> b" by (auto simp: not_le)
    with False show ?thesis by (simp add: filter_empty_conv cong: filter_cong)
  qed (use Cons in simp)
qed simp

lemma within_seq: "env_Sequence e \<noteq> None \<Longrightarrow> within b e \<longleftrightarrow> seq_of e \<le> b"
  by (auto simp: within_def seq_of_def)

lemma of_run_split:
  assumes "run_order P D (of_run r W) c"
  shows "of_run r (filter (within b) W) @ of_run r (filter (\<lambda>e. \<not> within b e) W) = of_run r W"
proof -
  have s: "sorted_wrt (\<lambda>x y. seq_of x < seq_of y) (of_run r W)" "\<forall>e \<in> set (of_run r W). env_Sequence e \<noteq> None"
    using assms by (auto simp: run_order_def sorted_wrt_append)
  have "filter (within b) (of_run r W) = filter (\<lambda>e. seq_of e \<le> b) (of_run r W)"
    "filter (\<lambda>e. \<not> within b e) (of_run r W) = filter (\<lambda>e. \<not> seq_of e \<le> b) (of_run r W)"
    using s(2) within_seq by (auto intro!: filter_cong)
  with sorted_split[OF s(1), of b] have "filter (within b) (of_run r W) @ filter (\<lambda>e. \<not> within b e) (of_run r W) = of_run r W"
    by simp
  then show ?thesis by (simp add: filter_filter conj_commute)
qed

lemma boundary_order:
  assumes I: "order_ok s"
  shows "order_ok (releaseToBoundary js now s g b)"
proof (cases "s_gate s = Some g")
  case True
  let ?W = "pg_withheld (s_gates s g)"
  let ?u = "upd_gate s g ((s_gates s g)\<lparr>pg_withheld := filter (\<lambda>e. \<not> within b e) ?W, pg_boundary := b\<rparr>)"
  let ?t = "releaseToBoundary js now s g b"
  have t: "?t = foldl (deliverLocked js now) ?u (filter (within b) ?W)"
    using True by (simp add: releaseToBoundary_def split_gate_def)
  have w: "withheld s = ?W" using True by (simp add: withheld_def)
  have k: "s_delivered ?t = s_delivered s @ filter (within b) ?W" "withheld ?t = filter (\<lambda>e. \<not> within b e) ?W"
    "s_published ?t = s_published s" "s_gate ?t = s_gate s" "s_ngate ?t = s_ngate s" "\<And>r. covered ?t r = covered s r"
    using fold_deliver_gates[of ?u js now "filter (within b) ?W"] True
    by (auto simp: t same_gates_def withheld_def covered_def serve_simps)
  have "run_order (of_run r (s_published ?t)) (of_run r (s_delivered ?t)) (of_run r (withheld ?t)) (covered ?t r)"
    if r: "r \<noteq> []" for r
  proof -
    have R: "run_order (of_run r (s_published s)) (of_run r (s_delivered s)) (of_run r ?W) (covered s r)"
      using I r w by (simp add: order_ok_def)
    have "run_order (of_run r (s_published s)) (of_run r (s_delivered s))
        (of_run r (filter (within b) ?W) @ of_run r (filter (\<lambda>e. \<not> within b e) ?W)) (covered s r)"
      unfolding of_run_split[OF R] by (rule R)
    from run_order_move[OF this] show ?thesis unfolding k filter_append .
  qed
  with I show ?thesis by (simp add: order_ok_def k(4,5))
qed (simp add: releaseToBoundary_def I)

lemma lift_order:
  assumes I: "order_ok s"
  shows "order_ok (liftGate js now s g)"
proof (cases "s_gate s = Some g")
  case True
  let ?W = "pg_withheld (s_gates s g)"
  let ?u = "upd_gate (s\<lparr>s_gate := None\<rparr>) g ((finishDrain (s_gates s g))\<lparr>pg_withheld := []\<rparr>)"
  let ?t = "liftGate js now s g"
  have t: "?t = foldl (deliverLocked js now) ?u ?W" using True by (simp add: liftGate_def)
  have w: "withheld s = ?W" using True by (simp add: withheld_def)
  have k: "s_delivered ?t = s_delivered s @ ?W" "withheld ?t = []" "s_published ?t = s_published s" "s_gate ?t = None"
    using fold_deliver_gates[of ?u js now ?W] by (auto simp: t same_gates_def withheld_def serve_simps)
  have "run_order (of_run r (s_published ?t)) (of_run r (s_delivered ?t)) (of_run r (withheld ?t)) (covered ?t r)"
    if r: "r \<noteq> []" for r
  proof -
    have "run_order (of_run r (s_published s)) (of_run r (s_delivered s)) (of_run r ?W @ []) (covered s r)"
      using I r w by (simp add: order_ok_def)
    from run_order_move[OF this] show ?thesis unfolding k filter_append filter.simps(1) by (rule run_order_all)
  qed
  then show ?thesis by (simp add: order_ok_def k(4))
qed (simp add: liftGate_def I)

lemma gate_upd_order:
  assumes "order_ok s" "pg_withheld v = pg_withheld (s_gates s g)" "set (pg_runs (s_gates s g)) \<subseteq> set (pg_runs v)"
  shows "order_ok (upd_gate s g v)"
  by (rule order_frame[OF assms(1)])
    (use assms in \<open>auto simp: serve_simps withheld_def covered_def order_ok_def split: option.splits if_splits\<close>)

lemma event_order:
  assumes "order_ok s" "session_event s e"
  shows "order_ok (publishSessionEventLocked js now s e)"
proof -
  let ?e = "e\<lparr>env_Sequence := Some (s_stateSequence s + 1)\<rparr>"
  have "order_ok (s\<lparr>s_stateSequence := s_stateSequence s + 1\<rparr>)" by (rule order_same[OF assms(1)]) simp
  moreover have "orderly js u (Publish ?e) Go" for u using assms(2) by (simp add: orderly_def event_of_def session_event_def)
  ultimately show ?thesis unfolding publishSessionEventLocked_def Let_def by (auto intro: publish_order)
qed

definition same_order :: "Session \<Rightarrow> Session \<Rightarrow> bool" where
  "same_order s t \<longleftrightarrow> s_published t = s_published s \<and> s_delivered t = s_delivered s \<and> s_gate t = s_gate s
   \<and> s_gates t = s_gates s \<and> s_ngate t = s_ngate s"

lemma section_order:
  "supersedeLocked s = (is, st, t) \<Longrightarrow> same_order s t" "bindRun s run n = (is, st, t) \<Longrightarrow> same_order s t"
  "adoptRun s run q = (is, st, t) \<Longrightarrow> same_order s t" "promoteCurrent s run e = (is, st, t) \<Longrightarrow> same_order s t"
  "releaseReservation s = (is, st, t) \<Longrightarrow> same_order s t" "flush_cohort s = (is, t) \<Longrightarrow> same_order s t"
  "exit_unnamed s = (is, st, t) \<Longrightarrow> same_order s t" "detachExposedLocked s run = (is, t) \<Longrightarrow> same_order s t"
  "detachSubsLocked s = (is, t) \<Longrightarrow> same_order s t" "failSessionEvents s err = (is, t) \<Longrightarrow> same_order s t"
  by (auto simp: supersedeLocked_def bindRun_def adoptRun_def promoteCurrent_def releaseReservation_def flush_cohort_def
      exit_unnamed_def detachExposedLocked_def detachSubsLocked_def failSessionEvents_def detachRunSubsLocked_def
      clear_end_def same_order_def serve_simps Let_def split: if_splits option.splits prod.splits)

lemma exit_order: "exitReader s run e = (ex, is, st, t) \<Longrightarrow> same_order s t"
  by (auto simp: exitReader_def flush_cohort_def detachRunSubsLocked_def detachExposedLocked_def same_order_def serve_simps Let_def
      split: if_splits option.splits prod.splits)

lemma same_order_ok: "same_order s t \<Longrightarrow> order_ok s \<Longrightarrow> order_ok t"
  by (rule order_same) (simp_all add: same_order_def)

lemma next_stop_order:
  "next_stop r rest = Some (t, as, sp) \<Longrightarrow> (\<And>is st u. r = (is, st, u) \<Longrightarrow> same_order s u) \<Longrightarrow> order_ok s \<Longrightarrow> order_ok t"
  by (cases r) (auto simp: next_stop_def next_do_def intro: same_order_ok)

lemma markClosed_order:
  assumes "markClosed js now s = (fin, is, st, t)" "order_ok s"
  shows "order_ok t"
proof -
  define s0 where "s0 = s\<lparr>s_sessionEventsStop := True, s_closed := True,
                  s_runs := map_option (\<lambda>r. release r (s_id s)) (s_runs s)\<rparr>"
  have "order_ok s0" using assms(2) by (rule order_same) (simp add: s0_def)
  then have "order_ok (drop_gate js now s0)" by (auto simp: drop_gate_def lift_order split: option.split)
  moreover have "same_order (drop_gate js now s0) t"
    using assms(1) unfolding markClosed_def Let_def s0_def[symmetric]
    by (auto simp: drop_failed_def same_order_def serve_simps split: if_splits)
  ultimately show ?thesis by (blast intro: same_order_ok)
qed

lemma arm_order:
  assumes "armGateFor s run task request = (g, t)" "order_ok s" "s_gate s = None"
  shows "order_ok t"
  by (rule order_frame[OF assms(2)])
    (use assms in \<open>auto simp: armGateFor_def serve_simps withheld_def covered_def gate_zero_def cover_def Let_def\<close>)

lemma turn_order:
  assumes T: "turn js now inp a s = Some (t, as, sp)" and F: "order_ok s" and O: "orderly js s a inp"
  shows "order_ok t"
proof (cases a)
  case (AdoptRun run q)
  with T F show ?thesis by (auto dest: section_order intro: same_order_ok split: prod.splits)
next
  case ReleaseReservation
  with T F show ?thesis by (auto intro: next_stop_order section_order)
next
  case (BindResult run n e err)
  with T F show ?thesis by (auto intro: next_stop_order section_order simp: next_do_def split: if_splits)
next
  case (HandleResult run n e err)
  with T F show ?thesis
    by (auto intro: next_stop_order[OF _ section_order(4)] next_stop_order dest: section_order
        simp: next_do_def split: option.splits base_error.splits prod.splits)
next
  case (ExitRun run n e)
  with T F show ?thesis
    by (auto intro: next_stop_order section_order simp: next_do_def dest!: exit_order dest: same_order_ok
        split: if_splits prod.splits)
next
  case MarkClosed
  with T F show ?thesis by (auto simp: next_do_def intro: markClosed_order split: prod.splits)
next
  case (FailSessionEvents err)
  with T F show ?thesis by (auto simp: next_do_def dest: section_order intro: same_order_ok split: prod.splits)
next
  case FinishSubs
  with T F show ?thesis by (auto simp: next_do_def dest: section_order intro: same_order_ok split: prod.splits)
next
  case (Publish e)
  with T F O show ?thesis by (auto simp: next_do_def intro: publish_order)
next
  case (DrainGate run n g k)
  with O have "orderly js s (Publish e) inp" if "inp = Received e None" "\<not> steerDrainBatch \<le> k" for e
    using that by (simp add: orderly_def event_of_def)
  with T F DrainGate show ?thesis
    by (auto simp: turn_defs intro: publish_order split: if_splits input.splits option.splits)
next
  case (ReleaseToBoundary g b)
  with T F show ?thesis by (auto simp: next_do_def boundary_order)
next
  case (LiftGate g)
  with T F show ?thesis by (auto simp: next_do_def lift_order)
next
  case SessionEvents
  with T F show ?thesis by (auto simp: next_do_def event_order split: input.splits option.splits if_splits)
next
  case (PublishSessionEvent e)
  with T F show ?thesis by (auto simp: next_do_def event_order split: if_splits)
next
  case (ArmGate run task request u)
  with T F show ?thesis by (auto simp: next_do_def intro: arm_order split: if_splits prod.splits)
next
  case (RetargetGate g run)
  with T F show ?thesis by (auto simp: next_do_def retargetGate_def cover_def intro!: gate_upd_order)
next
  case (RequestDrain g)
  with T F show ?thesis by (auto simp: next_do_def markDrainRequested_def intro!: gate_upd_order)
next
  case (FinishDrain g)
  with T F show ?thesis by (auto simp: next_do_def finishDrain_def intro!: gate_upd_order)
next
  case (WaitGateLifted run)
  with T F show ?thesis
    by (auto simp: next_do_def finishDrain_def intro!: gate_upd_order split: option.splits if_splits)
qed (use T in \<open>auto simp: turn_defs serve_simps claimRun_def beginClose_def adoptOrphan_def unsubscribe_def Let_def
      intro!: order_same[OF F] split: if_splits option.splits input.splits base_error.splits\<close>)

lemma serving_order:
  assumes "serving js (orderly js) c"
  shows "order_ok (fst c)"
  using assms
proof (induction rule: serving.induct)
  case (opened sid rel runs)
  then show ?case by (simp add: order_ok_def run_order_def newSession_def withheld_def)
next
  case (steps c c1)
  from steps(2,3) show ?case
  proof (induction rule: serve_step.induct)
    case (takes_turn now inp a s s1 as spawned rest M)
    then show ?case by (auto intro: turn_order)
  next
    case (subscribes s queue only i run at s1 M)
    then have "same_order s s1"
      by (auto simp: subscribe_def same_order_def serve_simps Let_def split: if_splits option.splits)
    with subscribes show ?case by (auto intro: same_order_ok)
  qed (auto elim!: order_same simp: serve_simps)
qed

section \<open>A settlement overtaken\<close>

definition event_demo :: "bytes \<Rightarrow> nat \<Rightarrow> Envelope" where
  "event_demo typ n = Envelope_zero\<lparr>env_Type := typ, env_RunID := ''r'', env_Sequence := Some (word_of_nat n), env_Payload := ''p''\<rparr>"

definition json_steer :: json_api where
  "json_steer = json_demo\<lparr>js_request := (\<lambda>_. Some ''e'')\<rparr>"

definition queued_demo :: SubmitResponse where
  "queued_demo = \<lparr>sr_Admission = ''queued'', sr_RunID = ''r'', sr_TargetSequence = None\<rparr>"

definition steered_demo :: SubmitResponse where
  "steered_demo = \<lparr>sr_Admission = ''steered'', sr_RunID = ''r'', sr_TargetSequence = None\<rparr>"

definition brings :: "nat \<Rightarrow> Envelope \<Rightarrow> move list" where
  "brings k e = [Turn k 0 Go, Turn k 0 (Received e None), Turn k 0 Go, Turn k 0 Go, Turn k 0 Go]"

definition overtaking :: "move list" where
  "overtaking =
     [Subscribe 4 False, Call [Compact ''s'' True], Turn 0 0 Go, Turn 0 0 (Answered queued_demo True None), Turn 0 0 Go, Turn 0 0 Go,
      Call [Submit (submit_demo\<lparr>sm_Delivery := ''steer''\<rparr>)], Turn 2 0 Go, Turn 2 0 Go, Turn 2 0 Go, Turn 2 0 Go, Turn 2 0 Go]
     @ brings 1 (event_demo ''run.steer.applied'' 1) @ brings 1 (event_demo ''content.delta'' 2)
     @ [Turn 2 0 (Answered steered_demo False None), Turn 2 0 Go, Turn 2 0 Go, Turn 2 0 Timeout, Turn 2 0 Go, Turn 3 0 Go]"

text \<open>The adapter numbers the events of a run.\<close>

definition numbered :: "Session \<Rightarrow> action \<Rightarrow> input \<Rightarrow> bool" where
  "numbered s a inp =
     (case event_of a inp of
        None \<Rightarrow> True
      | Some e \<Rightarrow> env_RunID e \<noteq> [] \<longrightarrow> env_Sequence e \<noteq> None
          \<and> list_all (\<lambda>x. env_RunID x = env_RunID e \<longrightarrow> seq_of x < seq_of e) (s_published s))"

lemma overtaking_played:
  "case play json_steer numbered overtaking (newSession ''s'' False None, []) of None \<Rightarrow> False
   | Some (s, us) \<Rightarrow> map seq_of (s_published s) = [1, 2] \<and> map seq_of (s_delivered s) = [2, 1] \<and> s_gate s = None
       \<and> map seq_of (sb_ch (s_sub s 0)) = [2, 1] \<and> map env_RunID (s_published s) = [''r'', ''r'']"
  by code_simp

lemma proper_overtaking: "proper_calls overtaking"
  by (auto simp: proper_calls_def overtaking_def brings_def intro: called.intros)

definition order_demo :: "move list" where
  "order_demo =
     [Subscribe 4 False, Call [Compact ''s'' True], Turn 0 0 Go, Turn 0 0 (Answered (answer_demo ''r'') True None), Turn 0 0 Go, Turn 0 0 Go]
     @ brings 1 (event_demo ''run.started'' 1) @ brings 1 (event_demo ''content.delta'' 2)"

lemma order_demo_played:
  "case play json_demo (orderly json_demo) order_demo (newSession ''s'' False None, []) of None \<Rightarrow> False
   | Some (s, us) \<Rightarrow> s_nsub s = 1 \<and> s_subs s = [0] \<and> map seq_of (of_run ''r'' (s_delivered s)) = [1, 2]"
  by code_simp

lemma proper_order_demo: "proper_calls order_demo"
  by (auto simp: proper_calls_def order_demo_def brings_def intro: called.intros)

lemma order_demo_serving:
  obtains s us where "serving json_demo (orderly json_demo) (s, mset us)" "s_nsub s = 1" "s_subs s = [0]"
    "map seq_of (of_run ''r'' (s_delivered s)) = [1, 2]"
proof -
  obtain s us where p: "play json_demo (orderly json_demo) order_demo (newSession ''s'' False None, []) = Some (s, us)"
    and c: "s_nsub s = 1" "s_subs s = [0]" "map seq_of (of_run ''r'' (s_delivered s)) = [1, 2]"
    using order_demo_played by (auto split: option.splits)
  show thesis by (rule that[OF play_new[OF p proper_order_demo] c])
qed

section \<open>Properties\<close>

text \<open>C33. What was ever put into the queue of a subscriber is what was delivered to the session
  since it attached, less the events it does not want, in order and with nothing left out;
  once it is detached it is a prefix of that, so that it misses events only from one point
  on.  What is still queued is the end of it and never exceeds the capacity.\<close>

theorem fan_out_exact:
  assumes "serving js adm (s, M)" and "i < s_nsub s"
  defines "sub \<equiv> s_sub s i"
  defines "D \<equiv> filter (\<lambda>e. \<not> (sb_sessionOnly sub \<and> env_RunID e \<noteq> [])) (drop (sb_since sub) (s_delivered s))"
  shows "prefix (sb_got sub) D \<and> (i \<in> set (s_subs s) \<longrightarrow> sb_got sub = D) \<and> suffix (sb_ch sub) (sb_got sub)
    \<and> length (sb_ch sub) \<le> sb_queue sub"
proof -
  have "queue_ok (s_delivered s) sub (i \<in> set (s_subs s))"
    using serving_fan[OF assms(1)] assms(2) by (simp add: fan_ok_def sub_def)
  then show ?thesis by (simp add: queue_ok_def due_def D_def wants_def[abs_def])
qed

theorem fan_out_exact_witness:
  "\<exists>s M. serving json_demo (orderly json_demo) (s, M) \<and> 0 < s_nsub s \<and> 0 \<in> set (s_subs s) \<and>
    sb_got (s_sub s 0) = filter (\<lambda>e. \<not> (sb_sessionOnly (s_sub s 0) \<and> env_RunID e \<noteq> []))
      (drop (sb_since (s_sub s 0)) (s_delivered s)) \<and> length (sb_ch (s_sub s 0)) \<le> sb_queue (s_sub s 0)"
proof -
  obtain s us where S: "serving json_demo (orderly json_demo) (s, mset us)" "s_nsub s = 1" "s_subs s = [0]"
    by (rule order_demo_serving)
  with fan_out_exact[OF S(1), of 0] show ?thesis by auto
qed



text \<open>A gate that was armed without a run, for a steering request without a target while no
  run is current, holds back the settlement of the request but not the events of its run:
  an event published after the settlement is delivered before it.\<close>

lemma settlement_overtaken:
  "\<exists>s M. serving json_steer numbered (s, M) \<and> map env_RunID (s_published s) = [''r'', ''r'']
     \<and> map seq_of (s_published s) = [1, 2] \<and> map seq_of (s_delivered s) = [2, 1]
     \<and> map seq_of (sb_ch (s_sub s 0)) = [2, 1]"
proof -
  obtain s us where p: "play json_steer numbered overtaking (newSession ''s'' False None, []) = Some (s, us)"
    and c: "map env_RunID (s_published s) = [''r'', ''r'']" "map seq_of (s_published s) = [1, 2]"
      "map seq_of (s_delivered s) = [2, 1]" "map seq_of (sb_ch (s_sub s 0)) = [2, 1]"
    using overtaking_played by (auto split: option.splits)
  show ?thesis by (intro exI conjI) (rule play_new[OF p proper_overtaking] c)+
qed

end
