(* ===== verification/Serve_Serials.thy ===== *)
theory Serve_Serials
  imports Serve_Delivery
begin

text \<open>
  The serial numbers of the runs of a server session: a run has one entry, its number never
  falls, and no reader has reserved a number that was not given out.
\<close>

section \<open>What the sections do to the serial numbers\<close>

definition same_serials :: "Session \<Rightarrow> Session \<Rightarrow> bool" where
  "same_serials s t \<longleftrightarrow> s_serials t = s_serials s \<and> s_nextSerial t = s_nextSerial s"

lemma same_serials_refl [simp]: "same_serials s s"
  by (simp add: same_serials_def)

lemma same_serials_trans: "same_serials s t \<Longrightarrow> same_serials t u \<Longrightarrow> same_serials s u"
  by (simp add: same_serials_def)

lemma serial_simps [serve_simps]:
  "s_serials (upd_sub s i v) = s_serials s" "s_nextSerial (upd_sub s i v) = s_nextSerial s"
  "s_serials (upd_gate s g w) = s_serials s" "s_nextSerial (upd_gate s g w) = s_nextSerial s"
  "s_serials (del_subs is s) = s_serials s" "s_nextSerial (del_subs is s) = s_nextSerial s"
  by (simp_all add: upd_sub_def upd_gate_def del_subs_def)

lemma deliver_to_serials: "same_serials s (deliver_to e s i)"
  by (simp add: deliver_to_def Let_def same_serials_def serve_simps)

lemma fold_deliver_to_serials: "same_serials s (foldl (deliver_to e) s is)"
  by (induction "is" arbitrary: s) (auto intro: same_serials_trans[OF deliver_to_serials])

lemma deliverLocked_serials: "same_serials s (deliverLocked js now s e)"
  unfolding deliverLocked_def Let_def
  by (rule same_serials_trans[OF _ fold_deliver_to_serials]) (auto simp: same_serials_def split: option.split)

lemma fold_deliver_serials: "same_serials s (foldl (deliverLocked js now) s es)"
  by (induction es arbitrary: s) (auto intro: same_serials_trans[OF deliverLocked_serials])

lemma publish_serials: "same_serials s (publish js now s e)"
  using deliverLocked_serials[of "s\<lparr>s_published := s_published s @ [e]\<rparr>" js now e]
  by (auto simp: publish_def same_serials_def withhold_def serve_simps Let_def split: option.split)

lemma session_event_serials: "same_serials s (publishSessionEventLocked js now s e)"
  using publish_serials[of "s\<lparr>s_stateSequence := s_stateSequence s + 1\<rparr>" js now]
  by (simp add: publishSessionEventLocked_def Let_def same_serials_def)

lemma liftGate_serials: "same_serials s (liftGate js now s g)"
  using fold_deliver_serials by (simp add: liftGate_def same_serials_def serve_simps)

lemma boundary_serials: "same_serials s (releaseToBoundary js now s g b)"
  using fold_deliver_serials by (simp add: releaseToBoundary_def split_gate_def same_serials_def serve_simps)

lemmas kept_serials = publish_serials[unfolded same_serials_def] session_event_serials[unfolded same_serials_def]
  liftGate_serials[unfolded same_serials_def] boundary_serials[unfolded same_serials_def]

lemma supersede_serials: "supersedeLocked s = (is, st, t) \<Longrightarrow> same_serials s t"
  by (auto simp: supersedeLocked_def clear_end_def same_serials_def serve_simps split: if_splits)

lemma promote_serials: "promoteCurrent s run e = (is, st, t) \<Longrightarrow> same_serials s t"
  by (auto simp: promoteCurrent_def same_serials_def dest!: supersede_serials split: if_splits)

lemma release_serials: "releaseReservation s = (is, st, t) \<Longrightarrow> same_serials s t"
  by (auto simp: releaseReservation_def clear_end_def same_serials_def Let_def serve_simps split: if_splits)

lemma detach_serials:
  "detachExposedLocked s run = (is, t) \<Longrightarrow> same_serials s t" "detachRunSubsLocked s = (is, t) \<Longrightarrow> same_serials s t"
  "detachSubsLocked s = (is, t) \<Longrightarrow> same_serials s t" "failSessionEvents s err = (is, t) \<Longrightarrow> same_serials s t"
  by (auto simp: detachExposedLocked_def detachRunSubsLocked_def detachSubsLocked_def
      failSessionEvents_def same_serials_def serve_simps Let_def split: if_splits option.splits)

lemma exitReader_serials: "exitReader s run e = (exposed, is, st, t) \<Longrightarrow> same_serials s t"
  by (auto simp: exitReader_def Let_def flush_cohort_def detachRunSubsLocked_def detachExposedLocked_def
      same_serials_def serve_simps split: if_splits option.splits prod.splits)

lemma exit_unnamed_serials: "exit_unnamed s = (is, st, t) \<Longrightarrow> same_serials s t"
  by (auto simp: exit_unnamed_def flush_cohort_def detachRunSubsLocked_def clear_end_def Let_def serve_simps same_serials_def
      split: if_splits option.splits)

lemma markClosed_serials:
  assumes "markClosed js now s = (fin, is, st, t)"
  shows "same_serials s t"
proof -
  define s0 where "s0 = s\<lparr>s_sessionEventsStop := True, s_closed := True,
                  s_runs := map_option (\<lambda>r. release r (s_id s)) (s_runs s)\<rparr>"
  have "same_serials s0 (drop_gate js now s0)"
    by (auto simp: drop_gate_def liftGate_serials split: option.split)
  then show ?thesis
    using assms unfolding markClosed_def Let_def s0_def[symmetric]
    by (auto simp: same_serials_def drop_failed_def serve_simps s0_def split: if_splits)
qed

lemma subscribe_serials: "subscribe s q only = Some (i, run, at, t) \<Longrightarrow> same_serials s t"
  by (auto simp: subscribe_def same_serials_def Let_def serve_simps split: if_splits option.splits)

lemmas section_serials = promote_serials release_serials detach_serials exitReader_serials exit_unnamed_serials markClosed_serials

section \<open>Association lists\<close>

lemma al_put_keys: "set (map fst (al_put k v m)) = insert k (set (map fst m))"
  by (induction k v m rule: al_put.induct) auto

lemma al_put_distinct: "distinct (map fst m) \<Longrightarrow> distinct (map fst (al_put k v m))"
proof (induction m)
  case (Cons p m)
  then show ?case using al_put_keys[of k v m] by (cases p) (auto simp: image_iff)
qed simp

section \<open>The invariant\<close>

definition reserved_of :: "action \<Rightarrow> nat" where
  "reserved_of a = (case a of NextResult run n \<Rightarrow> n | ReceiveResult run n \<Rightarrow> n | DrainGate run n g k \<Rightarrow> n
     | BindResult run n e err \<Rightarrow> n | HandleResult run n e err \<Rightarrow> n | ExitRun run n e \<Rightarrow> n | _ \<Rightarrow> 0)"

definition serials_ok :: "Session \<Rightarrow> bool" where
  "serials_ok s \<longleftrightarrow> distinct (map fst (s_serials s)) \<and> (\<forall>r. serial s r \<le> s_nextSerial s)"

definition serials_on :: "Session \<Rightarrow> Session \<Rightarrow> bool" where
  "serials_on s t \<longleftrightarrow> s_nextSerial s \<le> s_nextSerial t \<and> (\<forall>r. serial s r \<le> serial t r)"

definition serials_turn :: "Session \<Rightarrow> Session \<Rightarrow> action list \<Rightarrow> action list list \<Rightarrow> bool" where
  "serials_turn s t as sp \<longleftrightarrow> serials_ok t \<and> serials_on s t
     \<and> (\<forall>b \<in> set as \<union> (\<Union>u \<in> set sp. set u). reserved_of b \<le> s_nextSerial t)"

lemma same_serials_on: "same_serials s t \<Longrightarrow> serials_ok s \<Longrightarrow> serials_ok t \<and> serials_on s t"
  by (simp add: same_serials_def serials_ok_def serials_on_def serial_def)

lemma bind_serials:
  assumes "bindRun s run n = (is, st, t)" "n \<le> s_nextSerial s" "serials_ok s"
  shows "serials_ok t \<and> serials_on s t \<and> s_nextSerial t = s_nextSerial s"
proof -
  have E: "s_nextSerial t = s_nextSerial s \<and> s_serials t = (if serial s run = 0 then al_put run n (s_serials s) else s_serials s)"
    using assms(1) by (auto simp: bindRun_def Let_def same_serials_def dest!: supersede_serials split: if_splits)
  with assms(2,3) show ?thesis
    by (auto simp: serials_ok_def serials_on_def serial_def al_put_distinct)
qed

lemma adopt_serials:
  assumes "adoptRun s run q = (is, st, t)" "serials_ok s"
  shows "serials_ok t \<and> serials_on s t"
proof -
  have "s_nextSerial t = s_nextSerial s + 1 \<and> s_serials t = al_put run (s_nextSerial s + 1) (s_serials s)"
    using assms(1) by (auto simp: adoptRun_def Let_def same_serials_def dest!: supersede_serials split: if_splits)
  with assms(2) show ?thesis
    by (auto simp: serials_ok_def serials_on_def serial_def al_put_distinct le_SucI)
qed

lemma serials_turnI:
  "same_serials s t \<Longrightarrow> serials_ok s \<Longrightarrow> (\<And>b u. b \<in> set as \<Longrightarrow> reserved_of b \<le> s_nextSerial s) \<Longrightarrow>
   (\<And>b u. u \<in> set sp \<Longrightarrow> b \<in> set u \<Longrightarrow> reserved_of b \<le> s_nextSerial s) \<Longrightarrow> serials_turn s t as sp"
  using same_serials_on[of s t] by (auto simp: serials_turn_def same_serials_def)

lemma turn_serials:
  assumes T: "turn js now inp a s = Some (t, as, sp)" and R: "reserved_of a \<le> s_nextSerial s" and S: "serials_ok s"
  shows "serials_turn s t as sp"
proof (cases a)
  case (BindResult run n e err)
  show ?thesis
  proof (cases "bindRun s (env_RunID e) n")
    case (fields "is" st t1)
    from bind_serials[OF this] R S BindResult have "serials_ok t1 \<and> serials_on s t1 \<and> s_nextSerial t1 = s_nextSerial s"
      by (simp add: reserved_of_def)
    with T R S BindResult fields show ?thesis
      by (auto simp: turn_defs serials_turn_def serials_on_def reserved_of_def split: if_splits)
  qed
next
  case (AdoptRun run q)
  with T S show ?thesis by (auto simp: serials_turn_def reserved_of_def dest: adopt_serials split: prod.splits)
next
  case AdoptOrphan
  with T S show ?thesis
    by (auto simp: adoptOrphan_def serials_turn_def serials_ok_def serials_on_def reserved_of_def serial_def le_SucI)
next
  case (HandleResult run n e err)
  with T R S show ?thesis
    by (auto simp: turn_defs serials_turn_def reserved_of_def same_serials_def
        serials_ok_def serials_on_def serial_def dest!: section_serials
        split: option.splits base_error.splits prod.splits)
next
  case (ArmGate run task request u)
  with T R S show ?thesis
    by (auto simp: turn_defs serials_turn_def reserved_of_def armGateFor_def serve_simps Let_def serials_ok_def serials_on_def serial_def
        split: if_splits gate_use.splits)
next
  case (CallSteer sm g)
  with T S show ?thesis
    by (auto simp: turn_defs serials_turn_def reserved_of_def after_steer_def close_if_def serials_on_def
        split: input.splits option.splits base_error.splits)
next
  case (CallSubmit sm)
  with T S show ?thesis
    by (auto simp: turn_defs serials_turn_def reserved_of_def after_submit_def close_if_def serials_on_def
        split: input.splits if_splits)
next
  case CallCompact
  with T S show ?thesis
    by (auto simp: turn_defs serials_turn_def reserved_of_def after_submit_def close_if_def serials_on_def
        split: input.splits if_splits)
next
  case MarkClosed
  with T S show ?thesis
    by (auto simp: turn_defs reserved_of_def dest!: markClosed_serials intro!: serials_turnI split: prod.splits if_splits)
next
  case (ExitRun run n e)
  with T S show ?thesis
    by (auto simp: turn_defs reserved_of_def dest!: exitReader_serials exit_unnamed_serials intro!: serials_turnI
        split: prod.splits if_splits)
next
  case (CallClose n)
  with T S show ?thesis
    by (auto simp: turn_defs reserved_of_def intro!: serials_turnI split: input.splits option.splits base_error.splits if_splits)
qed (use T R S in
   \<open>auto simp: turn_defs reserved_of_def same_serials_def serve_simps
      kept_serials claimRun_def retargetGate_def unsubscribe_def beginClose_def Let_def detachSubsLocked_def
      intro!: serials_turnI dest!: detach_serials(4) release_serials
      split: if_splits option.splits input.splits prod.splits\<close>)

definition serials_inv :: "Session \<times> action list multiset \<Rightarrow> bool" where
  "serials_inv c \<longleftrightarrow> serials_ok (fst c) \<and> (\<forall>u \<in># snd c. \<forall>b \<in> set u. reserved_of b \<le> s_nextSerial (fst c))"

lemma called_reserved: "called t \<Longrightarrow> b \<in> set t \<Longrightarrow> reserved_of b = 0"
  by (induction rule: called.induct) (auto simp: reserved_of_def)

lemma step_serials:
  assumes "serve_step js adm c c1" "serials_inv c"
  shows "serials_inv c1 \<and> serials_on (fst c) (fst c1)"
  using assms
proof (induction rule: serve_step.induct)
  case (takes_turn now inp a s s1 as spawned rest M)
  then have "serials_turn s s1 as spawned" by (intro turn_serials) (auto simp: serials_inv_def)
  with takes_turn(3) show ?case unfolding serials_turn_def serials_inv_def serials_on_def
    by (auto intro: le_trans)
next
  case (calls t s M)
  then show ?case by (auto simp: serials_inv_def serials_on_def called_reserved)
next
  case (subscribes s queue only i run at s1 M)
  from subscribe_serials[OF subscribes(1)] subscribes(3) show ?case
    by (auto simp: serials_inv_def same_serials_def serials_ok_def serials_on_def serial_def)
qed (auto simp: serials_inv_def serials_ok_def serials_on_def serial_def serve_simps)

lemma serving_serials: "serving js adm c \<Longrightarrow> serials_inv c"
proof (induction rule: serving.induct)
  case (opened sid rel runs)
  then show ?case by (simp add: serials_inv_def serials_ok_def newSession_def serial_def)
qed (use step_serials in blast)

lemma laterRuns_distinct:
  assumes "serials_ok s"
  shows "distinct (run # laterRuns s run)"
proof -
  let ?L = "sort_key snd (filter (\<lambda>(r, n). serial s run < n) (s_serials s))"
  have d: "distinct (map fst (s_serials s))" using assms by (simp add: serials_ok_def)
  then have "distinct (map fst (filter (\<lambda>(r, n). serial s run < n) (s_serials s)))" by (rule distinct_map_filter)
  moreover have "mset (map fst ?L) = mset (map fst (filter (\<lambda>(r, n). serial s run < n) (s_serials s)))" by simp
  ultimately have "distinct (map fst ?L)" by (metis mset_eq_imp_distinct_iff)
  moreover have "al_get 0 m r = n" if "distinct (map fst m)" "(r, n) \<in> set m" for m :: "(bytes \<times> nat) list" and r n
    using that by (induction m) (auto simp: rev_image_eqI)
  with d have "run \<notin> fst ` set ?L" by (auto simp: serial_def)
  ultimately show ?thesis by (simp add: laterRuns_def)
qed

end
