(* ===== verification/Serve_Subscription.thy ===== *)
theory Serve_Subscription
  imports Serve_Serials
begin

text \<open>
  The subscriptions of \<^verbatim>\<open>go/serve/subscribe.go\<close>: opening one with or without a cursor, the
  replay of the runs it resumes, and the events it hands over.  A subscription is a goroutine
  of the client that shares its subscriber with the session; what it does between two points
  at which the session may change is one section, as in \<^verbatim>\<open>Serve_Session\<close>.
\<close>

section \<open>Data\<close>

record subscribeOptions =
  so_runID :: bytes
  so_after :: "seq option"
  so_oneRun :: bool

definition After :: "bytes \<Rightarrow> seq \<Rightarrow> subscribeOptions \<Rightarrow> subscribeOptions" where
  "After runID sequence options = options\<lparr>so_after := Some sequence, so_runID := runID\<rparr>"

definition OneRun :: "subscribeOptions \<Rightarrow> subscribeOptions" where
  "OneRun options = options\<lparr>so_oneRun := True\<rparr>"

datatype sub_error =
    EOF | ErrQuiet | OverflowError bytes seq | StreamError base_error | ContextError
  | SessionClosedError | ErrNoRunToResume

text \<open>\<^verbatim>\<open>su_sub\<close>: the subscriber in the session, none for a subscription to one run, whose
  subscriber the session does not know.  A replay stream is known by its run.\<close>

record Subscription =
  su_sub :: "nat option"
  su_replay :: bool
  su_replaying :: bytes
  su_later :: "bytes list"
  su_oneRun :: bool
  su_run :: bytes
  su_last :: seq
  su_lastRun :: bytes
  su_positions :: "bytes \<rightharpoonup> seq"
  su_firstRun :: nat
  su_joinedRun :: bytes
  su_joinedAt :: seq
  su_closed :: bool
  su_finished :: bool
  su_err :: "sub_error option"

definition Subscription_zero :: Subscription where
  "Subscription_zero = \<lparr>su_sub = None, su_replay = False, su_replaying = [], su_later = [], su_oneRun = False, su_run = [],
     su_last = 0, su_lastRun = [], su_positions = Map.empty, su_firstRun = 0, su_joinedRun = [], su_joinedAt = 0,
     su_closed = False, su_finished = False, su_err = None\<rparr>"

text \<open>Where the goroutine of a subscription is: in \<^verbatim>\<open>Subscribe\<close>, outside, or at one of the
  selections of \<^verbatim>\<open>next\<close>.  The flag says whether \<^verbatim>\<open>next\<close> has a limit.\<close>

datatype place =
    Opening | NoSubscription | ChooseRun | Attach bytes | ListLater bytes | ResumeRuns bytes "bytes list" "bytes list" | FirstRun bytes "bytes list"
  | Outside | AtReplay bool | ReplayFinish bool | AtLive bool | LiveFinish

text \<open>What a selection finds, and what the hub and the adapter answer.\<close>

datatype pick =
    Proceed | HubEnded bool | Resumes "base_error option" | CallNext bool | CallClose_sub
  | ReplayReady Envelope "base_error option" | ReplayClosed | LiveReady | FinishReady | QuietFired | ContextDone | NothingThere

datatype outcome = Gives Envelope | Fails sub_error | Waits place

type_synonym sub_section = "(outcome \<times> Session \<times> Subscription) option"

definition position :: "Subscription \<Rightarrow> bytes \<Rightarrow> seq" where
  "position u run = (case su_positions u run of Some n \<Rightarrow> n | None \<Rightarrow> 0)"

section \<open>Ending a subscription\<close>

text \<open>\<^verbatim>\<open>detach\<close>; \<^verbatim>\<open>abandon\<close> only empties the streams no one reads any more.\<close>

definition detach :: "Session \<Rightarrow> Subscription \<Rightarrow> Session" where
  "detach s u = (case su_sub u of None \<Rightarrow> s | Some i \<Rightarrow> let s1 = unsubscribe s i in upd_sub s1 i (stop (s_sub s1 i) None))"

definition Close_sub :: "Session \<Rightarrow> Subscription \<Rightarrow> Session \<times> Subscription" where
  "Close_sub s u = (if su_closed u then (s, u) else (detach s u, u\<lparr>su_closed := True, su_finished := True\<rparr>))"

definition fail_sub :: "Session \<Rightarrow> Subscription \<Rightarrow> sub_error \<Rightarrow> outcome \<times> Session \<times> Subscription" where
  "fail_sub s u err = (case Close_sub s u of (s1, u1) \<Rightarrow> (Fails err, s1, u1\<lparr>su_finished := True, su_err := Some err\<rparr>))"

section \<open>Opening\<close>

text \<open>A subscription without a cursor attaches.  \<open>hubEnded\<close>: the hub has ended its subscriptions.\<close>

definition attach_sub :: "Session \<Rightarrow> nat \<Rightarrow> bool \<Rightarrow> (nat \<times> bytes \<times> seq) option \<times> Session" where
  "attach_sub s queue hubEnded =
     (case subscribe s queue False of
        None \<Rightarrow> (None, s)
      | Some (i, run, at, s1) \<Rightarrow>
          if hubEnded then (let s2 = unsubscribe s1 i in (None, upd_sub s2 i (stop (s_sub s2 i) None)))
          else (Some (i, run, at), s1))"

definition open_live :: "nat \<Rightarrow> bool \<Rightarrow> Session \<Rightarrow> Subscription \<Rightarrow> outcome \<times> Session \<times> Subscription" where
  "open_live queue hubEnded s u =
     (case attach_sub s queue hubEnded of
        (None, s1) \<Rightarrow> (Fails SessionClosedError, s1, u)
      | (Some (i, run, at), s1) \<Rightarrow> (Waits Outside, s1, u\<lparr>su_sub := Some i, su_joinedRun := run, su_joinedAt := at\<rparr>))"

definition choose_run :: "subscribeOptions \<Rightarrow> Session \<Rightarrow> Subscription \<Rightarrow> outcome \<times> Session \<times> Subscription" where
  "choose_run opts s u =
     (let run = (if so_runID opts = [] then s_runID s else so_runID opts)
      in if run = [] then (Fails ErrNoRunToResume, s, u)
         else (Waits (if so_oneRun opts then ResumeRuns run [run] [] else Attach run), s, u))"

definition attach_resumed :: "nat \<Rightarrow> bool \<Rightarrow> bytes \<Rightarrow> Session \<Rightarrow> Subscription \<Rightarrow> outcome \<times> Session \<times> Subscription" where
  "attach_resumed queue hubEnded run s u =
     (case attach_sub s queue hubEnded of
        (None, s1) \<Rightarrow> (Fails SessionClosedError, s1, u)
      | (Some (i, joined, at), s1) \<Rightarrow> (Waits (ListLater run), s1, u\<lparr>su_sub := Some i\<rparr>))"

text \<open>\<^verbatim>\<open>resumeRuns\<close>, one call of the adapter at a time: the runs still to resume and those
  resumed.\<close>

definition resumeRuns :: "base_error option \<Rightarrow> bytes \<Rightarrow> bytes list \<Rightarrow> bytes list \<Rightarrow> Session \<Rightarrow> Subscription \<Rightarrow> outcome \<times> Session \<times> Subscription" where
  "resumeRuns err run todo resumed s u =
     (case todo of
        [] \<Rightarrow> (Waits (FirstRun run resumed), s, u)
      | r # rs \<Rightarrow> (case err of
          None \<Rightarrow> (Waits (ResumeRuns run rs (resumed @ [r])), s, u)
        | Some x \<Rightarrow> (Fails (StreamError x), detach s u, u)))"

definition first_run :: "subscribeOptions \<Rightarrow> bytes \<Rightarrow> bytes list \<Rightarrow> Session \<Rightarrow> Subscription \<Rightarrow> outcome \<times> Session \<times> Subscription" where
  "first_run opts run resumed s u =
     (let after = (case so_after opts of Some n \<Rightarrow> n | None \<Rightarrow> 0)
      in (Waits Outside, s, u\<lparr>su_replay := True, su_replaying := run, su_later := tl resumed, su_oneRun := so_oneRun opts,
            su_run := run, su_last := after, su_positions := [run \<mapsto> after], su_firstRun := serial s run\<rparr>))"

section \<open>Replayed and live events\<close>

definition observedSequence :: "Envelope \<Rightarrow> seq \<Rightarrow> seq" where
  "observedSequence e prior = (case env_Sequence e of Some n \<Rightarrow> if prior < n then n else prior | None \<Rightarrow> prior)"

definition replayed :: "Envelope \<Rightarrow> base_error option \<Rightarrow> Session \<Rightarrow> Subscription \<Rightarrow> outcome \<times> Session \<times> Subscription" where
  "replayed e err s u =
     (case err of
        Some x \<Rightarrow> fail_sub s u (if x = ErrEventStreamOverflow then OverflowError (su_replaying u) (su_last u) else StreamError x)
      | None \<Rightarrow>
          (Gives e, s, u\<lparr>su_last := observedSequence e (su_last u),
             su_positions := (case env_Sequence e of Some n \<Rightarrow> (su_positions u)(env_RunID e \<mapsto> n) | None \<Rightarrow> su_positions u)\<rparr>))"

text \<open>\<^verbatim>\<open>observe\<close>: whether the event is handed over.\<close>

definition observe :: "nat \<Rightarrow> Envelope \<Rightarrow> Session \<Rightarrow> Subscription \<Rightarrow> bool \<times> Session \<times> Subscription" where
  "observe i e s u =
     (let run = env_RunID e
      in if run = [] then (True, s, u)
         else if 0 < su_firstRun u \<and> serial s run < su_firstRun u then (False, upd_sub s i (untrack (s_sub s i) run), u)
         else let s1 = upd_sub s i (acknowledge (s_sub s i) run)
              in case env_Sequence e of
                   Some n \<Rightarrow>
                     if n \<le> position u run then (False, s1, u)
                     else (True, s1, u\<lparr>su_lastRun := run,
                             su_last := observedSequence e (if run \<noteq> su_lastRun u then 0 else su_last u),
                             su_positions := (su_positions u)(run \<mapsto> n)\<rparr>)
                 | None \<Rightarrow> (True, s1, u\<lparr>su_lastRun := run, su_last := (if run \<noteq> su_lastRun u then 0 else su_last u)\<rparr>))"

definition replay_or_live :: "bool \<Rightarrow> Session \<Rightarrow> Subscription \<Rightarrow> outcome \<times> Session \<times> Subscription" where
  "replay_or_live quiet s u =
     (if su_replay u then (Waits (AtReplay quiet), s, u)
      else if su_oneRun u then (case Close_sub s u of (s1, u1) \<Rightarrow> (Fails EOF, s1, u1))
      else (Waits (AtLive quiet), s, u))"

definition next_sub :: "bool \<Rightarrow> Session \<Rightarrow> Subscription \<Rightarrow> outcome \<times> Session \<times> Subscription" where
  "next_sub quiet s u =
     (if su_finished u then (Fails (case su_err u of Some err \<Rightarrow> err | None \<Rightarrow> EOF), s, u) else replay_or_live quiet s u)"

text \<open>The end of a replay stream: the next run to replay, or the live events.\<close>

definition replay_ended :: "bool \<Rightarrow> Session \<Rightarrow> Subscription \<Rightarrow> outcome \<times> Session \<times> Subscription" where
  "replay_ended quiet s u =
     replay_or_live quiet s
       (case su_later u of
          [] \<Rightarrow> u\<lparr>su_replay := False\<rparr>
        | r # rs \<Rightarrow> u\<lparr>su_replay := True, su_replaying := r, su_last := 0, su_later := rs\<rparr>)"

definition finish_closed :: "Session \<Rightarrow> Subscription \<Rightarrow> bool" where
  "finish_closed s u = (case su_sub u of Some i \<Rightarrow> sb_finish (s_sub s i) | None \<Rightarrow> su_closed u)"

definition nextReplay :: "pick \<Rightarrow> bool \<Rightarrow> Session \<Rightarrow> Subscription \<Rightarrow> sub_section" where
  "nextReplay p quiet s u =
     (case p of
        ReplayReady e err \<Rightarrow> Some (replayed e err s u)
      | ReplayClosed \<Rightarrow> Some (replay_ended quiet s u)
      | FinishReady \<Rightarrow> if finish_closed s u then Some (Waits (ReplayFinish quiet), s, u) else None
      | QuietFired \<Rightarrow> if quiet then Some (Fails ErrQuiet, s, u) else None
      | ContextDone \<Rightarrow> Some (fail_sub s u ContextError)
      | _ \<Rightarrow> None)"

definition replay_finish :: "pick \<Rightarrow> bool \<Rightarrow> Session \<Rightarrow> Subscription \<Rightarrow> sub_section" where
  "replay_finish p quiet s u =
     (case p of
        ReplayReady e err \<Rightarrow> Some (replayed e err s u)
      | ReplayClosed \<Rightarrow> Some (replay_ended quiet s u)
      | NothingThere \<Rightarrow> Some (replay_ended quiet s (u\<lparr>su_later := []\<rparr>))
      | _ \<Rightarrow> None)"

definition take_live :: "place \<Rightarrow> Session \<Rightarrow> Subscription \<Rightarrow> sub_section" where
  "take_live here s u =
     (case su_sub u of
        None \<Rightarrow> None
      | Some i \<Rightarrow>
          (case sb_ch (s_sub s i) of
             [] \<Rightarrow> None
           | e # es \<Rightarrow>
               (case observe i e (upd_sub s i ((s_sub s i)\<lparr>sb_ch := es\<rparr>)) u of
                  (keep, s1, u1) \<Rightarrow> Some (if keep then Gives e else Waits here, s1, u1))))"

text \<open>The queue is empty after the end: what the subscriber was told.  A state that is neither
  an overflow nor an error returns an empty envelope without an error.\<close>

definition finish_live :: "Session \<Rightarrow> Subscription \<Rightarrow> sub_section" where
  "finish_live s u =
     (case su_sub u of
        None \<Rightarrow> None
      | Some i \<Rightarrow>
          if sb_ch (s_sub s i) \<noteq> [] then None
          else let u1 = u\<lparr>su_finished := True\<rparr>
               in case sb_terminal (s_sub s i) of
                    None \<Rightarrow> Some (Fails EOF, s, u1)
                  | Some state \<Rightarrow>
                      if te_overflow state
                      then let err = OverflowError (te_run state) (position u (te_run state))
                           in Some (Fails err, s, u1\<lparr>su_err := Some err\<rparr>)
                      else (case te_err state of
                              Some x \<Rightarrow> Some (Fails (StreamError x), s, u1\<lparr>su_err := Some (StreamError x)\<rparr>)
                            | None \<Rightarrow> Some (Gives Envelope_zero, s, u1\<lparr>su_err := None\<rparr>)))"

definition nextLive :: "pick \<Rightarrow> bool \<Rightarrow> Session \<Rightarrow> Subscription \<Rightarrow> sub_section" where
  "nextLive p quiet s u =
     (case p of
        LiveReady \<Rightarrow> take_live (AtLive quiet) s u
      | FinishReady \<Rightarrow> if finish_closed s u then Some (Waits LiveFinish, s, u) else None
      | QuietFired \<Rightarrow> if quiet then Some (Fails ErrQuiet, s, u) else None
      | ContextDone \<Rightarrow> Some (fail_sub s u ContextError)
      | _ \<Rightarrow> None)"

definition live_finish :: "pick \<Rightarrow> Session \<Rightarrow> Subscription \<Rightarrow> sub_section" where
  "live_finish p s u =
     (case p of
        LiveReady \<Rightarrow> take_live LiveFinish s u
      | NothingThere \<Rightarrow> finish_live s u
      | _ \<Rightarrow> None)"

definition JoinedAt :: "Subscription \<Rightarrow> (bytes \<times> seq) option" where
  "JoinedAt u = (if su_joinedRun u \<noteq> [] \<and> 0 < su_joinedAt u then Some (su_joinedRun u, su_joinedAt u) else None)"

section \<open>The goroutine of a subscription\<close>

text \<open>\<^verbatim>\<open>Subscribe\<close>, section by section.\<close>

definition Subscribe_turn :: "subscribeOptions \<Rightarrow> nat \<Rightarrow> pick \<Rightarrow> place \<Rightarrow> Session \<Rightarrow> Subscription \<Rightarrow> sub_section" where
  "Subscribe_turn opts queue p here s u =
     (case here of
        Opening \<Rightarrow>
          (case so_after opts of
             None \<Rightarrow> (case p of HubEnded hubEnded \<Rightarrow> Some (open_live queue hubEnded s u) | _ \<Rightarrow> None)
           | Some after \<Rightarrow> if s_closed s then Some (Fails SessionClosedError, s, u) else Some (Waits ChooseRun, s, u))
      | ChooseRun \<Rightarrow> Some (choose_run opts s u)
      | Attach run \<Rightarrow> (case p of HubEnded hubEnded \<Rightarrow> Some (attach_resumed queue hubEnded run s u) | _ \<Rightarrow> None)
      | ListLater run \<Rightarrow> Some (Waits (ResumeRuns run (run # laterRuns s run) []), s, u)
      | ResumeRuns run todo resumed \<Rightarrow> (case p of Resumes err \<Rightarrow> Some (resumeRuns err run todo resumed s u) | _ \<Rightarrow> None)
      | FirstRun run resumed \<Rightarrow> Some (first_run opts run resumed s u)
      | _ \<Rightarrow> None)"

definition read_turn :: "subscribeOptions \<Rightarrow> nat \<Rightarrow> pick \<Rightarrow> place \<Rightarrow> Session \<Rightarrow> Subscription \<Rightarrow> sub_section" where
  "read_turn opts queue p here s u =
     (case here of
        Outside \<Rightarrow>
          (case p of
             CallNext quiet \<Rightarrow> Some (next_sub quiet s u)
           | CallClose_sub \<Rightarrow> (case Close_sub s u of (s1, u1) \<Rightarrow> Some (Waits Outside, s1, u1))
           | _ \<Rightarrow> None)
      | AtReplay quiet \<Rightarrow> nextReplay p quiet s u
      | ReplayFinish quiet \<Rightarrow> replay_finish p quiet s u
      | AtLive quiet \<Rightarrow> nextLive p quiet s u
      | LiveFinish \<Rightarrow> live_finish p s u
      | NoSubscription \<Rightarrow> None
      | _ \<Rightarrow> Subscribe_turn opts queue p here s u)"

text \<open>A subscription with the events it handed over and, of these, those it replayed.\<close>

record reader =
  rd_place :: place
  rd_u :: Subscription
  rd_handed :: "Envelope list"
  rd_replayed :: "Envelope list"

definition newReader :: reader where
  "newReader = \<lparr>rd_place = Opening, rd_u = Subscription_zero, rd_handed = [], rd_replayed = []\<rparr>"

definition at_open :: "place \<Rightarrow> bool" where
  "at_open here = (case here of Outside \<Rightarrow> False | AtReplay q \<Rightarrow> False | ReplayFinish q \<Rightarrow> False | AtLive q \<Rightarrow> False
     | LiveFinish \<Rightarrow> False | _ \<Rightarrow> True)"

definition replaying :: "place \<Rightarrow> bool" where
  "replaying here = (case here of AtReplay q \<Rightarrow> True | ReplayFinish q \<Rightarrow> True | _ \<Rightarrow> False)"

definition proceeds :: "outcome \<Rightarrow> Subscription \<Rightarrow> reader \<Rightarrow> reader" where
  "proceeds out u rd =
     (case out of
        Gives e \<Rightarrow> \<lparr>rd_place = Outside, rd_u = u, rd_handed = rd_handed rd @ [e],
                    rd_replayed = (if replaying (rd_place rd) then rd_replayed rd @ [e] else rd_replayed rd)\<rparr>
      | Fails err \<Rightarrow> rd\<lparr>rd_place := (if at_open (rd_place rd) then NoSubscription else Outside), rd_u := u\<rparr>
      | Waits there \<Rightarrow> rd\<lparr>rd_place := there, rd_u := u\<rparr>)"

section \<open>A subscription beside its session\<close>

text \<open>What was taken from the queue of a subscriber.\<close>

definition taken :: "Session \<Rightarrow> nat \<Rightarrow> Envelope list" where
  "taken s i = take (length (sb_got (s_sub s i)) - length (sb_ch (s_sub s i))) (sb_got (s_sub s i))"

text \<open>The adapter replays the events of the run it was asked for, numbered upwards from the
  cursor on.\<close>

definition replay_ok :: "Subscription \<Rightarrow> pick \<Rightarrow> bool" where
  "replay_ok u p =
     (case p of
        ReplayReady e None \<Rightarrow> env_RunID e = su_replaying u \<and> (case env_Sequence e of Some n \<Rightarrow> su_last u < n | None \<Rightarrow> False)
      | _ \<Rightarrow> True)"

text \<open>A subscription runs beside the goroutines of its session; they leave its queue to it.\<close>

inductive read_step :: "json_api \<Rightarrow> (Session \<Rightarrow> action \<Rightarrow> input \<Rightarrow> bool) \<Rightarrow> subscribeOptions \<Rightarrow> nat \<Rightarrow>
    (Session \<times> action list multiset) \<times> reader \<Rightarrow> (Session \<times> action list multiset) \<times> reader \<Rightarrow> bool"
  for js adm opts queue where
  reads: "read_turn opts queue p (rd_place rd) s (rd_u rd) = Some (out, s1, u1) \<Longrightarrow> replay_ok (rd_u rd) p \<Longrightarrow>
    read_step js adm opts queue ((s, M), rd) ((s1, M), proceeds out u1 rd)"
| serves: "serve_step js adm (s, M) (s1, M1) \<Longrightarrow>
    (\<forall>i. su_sub (rd_u rd) = Some i \<longrightarrow> length (taken s1 i) = length (taken s i)) \<Longrightarrow>
    read_step js adm opts queue ((s, M), rd) ((s1, M1), rd)"

inductive reading :: "json_api \<Rightarrow> (Session \<Rightarrow> action \<Rightarrow> input \<Rightarrow> bool) \<Rightarrow> subscribeOptions \<Rightarrow> nat \<Rightarrow>
    (Session \<times> action list multiset) \<times> reader \<Rightarrow> bool" for js adm opts queue where
  begins: "serving js adm c \<Longrightarrow> reading js adm opts queue (c, newReader)"
| proceed: "reading js adm opts queue x \<Longrightarrow> read_step js adm opts queue x y \<Longrightarrow> reading js adm opts queue y"

section \<open>What the others leave in the queue\<close>

definition grows :: "Session \<Rightarrow> Session \<Rightarrow> bool" where
  "grows s t \<longleftrightarrow> s_nsub s \<le> s_nsub t \<and> (\<forall>i < s_nsub s. \<exists>x. sb_got (s_sub t i) = sb_got (s_sub s i) @ x
     \<and> sb_ch (s_sub t i) = sb_ch (s_sub s i) @ x)"

lemma more_queued_refl [simp]: "grows s s"
  by (simp add: grows_def)

lemma more_queued_trans: "grows s t \<Longrightarrow> grows t u \<Longrightarrow> grows s u"
  unfolding grows_def by (metis append.assoc le_trans order_less_le_trans)

lemma sub_queue_simps [simp]:
  "sb_got (stop v st) = sb_got v" "sb_ch (stop v st) = sb_ch v" "sb_got (track v run n) = sb_got v" "sb_ch (track v run n) = sb_ch v"
  "sb_got (untrack v run) = sb_got v" "sb_ch (untrack v run) = sb_ch v"
  "sb_got (acknowledge v run) = sb_got v" "sb_ch (acknowledge v run) = sb_ch v"
  by (simp_all add: stop_def track_def untrack_def acknowledge_def Let_def)

lemma deliver_to_grows: "grows s (deliver_to e s i)"
  by (auto simp: grows_def deliver_to_def Let_def serve_simps)

lemma fold_deliver_to_grows: "grows s (foldl (deliver_to e) s is)"
  by (induction "is" arbitrary: s) (auto intro: more_queued_trans[OF deliver_to_grows])

lemma deliverLocked_grows: "grows s (deliverLocked js now s e)"
  unfolding deliverLocked_def Let_def
  by (rule more_queued_trans[OF _ fold_deliver_to_grows]) (auto simp: grows_def split: option.split)

interpretation grown: delivery_invariant "grows s0" for s0
proof
  show "grows s0 t" if "grows s0 s" "s_nsub t = s_nsub s" "\<And>i. same_queue (s_sub t i) (s_sub s i)" for s t
    using that by (simp add: grows_def same_queue_def)
qed (rule more_queued_trans[OF _ deliverLocked_grows])

lemma grows_taken:
  assumes "grows s t" "i < s_nsub s" "length (sb_ch (s_sub s i)) \<le> length (sb_got (s_sub s i))"
  shows "taken t i = taken s i"
  using assms by (auto simp: grows_def taken_def)

lemma fan_lengths: "fan_ok s \<Longrightarrow> i < s_nsub s \<Longrightarrow> length (sb_ch (s_sub s i)) \<le> length (sb_got (s_sub s i))"
  by (auto simp: fan_ok_def queue_ok_def dest: suffix_length_le)

lemma others_taken:
  assumes "serve_step js adm (s, M) (t, N)" "fan_ok s" "i < s_nsub s" "length (taken t i) = length (taken s i)"
  shows "taken t i = taken s i \<and> i < s_nsub t"
  using assms
proof (induction "(s, M)" "(t, N)" rule: serve_step.induct)
  case (takes_turn now inp a as spawned rest M)
  have "grows s t" by (rule grown.turn_keeps[OF takes_turn(1)]) simp
  with takes_turn show ?case using fan_lengths[of s i] grows_taken[of s t i] by (auto simp: grows_def)
next
  case (subscribes queue only j run at)
  have "s_sub t i = s_sub s i" "s_nsub s \<le> s_nsub t" using subscribe_fresh[OF subscribes(1)] \<open>i < s_nsub s\<close> by auto
  with subscribes show ?case by (auto simp: taken_def)
next
  case (consumes j e es)
  show ?case
  proof (cases "j = i")
    case True
    have "length (sb_ch (s_sub s i)) \<le> length (sb_got (s_sub s i))" using consumes fan_lengths by blast
    with consumes True show ?thesis by (auto simp: taken_def serve_simps)
  qed (use consumes in \<open>auto simp: taken_def serve_simps\<close>)
qed (auto simp: taken_def serve_simps)

section \<open>A subscription is a client of its session\<close>

text \<open>Every section of a subscription is a sequence of steps of the session; it may leave
  goroutines behind that have nothing left to do.\<close>

definition lets_go :: "(Session \<Rightarrow> action \<Rightarrow> input \<Rightarrow> bool) \<Rightarrow> bool" where
  "lets_go adm \<longleftrightarrow> (\<forall>s i st. adm s (Unsubscribe i) Go \<and> adm s (Stop i st) Go)"

definition serves_to :: "json_api \<Rightarrow> (Session \<Rightarrow> action \<Rightarrow> input \<Rightarrow> bool) \<Rightarrow> Session \<Rightarrow> Session \<Rightarrow> bool" where
  "serves_to js adm s t \<longleftrightarrow> (\<forall>M. serving js adm (s, M) \<longrightarrow> (\<exists>N. serving js adm (t, M + N)))"

lemma serves_to_refl [simp]: "serves_to js adm s s"
  by (auto simp: serves_to_def intro: exI[of _ "{#}"])

lemma serves_to_trans: "serves_to js adm s t \<Longrightarrow> serves_to js adm t u \<Longrightarrow> serves_to js adm s u"
  unfolding serves_to_def by (metis add.assoc)

lemma serves_to_step: "(\<And>M. serve_step js adm (s, M) (t, M)) \<Longrightarrow> serves_to js adm s t"
  unfolding serves_to_def by (metis add.right_neutral serving.steps)

lemma serves_to_ack [intro]: "serves_to js adm s (upd_sub s i (acknowledge (s_sub s i) run))"
  by (rule serves_to_step) (rule acknowledges)

lemma serves_to_untrack [intro]: "serves_to js adm s (upd_sub s i (untrack (s_sub s i) run))"
  by (rule serves_to_step) (rule untracks)

lemma serves_to_consume: "sb_ch (s_sub s i) = e # es \<Longrightarrow> serves_to js adm s (upd_sub s i ((s_sub s i)\<lparr>sb_ch := es\<rparr>))"
  by (rule serves_to_step) (rule consumes)

lemma serves_to_subscribe: "subscribe s queue only = Some (i, run, at, t) \<Longrightarrow> 0 < queue \<Longrightarrow> serves_to js adm s t"
  by (rule serves_to_step) (rule subscribes)

lemma serves_to_detach:
  assumes "i < s_nsub s" "lets_go adm"
  shows "serves_to js adm s (upd_sub (unsubscribe s i) i (stop (s_sub (unsubscribe s i) i) None))"
  unfolding serves_to_def
proof (intro allI impI)
  fix M assume "serving js adm (s, M)"
  then have "serving js adm (s, add_mset [Unsubscribe i, Stop i None] M)"
    by (rule serving.steps[OF _ calls]) (use assms(1) in \<open>auto intro: called.intros\<close>)
  then have "serving js adm (unsubscribe s i, add_mset ([] @ [Stop i None]) (mset [] + M))"
    by (rule serving.steps[OF _ takes_turn[where now = 0]]) (use assms(2) in \<open>auto simp: next_do_def lets_go_def\<close>)
  then have "serving js adm (unsubscribe s i, add_mset [Stop i None] M)" by simp
  then have "serving js adm (upd_sub (unsubscribe s i) i (stop (s_sub (unsubscribe s i) i) None), add_mset ([] @ []) (mset [] + M))"
    by (rule serving.steps[OF _ takes_turn[where now = 0]]) (use assms(2) in \<open>auto simp: next_do_def lets_go_def\<close>)
  then show "\<exists>N. serving js adm (upd_sub (unsubscribe s i) i (stop (s_sub (unsubscribe s i) i) None), M + N)"
    by (auto intro: exI[of _ "{#[]#}"])
qed

definition sub_at :: "Session \<Rightarrow> Subscription \<Rightarrow> bool" where
  "sub_at s u \<longleftrightarrow> (\<forall>i. su_sub u = Some i \<longrightarrow> i < s_nsub s)"

lemmas sub_defs = open_live_def choose_run_def attach_resumed_def resumeRuns_def first_run_def replayed_def replay_or_live_def
  Let_def next_sub_def replay_ended_def nextReplay_def replay_finish_def nextLive_def live_finish_def finish_live_def fail_sub_def Close_sub_def

lemma detach_fields [simp]: "detach s (u\<lparr>su_replay := b\<rparr>) = detach s u" "detach s (u\<lparr>su_later := rs\<rparr>) = detach s u"
  by (simp_all add: detach_def)

lemma detach_serves: "sub_at s u \<Longrightarrow> lets_go adm \<Longrightarrow> serves_to js adm s (detach s u)"
  by (auto simp: detach_def sub_at_def Let_def intro: serves_to_detach split: option.split)

lemma attach_serves:
  assumes "attach_sub s queue b = (r, t)" "0 < queue" "lets_go adm"
  shows "serves_to js adm s t"
proof (cases "subscribe s queue False")
  case None
  with assms(1) show ?thesis by (simp add: attach_sub_def)
next
  case (Some x)
  then obtain i run at s1 where S: "subscribe s queue False = Some (i, run, at, s1)" by (cases x) auto
  have 1: "serves_to js adm s s1" by (rule serves_to_subscribe[OF S assms(2)])
  have "i < s_nsub s1" using subscribe_fresh[OF S] by auto
  from serves_to_trans[OF 1 serves_to_detach[OF this assms(3)]] 1 assms(1) S show ?thesis
    by (auto simp: attach_sub_def Let_def split: if_splits)
qed

lemma observe_serves: "observe i e s u = (keep, t, v) \<Longrightarrow> serves_to js adm s t"
  by (auto simp: observe_def Let_def split: if_splits option.splits)

lemma take_serves: "take_live here s u = Some (out, t, v) \<Longrightarrow> serves_to js adm s t"
  by (auto simp: take_live_def split: option.splits list.splits prod.splits
      intro: serves_to_trans[OF serves_to_consume observe_serves])

lemma read_serves:
  assumes "read_turn opts queue p here s u = Some (out, t, v)" "sub_at s u" "0 < queue" "lets_go adm"
  shows "serves_to js adm s t"
  using assms detach_serves[OF assms(2,4), of js]
  by (auto simp: read_turn_def Subscribe_turn_def sub_defs dest: take_serves attach_serves
      split: place.splits pick.splits option.splits if_splits prod.splits list.splits)

section \<open>What is handed over is numbered upwards\<close>

definition sequenced :: "bytes \<Rightarrow> Envelope list \<Rightarrow> seq list" where
  "sequenced r es = map seq_of (filter (\<lambda>e. env_RunID e = r \<and> env_Sequence e \<noteq> None) es)"

lemma sequenced_snoc [simp]:
  "sequenced r (es @ [e]) = sequenced r es @ (if env_RunID e = r \<and> env_Sequence e \<noteq> None then [seq_of e] else [])"
  by (simp add: sequenced_def)

lemma sequenced_nil [simp]: "sequenced r [] = []"
  by (simp add: sequenced_def)

text \<open>Where a subscription stands: what it will resume, and what it is replaying.\<close>

definition place_ok :: "place \<Rightarrow> Subscription \<Rightarrow> bool" where
  "place_ok here u =
     (case here of
        ResumeRuns run todo resumed \<Rightarrow> distinct (resumed @ todo) \<and> resumed @ todo \<noteq> [] \<and> hd (resumed @ todo) = run
      | FirstRun run resumed \<Rightarrow> distinct resumed \<and> resumed \<noteq> [] \<and> hd resumed = run
      | AtReplay q \<Rightarrow> su_replay u | ReplayFinish q \<Rightarrow> su_replay u
      | AtLive q \<Rightarrow> \<not> su_replay u | LiveFinish \<Rightarrow> \<not> su_replay u
      | _ \<Rightarrow> True)"

definition replay_inv :: "Subscription \<Rightarrow> bool" where
  "replay_inv u \<longleftrightarrow> (su_replay u \<longrightarrow> position u (su_replaying u) \<le> su_last u \<and> distinct (su_replaying u # su_later u)
     \<and> (\<forall>r \<in> set (su_later u). position u r = 0))"

definition upwards :: "reader \<Rightarrow> bool" where
  "upwards rd \<longleftrightarrow> (\<forall>r. r \<noteq> [] \<longrightarrow> sorted_wrt (<) (sequenced r (rd_handed rd)) \<and> (\<forall>n \<in> set (sequenced r (rd_handed rd)). n \<le> position (rd_u rd) r))"

definition fresh :: "reader \<Rightarrow> bool" where
  "fresh rd \<longleftrightarrow> (at_open (rd_place rd) \<longrightarrow> rd_handed rd = [] \<and> rd_replayed rd = [] \<and> su_positions (rd_u rd) = Map.empty
     \<and> \<not> su_replay (rd_u rd) \<and> su_firstRun (rd_u rd) = 0 \<and> su_run (rd_u rd) = [])"

lemma position_upd [simp]:
  "position (u\<lparr>su_positions := (su_positions u)(r \<mapsto> n)\<rparr>) q = (if q = r then n else position u q)"
  by (simp add: position_def)

lemma position_same [simp]:
  "position (u\<lparr>su_replay := b\<rparr>) = position u" "position (u\<lparr>su_last := n\<rparr>) = position u" "position (u\<lparr>su_later := rs\<rparr>) = position u"
  "position (u\<lparr>su_finished := b\<rparr>) = position u" "position (u\<lparr>su_err := x\<rparr>) = position u" "position (u\<lparr>su_closed := b\<rparr>) = position u"
  "position (u\<lparr>su_lastRun := r\<rparr>) = position u" "position (u\<lparr>su_replaying := r\<rparr>) = position u"
  by (auto simp: position_def)

lemma sorted_snoc: "sorted_wrt (<) ns \<Longrightarrow> \<forall>m \<in> set ns. m \<le> p \<Longrightarrow> p < n \<Longrightarrow> sorted_wrt (<) (ns @ [n :: seq])"
  by (auto simp: sorted_wrt_append)

text \<open>What a section leaves alone: everything but the end of the subscription.\<close>

definition calm :: "Subscription \<Rightarrow> Subscription \<Rightarrow> bool" where
  "calm u v \<longleftrightarrow> su_positions v = su_positions u \<and> su_firstRun v = su_firstRun u \<and> su_run v = su_run u
     \<and> su_replaying v = su_replaying u \<and> su_last v = su_last u
     \<and> (su_replay v \<longrightarrow> su_replay u \<and> su_later v = su_later u)"

definition sub_inv :: "reader \<Rightarrow> bool" where
  "sub_inv rd \<longleftrightarrow> place_ok (rd_place rd) (rd_u rd) \<and> replay_inv (rd_u rd) \<and> upwards rd \<and> fresh rd"

lemma calm_refl [simp]: "calm u u"
  by (simp add: calm_def)

lemma calm_position: "calm u v \<Longrightarrow> position v = position u"
  by (auto simp: calm_def position_def)

lemma calm_inv:
  assumes "calm u v" "replay_inv u"
  shows "replay_inv v"
  using assms calm_position[OF assms(1)] by (auto simp: calm_def replay_inv_def)

lemma calm_sub_inv:
  assumes "sub_inv rd" "calm (rd_u rd) v" "place_ok there v" "at_open there \<longrightarrow> at_open (rd_place rd)"
  shows "sub_inv (rd\<lparr>rd_place := there, rd_u := v\<rparr>)"
  using assms calm_inv[OF assms(2)] calm_position[OF assms(2)]
  by (auto simp: sub_inv_def upwards_def fresh_def calm_def)

section \<open>What a section of a subscription can be\<close>

definition keeps_queues :: "Session \<Rightarrow> Session \<Rightarrow> bool" where
  "keeps_queues s t \<longleftrightarrow> grows s t \<and> same_serials s t"

definition live_place :: "place \<Rightarrow> bool" where
  "live_place here = (case here of AtLive q \<Rightarrow> True | LiveFinish \<Rightarrow> True | _ \<Rightarrow> False)"

definition after_place :: "place \<Rightarrow> outcome \<Rightarrow> place" where
  "after_place here out = (case out of Waits there \<Rightarrow> there | Gives e \<Rightarrow> Outside | Fails err \<Rightarrow> (if at_open here then NoSubscription else Outside))"

lemma keeps_queues_refl [simp]: "keeps_queues s s"
  by (simp add: keeps_queues_def)

lemma detach_keeps [simp]: "keeps_queues s (detach s u)"
  by (auto simp: keeps_queues_def grows_def same_serials_def detach_def unsubscribe_def Let_def serve_simps split: option.split)

lemma subscribe_keeps: "subscribe s queue only = Some (i, run, at, t) \<Longrightarrow> keeps_queues s t"
  using subscribe_fresh[of s queue only i run at t] subscribe_serials[of s queue only i run at t]
  by (auto simp: keeps_queues_def grows_def)

lemma attach_keeps: "attach_sub s queue b = (r, t) \<Longrightarrow> keeps_queues s t \<and>
  (\<forall>i run at. r = Some (i, run, at) \<longrightarrow> i = s_nsub s \<and> i < s_nsub t \<and> taken t i = [])"
proof (cases "subscribe s queue False")
  case (Some x)
  assume A: "attach_sub s queue b = (r, t)"
  obtain i run at s1 where S: "subscribe s queue False = Some (i, run, at, s1)" using Some by (cases x) auto
  have n: "i = s_nsub s" "s_nsub s1 = Suc (s_nsub s)" using subscribe_fresh[OF S] by auto
  have "sb_got (s_sub s1 i) = []"
    using S by (auto simp: subscribe_def newSubscriber_def Let_def serve_simps split: if_splits option.splits)
  then have T: "taken s1 i = []" by (simp add: taken_def)
  have "keeps_queues s (upd_sub (unsubscribe s1 i) i (stop (s_sub (unsubscribe s1 i) i) None))"
    using subscribe_keeps[OF S]
    by (auto simp: keeps_queues_def grows_def same_serials_def unsubscribe_def serve_simps)
  with A S n T subscribe_keeps[OF S] show ?thesis by (auto simp: attach_sub_def Let_def split: if_splits)
qed (simp add: attach_sub_def)

definition idles :: "place \<Rightarrow> Session \<Rightarrow> Subscription \<Rightarrow> outcome \<times> Session \<times> Subscription \<Rightarrow> bool" where
  "idles here s u = (\<lambda>(out, t, v). calm u v \<and> su_sub v = su_sub u \<and> (\<forall>e. out \<noteq> Gives e) \<and> place_ok (after_place here out) v
     \<and> (at_open (after_place here out) \<longrightarrow> at_open here) \<and> keeps_queues s t)"

lemma idles_pair: "idles here s u (out, t, v) \<longleftrightarrow> calm u v \<and> su_sub v = su_sub u \<and> (\<forall>e. out \<noteq> Gives e)
   \<and> place_ok (after_place here out) v \<and> (at_open (after_place here out) \<longrightarrow> at_open here) \<and> keeps_queues s t"
  by (simp add: idles_def)

lemma close_idles: "Close_sub s u = (t, v) \<Longrightarrow> calm u v \<and> su_sub v = su_sub u \<and> su_replay v = su_replay u \<and> keeps_queues s t"
  by (auto simp: Close_sub_def calm_def split: if_splits)

lemma fail_idles: "\<not> at_open here \<Longrightarrow> idles here s u (fail_sub s u err)"
  by (auto simp: idles_def fail_sub_def after_place_def place_ok_def at_open_def calm_def dest!: close_idles split: prod.splits)

lemma replay_or_live_idles: "\<not> at_open here \<Longrightarrow> idles here s u (replay_or_live q s u)"
  by (auto simp: idles_def replay_or_live_def after_place_def place_ok_def at_open_def dest!: close_idles split: prod.splits)

lemma replay_over_idles:
  assumes "\<not> at_open here" "\<not> su_replay w" "calm u w" "su_sub w = su_sub u"
  shows "idles here s u (replay_or_live q s w)"
  using replay_or_live_idles[OF assms(1), of s w q] assms(2-4) by (auto simp: idles_def calm_def)

definition advances :: "bool \<Rightarrow> Session \<Rightarrow> Subscription \<Rightarrow> outcome \<times> Session \<times> Subscription \<Rightarrow> bool" where
  "advances q s u x \<longleftrightarrow> (\<exists>r rs. su_later u = r # rs
     \<and> x = (Waits (AtReplay q), s, u\<lparr>su_replay := True, su_replaying := r, su_last := 0, su_later := rs\<rparr>))"

lemma replay_ended_section: "\<not> at_open here \<Longrightarrow> idles here s u (replay_ended q s u) \<or> advances q s u (replay_ended q s u)"
  by (cases "su_later u")
    (auto simp: replay_ended_def advances_def replay_or_live_def[of _ _ "_\<lparr>su_later := _\<rparr>"] calm_def intro!: replay_over_idles)

lemma replay_dropped_idles: "\<not> at_open here \<Longrightarrow> idles here s u (replay_ended q s (u\<lparr>su_later := []\<rparr>))"
  by (auto simp: replay_ended_def calm_def intro!: replay_over_idles)

lemma replay_section:
  assumes "nextReplay p q s u = Some x \<or> replay_finish p q s u = Some x" "\<not> at_open here" "su_replay u"
  shows "idles here s u x \<or> advances q s u x \<or> (\<exists>e. p = ReplayReady e None \<and> replayed e None s u = x)"
  using assms fail_idles[OF assms(2), of s u] replay_ended_section[OF assms(2), of s u q] replay_dropped_idles[OF assms(2), of s u q]
  by (auto simp: nextReplay_def replay_finish_def replayed_def idles_pair after_place_def at_open_def place_ok_def
      split: pick.splits if_splits option.splits)

lemma live_section:
  assumes "nextLive p q s u = Some x" "\<not> su_replay u"
  shows "take_live (AtLive q) s u = Some x \<or> idles (AtLive q) s u x"
  using assms fail_idles[of "AtLive q" s u]
  by (auto simp: nextLive_def idles_pair after_place_def at_open_def place_ok_def split: pick.splits if_splits)

lemma section_cases:
  assumes "read_turn opts queue p here s u = Some (out, t, v)" "place_ok here u" "serials_ok s" "at_open here \<longrightarrow> \<not> su_replay u"
  obtains
    (idle) "calm u v" "su_sub v = su_sub u" "\<forall>e. out \<noteq> Gives e" "place_ok (after_place here out) v"
      "at_open (after_place here out) \<longrightarrow> at_open here" "keeps_queues s t"
  | (attach) i where "at_open here" "calm u v" "su_sub v = Some i" "\<forall>e. out \<noteq> Gives e" "place_ok (after_place here out) v"
      "keeps_queues s t" "i < s_nsub t" "taken t i = []"
  | (advance) r rs q where "su_replay u" "su_later u = r # rs" "t = s" "out = Waits (AtReplay q)"
      "v = u\<lparr>su_replay := True, su_replaying := r, su_last := 0, su_later := rs\<rparr>"
  | (first) run resumed where "here = FirstRun run resumed" "first_run opts run resumed s u = (out, t, v)"
  | (replay) e where "replaying here" "p = ReplayReady e None" "replayed e None s u = (out, t, v)"
  | (live) i e es keep where "live_place here" "su_sub u = Some i" "sb_ch (s_sub s i) = e # es"
      "observe i e (upd_sub s i ((s_sub s i)\<lparr>sb_ch := es\<rparr>)) u = (keep, t, v)"
      "out = (if keep then Gives e else Waits here)"
  | (zero) "live_place here" "out = Gives Envelope_zero" "t = s" "calm u v" "su_sub v = su_sub u" "su_replay v = su_replay u"
proof -
  have idles_case: thesis if "idles here s u (out, t, v)"
    using that by (intro idle) (simp_all add: idles_def)
  have replay_case: thesis if "nextReplay p q s u = Some (out, t, v) \<or> replay_finish p q s u = Some (out, t, v)"
    "\<not> at_open here" "su_replay u" "replaying here" for q
    using replay_section[OF that(1-3)] that(3,4) idles_case by (auto simp: advances_def intro: advance replay)
  show thesis
  proof (cases here)
    case Opening
    show thesis
    proof (cases "so_after opts")
      case None
      with Opening assms(1) obtain b where b: "open_live queue b s u = (out, t, v)"
        by (auto simp: read_turn_def Subscribe_turn_def split: pick.splits)
      obtain r s1 where r: "attach_sub s queue b = (r, s1)" by (cases "attach_sub s queue b")
      show thesis
      proof (cases r)
        case None
        with b r attach_keeps[OF r] Opening show thesis
          by (intro idle) (auto simp: open_live_def after_place_def place_ok_def at_open_def)
      next
        case (Some x)
        obtain i j k where "x = (i, j, k)" by (cases x)
        with Some b r attach_keeps[OF r] Opening show thesis
          by (intro attach[of i]) (auto simp: open_live_def after_place_def place_ok_def at_open_def calm_def)
      qed
    next
      case (Some n)
      with Opening assms(1) show thesis
        by (intro idle) (auto simp: read_turn_def Subscribe_turn_def after_place_def place_ok_def at_open_def split: if_splits)
    qed
  next
    case ChooseRun
    with assms(1) show thesis
      by (intro idle) (auto simp: read_turn_def Subscribe_turn_def choose_run_def after_place_def place_ok_def at_open_def Let_def split: if_splits)
  next
    case (Attach run)
    with assms(1) obtain b where b: "attach_resumed queue b run s u = (out, t, v)"
      by (auto simp: read_turn_def Subscribe_turn_def split: pick.splits)
    obtain r s1 where r: "attach_sub s queue b = (r, s1)" by (cases "attach_sub s queue b")
    show thesis
    proof (cases r)
      case None
      with b r attach_keeps[OF r] Attach show thesis
        by (intro idle) (auto simp: attach_resumed_def after_place_def place_ok_def at_open_def)
    next
      case (Some x)
      obtain i j k where "x = (i, j, k)" by (cases x)
      with Some b r attach_keeps[OF r] Attach show thesis
        by (intro attach[of i]) (auto simp: attach_resumed_def after_place_def place_ok_def at_open_def calm_def)
    qed
  next
    case (ListLater run)
    with assms(1) laterRuns_distinct[OF assms(3), of run] show thesis
      by (intro idle) (auto simp: read_turn_def Subscribe_turn_def after_place_def place_ok_def at_open_def)
  next
    case (ResumeRuns run todo resumed)
    with assms(1,2) show thesis
      by (intro idle) (auto simp: read_turn_def Subscribe_turn_def resumeRuns_def after_place_def place_ok_def at_open_def
          split: pick.splits list.splits option.splits)
  next
    case (FirstRun run resumed)
    with assms(1) show thesis by (intro first) (auto simp: read_turn_def Subscribe_turn_def)
  next
    case Outside
    have n: "idles here s u (next_sub q s u)" for q
      using replay_or_live_idles[of here s u q] Outside
      by (auto simp: next_sub_def idles_def after_place_def place_ok_def at_open_def)
    have c: "idles here s u (Waits Outside, Close_sub s u)"
      using Outside by (cases "Close_sub s u") (auto simp: idles_def after_place_def place_ok_def at_open_def dest: close_idles)
    from assms(1) Outside consider q where "next_sub q s u = (out, t, v)" | "(Waits Outside, Close_sub s u) = (out, t, v)"
      by (auto simp: read_turn_def split: pick.splits prod.splits)
    then have "idles here s u (out, t, v)" using n c by cases metis+
    then show thesis by (rule idles_case)
  next
    case (AtReplay q)
    then have o: "\<not> at_open here" and R: "su_replay u" using assms(2) by (simp_all add: at_open_def place_ok_def)
    from assms(1) AtReplay have "nextReplay p q s u = Some (out, t, v)" by (simp add: read_turn_def)
    then show thesis by (rule replay_case[OF disjI1 o R]) (simp add: AtReplay replaying_def)
  next
    case (ReplayFinish q)
    then have o: "\<not> at_open here" and R: "su_replay u" using assms(2) by (simp_all add: at_open_def place_ok_def)
    from assms(1) ReplayFinish have "replay_finish p q s u = Some (out, t, v)" by (simp add: read_turn_def)
    then show thesis by (rule replay_case[OF disjI2 o R]) (simp add: ReplayFinish replaying_def)
  next
    case (AtLive q)
    then have o: "\<not> at_open here" and R: "\<not> su_replay u" "live_place here" using assms(2)
      by (simp_all add: at_open_def place_ok_def live_place_def)
    from assms(1) AtLive have "nextLive p q s u = Some (out, t, v)" by (simp add: read_turn_def)
    then consider "take_live here s u = Some (out, t, v)" | "idles here s u (out, t, v)"
      using live_section R(1) AtLive by blast
    then show thesis
    proof cases
      case 1
      then show thesis using R by (auto simp: take_live_def split: option.splits list.splits prod.splits intro: live)
    qed (rule idles_case)
  next
    case LiveFinish
    then have o: "\<not> at_open here" and R: "\<not> su_replay u" "live_place here" using assms(2)
      by (simp_all add: at_open_def place_ok_def live_place_def)
    from assms(1) LiveFinish have "live_finish p s u = Some (out, t, v)" by (simp add: read_turn_def)
    then consider "take_live here s u = Some (out, t, v)" | "finish_live s u = Some (out, t, v)"
      using LiveFinish by (auto simp: live_finish_def split: pick.splits)
    then show thesis
    proof cases
      case 1
      then show thesis using R by (auto simp: take_live_def split: option.splits list.splits prod.splits intro: live)
    next
      case 2
      then consider "idles here s u (out, t, v)" | "out = Gives Envelope_zero" "t = s" "calm u v" "su_sub v = su_sub u" "su_replay v = su_replay u"
        using o by (auto simp: finish_live_def idles_def calm_def after_place_def place_ok_def at_open_def Let_def
            split: option.splits if_splits)
      then show thesis using R by cases (auto intro: idles_case zero)
    qed
  qed (use assms(1) in \<open>simp add: read_turn_def\<close>)
qed

section \<open>The invariants\<close>

lemma proceeds_place [simp]: "rd_place (proceeds out v rd) = after_place (rd_place rd) out" "rd_u (proceeds out v rd) = v"
  by (simp_all add: proceeds_def after_place_def split: outcome.split)

lemma proceeds_quiet:
  "\<forall>e. out \<noteq> Gives e \<Longrightarrow> proceeds out v rd = rd\<lparr>rd_place := after_place (rd_place rd) out, rd_u := v\<rparr>"
  by (cases out) (auto simp: proceeds_def after_place_def)

lemma proceeds_gives:
  "rd_handed (proceeds (Gives e) v rd) = rd_handed rd @ [e]"
  "rd_replayed (proceeds (Gives e) v rd) = (if replaying (rd_place rd) then rd_replayed rd @ [e] else rd_replayed rd)"
  by (simp_all add: proceeds_def)

lemma position_known: "su_positions v = su_positions u \<Longrightarrow> position v = position u"
  by (auto simp: position_def)

text \<open>An event that is handed over moves the position of its run.\<close>

definition moved :: "(bytes \<Rightarrow> seq) \<Rightarrow> Envelope \<Rightarrow> bytes \<Rightarrow> seq" where
  "moved pos e r = (if env_RunID e = r then (case env_Sequence e of Some n \<Rightarrow> n | None \<Rightarrow> pos r) else pos r)"

lemma upwards_gives:
  assumes "upwards rd" "rd_handed rd1 = rd_handed rd @ [e]"
    "\<And>r. r \<noteq> [] \<Longrightarrow> position (rd_u rd1) r = moved (position (rd_u rd)) e r"
    "\<And>n. env_Sequence e = Some n \<Longrightarrow> env_RunID e \<noteq> [] \<Longrightarrow> position (rd_u rd) (env_RunID e) < n"
  shows "upwards rd1"
  unfolding upwards_def
proof (intro allI impI)
  fix r :: bytes assume r: "r \<noteq> []"
  with assms(1) have old: "sorted_wrt (<) (sequenced r (rd_handed rd))" "\<forall>n \<in> set (sequenced r (rd_handed rd)). n \<le> position (rd_u rd) r"
    by (simp_all add: upwards_def)
  show "sorted_wrt (<) (sequenced r (rd_handed rd1)) \<and> (\<forall>n \<in> set (sequenced r (rd_handed rd1)). n \<le> position (rd_u rd1) r)"
  proof (cases "env_RunID e = r \<and> env_Sequence e \<noteq> None")
    case True
    then obtain n where n: "env_Sequence e = Some n" "seq_of e = n" by (auto simp: seq_of_def)
    with True assms(4) r have "position (rd_u rd) r < n" by auto
    with sorted_snoc[OF old this] old n True assms(2) assms(3)[OF r] show ?thesis
      by (auto simp: moved_def intro: less_imp_le order_trans)
  next
    case False
    with old assms(2) assms(3)[OF r] show ?thesis by (auto simp: moved_def split: if_splits option.splits)
  qed
qed

lemma replay_position:
  assumes "replayed e None s u = (out, t, v)" "replay_ok u (ReplayReady e None)"
  obtains n where "env_RunID e = su_replaying u" "env_Sequence e = Some n" "su_last u < n" "out = Gives e" "t = s"
    "position v = moved (position u) e" "su_last v = n"
    "su_replay v = su_replay u" "su_replaying v = su_replaying u" "su_later v = su_later u"
    "su_sub v = su_sub u" "su_firstRun v = su_firstRun u" "su_run v = su_run u"
  using assms by (auto simp: replayed_def replay_ok_def observedSequence_def position_def moved_def fun_eq_iff split: option.splits)

lemma observe_position:
  assumes "observe i e s u = (keep, t, v)"
  shows "su_replay v = su_replay u \<and> su_replaying v = su_replaying u \<and> su_later v = su_later u \<and> su_sub v = su_sub u
     \<and> su_firstRun v = su_firstRun u \<and> su_run v = su_run u
     \<and> (keep \<longrightarrow> (\<forall>r. r \<noteq> [] \<longrightarrow> position v r = moved (position u) e r)
         \<and> (\<forall>n. env_Sequence e = Some n \<longrightarrow> env_RunID e \<noteq> [] \<longrightarrow> position u (env_RunID e) < n))
     \<and> (\<not> keep \<longrightarrow> v = u)"
  using assms by (auto simp: observe_def position_def moved_def word_gt_0 Let_def split: if_splits option.splits)

lemma section_sub_inv:
  assumes T: "read_turn opts queue p (rd_place rd) s (rd_u rd) = Some (out, t, v)" and I: "sub_inv rd"
    and S: "serials_ok s" and P: "replay_ok (rd_u rd) p"
  shows "sub_inv (proceeds out v rd)"
proof -
  have ok: "place_ok (rd_place rd) (rd_u rd)" "replay_inv (rd_u rd)" "upwards rd" "fresh rd"
    using I by (simp_all add: sub_inv_def)
  have "at_open (rd_place rd) \<longrightarrow> \<not> su_replay (rd_u rd)" using ok(4) by (simp add: fresh_def)
  with T ok(1) S show ?thesis
  proof (cases rule: section_cases)
    case idle
    then show ?thesis using calm_sub_inv[OF I] by (simp add: proceeds_quiet)
  next
    case (attach i)
    then show ?thesis using calm_sub_inv[OF I] by (simp add: proceeds_quiet)
  next
    case (advance r rs q)
    then show ?thesis using ok
      by (auto simp: sub_inv_def place_ok_def replay_inv_def upwards_def fresh_def proceeds_def at_open_def)
  next
    case (first run resumed)
    then show ?thesis using ok
      by (cases resumed) (auto simp: sub_inv_def place_ok_def replay_inv_def upwards_def fresh_def proceeds_def at_open_def first_run_def
          position_def Let_def)
  next
    case (replay e)
    obtain n where n: "env_RunID e = su_replaying (rd_u rd)" "env_Sequence e = Some n" "su_last (rd_u rd) < n" "out = Gives e"
      "position v = moved (position (rd_u rd)) e" "su_last v = n" "su_replay v = su_replay (rd_u rd)"
      "su_replaying v = su_replaying (rd_u rd)" "su_later v = su_later (rd_u rd)"
      by (rule replay_position[OF replay(3)]) (use P replay(2) in auto)
    have R: "su_replay (rd_u rd)" using replay(1) ok(1) by (auto simp: replaying_def place_ok_def split: place.splits)
    have "upwards (proceeds out v rd)"
      by (rule upwards_gives[OF ok(3), where e = e]) (use n ok(2) R in \<open>auto simp: proceeds_gives replay_inv_def\<close>)
    moreover have "replay_inv v" using n ok(2) R by (auto simp: replay_inv_def moved_def)
    ultimately show ?thesis using n by (simp add: sub_inv_def fresh_def after_place_def at_open_def place_ok_def)
  next
    case (live i e es keep)
    note o = observe_position[OF live(4)]
    have R: "\<not> su_replay (rd_u rd)" "\<not> at_open (rd_place rd)"
      using live(1) ok(1) by (auto simp: live_place_def place_ok_def at_open_def split: place.splits)
    show ?thesis
    proof (cases keep)
      case True
      have "upwards (proceeds out v rd)"
        by (rule upwards_gives[OF ok(3), where e = e]) (use o True live(5) in \<open>auto simp: proceeds_gives\<close>)
      then show ?thesis using o True live(5) R by (simp add: sub_inv_def fresh_def after_place_def at_open_def place_ok_def replay_inv_def)
    next
      case False
      with o live(5) have "v = rd_u rd" "out = Waits (rd_place rd)" by auto
      then show ?thesis using I by (simp add: proceeds_def)
    qed
  next
    case zero
    have "upwards (proceeds out v rd)"
      by (rule upwards_gives[OF ok(3), where e = Envelope_zero])
        (use zero calm_position[OF zero(4)] in \<open>auto simp: proceeds_gives Envelope_zero_def moved_def\<close>)
    then show ?thesis using zero calm_inv[OF zero(4) ok(2)]
      by (simp add: sub_inv_def fresh_def after_place_def at_open_def place_ok_def)
  qed
qed

lemma serve_step_more:
  assumes "serve_step js adm (s, M) (t, M1)"
  shows "serve_step js adm (s, M + N) (t, M1 + N)"
  using assms
proof (induction "(s, M)" "(t, M1)" rule: serve_step.induct)
  case (takes_turn now inp a as spawned rest K)
  from serve_step.takes_turn[where adm = adm, OF takes_turn(1,2), of rest "K + N"] takes_turn(3,4) show ?case
    by (auto simp: ac_simps)
qed (auto intro: serve_step.intros)

lemma serve_step_nsub: "serve_step js adm (s, M) (t, M1) \<Longrightarrow> s_nsub s \<le> s_nsub t"
proof (induction "(s, M)" "(t, M1)" rule: serve_step.induct)
  case (takes_turn now inp a as spawned rest K)
  have "grows s t" by (rule grown.turn_keeps[OF takes_turn(1)]) simp
  then show ?case by (simp add: grows_def)
next
  case (subscribes queue only i run at)
  then show ?case using subscribe_fresh by auto
qed (auto simp: serve_simps)

lemma section_sub_at:
  assumes "read_turn opts queue p (rd_place rd) s (rd_u rd) = Some (out, t, v)" "sub_inv rd" "serials_ok s" "sub_at s (rd_u rd)"
  shows "sub_at t v"
proof -
  have p: "place_ok (rd_place rd) (rd_u rd)" and o: "at_open (rd_place rd) \<longrightarrow> \<not> su_replay (rd_u rd)"
    using assms(2) by (simp_all add: sub_inv_def fresh_def)
  from assms(1) p assms(3) o show ?thesis
  proof (cases rule: section_cases)
    case idle
    then show ?thesis using assms(4) by (auto simp: sub_at_def keeps_queues_def grows_def)
  next
    case (live i e es keep)
    have "s_nsub t = s_nsub s" using live(4) by (auto simp: observe_def serve_simps Let_def split: if_splits option.splits)
    with observe_position[OF live(4)] show ?thesis using assms(4) by (simp add: sub_at_def)
  qed (use assms(4) in \<open>auto simp: sub_at_def first_run_def replayed_def Let_def\<close>)
qed

definition reading_inv :: "json_api \<Rightarrow> (Session \<Rightarrow> action \<Rightarrow> input \<Rightarrow> bool) \<Rightarrow> (Session \<times> action list multiset) \<times> reader \<Rightarrow> bool" where
  "reading_inv js adm x \<longleftrightarrow> (\<exists>N. serving js adm (fst (fst x), snd (fst x) + N)) \<and> sub_at (fst (fst x)) (rd_u (snd x)) \<and> sub_inv (snd x)"

lemma newReader_inv: "sub_at s (rd_u newReader) \<and> sub_inv newReader"
  by (simp add: sub_at_def sub_inv_def newReader_def Subscription_zero_def place_ok_def replay_inv_def upwards_def fresh_def)

lemma reading_invariant:
  assumes "reading js adm opts queue x" "0 < queue" "lets_go adm"
  shows "reading_inv js adm x"
  using assms(1)
proof (induction rule: reading.induct)
  case (begins c)
  then show ?case using newReader_inv by (cases c) (auto simp: reading_inv_def intro: exI[of _ "{#}"])
next
  case (proceed x y)
  from proceed(2,3) show ?case
  proof (induction rule: read_step.induct)
    case (reads p rd s out s1 u1 M)
    from reads(3) obtain N where N: "serving js adm (s, M + N)" and I: "sub_at s (rd_u rd)" "sub_inv rd"
      by (auto simp: reading_inv_def)
    have S: "serials_ok s" using serving_serials[OF N] by (simp add: serials_inv_def)
    from read_serves[OF reads(1) I(1) assms(2,3), of js] N obtain K where "serving js adm (s1, M + N + K)"
      by (auto simp: serves_to_def)
    with section_sub_inv[OF reads(1) I(2) S reads(2)] section_sub_at[OF reads(1) I(2) S I(1)] show ?case
      by (auto simp: reading_inv_def add.assoc)
  next
    case (serves s M s1 M1 rd)
    from serves(3) obtain N where N: "serving js adm (s, M + N)" by (auto simp: reading_inv_def)
    from serving.steps[OF N serve_step_more[OF serves(1)]] serves(3) serve_step_nsub[OF serves(1)] show ?case
      by (auto simp: reading_inv_def sub_at_def)
  qed
qed

section \<open>Nothing is left out\<close>

text \<open>The number from which on the live events of a run are new to the subscription.\<close>

definition resume_point :: "subscribeOptions \<Rightarrow> reader \<Rightarrow> bytes \<Rightarrow> seq" where
  "resume_point opts rd r =
     (if of_run r (rd_replayed rd) \<noteq> [] then seq_of (last (of_run r (rd_replayed rd)))
      else if r = su_run (rd_u rd) then (case so_after opts of Some n \<Rightarrow> n | None \<Rightarrow> 0) else 0)"

definition run_read :: "seq \<Rightarrow> seq \<Rightarrow> Envelope list \<Rightarrow> Envelope list \<Rightarrow> Envelope list \<Rightarrow> bool" where
  "run_read b pos H R L \<longleftrightarrow> H = R @ filter (\<lambda>e. b < seq_of e) L \<and> b \<le> pos \<and> (pos = b \<or> pos \<in> seq_of ` set L)
     \<and> (\<forall>x \<in> set L. seq_of x \<le> pos)"

definition in_scope :: "Subscription \<Rightarrow> bytes \<Rightarrow> bool" where
  "in_scope u r \<longleftrightarrow> r \<noteq> [] \<and> (r = su_run u \<or> su_firstRun u = 0)"

definition follows :: "subscribeOptions \<Rightarrow> Session \<Rightarrow> reader \<Rightarrow> bool" where
  "follows opts s rd \<longleftrightarrow> (\<forall>i. su_sub (rd_u rd) = Some i \<longrightarrow>
       (su_replay (rd_u rd) \<or> at_open (rd_place rd) \<longrightarrow> taken s i = [])
     \<and> (\<forall>r. in_scope (rd_u rd) r \<longrightarrow>
          run_read (resume_point opts rd r) (position (rd_u rd) r) (of_run r (rd_handed rd)) (of_run r (rd_replayed rd)) (of_run r (taken s i))))"

definition first_ok :: "Session \<Rightarrow> Subscription \<Rightarrow> bool" where
  "first_ok s u \<longleftrightarrow> (su_run u \<noteq> [] \<longrightarrow> su_firstRun u \<le> serial s (su_run u))"

lemma run_read_nil [simp]: "run_read b pos H R [] \<longleftrightarrow> H = R \<and> pos = b"
  by (auto simp: run_read_def)

text \<open>A new live event is handed over exactly when its number exceeds the position.\<close>

lemma run_read_snoc:
  assumes "run_read b pos H R L" "\<forall>x \<in> set L. seq_of x < seq_of e"
  shows "if pos < seq_of e then run_read b (seq_of e) (H @ [e]) R (L @ [e]) else run_read b pos H R (L @ [e])"
proof (cases "pos < seq_of e")
  case True
  with assms show ?thesis by (auto simp: run_read_def intro: less_imp_le)
next
  case False
  with assms have "pos = b" by (auto simp: run_read_def)
  with False assms show ?thesis by (auto simp: run_read_def)
qed

lemma taken_live:
  assumes "fan_ok s" "i < s_nsub s" "sb_ch (s_sub s i) = e # es"
  shows "taken (upd_sub s i ((s_sub s i)\<lparr>sb_ch := es\<rparr>)) i = taken s i @ [e]" "prefix (taken s i @ [e]) (sb_got (s_sub s i))"
proof -
  from assms obtain xs where g: "sb_got (s_sub s i) = xs @ e # es" by (auto simp: fan_ok_def queue_ok_def suffix_def)
  with assms(3) show "taken (upd_sub s i ((s_sub s i)\<lparr>sb_ch := es\<rparr>)) i = taken s i @ [e]"
    by (simp add: taken_def serve_simps)
  show "prefix (taken s i @ [e]) (sb_got (s_sub s i))" using g assms(3) by (simp add: taken_def)
qed

lemma subseq_sorted: "subseq xs ys \<Longrightarrow> sorted_wrt P ys \<Longrightarrow> sorted_wrt P xs \<and> set xs \<subseteq> set ys"
  by (induction rule: list_emb.induct) auto

lemma live_sorted:
  assumes "fan_ok s" "order_ok s" "i < s_nsub s" "sb_ch (s_sub s i) = e # es" "env_RunID e = r" "r \<noteq> []"
  shows "(\<forall>x \<in> set (of_run r (taken s i)). seq_of x < seq_of e) \<and> env_Sequence e \<noteq> None"
proof -
  let ?T = "taken s i @ [e]"
  have "prefix ?T (due (s_sub s i) (s_delivered s))"
    using taken_live(2)[OF assms(1,3,4)] assms(1,3) by (auto simp: fan_ok_def queue_ok_def intro: prefix_order.trans)
  then have "subseq ?T (s_delivered s)" unfolding due_def
    by (meson prefix_imp_subseq subseq_filter_left subseq_order.trans suffix_drop suffix_imp_subseq)
  then have "subseq (of_run r ?T) (of_run r (s_delivered s))" by (rule subseq_filter)
  moreover have o: "run_order (of_run r (s_published s)) (of_run r (s_delivered s)) (of_run r (withheld s)) (covered s r)"
    using assms(2,6) by (simp add: order_ok_def)
  then have "sorted_wrt (\<lambda>x y. seq_of x < seq_of y) (of_run r (s_delivered s))"
    unfolding run_order_def by (metis sorted_wrt_append)
  ultimately have "sorted_wrt (\<lambda>x y. seq_of x < seq_of y) (of_run r ?T) \<and> set (of_run r ?T) \<subseteq> set (of_run r (s_delivered s))"
    by (rule subseq_sorted)
  moreover from o have "\<forall>x \<in> set (of_run r (s_delivered s)). env_Sequence x \<noteq> None"
    unfolding run_order_def by (metis Un_iff set_append)
  ultimately show ?thesis using assms(5) by (auto simp: sorted_wrt_append)
qed

lemma observe_taken: "observe i e s u = (keep, t, v) \<Longrightarrow> taken t j = taken s j"
  by (auto simp: observe_def taken_def serve_simps Let_def split: if_splits option.splits)

lemma observe_keeps:
  assumes "observe i e s u = (keep, t, v)" "env_RunID e = r" "in_scope u r" "first_ok s u" "env_Sequence e \<noteq> None"
  shows "keep \<longleftrightarrow> position u r < seq_of e"
  using assms by (auto simp: observe_def in_scope_def first_ok_def seq_of_def Let_def not_le split: if_splits)

lemma keeps_taken: "keeps_queues s t \<Longrightarrow> fan_ok s \<Longrightarrow> i < s_nsub s \<Longrightarrow> taken t i = taken s i"
  by (rule grows_taken) (auto simp: keeps_queues_def fan_lengths)

lemma resume_point_same:
  "rd_replayed rd1 = rd_replayed rd \<Longrightarrow> su_run (rd_u rd1) = su_run (rd_u rd) \<Longrightarrow> resume_point opts rd1 = resume_point opts rd"
  by (simp add: resume_point_def fun_eq_iff)

lemma follows_same:
  assumes "follows opts s rd" "su_sub (rd_u rd1) = su_sub (rd_u rd)" "rd_replayed rd1 = rd_replayed rd"
    "\<And>r. r \<noteq> [] \<Longrightarrow> of_run r (rd_handed rd1) = of_run r (rd_handed rd)"
    "su_run (rd_u rd1) = su_run (rd_u rd)" "su_firstRun (rd_u rd1) = su_firstRun (rd_u rd)" "position (rd_u rd1) = position (rd_u rd)"
    "su_replay (rd_u rd1) \<or> at_open (rd_place rd1) \<longrightarrow> su_replay (rd_u rd) \<or> at_open (rd_place rd)"
    "\<And>i. su_sub (rd_u rd) = Some i \<Longrightarrow> taken t i = taken s i"
  shows "follows opts t rd1"
  using assms(1) resume_point_same[OF assms(3,5), of opts] assms(2-9) unfolding follows_def in_scope_def by auto

lemma live_follows:
  assumes F: "follows opts s rd" "first_ok s (rd_u rd)" "fan_ok s" "order_ok s" "su_sub (rd_u rd) = Some i" "i < s_nsub s"
    and L: "sb_ch (s_sub s i) = e # es" "observe i e (upd_sub s i ((s_sub s i)\<lparr>sb_ch := es\<rparr>)) (rd_u rd) = (keep, t, v)"
    and P: "live_place (rd_place rd)" "\<not> su_replay (rd_u rd)"
  shows "follows opts t (proceeds (if keep then Gives e else Waits (rd_place rd)) v rd)"
proof -
  let ?u = "rd_u rd" and ?s = "upd_sub s i ((s_sub s i)\<lparr>sb_ch := es\<rparr>)"
  let ?rd = "proceeds (if keep then Gives e else Waits (rd_place rd)) v rd"
  have T: "taken t i = taken s i @ [e]" using observe_taken[OF L(2)] taken_live(1)[OF F(3,6) L(1)] by simp
  note o = observe_position[OF L(2)]
  have D: "rd_replayed ?rd = rd_replayed rd" "rd_handed ?rd = (if keep then rd_handed rd @ [e] else rd_handed rd)" "rd_u ?rd = v"
    "\<not> at_open (rd_place ?rd)"
    using P by (auto simp: proceeds_def replaying_def live_place_def at_open_def split: place.splits)
  have f: "first_ok ?s ?u" using F(2) by (simp add: first_ok_def serial_def serve_simps)
  have "run_read (resume_point opts ?rd r) (position v r) (of_run r (rd_handed ?rd)) (of_run r (rd_replayed ?rd)) (of_run r (taken t i))"
    if r: "in_scope v r" for r
  proof -
    have r': "in_scope ?u r" using r o by (simp add: in_scope_def)
    have old: "run_read (resume_point opts rd r) (position ?u r) (of_run r (rd_handed rd)) (of_run r (rd_replayed rd)) (of_run r (taken s i))"
      using F(1,5) r' by (simp add: follows_def)
    have rp: "resume_point opts ?rd r = resume_point opts rd r" using resume_point_same[of ?rd rd] D o by simp
    show ?thesis
    proof (cases "env_RunID e = r")
      case True
      have n: "(\<forall>x \<in> set (of_run r (taken s i)). seq_of x < seq_of e)" "env_Sequence e \<noteq> None"
        using live_sorted[OF F(3,4,6) L(1) True] r by (auto simp: in_scope_def)
      have k: "keep \<longleftrightarrow> position ?u r < seq_of e" by (rule observe_keeps[OF L(2) True r' f n(2)])
      have "position v r = (if keep then seq_of e else position ?u r)"
        using o True r n(2) by (auto simp: moved_def seq_of_def in_scope_def split: option.splits)
      with run_read_snoc[OF old n(1)] k D T True rp show ?thesis by (auto split: if_splits)
    next
      case False
      have "position v r = position ?u r" using o False r by (cases keep) (auto simp: moved_def in_scope_def)
      with old D T False rp show ?thesis by (auto split: if_splits)
    qed
  qed
  with F(5) o P(2) D show ?thesis unfolding follows_def by auto
qed

lemma section_follows:
  assumes T: "read_turn opts queue p (rd_place rd) s (rd_u rd) = Some (out, t, v)" and I: "sub_inv rd" "sub_at s (rd_u rd)"
    and S: "serials_ok s" "fan_ok s" "order_ok s" and P: "replay_ok (rd_u rd) p" and F: "follows opts s rd" "first_ok s (rd_u rd)"
  shows "follows opts t (proceeds out v rd) \<and> first_ok t v"
proof -
  have p: "place_ok (rd_place rd) (rd_u rd)" and o: "at_open (rd_place rd) \<longrightarrow> \<not> su_replay (rd_u rd)" and f: "fresh rd"
    using I(1) by (simp_all add: sub_inv_def fresh_def)
  from T p S(1) o show ?thesis
  proof (cases rule: section_cases)
    case idle
    have "follows opts t (proceeds out v rd)"
      by (rule follows_same[OF F(1)])
        (use idle I(2) S(2) in \<open>auto simp: proceeds_quiet calm_def sub_at_def intro: position_known keeps_taken\<close>)
    then show ?thesis using F(2) idle by (auto simp: first_ok_def calm_def keeps_queues_def same_serials_def serial_def)
  next
    case (attach i)
    then show ?thesis using f
      by (auto simp: follows_def proceeds_quiet resume_point_def calm_def fresh_def position_def first_ok_def in_scope_def)
  next
    case (advance r rs q)
    have "follows opts t (proceeds out v rd)"
      by (rule follows_same[OF F(1)]) (use advance in \<open>auto simp: proceeds_def at_open_def\<close>)
    then show ?thesis using F(2) advance by (simp add: first_ok_def)
  next
    case (first run resumed)
    then show ?thesis using f F(1)
      by (auto simp: follows_def first_run_def proceeds_def resume_point_def fresh_def position_def first_ok_def at_open_def Let_def
          split: option.splits)
  next
    case (replay e)
    obtain n where n: "env_RunID e = su_replaying (rd_u rd)" "env_Sequence e = Some n" "out = Gives e" "t = s"
      "position v = moved (position (rd_u rd)) e" "su_replay v = su_replay (rd_u rd)"
      "su_sub v = su_sub (rd_u rd)" "su_firstRun v = su_firstRun (rd_u rd)" "su_run v = su_run (rd_u rd)"
      by (rule replay_position[OF replay(3)]) (use P replay(2) in auto)
    have R: "su_replay (rd_u rd)" using replay(1) p by (auto simp: replaying_def place_ok_def split: place.splits)
    with n replay(1) F show ?thesis
      by (auto simp: follows_def proceeds_def resume_point_def moved_def seq_of_def first_ok_def in_scope_def)
  next
    case (live i e es keep)
    have R: "\<not> su_replay (rd_u rd)" using live(1) p by (auto simp: live_place_def place_ok_def split: place.splits)
    have "i < s_nsub s" using live(2) I(2) by (simp add: sub_at_def)
    from live_follows[OF F S(2,3) live(2) this live(3,4,1) R] live(5)
    have "follows opts t (proceeds out v rd)" by simp
    moreover have "serial t = serial s"
      using live(4) by (auto simp: observe_def serial_def fun_eq_iff serve_simps Let_def split: if_splits option.splits)
    ultimately show ?thesis using F(2) observe_position[OF live(4)] by (simp add: first_ok_def)
  next
    case zero
    have "follows opts t (proceeds out v rd)"
      by (rule follows_same[OF F(1)])
        (use zero in \<open>auto simp: proceeds_gives replaying_def live_place_def calm_def Envelope_zero_def after_place_def at_open_def
            intro: position_known split: place.splits\<close>)
    then show ?thesis using zero F(2) by (simp add: first_ok_def calm_def)
  qed
qed

lemma orderly_lets_go: "lets_go (orderly js)"
  by (simp add: lets_go_def orderly_def event_of_def)

lemma reading_follows:
  assumes "reading js (orderly js) opts queue x" "0 < queue"
  shows "follows opts (fst (fst x)) (snd x) \<and> first_ok (fst (fst x)) (rd_u (snd x))"
  using assms(1)
proof (induction rule: reading.induct)
  case (begins c)
  then show ?case by (simp add: follows_def first_ok_def newReader_def Subscription_zero_def)
next
  case (proceed x y)
  have inv: "reading_inv js (orderly js) x" by (rule reading_invariant[OF proceed(1) assms(2) orderly_lets_go])
  from proceed(2,3) inv show ?case
  proof (induction rule: read_step.induct)
    case (reads p rd s out s1 u1 M)
    from reads(4) obtain N where N: "serving js (orderly js) (s, M + N)" and I: "sub_at s (rd_u rd)" "sub_inv rd"
      by (auto simp: reading_inv_def)
    have S: "serials_ok s" "fan_ok s" "order_ok s"
      using serving_serials[OF N] serving_fan[OF N] serving_order[OF N] by (simp_all add: serials_inv_def)
    from section_follows[OF reads(1) I(2,1) S reads(2)] reads(3) show ?case by simp
  next
    case (serves s M s1 M1 rd)
    from serves(4) obtain N where N: "serving js (orderly js) (s, M + N)" and I: "sub_at s (rd_u rd)"
      by (auto simp: reading_inv_def)
    have "serials_on s s1" using step_serials[OF serve_step_more[OF serves(1)] serving_serials[OF N]] by simp
    then have "first_ok s1 (rd_u rd)" using serves(3) by (auto simp: first_ok_def serials_on_def intro: le_trans)
    moreover have "taken s1 i = taken s i" if "su_sub (rd_u rd) = Some i" for i
      using others_taken[OF serves(1)] serving_fan[OF N] I serves(2) that by (auto simp: sub_at_def)
    then have "follows opts s1 rd" using serves(3) by (auto intro: follows_same)
    ultimately show ?case by simp
  qed
qed

end
