(* ===== verification/Serve_Reading.thy ===== *)
theory Serve_Reading
  imports Serve_Subscription
begin

text \<open>
  What a subscription hands over to its client, for every interleaving with its session: the
  theorems over \<^verbatim>\<open>Serve_Subscription\<close> and the schedules that show them at work.
\<close>

section \<open>Playing a schedule with a subscription\<close>

datatype read_move = Serve move | Read pick

primrec play_read :: "json_api \<Rightarrow> (Session \<Rightarrow> action \<Rightarrow> input \<Rightarrow> bool) \<Rightarrow> subscribeOptions \<Rightarrow> nat \<Rightarrow> read_move list \<Rightarrow>
    (Session \<times> action list list) \<times> reader \<Rightarrow> ((Session \<times> action list list) \<times> reader) option" where
  "play_read js adm opts queue [] x = Some x"
| "play_read js adm opts queue (m # ms) x =
     (case x of ((s, ts), rd) \<Rightarrow>
       (case m of
          Serve a \<Rightarrow>
            (case play js adm [a] (s, ts) of
               None \<Rightarrow> None
             | Some (s1, ts1) \<Rightarrow>
                 if (case su_sub (rd_u rd) of None \<Rightarrow> True | Some i \<Rightarrow> length (taken s1 i) = length (taken s i))
                 then play_read js adm opts queue ms ((s1, ts1), rd) else None)
        | Read p \<Rightarrow>
            (if replay_ok (rd_u rd) p then
               (case read_turn opts queue p (rd_place rd) s (rd_u rd) of
                  None \<Rightarrow> None
                | Some (out, s1, u1) \<Rightarrow> play_read js adm opts queue ms ((s1, ts), proceeds out u1 rd))
             else None)))"

definition proper_reads :: "read_move list \<Rightarrow> bool" where
  "proper_reads ms \<longleftrightarrow> (\<forall>m. Serve m \<in> set ms \<longrightarrow> proper_calls [m])"

lemma play_read_reading:
  assumes "reading js adm opts queue ((s, mset ts), rd)" "play_read js adm opts queue ms ((s, ts), rd) = Some ((t, us), rd1)"
    "proper_reads ms"
  shows "reading js adm opts queue ((t, mset us), rd1)"
  using assms
proof (induction ms arbitrary: s ts rd)
  case (Cons m ms)
  have P: "proper_reads ms" using Cons.prems(3) by (simp add: proper_reads_def)
  show ?case
  proof (cases m)
    case (Serve a)
    with Cons.prems(2) obtain s1 ts1 where p: "play js adm [a] (s, ts) = Some (s1, ts1)"
      and t: "\<forall>i. su_sub (rd_u rd) = Some i \<longrightarrow> length (taken s1 i) = length (taken s i)"
      and n: "play_read js adm opts queue ms ((s1, ts1), rd) = Some ((t, us), rd1)"
      by (auto split: option.splits if_splits)
    have "proper_calls [a]" using Cons.prems(3) Serve by (simp add: proper_reads_def)
    from reading.proceed[OF Cons.prems(1) serves[OF play_step[OF p this] t]] n P show ?thesis by (rule Cons.IH)
  next
    case (Read p)
    with Cons.prems(2) obtain out s1 u1 where r: "replay_ok (rd_u rd) p"
      "read_turn opts queue p (rd_place rd) s (rd_u rd) = Some (out, s1, u1)"
      and n: "play_read js adm opts queue ms ((s1, ts), proceeds out u1 rd) = Some ((t, us), rd1)"
      by (auto split: option.splits if_splits)
    from reading.proceed[OF Cons.prems(1) reads[OF r(2,1)]] n P show ?thesis by (rule Cons.IH)
  qed
qed simp

lemma play_read_new:
  assumes "play_read js adm opts queue ms ((newSession sid rel runs, []), newReader) = Some ((t, us), rd)" "proper_reads ms"
  shows "reading js adm opts queue ((t, mset us), rd)"
  by (rule play_read_reading[OF _ assms]) (use begins[OF opened] in simp)

section \<open>Schedules\<close>

definition live_opts :: subscribeOptions where
  "live_opts = \<lparr>so_runID = [], so_after = None, so_oneRun = False\<rparr>"

definition reads_next :: "pick list \<Rightarrow> read_move list" where
  "reads_next ps = map Read (CallNext False # ps)"

text \<open>A subscription that joins, one that resumes a run behind its first event, and one that
  joins before a settlement is overtaken.\<close>

definition resume_demo :: "read_move list" where
  "resume_demo =
     map Serve (tl order_demo)
     @ map Read [Proceed, Proceed, HubEnded False, Proceed, Resumes None, Resumes None, Proceed]
     @ map Serve (brings 1 (event_demo ''content.delta'' 3))
     @ reads_next [ReplayReady (event_demo ''content.delta'' 2) None]
     @ reads_next [ReplayReady (event_demo ''content.delta'' 3) None]
     @ map Serve (brings 1 (event_demo ''content.delta'' 4))
     @ reads_next [ReplayClosed, LiveReady, LiveReady]"

definition lost_demo :: "read_move list" where
  "lost_demo = Read (HubEnded False) # map Serve (tl overtaking) @ reads_next [LiveReady] @ reads_next [LiveReady]"

definition cut_demo :: "read_move list" where
  "cut_demo =
     map Serve (tl order_demo @ brings 1 (event_demo ''content.delta'' 3))
     @ map Read [Proceed, Proceed, HubEnded False, Proceed, Resumes None, Resumes None, Proceed]
     @ reads_next [ReplayReady (event_demo ''content.delta'' 2) None]
     @ map Serve (brings 1 (event_demo ''content.delta'' 4) @ brings 1 (event_demo ''content.delta'' 5))
     @ reads_next [FinishReady, NothingThere, LiveReady]
     @ reads_next [FinishReady, NothingThere]"

lemma cut_demo_played:
  "case play_read json_demo (orderly json_demo) (After ''r'' 1 live_opts) 1 cut_demo ((newSession ''s'' False None, []), newReader) of
     None \<Rightarrow> False
   | Some ((s, us), rd) \<Rightarrow> map seq_of (of_run ''r'' (s_delivered s)) = [1, 2, 3, 4, 5] \<and> map seq_of (of_run ''r'' (rd_handed rd)) = [2, 4]
       \<and> su_finished (rd_u rd) \<and> su_err (rd_u rd) = Some (OverflowError ''r'' 4)"
  by code_simp

lemma resume_demo_played:
  "case play_read json_demo (orderly json_demo) (After ''r'' 1 live_opts) 4 resume_demo ((newSession ''s'' False None, []), newReader) of
     None \<Rightarrow> False
   | Some ((s, us), rd) \<Rightarrow> su_sub (rd_u rd) = Some 0 \<and> su_run (rd_u rd) = ''r'' \<and> map seq_of (rd_handed rd) = [2, 3, 4]
       \<and> map seq_of (rd_replayed rd) = [2, 3] \<and> map seq_of (taken s 0) = [3, 4] \<and> map env_RunID (rd_handed rd) = [''r'', ''r'', ''r'']"
  by code_simp

lemma lost_demo_played:
  "case play_read json_steer numbered live_opts 4 lost_demo ((newSession ''s'' False None, []), newReader) of
     None \<Rightarrow> False
   | Some ((s, us), rd) \<Rightarrow> su_sub (rd_u rd) = Some 0 \<and> map seq_of (rd_handed rd) = [2] \<and> s_gate s = None
       \<and> map env_RunID (s_published s) = [''r'', ''r''] \<and> map seq_of (s_published s) = [1, 2]
       \<and> map seq_of (taken s 0) = [2, 1] \<and> sb_ch (s_sub s 0) = []"
  by code_simp

lemma brings_proper: "Serve m \<in> set (map Serve (brings k e)) \<Longrightarrow> proper_calls [m]"
  by (auto simp: brings_def proper_calls_def)

lemma proper_tail: "proper_calls ms \<Longrightarrow> m \<in> set (tl ms) \<Longrightarrow> proper_calls [m]"
  by (cases ms) (auto simp: proper_calls_def)

lemma proper_resume_demo: "proper_reads resume_demo"
  using proper_tail[OF proper_order_demo] brings_proper
  by (fastforce simp: proper_reads_def resume_demo_def reads_next_def)

lemma proper_lost_demo: "proper_reads lost_demo"
  using proper_tail[OF proper_overtaking] by (fastforce simp: proper_reads_def lost_demo_def reads_next_def)

lemma proper_cut_demo: "proper_reads cut_demo"
  using proper_tail[OF proper_order_demo] brings_proper
  by (fastforce simp: proper_reads_def cut_demo_def reads_next_def)

lemma resume_demo_reading:
  obtains s us rd where "reading json_demo (orderly json_demo) (After ''r'' 1 live_opts) 4 ((s, mset us), rd)"
    "su_sub (rd_u rd) = Some 0" "su_run (rd_u rd) = ''r''" "map seq_of (rd_handed rd) = [2, 3, 4]"
    "map seq_of (rd_replayed rd) = [2, 3]" "map seq_of (taken s 0) = [3, 4]"
proof -
  obtain s us rd where p: "play_read json_demo (orderly json_demo) (After ''r'' 1 live_opts) 4 resume_demo
      ((newSession ''s'' False None, []), newReader) = Some ((s, us), rd)"
    and c: "su_sub (rd_u rd) = Some 0" "su_run (rd_u rd) = ''r''" "map seq_of (rd_handed rd) = [2, 3, 4]"
      "map seq_of (rd_replayed rd) = [2, 3]" "map seq_of (taken s 0) = [3, 4]"
    using resume_demo_played by (auto split: option.splits)
  show thesis by (rule that[OF play_read_new[OF p proper_resume_demo] c])
qed

section \<open>Properties\<close>

text \<open>C5. However a subscription and its session interleave, and whatever the streams of the
  session bring, the sequence numbers of the events of a run that are handed over rise
  strictly, across the replayed and the live events: no event is handed over twice and none
  after a later one, if the adapter replays a run in order from the cursor on.\<close>

theorem subscription_numbers_rise:
  assumes "reading js adm opts queue ((s, M), rd)" and "0 < queue" and "lets_go adm" and "r \<noteq> []"
  shows "sorted_wrt (<) (map seq_of (filter (\<lambda>e. env_RunID e = r \<and> env_Sequence e \<noteq> None) (rd_handed rd)))"
  using reading_invariant[OF assms(1-3)] assms(4)
  by (simp add: reading_inv_def sub_inv_def upwards_def sequenced_def)

theorem subscription_numbers_rise_witness:
  "\<exists>s M rd. reading json_demo (orderly json_demo) (After ''r'' 1 live_opts) 4 ((s, M), rd) \<and> map seq_of (rd_handed rd) = [2, 3, 4]
    \<and> sorted_wrt (<) (map seq_of (filter (\<lambda>e. env_RunID e = ''r'' \<and> env_Sequence e \<noteq> None) (rd_handed rd)))"
proof -
  obtain s us rd where R: "reading json_demo (orderly json_demo) (After ''r'' 1 live_opts) 4 ((s, mset us), rd)"
    "map seq_of (rd_handed rd) = [2, 3, 4]" by (rule resume_demo_reading)
  from subscription_numbers_rise[OF R(1) _ orderly_lets_go, of "''r''"]
  have "sorted_wrt (<) (map seq_of (filter (\<lambda>e. env_RunID e = ''r'' \<and> env_Sequence e \<noteq> None) (rd_handed rd)))" by simp
  with R show ?thesis by (intro exI conjI)
qed



text \<open>C36. The settlement of a steering request without a target can be lost: the gate holds it
  back but not the later event of its run, which is delivered first, and the subscription
  then drops the settlement as an event it has passed already.\<close>

theorem settlement_lost:
  "\<exists>s M rd. reading json_steer numbered live_opts 4 ((s, M), rd) \<and> su_sub (rd_u rd) = Some 0 \<and> s_gate s = None
    \<and> map env_RunID (s_published s) = [''r'', ''r''] \<and> map seq_of (s_published s) = [1, 2]
    \<and> map seq_of (taken s 0) = [2, 1] \<and> sb_ch (s_sub s 0) = [] \<and> map seq_of (rd_handed rd) = [2]"
proof -
  obtain s us rd where p: "play_read json_steer numbered live_opts 4 lost_demo ((newSession ''s'' False None, []), newReader)
      = Some ((s, us), rd)"
    and c: "su_sub (rd_u rd) = Some 0" "s_gate s = None" "map env_RunID (s_published s) = [''r'', ''r'']"
      "map seq_of (s_published s) = [1, 2]" "map seq_of (taken s 0) = [2, 1]" "sb_ch (s_sub s 0) = []" "map seq_of (rd_handed rd) = [2]"
    using lost_demo_played by (auto split: option.splits)
  show ?thesis by (intro exI conjI) (rule play_read_new[OF p proper_lost_demo] c)+
qed

text \<open>C38. A subscription that overflows while it replays can skip events: when the next replayed
  event is not there at the moment the queue has overflowed, the replay is given up, the live
  events that were queued are handed over with a gap before them, and the cursor it reports
  for the resumption lies behind the gap.\<close>

theorem cut_replay_skips_events:
  "\<exists>s M rd. reading json_demo (orderly json_demo) (After ''r'' 1 live_opts) 1 ((s, M), rd)
    \<and> map seq_of (of_run ''r'' (s_delivered s)) = [1, 2, 3, 4, 5] \<and> map seq_of (of_run ''r'' (rd_handed rd)) = [2, 4]
    \<and> su_finished (rd_u rd) \<and> su_err (rd_u rd) = Some (OverflowError ''r'' 4)"
proof -
  obtain s us rd where p: "play_read json_demo (orderly json_demo) (After ''r'' 1 live_opts) 1 cut_demo
      ((newSession ''s'' False None, []), newReader) = Some ((s, us), rd)"
    and c: "map seq_of (of_run ''r'' (s_delivered s)) = [1, 2, 3, 4, 5]" "map seq_of (of_run ''r'' (rd_handed rd)) = [2, 4]"
      "su_finished (rd_u rd)" "su_err (rd_u rd) = Some (OverflowError ''r'' 4)"
    using cut_demo_played by (auto split: option.splits)
  show ?thesis by (intro exI conjI) (rule play_read_new[OF p proper_cut_demo] c)+
qed

end
