(* ===== verification/Serve_Attach.thy ===== *)
theory Serve_Attach
  imports Oap_Prelude
begin

text \<open>
  What an opening may ask of an adapter, and the tool sources it attaches:
  \<^verbatim>\<open>go/serve/attach.go\<close>, \<^verbatim>\<open>ElectionGate\<close> of \<^verbatim>\<open>compound.go\<close>, the tool sources of
  \<^verbatim>\<open>registry.go\<close> and what they call of \<^verbatim>\<open>go/protocol\<close> and \<^verbatim>\<open>go/adapter\<close>.

  The decoded configuration of the operator is an association list with one entry per id;
  \<open>environ\<close> is the environment of the server.  The theorem follows a tool source from the
  configuration through the registry to what an adapter is given.
\<close>

section \<open>Tool sources\<close>

record ToolSourceAttachment =
  ta_ID :: bytes
  ta_Kind :: bytes
  ta_DisplayName :: bytes
  ta_Protocol :: bytes
  ta_Endpoint :: bytes
  ta_Command :: bytes
  ta_Args :: "bytes list"
  ta_Environment :: "bytes list"

record toolSourceEntry =
  te_Kind :: bytes
  te_DisplayName :: bytes
  te_Protocol :: bytes
  te_Endpoint :: bytes
  te_Command :: bytes
  te_Args :: "bytes list"
  te_Environment :: "bytes list"

type_synonym tool_sources = "bytes \<rightharpoonup> ToolSourceAttachment"

definition ToolSourceProcess :: bytes where "ToolSourceProcess = ''process''"

definition IsToolSourceKind :: "bytes \<Rightarrow> bool" where
  "IsToolSourceKind kind \<longleftrightarrow> kind \<in> {''native'', ''local'', ToolSourceProcess, ''remote'', ''hosted''}"

definition env_name :: "bytes \<Rightarrow> bytes" where "env_name entry = fst (go_cut (CHR ''='') entry)"

definition literal :: "bytes \<Rightarrow> bool" where "literal entry = snd (snd (go_cut (CHR ''='') entry))"

text \<open>The first name that occurs for the second time, or the empty string; the loop keeps the
  names it has seen.\<close>

fun duplicate_loop :: "bytes set \<Rightarrow> bytes list \<Rightarrow> bytes" where
  "duplicate_loop seen [] = []"
| "duplicate_loop seen (entry # entries) =
     (if env_name entry \<in> seen then env_name entry else duplicate_loop (insert (env_name entry) seen) entries)"

definition DuplicateEnvironmentName :: "bytes list \<Rightarrow> bytes" where
  "DuplicateEnvironmentName entries = (if length entries < 2 then [] else duplicate_loop {} entries)"

datatype source_error =
    ErrKindRequired | ErrNotAKind | ErrNeedsCommand | ErrNamesTwice bytes | ErrIDRequired | ErrAlreadyRegistered | ErrNotSet bytes
  | ErrNoVariableName

definition validateToolSource :: "bytes \<Rightarrow> bytes \<Rightarrow> bytes list \<Rightarrow> source_error option" where
  "validateToolSource kind command environment =
     (if kind = [] then Some ErrKindRequired
      else if \<not> IsToolSourceKind kind then Some ErrNotAKind
      else if kind = ToolSourceProcess \<and> command = [] then Some ErrNeedsCommand
      else let name = DuplicateEnvironmentName environment
           in if name \<noteq> [] then Some (ErrNamesTwice name) else None)"

definition RegisterToolSource :: "tool_sources \<Rightarrow> bytes \<Rightarrow> ToolSourceAttachment \<Rightarrow> source_error + tool_sources" where
  "RegisterToolSource srcs sid source =
     (if sid = [] then Inl ErrIDRequired
      else case validateToolSource (ta_Kind source) (ta_Command source) (ta_Environment source) of
        Some err \<Rightarrow> Inl err
      | None \<Rightarrow> if srcs sid \<noteq> None then Inl ErrAlreadyRegistered else Inr (srcs(sid \<mapsto> source\<lparr>ta_ID := sid\<rparr>)))"

fun resolveEnvironment :: "(bytes \<rightharpoonup> bytes) \<Rightarrow> bytes list \<Rightarrow> source_error + bytes list" where
  "resolveEnvironment environ [] = Inr []"
| "resolveEnvironment environ (entry # entries) =
     (if env_name entry = [] then Inl ErrNoVariableName
      else case resolveEnvironment environ entries of
        Inl err \<Rightarrow> Inl err
      | Inr resolved \<Rightarrow>
          if literal entry then Inr (entry # resolved)
          else case environ (env_name entry) of
            Some value \<Rightarrow> Inr ((env_name entry @ ''='' @ value) # resolved)
          | None \<Rightarrow> Inr resolved)"

definition resolveToolSourceEnvironment :: "(bytes \<rightharpoonup> bytes) \<Rightarrow> bytes list \<Rightarrow> source_error + bytes list" where
  "resolveToolSourceEnvironment environ entries =
     (case find (\<lambda>entry. \<not> literal entry \<and> env_name entry \<noteq> [] \<and> environ (env_name entry) = None) entries of
        Some entry \<Rightarrow> Inl (ErrNotSet (env_name entry))
      | None \<Rightarrow> resolveEnvironment environ entries)"

text \<open>The loop of \<^verbatim>\<open>LoadRegistry\<close> over the tool sources, in the order of their ids.\<close>

definition load_source :: "(bytes \<rightharpoonup> bytes) \<Rightarrow> bytes \<Rightarrow> toolSourceEntry \<Rightarrow> tool_sources \<Rightarrow> source_error + tool_sources" where
  "load_source environ sid entry srcs =
     (case validateToolSource (te_Kind entry) (te_Command entry) (te_Environment entry) of
        Some err \<Rightarrow> Inl err
      | None \<Rightarrow>
          (case resolveToolSourceEnvironment environ (te_Environment entry) of
             Inl err \<Rightarrow> Inl err
           | Inr environment \<Rightarrow> RegisterToolSource srcs sid
               \<lparr>ta_ID = sid, ta_Kind = te_Kind entry, ta_DisplayName = te_DisplayName entry, ta_Protocol = te_Protocol entry,
                ta_Endpoint = te_Endpoint entry, ta_Command = te_Command entry, ta_Args = te_Args entry, ta_Environment = environment\<rparr>))"

fun load_sources :: "(bytes \<rightharpoonup> bytes) \<Rightarrow> (bytes \<times> toolSourceEntry) list \<Rightarrow> tool_sources \<Rightarrow> source_error + tool_sources" where
  "load_sources environ [] srcs = Inr srcs"
| "load_sources environ ((sid, entry) # rest) srcs =
     (case load_source environ sid entry srcs of Inl err \<Rightarrow> Inl err | Inr srcs1 \<Rightarrow> load_sources environ rest srcs1)"

definition LoadToolSources :: "(bytes \<rightharpoonup> bytes) \<Rightarrow> (bytes \<times> toolSourceEntry) list \<Rightarrow> source_error + tool_sources" where
  "LoadToolSources environ config = load_sources environ (sort_key fst config) Map.empty"

section \<open>Attachments\<close>

datatype refusal_reason = CommandFromWire | LiteralEnvironment | NotConfigured | MemberFromWire bytes

record AttachmentRefusal =
  rf_Source :: bytes
  rf_Reason :: refusal_reason

definition hasLiteralEnvironment :: "bytes list \<Rightarrow> bool" where
  "hasLiteralEnvironment environment = list_ex literal environment"

fun merge_loop :: "bytes set \<Rightarrow> bytes list \<Rightarrow> bytes list \<Rightarrow> bytes list" where
  "merge_loop configured merged [] = merged"
| "merge_loop configured merged (entry # caller) =
     (if env_name entry \<in> configured then merge_loop configured merged caller
      else merge_loop (insert (env_name entry) configured) (merged @ [entry]) caller)"

definition mergeEnvironment :: "bytes list \<Rightarrow> bytes list \<Rightarrow> bytes list" where
  "mergeEnvironment operator caller = (if caller = [] then operator else merge_loop (set (map env_name operator)) operator caller)"

definition members :: "ToolSourceAttachment \<Rightarrow> ToolSourceAttachment \<Rightarrow> (bytes \<times> bytes \<times> bytes) list" where
  "members attachment configured =
     [(''kind'', ta_Kind attachment, ta_Kind configured), (''display_name'', ta_DisplayName attachment, ta_DisplayName configured),
      (''protocol'', ta_Protocol attachment, ta_Protocol configured), (''endpoint'', ta_Endpoint attachment, ta_Endpoint configured)]"

definition resolve_attachment :: "tool_sources \<Rightarrow> ToolSourceAttachment \<Rightarrow> AttachmentRefusal + ToolSourceAttachment" where
  "resolve_attachment srcs attachment =
     (let refuse = (\<lambda>reason. Inl \<lparr>rf_Source = ta_ID attachment, rf_Reason = reason\<rparr>)
      in if ta_Command attachment \<noteq> [] \<or> ta_Args attachment \<noteq> [] then refuse CommandFromWire
         else if hasLiteralEnvironment (ta_Environment attachment) then refuse LiteralEnvironment
         else case srcs (ta_ID attachment) of
           None \<Rightarrow> if ta_Kind attachment = ToolSourceProcess then refuse NotConfigured else Inr attachment
         | Some configured \<Rightarrow>
             (case find (\<lambda>(name, wire, operator). wire \<noteq> [] \<and> wire \<noteq> operator) (members attachment configured) of
                Some (name, wire, operator) \<Rightarrow> refuse (MemberFromWire name)
              | None \<Rightarrow> Inr (configured\<lparr>ta_Environment := mergeEnvironment (ta_Environment configured) (ta_Environment attachment)\<rparr>)))"

fun ResolveAttachments :: "tool_sources \<Rightarrow> ToolSourceAttachment list \<Rightarrow> AttachmentRefusal + ToolSourceAttachment list" where
  "ResolveAttachments srcs [] = Inr []"
| "ResolveAttachments srcs (attachment # attachments) =
     (case resolve_attachment srcs attachment of
        Inl refusal \<Rightarrow> Inl refusal
      | Inr source \<Rightarrow> (case ResolveAttachments srcs attachments of Inl refusal \<Rightarrow> Inl refusal | Inr rest \<Rightarrow> Inr (source # rest)))"

section \<open>What an adapter supports\<close>

record FeatureSupport =
  fe_Level :: bytes
  fe_Modes :: "bytes list"

record CapabilityDescriptor =
  cd_Features :: "bytes \<rightharpoonup> FeatureSupport"
  cd_Layers :: "(bytes \<times> (bytes \<rightharpoonup> FeatureSupport)) list"

record AdapterDescriptor =
  ad_CapabilityRevision :: bytes
  ad_Capabilities :: CapabilityDescriptor

record SessionOpenRequest =
  so_ToolSources :: "ToolSourceAttachment list"
  so_Subscribe :: bool
  so_Reopen :: bool
  so_ReasoningLevel :: bytes
  so_CompactionPolicy :: bool
  so_AllowDegradedFeatures :: "bytes list"

datatype gate_error =
  ErrProbe | StaleRevisionError bytes bytes | GateUnsupported bytes bytes | GateDegraded bytes

definition DisclosesMode :: "FeatureSupport \<Rightarrow> bytes \<Rightarrow> bool" where
  "DisclosesMode f mode \<longleftrightarrow> mode \<in> set (fe_Modes f)"

definition AllowsDegraded :: "SessionOpenRequest \<Rightarrow> bytes \<Rightarrow> bool" where
  "AllowsDegraded r key \<longleftrightarrow> key \<in> set (so_AllowDegradedFeatures r)"

fun layer_support :: "(bytes \<times> (bytes \<rightharpoonup> FeatureSupport)) list \<Rightarrow> bytes \<Rightarrow> FeatureSupport option" where
  "layer_support [] key = None"
| "layer_support ((name, features) # layers) key =
     (case features key of Some support \<Rightarrow> Some support | None \<Rightarrow> layer_support layers key)"

definition EffectiveSupport :: "CapabilityDescriptor \<Rightarrow> bytes \<Rightarrow> FeatureSupport option" where
  "EffectiveSupport d key =
     (case cd_Features d key of Some support \<Rightarrow> Some support | None \<Rightarrow> layer_support (sort_key fst (cd_Layers d)) key)"

definition SupportUnavailable :: bytes where "SupportUnavailable = ''unavailable''"
definition SupportDegraded :: bytes where "SupportDegraded = ''degraded''"
definition ModeSessionOpen :: bytes where "ModeSessionOpen = ''session_open''"
definition FeatureToolSourcesAttach :: bytes where "FeatureToolSourcesAttach = ''action.tool_sources.attach''"
definition FeatureOpenSubscribe :: bytes where "FeatureOpenSubscribe = ''session.open.subscribe''"
definition FeatureOpenReopen :: bytes where "FeatureOpenReopen = ''session.open.reopen''"
definition FeatureSessionReasoning :: bytes where "FeatureSessionReasoning = ''session.reasoning''"
definition FeatureCompactionPolicy :: bytes where "FeatureCompactionPolicy = ''session.compaction.policy''"

definition OpenSettingKeys :: "bytes \<Rightarrow> bool \<Rightarrow> bytes list" where
  "OpenSettingKeys level policy =
     (if level \<noteq> [] then [FeatureSessionReasoning] else []) @ (if policy then [FeatureCompactionPolicy] else [])"

definition OpenSettingField :: "bytes \<Rightarrow> bytes" where
  "OpenSettingField key =
     (if key = FeatureSessionReasoning then ''reasoning_level''
      else if key = FeatureCompactionPolicy then ''compaction_policy''
      else [])"

text \<open>\<open>probed\<close>: what \<^verbatim>\<open>Hub.Probe\<close> answers.\<close>

definition AttachmentGate :: "AdapterDescriptor option \<Rightarrow> bytes \<Rightarrow> SessionOpenRequest \<Rightarrow> gate_error + bytes" where
  "AttachmentGate probed revision request =
     (if so_ToolSources request = [] then Inr []
      else case probed of
        None \<Rightarrow> Inl ErrProbe
      | Some descriptor \<Rightarrow>
          if revision \<noteq> [] \<and> revision \<noteq> ad_CapabilityRevision descriptor
          then Inl (StaleRevisionError (ad_CapabilityRevision descriptor) revision)
          else (case EffectiveSupport (ad_Capabilities descriptor) FeatureToolSourcesAttach of
                  None \<Rightarrow> Inl (GateUnsupported FeatureToolSourcesAttach [])
                | Some support \<Rightarrow>
                    if fe_Level support = [] \<or> fe_Level support = SupportUnavailable \<or> \<not> DisclosesMode support ModeSessionOpen
                    then Inl (GateUnsupported FeatureToolSourcesAttach [])
                    else if fe_Level support = SupportDegraded \<and> \<not> AllowsDegraded request FeatureToolSourcesAttach
                    then Inl (GateDegraded FeatureToolSourcesAttach)
                    else Inr (ad_CapabilityRevision descriptor)))"

fun elect :: "CapabilityDescriptor \<Rightarrow> bytes list \<Rightarrow> SessionOpenRequest \<Rightarrow> bytes list \<Rightarrow> gate_error option" where
  "elect d settings request [] = None"
| "elect d settings request (key # keys) =
     (case EffectiveSupport d key of
        None \<Rightarrow> Some (GateUnsupported key (OpenSettingField key))
      | Some support \<Rightarrow>
          if fe_Level support = [] \<or> fe_Level support = SupportUnavailable then Some (GateUnsupported key (OpenSettingField key))
          else if key \<in> set settings \<and> \<not> DisclosesMode support ModeSessionOpen then Some (GateUnsupported key (OpenSettingField key))
          else if fe_Level support = SupportDegraded \<and> \<not> AllowsDegraded request key then Some (GateDegraded key)
          else elect d settings request keys)"

definition ElectionGate :: "AdapterDescriptor option \<Rightarrow> bytes \<Rightarrow> SessionOpenRequest \<Rightarrow> gate_error + bytes" where
  "ElectionGate probed revision request =
     (let settings = OpenSettingKeys (so_ReasoningLevel request) (so_CompactionPolicy request);
          elected = (if so_Subscribe request then [FeatureOpenSubscribe] else []) @
                    (if so_Reopen request then [FeatureOpenReopen] else []) @ settings
      in if elected = [] then Inr []
         else case probed of
           None \<Rightarrow> Inl ErrProbe
         | Some descriptor \<Rightarrow>
             if revision \<noteq> [] \<and> revision \<noteq> ad_CapabilityRevision descriptor
             then Inl (StaleRevisionError (ad_CapabilityRevision descriptor) revision)
             else (case elect (ad_Capabilities descriptor) settings request elected of
                     Some err \<Rightarrow> Inl err
                   | None \<Rightarrow> Inr (ad_CapabilityRevision descriptor)))"

section \<open>Environments\<close>

lemma literal_iff: "literal entry \<longleftrightarrow> CHR ''='' \<in> set entry"
  by (simp add: literal_def go_cut_def)

lemma env_name_joined: "env_name (env_name entry @ ''='' @ value) = env_name entry"
proof -
  have "CHR ''='' \<notin> set (env_name entry)" by (auto simp: env_name_def go_cut_def dest: set_takeWhileD)
  then show ?thesis unfolding env_name_def[of "_ @ _"] go_cut_def by (simp add: takeWhile_append)
qed

lemma duplicate_loop_distinct:
  assumes "duplicate_loop seen entries = []" "[] \<notin> set (map env_name entries)"
  shows "distinct (map env_name entries) \<and> set (map env_name entries) \<inter> seen = {}"
  using assms by (induction seen entries rule: duplicate_loop.induct) (auto split: if_splits)

lemma DuplicateEnvironmentName_distinct:
  assumes "DuplicateEnvironmentName entries = []" "[] \<notin> set (map env_name entries)"
  shows "distinct (map env_name entries)"
proof (cases "length entries < 2")
  case True
  then show ?thesis by (cases entries) auto
next
  case False
  then show ?thesis using duplicate_loop_distinct[of "{}" entries] assms by (simp add: DuplicateEnvironmentName_def)
qed

text \<open>Every resolved entry is a literal of the operator's, or gives a variable the operator names
  the value it has in the environment of the server.\<close>

definition operator_entry :: "(bytes \<rightharpoonup> bytes) \<Rightarrow> bytes list \<Rightarrow> bytes \<Rightarrow> bool" where
  "operator_entry environ entries x \<longleftrightarrow>
     (x \<in> set entries \<and> literal x) \<or> (\<exists>n v. n \<in> set entries \<and> \<not> literal n \<and> environ n = Some v \<and> x = n @ ''='' @ v)"

lemma env_name_bare: "\<not> literal entry \<Longrightarrow> env_name entry = entry"
  by (simp add: literal_iff env_name_def go_cut_def)

lemma resolveEnvironment_operator:
  assumes "resolveEnvironment environ entries = Inr resolved"
  shows "(\<forall>x \<in> set resolved. operator_entry environ entries x) \<and> [] \<notin> set (map env_name resolved)"
  using assms
proof (induction entries arbitrary: resolved)
  case (Cons entry entries)
  from Cons.prems obtain rest where r: "resolveEnvironment environ entries = Inr rest" "env_name entry \<noteq> []"
    by (auto split: if_splits sum.splits)
  have keep: "operator_entry environ (entry # entries) x" if "operator_entry environ entries x" for x
    using that by (auto simp: operator_entry_def)
  have "resolved = rest \<or> (\<exists>y. resolved = y # rest \<and> operator_entry environ (entry # entries) y \<and> env_name y = env_name entry)"
    using Cons.prems r env_name_joined[of entry] env_name_bare[of entry]
    by (auto simp: operator_entry_def split: if_splits option.splits)
  with Cons.IH[OF r(1)] r(2) show ?case by (auto intro: keep)
qed simp

lemma merge_loop_keeps:
  assumes "\<And>n. n \<in> configured \<longleftrightarrow> n \<in> set (map env_name merged)" "distinct (map env_name merged)"
  shows "distinct (map env_name (merge_loop configured merged caller)) \<and>
    (\<exists>more. merge_loop configured merged caller = merged @ more \<and> set more \<subseteq> set caller)"
  using assms
proof (induction configured merged caller rule: merge_loop.induct)
  case (2 configured merged entry caller)
  show ?case
  proof (cases "env_name entry \<in> configured")
    case True
    with 2(1)[OF True 2(3,4)] show ?thesis by auto
  next
    case False
    have "distinct (map env_name (merged @ [entry]))" using 2(3,4) False by simp
    with 2(2)[OF False, of] 2(3) show ?thesis by fastforce
  qed
qed auto

lemma mergeEnvironment_keeps:
  assumes "distinct (map env_name operator)"
  shows "distinct (map env_name (mergeEnvironment operator caller)) \<and>
    (\<exists>more. mergeEnvironment operator caller = operator @ more \<and> set more \<subseteq> set caller)"
  using merge_loop_keeps[of "set (map env_name operator)" operator caller] assms by (auto simp: mergeEnvironment_def)

section \<open>From the configuration to the adapter\<close>

definition from_entry :: "(bytes \<rightharpoonup> bytes) \<Rightarrow> bytes \<Rightarrow> toolSourceEntry \<Rightarrow> ToolSourceAttachment \<Rightarrow> bool" where
  "from_entry environ sid e c \<longleftrightarrow> ta_ID c = sid \<and> ta_Kind c = te_Kind e \<and> ta_DisplayName c = te_DisplayName e \<and>
     ta_Protocol c = te_Protocol e \<and> ta_Endpoint c = te_Endpoint e \<and> ta_Command c = te_Command e \<and> ta_Args c = te_Args e \<and>
     IsToolSourceKind (te_Kind e) \<and> (te_Kind e = ToolSourceProcess \<longrightarrow> te_Command e \<noteq> []) \<and>
     distinct (map env_name (ta_Environment c)) \<and> (\<forall>x \<in> set (ta_Environment c). operator_entry environ (te_Environment e) x)"

lemma validateToolSource_None:
  "validateToolSource kind command environment = None \<longleftrightarrow>
     IsToolSourceKind kind \<and> (kind = ToolSourceProcess \<longrightarrow> command \<noteq> []) \<and> DuplicateEnvironmentName environment = []"
  by (auto simp: validateToolSource_def Let_def IsToolSourceKind_def ToolSourceProcess_def)

lemma load_source_Inr:
  assumes "load_source environ sid entry srcs = Inr srcs1"
  obtains c where "srcs sid = None" "srcs1 = srcs(sid \<mapsto> c)" "from_entry environ sid entry c"
proof -
  from assms obtain env where env: "resolveToolSourceEnvironment environ (te_Environment entry) = Inr env"
    "validateToolSource (te_Kind entry) (te_Command entry) (te_Environment entry) = None"
    by (auto simp: load_source_def split: option.splits sum.splits)
  then have r: "resolveEnvironment environ (te_Environment entry) = Inr env"
    by (auto simp: resolveToolSourceEnvironment_def split: option.splits)
  note ops = resolveEnvironment_operator[OF r]
  let ?c = "\<lparr>ta_ID = sid, ta_Kind = te_Kind entry, ta_DisplayName = te_DisplayName entry, ta_Protocol = te_Protocol entry,
      ta_Endpoint = te_Endpoint entry, ta_Command = te_Command entry, ta_Args = te_Args entry, ta_Environment = env\<rparr>"
  have "RegisterToolSource srcs sid ?c = Inr srcs1" using assms env by (simp add: load_source_def)
  then have reg: "validateToolSource (te_Kind entry) (te_Command entry) env = None" "srcs sid = None" "srcs1 = srcs(sid \<mapsto> ?c)"
    by (auto simp: RegisterToolSource_def split: if_splits option.splits)
  have "from_entry environ sid entry ?c"
    using reg(1) ops DuplicateEnvironmentName_distinct[of env] by (simp add: from_entry_def validateToolSource_None)
  with reg(2,3) that show thesis by blast
qed

lemma load_sources_Inr:
  assumes "load_sources environ rest srcs = Inr srcs1"
  shows "(\<forall>sid c. srcs1 sid = Some c \<longrightarrow> srcs sid = Some c \<or> (\<exists>e. (sid, e) \<in> set rest \<and> from_entry environ sid e c)) \<and>
    (\<forall>sid. srcs1 sid = None \<longrightarrow> srcs sid = None \<and> sid \<notin> fst ` set rest)"
  using assms
proof (induction environ rest srcs rule: load_sources.induct)
  case (2 environ sid entry rest srcs)
  from 2(2) obtain srcs2 where l: "load_source environ sid entry srcs = Inr srcs2" "load_sources environ rest srcs2 = Inr srcs1"
    by (auto split: sum.splits)
  obtain c where c: "srcs sid = None" "srcs2 = srcs(sid \<mapsto> c)" "from_entry environ sid entry c" by (rule load_source_Inr[OF l(1)])
  note IH = 2(1)[OF l]
  show ?case
  proof (intro conjI allI impI)
    fix t d assume "srcs1 t = Some d"
    with IH have "srcs2 t = Some d \<or> (\<exists>e. (t, e) \<in> set rest \<and> from_entry environ t e d)" by blast
    then show "srcs t = Some d \<or> (\<exists>e. (t, e) \<in> set ((sid, entry) # rest) \<and> from_entry environ t e d)"
      using c by (auto split: if_splits)
  next
    fix t assume "srcs1 t = None"
    with IH have "srcs2 t = None" "t \<notin> fst ` set rest" by blast+
    then show "srcs t = None" "t \<notin> fst ` set ((sid, entry) # rest)" using c by (auto split: if_splits)
  qed
qed simp

lemma LoadToolSources_Inr:
  assumes "LoadToolSources environ config = Inr srcs" "distinct (map fst config)"
  shows "srcs sid = Some c \<Longrightarrow> \<exists>e. map_of config sid = Some e \<and> from_entry environ sid e c"
    and "srcs sid = None \<Longrightarrow> map_of config sid = None"
  using load_sources_Inr[OF assms(1)[unfolded LoadToolSources_def]] assms(2) by (auto simp: map_of_eq_None_iff)

lemma resolve_attachment_Inr:
  assumes "resolve_attachment srcs attachment = Inr source"
  shows "ta_Command attachment = [] \<and> ta_Args attachment = [] \<and> (\<forall>x \<in> set (ta_Environment attachment). \<not> literal x) \<and>
    (case srcs (ta_ID attachment) of
       None \<Rightarrow> ta_Kind attachment \<noteq> ToolSourceProcess \<and> source = attachment
     | Some c \<Rightarrow> source = c\<lparr>ta_Environment := mergeEnvironment (ta_Environment c) (ta_Environment attachment)\<rparr>)"
  using assms by (auto simp: resolve_attachment_def Let_def hasLiteralEnvironment_def list_ex_iff split: if_splits option.splits)

text \<open>What the adapter may be given for an attachment.\<close>

definition operated :: "(bytes \<rightharpoonup> bytes) \<Rightarrow> (bytes \<times> toolSourceEntry) list \<Rightarrow> ToolSourceAttachment \<Rightarrow> ToolSourceAttachment \<Rightarrow> bool" where
  "operated environ config attachment source \<longleftrightarrow> ta_ID source = ta_ID attachment \<and>
     (case map_of config (ta_ID attachment) of
        Some e \<Rightarrow>
          ta_Kind source = te_Kind e \<and> ta_Endpoint source = te_Endpoint e \<and> ta_Command source = te_Command e \<and> ta_Args source = te_Args e \<and>
          distinct (map env_name (ta_Environment source)) \<and>
          (\<forall>x \<in> set (ta_Environment source). operator_entry environ (te_Environment e) x \<or> x \<in> set (ta_Environment attachment) \<and> \<not> literal x)
      | None \<Rightarrow> source = attachment \<and> ta_Kind source \<noteq> ToolSourceProcess \<and> ta_Command source = [] \<and> ta_Args source = [] \<and>
          (\<forall>x \<in> set (ta_Environment source). \<not> literal x))"

lemma resolve_attachment_operated:
  assumes L: "LoadToolSources environ config = Inr srcs" and D: "distinct (map fst config)"
    and R: "resolve_attachment srcs attachment = Inr source"
  shows "operated environ config attachment source"
proof (cases "srcs (ta_ID attachment)")
  case None
  then show ?thesis using resolve_attachment_Inr[OF R] LoadToolSources_Inr(2)[OF L D None] by (simp add: operated_def)
next
  case (Some c)
  from LoadToolSources_Inr(1)[OF L D Some] obtain e where e: "map_of config (ta_ID attachment) = Some e"
    "from_entry environ (ta_ID attachment) e c" by blast
  then have "distinct (map env_name (ta_Environment c))" by (simp add: from_entry_def)
  from mergeEnvironment_keeps[OF this, of "ta_Environment attachment"] obtain more where
    m: "mergeEnvironment (ta_Environment c) (ta_Environment attachment) = ta_Environment c @ more" "set more \<subseteq> set (ta_Environment attachment)"
    "distinct (map env_name (ta_Environment c @ more))" by auto
  show ?thesis using resolve_attachment_Inr[OF R] Some e m by (auto simp: operated_def from_entry_def)
qed

text \<open>C7. A client names tool sources, it does not define them: what the adapter is given for the
  attachments of an opening that was not refused has, for each source the operator configured,
  the operator's kind, endpoint, command and arguments, and no variable twice; a value
  of a variable is the operator's literal, or what the server's environment holds for a
  variable the operator names; the client adds bare names only. A source that is not
  configured is no process, and brings no command, argument or value.\<close>

theorem wire_defines_no_command:
  assumes "distinct (map fst config)" "LoadToolSources environ config = Inr srcs" "ResolveAttachments srcs attachments = Inr sources"
  shows "list_all2 (operated environ config) attachments sources"
  using assms(3)
proof (induction attachments arbitrary: sources)
  case (Cons attachment attachments)
  then show ?case by (auto split: sum.splits intro: resolve_attachment_operated[OF assms(2,1)])
qed simp

text \<open>A process the operator configured, with a secret it names, and a client that names the
  source, asks for one more variable and tries to override the secret's.\<close>

definition demo_config :: "(bytes \<times> toolSourceEntry) list" where
  "demo_config = [(''t'', \<lparr>te_Kind = ToolSourceProcess, te_DisplayName = [], te_Protocol = ''mcp'', te_Endpoint = [], te_Command = ''run'',
     te_Args = [''-x''], te_Environment = [''KEY'', ''A=1'']\<rparr>)]"

definition demo_environ :: "bytes \<Rightarrow> bytes option" where
  "demo_environ n = (if n = ''KEY'' then Some ''s'' else None)"

definition demo_attachment :: ToolSourceAttachment where
  "demo_attachment = \<lparr>ta_ID = ''t'', ta_Kind = ToolSourceProcess, ta_DisplayName = [], ta_Protocol = [], ta_Endpoint = [], ta_Command = [],
     ta_Args = [], ta_Environment = [''B'', ''KEY'', ''B'']\<rparr>"

definition demo_resolved :: ToolSourceAttachment where
  "demo_resolved = \<lparr>ta_ID = ''t'', ta_Kind = ToolSourceProcess, ta_DisplayName = [], ta_Protocol = ''mcp'', ta_Endpoint = [], ta_Command = ''run'',
     ta_Args = [''-x''], ta_Environment = [''KEY=s'', ''A=1'', ''B'']\<rparr>"

theorem wire_defines_no_command_witness:
  "\<exists>srcs. LoadToolSources demo_environ demo_config = Inr srcs \<and> ResolveAttachments srcs [demo_attachment] = Inr [demo_resolved] \<and>
     operated demo_environ demo_config demo_attachment demo_resolved"
proof -
  have "case LoadToolSources demo_environ demo_config of Inl err \<Rightarrow> False
    | Inr srcs \<Rightarrow> ResolveAttachments srcs [demo_attachment] = Inr [demo_resolved]" by code_simp
  then obtain srcs where s: "LoadToolSources demo_environ demo_config = Inr srcs" "ResolveAttachments srcs [demo_attachment] = Inr [demo_resolved]"
    by (auto split: sum.splits)
  have "list_all2 (operated demo_environ demo_config) [demo_attachment] [demo_resolved]"
    by (rule wire_defines_no_command[OF _ s]) (simp add: demo_config_def)
  with s show ?thesis by auto
qed

text \<open>The gate of an election lets an opening through only if every feature it elects is
  supported, settings at an opening, and degraded ones only where the request allows it.\<close>

lemma elect_None:
  assumes "elect d settings request keys = None" "key \<in> set keys"
  obtains support where "EffectiveSupport d key = Some support" "fe_Level support \<notin> {[], SupportUnavailable}"
    "key \<in> set settings \<Longrightarrow> DisclosesMode support ModeSessionOpen" "fe_Level support = SupportDegraded \<Longrightarrow> AllowsDegraded request key"
  using assms by (induction keys) (auto split: option.splits if_splits)

end
