(* ===== verification/Adapter_Types.thy ===== *)
theory Adapter_Types
  imports Serve_Attach Binding_Store
begin

text \<open>
  What an opening brings to an adapter (\<^verbatim>\<open>go/adapter/adapter.go\<close>), shared by the hub and the
  reference adapter: the request, the tools a client provides, and the input answers of
  \<^verbatim>\<open>go/adapter/answer.go\<close>.
\<close>

record ToolDefinition =
  td_Name :: bytes
  td_ExecutionOwner :: bytes
  td_Source :: bytes
  td_InputSchema :: bytes

record OpenRequest =
  oq_SessionID :: bytes
  oq_Participant :: bytes
  oq_ToolSources :: "ToolSourceAttachment list"
  oq_Tools :: "ToolDefinition list"
  oq_AllowDegradedFeatures :: "bytes list"
  oq_Reopen :: bool
  oq_NativeSessionID :: bytes
  oq_ReasoningLevel :: bytes
  oq_CompactionPolicy :: "CompactionPolicy option"
  oq_Adopted :: bool

section \<open>Input questions and answers\<close>

datatype input_kind = InputText | InputSingleChoice | InputMultiChoice | InputOtherKind bytes

record InputQuestion =
  iq_ID :: bytes
  iq_Kind :: input_kind
  iq_Required :: bool
  iq_Options :: "bytes list"

record InputAnswer =
  ia_QuestionID :: bytes
  ia_Text :: bytes
  ia_SelectedOptionIDs :: "bytes list"

fun selection_ok :: "bytes list \<Rightarrow> bytes list \<Rightarrow> bytes set \<Rightarrow> bool" where
  "selection_ok offered [] seen = True"
| "selection_ok offered (x # xs) seen =
     (if x = [] \<or> x \<notin> set offered \<or> x \<in> seen then False else selection_ok offered xs (insert x seen))"

definition ValidateInputAnswer :: "InputQuestion \<Rightarrow> InputAnswer \<Rightarrow> bool" where
  "ValidateInputAnswer question answer =
     (if ia_QuestionID answer \<noteq> iq_ID question then False
      else if ia_Text answer \<noteq> [] \<and> ia_SelectedOptionIDs answer \<noteq> [] then False
      else (case iq_Kind question of
              InputText \<Rightarrow> ia_Text answer \<noteq> [] \<or> \<not> iq_Required question
            | InputSingleChoice \<Rightarrow> length (ia_SelectedOptionIDs answer) = 1
            | InputMultiChoice \<Rightarrow> ia_SelectedOptionIDs answer \<noteq> []
            | InputOtherKind k \<Rightarrow> False)
        \<and> selection_ok (iq_Options question) (ia_SelectedOptionIDs answer) {})"

end
