(* ===== verification/Serve_Hub.thy ===== *)
theory Serve_Hub
  imports Binding_File Serve_Work Adapter_Types "HOL-Library.Multiset"
begin

text \<open>
  The hub of the server: \<^verbatim>\<open>go/serve/serve.go\<close> (opening a session, its binding records,
  shutdown), the \<^verbatim>\<open>sessionRegistry\<close> of \<^verbatim>\<open>session.go\<close>, \<^verbatim>\<open>Registry.Place\<close> of
  \<^verbatim>\<open>registry.go\<close> and the rollback of \<^verbatim>\<open>compound.go\<close>.

  The hub calls the binding store through its interface: an append, whose failure is only
  logged, and the history of a session (record \<open>store_api\<close>).  Everything a goroutine does
  between two points at which another may run is one \<open>hub_turn\<close>; what the adapter answers is
  its input.  A session is known here by its entry: its id, its binding record and whether
  it was closed; \<open>he_handed\<close> records whether the entry ever left \<^verbatim>\<open>openIn\<close>.
\<close>

section \<open>Data\<close>

record 'b store_api =
  sa_Append :: "'b \<Rightarrow> Entry \<Rightarrow> 'b"
  sa_History :: "'b \<Rightarrow> bytes \<Rightarrow> Entry list option"

record OpenState = SessionState +
  st_CurrentModelID :: bytes

datatype implementation = Registered bytes | Placed bytes bytes

record Registry =
  rg_adapters :: "bytes list"
  rg_directories :: "bytes \<rightharpoonup> bytes"
  rg_templates :: "bytes list"
  rg_placed :: "(bytes \<times> bytes) list"
  rg_toolSources :: tool_sources

datatype hub_error =
    UnknownAdapterError | ErrAdapter | SessionExistsError | ErrHistory | UnknownSessionError | ErrDirectoryMismatch
  | ErrPlace | UnsupportedControlError | HubSessionClosed

record hub_entry =
  he_id :: bytes
  he_binding :: Record
  he_closed :: bool
  he_handed :: bool

record 'b Hub =
  hb_registry :: Registry
  hb_sessions :: "bytes \<rightharpoonup> nat"
  hb_opening :: "bytes list"
  hb_entry :: "nat \<Rightarrow> hub_entry"
  hb_nentry :: nat
  hb_bindings :: "'b option"
  hb_home :: bytes
  hb_stopping :: bool

definition Record_zero :: Record where
  "Record_zero = FromOpen [] [] [] [] [] [] []"

definition newHub :: "Registry \<Rightarrow> 'b option \<Rightarrow> bytes \<Rightarrow> 'b Hub" where
  "newHub reg b home = \<lparr>hb_registry = reg, hb_sessions = Map.empty, hb_opening = [],
     hb_entry = (\<lambda>_. \<lparr>he_id = [], he_binding = Record_zero, he_closed = False, he_handed = False\<rparr>), hb_nentry = 0,
     hb_bindings = b, hb_home = home, hb_stopping = False\<rparr>"

section \<open>The registries\<close>

text \<open>\<^verbatim>\<open>Place\<close>; \<open>built\<close>: whether \<^verbatim>\<open>buildAdapter\<close> succeeds.\<close>

definition Place :: "bool \<Rightarrow> Registry \<Rightarrow> bytes \<Rightarrow> bytes \<Rightarrow> (hub_error + implementation \<times> bytes) \<times> Registry" where
  "Place built reg name directory =
     (if name \<notin> set (rg_adapters reg) then (Inl ErrPlace, reg)
      else let configured = (case rg_directories reg name of Some d \<Rightarrow> d | None \<Rightarrow> [])
           in if directory = [] \<or> directory = configured then (Inr (Registered name, configured), reg)
              else if name \<notin> set (rg_templates reg) then (Inr (Registered name, configured), reg)
              else if (name, directory) \<in> set (rg_placed reg) then (Inr (Placed name directory, directory), reg)
              else if \<not> built then (Inl ErrPlace, reg)
              else (Inr (Placed name directory, directory), reg\<lparr>rg_placed := (name, directory) # rg_placed reg\<rparr>))"

definition SetWorkingDirectory :: "Registry \<Rightarrow> bytes \<Rightarrow> bytes \<Rightarrow> Registry" where
  "SetWorkingDirectory reg name directory =
     (if directory = [] then reg\<lparr>rg_directories := (rg_directories reg)(name := None)\<rparr>
      else reg\<lparr>rg_directories := (rg_directories reg)(name \<mapsto> directory)\<rparr>)"

definition reserve :: "'b Hub \<Rightarrow> bytes \<Rightarrow> 'b Hub option" where
  "reserve h sid =
     (if hb_sessions h sid \<noteq> None \<or> sid \<in> set (hb_opening h) then None
      else Some (h\<lparr>hb_opening := sid # hb_opening h\<rparr>))"

definition unreserve :: "'b Hub \<Rightarrow> bytes \<Rightarrow> 'b Hub" where
  "unreserve h sid = h\<lparr>hb_opening := removeAll sid (hb_opening h)\<rparr>"

definition add :: "'b Hub \<Rightarrow> nat \<Rightarrow> 'b Hub option" where
  "add h k =
     (let sid = he_id (hb_entry h k)
      in if hb_sessions h sid \<noteq> None then None else Some (h\<lparr>hb_sessions := (hb_sessions h)(sid \<mapsto> k)\<rparr>))"

definition remove :: "'b Hub \<Rightarrow> bytes \<Rightarrow> nat \<Rightarrow> 'b Hub" where
  "remove h sid k = (if hb_sessions h sid = Some k then h\<lparr>hb_sessions := (hb_sessions h)(sid := None)\<rparr> else h)"

section \<open>Binding records\<close>

definition recordBinding :: "'b store_api \<Rightarrow> 'b Hub \<Rightarrow> Record \<Rightarrow> bytes \<Rightarrow> int \<Rightarrow> 'b Hub" where
  "recordBinding api h r action timeMS =
     (case hb_bindings h of
        None \<Rightarrow> h
      | Some b \<Rightarrow>
          if r_SessionID r = [] then h
          else h\<lparr>hb_bindings := Some (sa_Append api b \<lparr>e_Action = action, e_TimeMS = timeMS, e_Record = r\<rparr>)\<rparr>)"

text \<open>\<open>version\<close>: what the probe of the adapter answers, empty if it fails; \<open>native\<close>: the native
  session id, if the session has one.\<close>

definition openRecord :: "'b Hub \<Rightarrow> bytes \<Rightarrow> bytes \<Rightarrow> bytes \<Rightarrow> bytes option \<Rightarrow> OpenState \<Rightarrow> OpenRequest \<Rightarrow> Record" where
  "openRecord h name directory version native state request =
     (let r = (if hb_bindings h = None then Record_zero
               else (FromOpen (st_SessionID state) name version (st_CurrentModelID state) (hb_home h) directory (map ta_ID (oq_ToolSources request)))
                      \<lparr>r_ReasoningLevel := oq_ReasoningLevel request, r_Adopted := oq_Adopted request,
                       r_CompactionPolicy := oq_CompactionPolicy request\<rparr>)
      in (case native of Some n \<Rightarrow> r\<lparr>r_NativeSessionID := n\<rparr> | None \<Rightarrow> r))"

definition adopting :: "OpenRequest \<Rightarrow> bool" where
  "adopting request \<longleftrightarrow> oq_Reopen request \<and> oq_Adopted request \<and> oq_NativeSessionID request \<noteq> []"

text \<open>What a reopening finds in the history of its session.\<close>

definition bound_request :: "'b store_api \<Rightarrow> 'b Hub \<Rightarrow> bytes \<Rightarrow> bytes \<Rightarrow> OpenRequest \<Rightarrow> hub_error + bytes \<times> OpenRequest" where
  "bound_request api h name directory request =
     (case hb_bindings h of
        None \<Rightarrow> Inr (directory, request)
      | Some b \<Rightarrow>
          if \<not> oq_Reopen request \<or> adopting request then Inr (directory, request)
          else case sa_History api b (oq_SessionID request) of
            None \<Rightarrow> Inl ErrHistory
          | Some hist \<Rightarrow>
              (case State hist of
                 None \<Rightarrow> Inl UnknownSessionError
               | Some bound \<Rightarrow>
                   if r_Adapter (e_Record bound) \<noteq> name then Inl UnknownSessionError
                   else if directory \<noteq> [] \<and> directory \<noteq> r_Directory (e_Record bound) then Inl ErrDirectoryMismatch
                   else Inr (r_Directory (e_Record bound),
                     request\<lparr>oq_NativeSessionID := r_NativeSessionID (e_Record bound), oq_Adopted := r_Adopted (e_Record bound)\<rparr>)))"

section \<open>Goroutines\<close>

datatype hub_action =
    OpenIn bytes bytes OpenRequest | Reserve bytes bytes OpenRequest | CheckBinding bytes bytes OpenRequest
  | PlaceAdapter bytes bytes OpenRequest | CallOpen bytes bytes implementation OpenRequest
  | Enter bytes bytes OpenRequest OpenState bool bytes "bytes option" | Began nat | Unreserve bytes
  | MarkClosed nat | ReleaseEntry nat | CallClose nat | Rollback nat | RolledBack nat bool | CloseSessions | Return "hub_error option"

text \<open>What the adapter answers: an error or not, that it does not know the session, or a session
  with its state, whether the state came with the error that the session is closed, the version
  of the harness and the native id.\<close>

datatype hub_input = Succeeds | Refuses | Gone | OpenedAs OpenState bool bytes "bytes option"

type_synonym 'b hub_turned = "('b Hub \<times> hub_action list) option"

definition DefaultParticipant :: bytes where "DefaultParticipant = ''user''"

definition open_turn :: "hub_input \<Rightarrow> bytes \<Rightarrow> bytes \<Rightarrow> OpenRequest \<Rightarrow> 'b Hub \<Rightarrow> 'b hub_turned" where
  "open_turn inp name directory request h =
     (if name \<notin> set (rg_adapters (hb_registry h)) then Some (h, [Return (Some UnknownAdapterError)])
      else let request1 = (if oq_Participant request = [] then request\<lparr>oq_Participant := DefaultParticipant\<rparr> else request)
           in if inp = Succeeds then Some (h, [Reserve name directory request1])
              else if inp = Refuses then Some (h, [Return (Some ErrAdapter)])
              else None)"

definition reserve_turn :: "'b store_api \<Rightarrow> int \<Rightarrow> bytes \<Rightarrow> bytes \<Rightarrow> OpenRequest \<Rightarrow> 'b Hub \<Rightarrow> 'b hub_turned" where
  "reserve_turn api now name directory request h =
     (let sid = oq_SessionID request
      in if sid = [] then Some (h, [CheckBinding name directory request])
         else case reserve h sid of
           None \<Rightarrow> Some (recordBinding api h (FromOpen sid name [] [] (hb_home h) [] []) ActionRefused now, [Return (Some SessionExistsError)])
         | Some h1 \<Rightarrow> Some (h1, [CheckBinding name directory request, Unreserve sid]))"

definition check_turn :: "'b store_api \<Rightarrow> bytes \<Rightarrow> bytes \<Rightarrow> OpenRequest \<Rightarrow> 'b Hub \<Rightarrow> 'b hub_turned" where
  "check_turn api name directory request h =
     (case bound_request api h name directory request of
        Inl err \<Rightarrow> Some (h, [Return (Some err)])
      | Inr (directory1, request1) \<Rightarrow> Some (h, [PlaceAdapter name directory1 request1]))"

definition place_turn :: "hub_input \<Rightarrow> bytes \<Rightarrow> bytes \<Rightarrow> OpenRequest \<Rightarrow> 'b Hub \<Rightarrow> 'b hub_turned" where
  "place_turn inp name directory request h =
     (case Place (inp = Succeeds) (hb_registry h) name directory of
        (Inl err, reg) \<Rightarrow> Some (h, [Return (Some err)])
      | (Inr (impl, placed), reg) \<Rightarrow>
          Some (h\<lparr>hb_registry := reg\<rparr>,
            if oq_Reopen request \<and> directory \<noteq> [] \<and> placed \<noteq> directory then [Return (Some ErrDirectoryMismatch)]
            else [CallOpen name placed impl request]))"

definition call_open_turn :: "hub_input \<Rightarrow> bytes \<Rightarrow> bytes \<Rightarrow> OpenRequest \<Rightarrow> 'b Hub \<Rightarrow> 'b hub_turned" where
  "call_open_turn inp name placed request h =
     (case inp of
        Gone \<Rightarrow> Some (h, [Return (Some (if oq_Reopen request \<and> (hb_bindings h \<noteq> None \<or> adopting request)
                                       then UnsupportedControlError else ErrAdapter))])
      | Refuses \<Rightarrow> Some (h, [Return (Some ErrAdapter)])
      | OpenedAs state closed version native \<Rightarrow> Some (h, [Enter name placed request state closed version native])
      | Succeeds \<Rightarrow> None)"

text \<open>The section under \<^verbatim>\<open>bindingMu\<close> in which a session that was opened enters the registry.\<close>

definition enter_turn :: "'b store_api \<Rightarrow> int \<Rightarrow> bytes \<Rightarrow> bytes \<Rightarrow> OpenRequest \<Rightarrow> OpenState \<Rightarrow> bool \<Rightarrow> bytes \<Rightarrow> bytes option \<Rightarrow> 'b Hub \<Rightarrow> 'b hub_turned" where
  "enter_turn api now name placed request state closed version native h =
     (let opened = openRecord h name placed version native state request;
          settled = (closed \<or> st_Status state = SessionClosed);
          began = (if oq_Reopen request then ActionReopened else ActionOpened);
          k = hb_nentry h;
          entry = \<lparr>he_id = st_SessionID state, he_binding = (if settled then Record_zero else opened), he_closed = False,
                    he_handed = (settled \<or> hb_sessions h (st_SessionID state) = None)\<rparr>;
          h1 = h\<lparr>hb_entry := (hb_entry h)(k := entry), hb_nentry := Suc k\<rparr>
      in if settled
         then Some (recordBinding api (recordBinding api h1 opened began (st_UpdatedAtMS state)) opened ActionClosed now,
                [MarkClosed k, Return (Some HubSessionClosed)])
         else case add h1 k of
           Some h2 \<Rightarrow> Some (recordBinding api h2 opened began (st_UpdatedAtMS state), [Began k])
         | None \<Rightarrow> Some (recordBinding api h1 opened ActionRefused now, [Return (Some SessionExistsError)]))"

text \<open>\<^verbatim>\<open>beforeEvents\<close>, and the close that follows when it fails.\<close>

definition began_turn :: "hub_input \<Rightarrow> nat \<Rightarrow> 'b Hub \<Rightarrow> 'b hub_turned" where
  "began_turn inp k h =
     (if inp = Succeeds then Some (h, [Return None])
      else if inp = Refuses then Some (h, [CallClose k, Return (Some HubSessionClosed)])
      else None)"

text \<open>The first \<^verbatim>\<open>markClosed\<close> of a session calls the hub back.\<close>

definition mark_turn :: "nat \<Rightarrow> 'b Hub \<Rightarrow> 'b hub_turned" where
  "mark_turn k h =
     (if he_closed (hb_entry h k) then Some (h, [])
      else Some (h\<lparr>hb_entry := (hb_entry h)(k := (hb_entry h k)\<lparr>he_closed := True\<rparr>)\<rparr>, [ReleaseEntry k]))"

definition release_turn :: "'b store_api \<Rightarrow> int \<Rightarrow> nat \<Rightarrow> 'b Hub \<Rightarrow> 'b hub_turned" where
  "release_turn api now k h =
     (let h1 = remove h (he_id (hb_entry h k)) k
      in Some (if \<not> hb_stopping h1 then recordBinding api h1 (he_binding (hb_entry h k)) ActionClosed now else h1, []))"

text \<open>\<^verbatim>\<open>Session.Close\<close> answers without an error after it marked the session closed.\<close>

definition hub_close_turn :: "hub_input \<Rightarrow> nat \<Rightarrow> 'b Hub \<Rightarrow> 'b hub_turned" where
  "hub_close_turn inp k h = (if inp = Succeeds then Some (h, [MarkClosed k]) else if inp = Refuses then Some (h, []) else None)"

definition rollback_turn :: "hub_input \<Rightarrow> nat \<Rightarrow> 'b Hub \<Rightarrow> 'b hub_turned" where
  "rollback_turn inp k h =
     (if inp = Succeeds then Some (h, [MarkClosed k, RolledBack k False])
      else if inp = Refuses then Some (h, [RolledBack k True])
      else None)"

definition rolled_turn :: "'b store_api \<Rightarrow> int \<Rightarrow> nat \<Rightarrow> bool \<Rightarrow> 'b Hub \<Rightarrow> 'b hub_turned" where
  "rolled_turn api now k failed h =
     (let h1 = remove h (he_id (hb_entry h k)) k
      in Some (if failed then recordBinding api h1 (he_binding (hb_entry h k)) ActionClosed now else h1, []))"

primrec hub_turn :: "'b store_api \<Rightarrow> int \<Rightarrow> hub_input \<Rightarrow> hub_action \<Rightarrow> 'b Hub \<Rightarrow> 'b hub_turned" where
  "hub_turn api now inp (OpenIn name directory request) h = open_turn inp name directory request h"
| "hub_turn api now inp (Reserve name directory request) h = reserve_turn api now name directory request h"
| "hub_turn api now inp (CheckBinding name directory request) h = check_turn api name directory request h"
| "hub_turn api now inp (PlaceAdapter name directory request) h = place_turn inp name directory request h"
| "hub_turn api now inp (CallOpen name placed impl request) h = call_open_turn inp name placed request h"
| "hub_turn api now inp (Enter name placed request state closed version native) h =
     enter_turn api now name placed request state closed version native h"
| "hub_turn api now inp (Began k) h = began_turn inp k h"
| "hub_turn api now inp (Unreserve sid) h = Some (unreserve h sid, [])"
| "hub_turn api now inp (MarkClosed k) h = mark_turn k h"
| "hub_turn api now inp (ReleaseEntry k) h = release_turn api now k h"
| "hub_turn api now inp (CallClose k) h = hub_close_turn inp k h"
| "hub_turn api now inp (Rollback k) h = rollback_turn inp k h"
| "hub_turn api now inp (RolledBack k failed) h = rolled_turn api now k failed h"
| "hub_turn api now inp CloseSessions h = Some (h\<lparr>hb_stopping := True\<rparr>, [])"
| "hub_turn api now inp (Return err) h = Some (h, [])"

section \<open>Every interleaving\<close>

text \<open>Calls from outside: to open, to close an entry that left the hub, to roll one back, to
  shut down.  \<open>adm\<close> says which inputs the outside may bring.\<close>

inductive hub_called :: "'b Hub \<Rightarrow> hub_action list \<Rightarrow> bool" for h where
  "hub_called h [OpenIn name directory request]"
| "k < hb_nentry h \<Longrightarrow> he_handed (hb_entry h k) \<Longrightarrow> hub_called h [MarkClosed k]"
| "k < hb_nentry h \<Longrightarrow> he_handed (hb_entry h k) \<Longrightarrow> hub_called h [CallClose k]"
| "k < hb_nentry h \<Longrightarrow> he_handed (hb_entry h k) \<Longrightarrow> hub_called h [Rollback k]"
| "hub_called h [CloseSessions]"

inductive hub_step :: "'b store_api \<Rightarrow> ('b Hub \<Rightarrow> hub_action \<Rightarrow> hub_input \<Rightarrow> bool) \<Rightarrow>
    'b Hub \<times> hub_action list multiset \<Rightarrow> 'b Hub \<times> hub_action list multiset \<Rightarrow> bool" for api adm where
  hub_takes: "hub_turn api now inp a h = Some (h1, as) \<Longrightarrow> adm h a inp \<Longrightarrow>
    hub_step api adm (h, add_mset (a # rest) M) (h1, add_mset (as @ rest) M)"
| hub_calls: "hub_called h t \<Longrightarrow> hub_step api adm (h, M) (h, add_mset t M)"
| hub_directory: "hub_step api adm (h, M) (h\<lparr>hb_registry := SetWorkingDirectory (hb_registry h) name directory\<rparr>, M)"

inductive hub_serving :: "'b store_api \<Rightarrow> ('b Hub \<Rightarrow> hub_action \<Rightarrow> hub_input \<Rightarrow> bool) \<Rightarrow> 'b \<Rightarrow>
    'b Hub \<times> hub_action list multiset \<Rightarrow> bool" for api adm b where
  hub_starts: "hub_serving api adm b (newHub reg (Some b) home, {#})"
| hub_steps: "hub_serving api adm b c \<Longrightarrow> hub_step api adm c c1 \<Longrightarrow> hub_serving api adm b c1"

text \<open>The actions that are still to be taken.\<close>

definition acts :: "hub_action list multiset \<Rightarrow> hub_action multiset" where
  "acts M = \<Sum>\<^sub># (image_mset mset M)"

lemma acts_simps [simp]: "acts {#} = {#}" "acts (add_mset t M) = mset t + acts M"
  by (simp_all add: acts_def)

lemma record_simps [simp]:
  "hb_registry (recordBinding api h r a n) = hb_registry h" "hb_sessions (recordBinding api h r a n) = hb_sessions h"
  "hb_opening (recordBinding api h r a n) = hb_opening h" "hb_entry (recordBinding api h r a n) = hb_entry h"
  "hb_nentry (recordBinding api h r a n) = hb_nentry h" "hb_stopping (recordBinding api h r a n) = hb_stopping h"
  "hb_home (recordBinding api h r a n) = hb_home h"
  by (simp_all add: recordBinding_def split: option.split)

lemma remove_simps [simp]:
  "hb_registry (remove h s k) = hb_registry h" "hb_opening (remove h s k) = hb_opening h" "hb_entry (remove h s k) = hb_entry h"
  "hb_nentry (remove h s k) = hb_nentry h" "hb_stopping (remove h s k) = hb_stopping h" "hb_bindings (remove h s k) = hb_bindings h"
  "hb_home (remove h s k) = hb_home h"
  by (simp_all add: remove_def)

section \<open>Reservations\<close>

definition reservations_inv :: "'b Hub \<times> hub_action list multiset \<Rightarrow> bool" where
  "reservations_inv c \<longleftrightarrow> distinct (hb_opening (fst c)) \<and>
     (\<forall>sid. count (acts (snd c)) (Unreserve sid) = (if sid \<in> set (hb_opening (fst c)) then 1 else 0))"

lemmas hub_turn_defs = open_turn_def reserve_turn_def check_turn_def place_turn_def call_open_turn_def enter_turn_def began_turn_def
  mark_turn_def release_turn_def hub_close_turn_def rollback_turn_def rolled_turn_def Let_def

lemma turn_opening:
  assumes "hub_turn api now inp a h = Some (h1, as)" "distinct (hb_opening h)"
  shows "distinct (hb_opening h1) \<and> (\<forall>sid. count (mset as) (Unreserve sid) + (if sid \<in> set (hb_opening h) then 1 else 0)
      = (if sid \<in> set (hb_opening h1) then 1 else 0) + (if a = Unreserve sid \<and> sid \<in> set (hb_opening h) then 1 else 0))"
  using assms
  by (cases a) (auto simp: hub_turn_defs reserve_def unreserve_def add_def distinct_removeAll
      split: if_splits option.splits sum.splits prod.splits hub_input.splits)

lemma called_opening: "hub_called h t \<Longrightarrow> count (mset t) (Unreserve sid) = 0"
  by (induction rule: hub_called.induct) simp_all

lemma hub_reservations:
  assumes "hub_serving api adm b c"
  shows "reservations_inv c"
  using assms
proof (induction rule: hub_serving.induct)
  case (hub_starts reg home)
  then show ?case by (simp add: reservations_inv_def newHub_def)
next
  case (hub_steps c c1)
  from hub_steps(2,3) show ?case
  proof (induction rule: hub_step.induct)
    case (hub_takes now inp a h h1 as rest M)
    note inv = hub_takes(3)[unfolded reservations_inv_def fst_conv snd_conv acts_simps]
    note t = turn_opening[OF hub_takes(1) inv[THEN conjunct1]]
    note d = t[THEN conjunct1] and n = t[THEN conjunct2, rule_format]
    have o: "(if a = Unreserve sid then 1 else 0) + count (mset rest + acts M) (Unreserve sid) = (if sid \<in> set (hb_opening h) then 1 else 0)" for sid
      using inv[THEN conjunct2, rule_format, of sid] by (cases "a = Unreserve sid") auto
    have "count (mset as + (mset rest + acts M)) (Unreserve sid) = (if sid \<in> set (hb_opening h1) then 1 else 0)" for sid
      using n[of sid] o[of sid] by (cases "a = Unreserve sid") (auto split: if_splits)
    with d show ?case unfolding reservations_inv_def by (simp add: ac_simps)
  next
    case (hub_calls h t M)
    then show ?case using called_opening[OF hub_calls(1)] by (simp add: reservations_inv_def)
  qed (simp add: reservations_inv_def)
qed

section \<open>The registry and the binding store\<close>

text \<open>What the hub relies on: an adapter does not answer an opening with a closed session under
  the id of a session that is live, and no opening is rolled back.\<close>

definition tidy :: "'b Hub \<Rightarrow> hub_action \<Rightarrow> hub_input \<Rightarrow> bool" where
  "tidy h a inp =
     (case a of
        Enter name placed request state closed version native \<Rightarrow>
          (closed \<or> st_Status state = SessionClosed) \<longrightarrow> hb_sessions h (st_SessionID state) = None
      | Rollback k \<Rightarrow> False
      | _ \<Rightarrow> True)"

text \<open>An entry that can still be released is in the registry, or it was closed when it was
  opened and has no binding.\<close>

definition in_registry :: "'b Hub \<Rightarrow> nat \<Rightarrow> bool" where
  "in_registry h k \<longleftrightarrow> hb_sessions h (he_id (hb_entry h k)) = Some k"

definition entries_ok :: "'b Hub \<Rightarrow> hub_action multiset \<Rightarrow> bool" where
  "entries_ok h A \<longleftrightarrow>
     (\<forall>k. ReleaseEntry k \<in># A \<longrightarrow> k < hb_nentry h \<and> he_handed (hb_entry h k) \<and> he_closed (hb_entry h k) \<and> count A (ReleaseEntry k) = 1)
   \<and> (\<forall>k < hb_nentry h. he_handed (hb_entry h k) \<and> (\<not> he_closed (hb_entry h k) \<or> ReleaseEntry k \<in># A) \<longrightarrow>
        in_registry h k \<or> he_binding (hb_entry h k) = Record_zero)
   \<and> (\<forall>sid k. hb_sessions h sid = Some k \<longrightarrow> k < hb_nentry h \<and> he_id (hb_entry h k) = sid \<and> he_handed (hb_entry h k))
   \<and> (\<forall>k f. RolledBack k f \<notin># A)
   \<and> (\<forall>k. MarkClosed k \<in># A \<or> CallClose k \<in># A \<or> Began k \<in># A \<longrightarrow> k < hb_nentry h \<and> he_handed (hb_entry h k))"

text \<open>The record that decides the state of a session says that it is live, with the binding of
  the registry's entry; without an entry it says so only for a session that the store had as live
  at the start, or after the hub began to stop.\<close>

definition log_matches :: "Entry list \<Rightarrow> Entry list \<Rightarrow> 'b Hub \<Rightarrow> bytes \<Rightarrow> bool" where
  "log_matches hist0 hist h sid =
     (case hb_sessions h sid of
        Some k \<Rightarrow> (\<exists>e. State hist = Some e \<and> Live e \<and> e_Record e = he_binding (hb_entry h k))
      | None \<Rightarrow> (\<forall>e. State hist = Some e \<longrightarrow> Live e \<longrightarrow> hb_stopping h \<or> State hist0 = Some e))"

lemma entries_okI:
  assumes "\<And>k. ReleaseEntry k \<in># A \<Longrightarrow> k < hb_nentry h \<and> he_handed (hb_entry h k) \<and> he_closed (hb_entry h k) \<and> count A (ReleaseEntry k) = 1"
    and "\<And>k. k < hb_nentry h \<Longrightarrow> he_handed (hb_entry h k) \<Longrightarrow> \<not> he_closed (hb_entry h k) \<or> ReleaseEntry k \<in># A \<Longrightarrow>
        in_registry h k \<or> he_binding (hb_entry h k) = Record_zero"
    and "\<And>sid k. hb_sessions h sid = Some k \<Longrightarrow> k < hb_nentry h \<and> he_id (hb_entry h k) = sid \<and> he_handed (hb_entry h k)"
    and "\<And>k f. RolledBack k f \<notin># A"
    and "\<And>k. MarkClosed k \<in># A \<or> CallClose k \<in># A \<or> Began k \<in># A \<Longrightarrow> k < hb_nentry h \<and> he_handed (hb_entry h k)"
  shows "entries_ok h A"
  using assms unfolding entries_ok_def by blast

lemma entries_okD:
  assumes "entries_ok h A"
  shows "ReleaseEntry k \<in># A \<Longrightarrow> k < hb_nentry h \<and> he_handed (hb_entry h k) \<and> he_closed (hb_entry h k) \<and> count A (ReleaseEntry k) = 1"
    and "k < hb_nentry h \<Longrightarrow> he_handed (hb_entry h k) \<Longrightarrow> \<not> he_closed (hb_entry h k) \<or> ReleaseEntry k \<in># A \<Longrightarrow>
        in_registry h k \<or> he_binding (hb_entry h k) = Record_zero"
    and "hb_sessions h sid = Some k \<Longrightarrow> k < hb_nentry h \<and> he_id (hb_entry h k) = sid \<and> he_handed (hb_entry h k)"
    and "RolledBack k f \<notin># A"
    and "MarkClosed k \<in># A \<or> CallClose k \<in># A \<or> Began k \<in># A \<Longrightarrow> k < hb_nentry h \<and> he_handed (hb_entry h k)"
  using assms unfolding entries_ok_def by blast+

lemma entries_frame:
  assumes "entries_ok h A" "hb_sessions h1 = hb_sessions h" "hb_entry h1 = hb_entry h" "hb_nentry h1 = hb_nentry h" "B \<subseteq># A"
  shows "entries_ok h1 B"
proof -
  have sub: "x \<in># B \<Longrightarrow> x \<in># A" "count B x \<le> count A x" for x
    using assms(5) by (auto dest: mset_subset_eqD simp: mset_subset_eq_count)
  have "count B (ReleaseEntry k) = 1" if "ReleaseEntry k \<in># B" for k
  proof -
    have "count A (ReleaseEntry k) = 1" using assms(1) sub(1)[OF that] by (simp add: entries_ok_def)
    moreover have "0 < count B (ReleaseEntry k)" using that by simp
    ultimately show ?thesis using sub(2)[of "ReleaseEntry k"] by linarith
  qed
  then show ?thesis using assms(1-4) sub(1) unfolding entries_ok_def in_registry_def by auto blast+
qed

text \<open>Actions that say nothing of an entry may be added.\<close>

definition idle_action :: "hub_action \<Rightarrow> bool" where
  "idle_action a = (case a of ReleaseEntry k \<Rightarrow> False | RolledBack k f \<Rightarrow> False | MarkClosed k \<Rightarrow> False | CallClose k \<Rightarrow> False
     | Began k \<Rightarrow> False | _ \<Rightarrow> True)"

lemma entries_idle: "idle_action a \<Longrightarrow> entries_ok h (add_mset a A) = entries_ok h A"
  by (auto simp: entries_ok_def idle_action_def)

lemma entries_idles: "\<forall>a \<in> set as. idle_action a \<Longrightarrow> entries_ok h (mset as + A) = entries_ok h A"
  by (induction as) (simp_all add: entries_idle)

lemma entries_drop: "entries_ok h (add_mset a A) \<Longrightarrow> entries_ok h A"
  by (rule entries_frame) (auto intro: mset_subset_eqI)

lemma entries_quiet:
  assumes "entries_ok h (add_mset a A)" "hb_sessions h1 = hb_sessions h" "hb_entry h1 = hb_entry h" "hb_nentry h1 = hb_nentry h"
    "\<forall>x \<in> set as. idle_action x"
  shows "entries_ok h1 (mset as + A)"
  using entries_idles[OF assms(5)] entries_frame[OF entries_drop[OF assms(1)] assms(2-4)] by blast

lemma entries_mark:
  assumes "entries_ok h (add_mset (MarkClosed k) A)" "\<not> he_closed (hb_entry h k)"
  shows "entries_ok (h\<lparr>hb_entry := (hb_entry h)(k := (hb_entry h k)\<lparr>he_closed := True\<rparr>)\<rparr>) (add_mset (ReleaseEntry k) A)"
proof -
  have "ReleaseEntry k \<notin># A" using assms by (auto simp: entries_ok_def)
  then have "count A (ReleaseEntry k) = 0" by (simp add: not_in_iff)
  with assms show ?thesis by (auto simp: entries_ok_def in_registry_def)
qed

lemma entries_release:
  assumes "entries_ok h (add_mset (ReleaseEntry k) A)"
  shows "entries_ok (remove h (he_id (hb_entry h k)) k) A"
proof -
  let ?h = "remove h (he_id (hb_entry h k)) k"
  note e = assms[unfolded entries_ok_def]
  note old = entries_drop[OF assms, unfolded entries_ok_def]
  have c: "count (add_mset (ReleaseEntry k) A) (ReleaseEntry k) = 1" and k: "he_closed (hb_entry h k)"
    using e[THEN conjunct1, rule_format, of k] by simp_all
  from c have n: "ReleaseEntry k \<notin># A" by (simp add: not_in_iff)
  have "in_registry ?h j \<or> he_binding (hb_entry h j) = Record_zero"
    if "j < hb_nentry h" "he_handed (hb_entry h j)" "\<not> he_closed (hb_entry h j) \<or> ReleaseEntry j \<in># A" for j
  proof -
    have "j \<noteq> k" using that(3) k n by auto
    moreover have "in_registry h j \<or> he_binding (hb_entry h j) = Record_zero"
      using old[THEN conjunct2, THEN conjunct1, rule_format, of j] that by simp
    ultimately show ?thesis by (auto simp: in_registry_def remove_def)
  qed
  moreover have "hb_sessions ?h sid = Some j \<Longrightarrow> hb_sessions h sid = Some j" for sid j
    by (simp add: remove_def split: if_splits)
  ultimately show ?thesis unfolding entries_ok_def remove_simps using old by blast
qed

definition new_entry :: "hub_entry \<Rightarrow> 'b Hub \<Rightarrow> 'b Hub" where
  "new_entry entry h = h\<lparr>hb_entry := (hb_entry h)(hb_nentry h := entry), hb_nentry := Suc (hb_nentry h)\<rparr>"

lemma new_entry_simps [simp]:
  "hb_nentry (new_entry e h) = Suc (hb_nentry h)" "hb_sessions (new_entry e h) = hb_sessions h"
  "hb_entry (new_entry e h) k = (if k = hb_nentry h then e else hb_entry h k)"
  by (simp_all add: new_entry_def)

lemma entries_new:
  assumes "entries_ok h A" "he_handed entry \<longrightarrow> he_binding entry = Record_zero"
  shows "entries_ok (new_entry entry h) A"
proof (rule entries_okI)
  fix k assume "k < hb_nentry (new_entry entry h)" "he_handed (hb_entry (new_entry entry h) k)"
    "\<not> he_closed (hb_entry (new_entry entry h) k) \<or> ReleaseEntry k \<in># A"
  then show "in_registry (new_entry entry h) k \<or> he_binding (hb_entry (new_entry entry h) k) = Record_zero"
    using entries_okD(2)[OF assms(1), of k] assms(2) by (cases "k = hb_nentry h") (simp_all add: in_registry_def)
next
  fix k assume "ReleaseEntry k \<in># A"
  from entries_okD(1)[OF assms(1) this] show "k < hb_nentry (new_entry entry h) \<and> he_handed (hb_entry (new_entry entry h) k)
      \<and> he_closed (hb_entry (new_entry entry h) k) \<and> count A (ReleaseEntry k) = 1" by auto
next
  fix sid k assume "hb_sessions (new_entry entry h) sid = Some k"
  then show "k < hb_nentry (new_entry entry h) \<and> he_id (hb_entry (new_entry entry h) k) = sid \<and> he_handed (hb_entry (new_entry entry h) k)"
    using entries_okD(3)[OF assms(1), of sid k] by auto
next
  fix k assume "MarkClosed k \<in># A \<or> CallClose k \<in># A \<or> Began k \<in># A"
  from entries_okD(5)[OF assms(1) this]
  show "k < hb_nentry (new_entry entry h) \<and> he_handed (hb_entry (new_entry entry h) k)" by auto
qed (rule entries_okD(4)[OF assms(1)])

text \<open>An entry without a binding that may then enter the registry.\<close>

lemma entries_added:
  assumes "entries_ok h A" "hb_sessions h (he_id entry) = None" "he_handed entry"
  shows "entries_ok ((new_entry entry h)\<lparr>hb_sessions := (hb_sessions h)(he_id entry \<mapsto> hb_nentry h)\<rparr>) A"
    (is "entries_ok ?h A")
proof (rule entries_okI)
  fix k assume k: "k < hb_nentry ?h" "he_handed (hb_entry ?h k)" "\<not> he_closed (hb_entry ?h k) \<or> ReleaseEntry k \<in># A"
  show "in_registry ?h k \<or> he_binding (hb_entry ?h k) = Record_zero"
    using entries_okD(2)[OF assms(1), of k] assms(2) k by (cases "k = hb_nentry h") (auto simp: in_registry_def)
next
  fix k assume "ReleaseEntry k \<in># A"
  from entries_okD(1)[OF assms(1) this] show "k < hb_nentry ?h \<and> he_handed (hb_entry ?h k)
      \<and> he_closed (hb_entry ?h k) \<and> count A (ReleaseEntry k) = 1" by auto
next
  fix sid k assume "hb_sessions ?h sid = Some k"
  then show "k < hb_nentry ?h \<and> he_id (hb_entry ?h k) = sid \<and> he_handed (hb_entry ?h k)"
    using entries_okD(3)[OF assms(1), of sid k] assms(3) by (auto split: if_splits)
next
  fix k assume "MarkClosed k \<in># A \<or> CallClose k \<in># A \<or> Began k \<in># A"
  from entries_okD(5)[OF assms(1) this] show "k < hb_nentry ?h \<and> he_handed (hb_entry ?h k)" by auto
qed (rule entries_okD(4)[OF assms(1)])

lemma entries_more: "entries_ok h A \<Longrightarrow> k < hb_nentry h \<Longrightarrow> he_handed (hb_entry h k) \<Longrightarrow>
    entries_ok h (add_mset (MarkClosed k) A) \<and> entries_ok h (add_mset (CallClose k) A) \<and> entries_ok h (add_mset (Began k) A)"
  by (auto simp: entries_ok_def)

text \<open>What the section in which a session enters the registry can do.\<close>

lemma enter_cases:
  assumes "enter_turn api now name placed request state closed version native h = Some (h1, as)"
  obtains (settled) e opened where "closed \<or> st_Status state = SessionClosed" "he_id e = st_SessionID state" "he_binding e = Record_zero" "he_handed e"
      "\<not> he_closed e" "opened = openRecord h name placed version native state request"
      "h1 = recordBinding api (recordBinding api (new_entry e h) opened (if oq_Reopen request then ActionReopened else ActionOpened) (st_UpdatedAtMS state))
          opened ActionClosed now" "as = [MarkClosed (hb_nentry h), Return (Some HubSessionClosed)]"
  | (added) e opened where "hb_sessions h (st_SessionID state) = None" "he_id e = st_SessionID state" "he_binding e = opened" "he_handed e" "\<not> he_closed e"
      "opened = openRecord h name placed version native state request"
      "h1 = recordBinding api ((new_entry e h)\<lparr>hb_sessions := (hb_sessions h)(he_id e \<mapsto> hb_nentry h)\<rparr>) opened
          (if oq_Reopen request then ActionReopened else ActionOpened) (st_UpdatedAtMS state)" "as = [Began (hb_nentry h)]"
  | (refused) e opened where "\<not> he_handed e" "he_id e = st_SessionID state" "he_binding e = opened"
      "opened = openRecord h name placed version native state request" "h1 = recordBinding api (new_entry e h) opened ActionRefused now"
      "as = [Return (Some SessionExistsError)]"
proof (cases "closed \<or> st_Status state = SessionClosed")
  case True
  with assms show thesis
    by (intro settled[of "\<lparr>he_id = st_SessionID state, he_binding = Record_zero, he_closed = False, he_handed = True\<rparr>"
          "openRecord h name placed version native state request"])
      (auto simp: enter_turn_def new_entry_def Let_def)
next
  case False
  let ?e = "\<lparr>he_id = st_SessionID state, he_binding = openRecord h name placed version native state request, he_closed = False,
      he_handed = hb_sessions h (st_SessionID state) = None\<rparr>"
  show thesis
  proof (cases "hb_sessions h (st_SessionID state)")
    case None
    with False assms show thesis
      by (intro added[of ?e "openRecord h name placed version native state request"]) (auto simp: enter_turn_def new_entry_def add_def Let_def)
  next
    case (Some k)
    with False assms show thesis
      by (intro refused[of ?e "openRecord h name placed version native state request"]) (auto simp: enter_turn_def new_entry_def add_def Let_def)
  qed
qed

lemma enter_entries:
  assumes "enter_turn api now name placed request state closed version native h = Some (h1, as)" "entries_ok h A"
  shows "entries_ok h1 (mset as + A)"
  using assms(1)
proof (cases rule: enter_cases)
  case (settled e opened)
  have "entries_ok (new_entry e h) A" by (rule entries_new[OF assms(2)]) (use settled(3) in simp)
  then have "entries_ok h1 A" by (rule entries_frame) (simp_all add: settled(7))
  then have "entries_ok h1 (add_mset (MarkClosed (hb_nentry h)) A)"
    by (intro entries_more[THEN conjunct1]) (simp_all add: settled(4,7))
  then show ?thesis by (simp add: settled(8) entries_idle idle_action_def add_mset_commute[of _ "Return _"])
next
  case (added e opened)
  have "entries_ok ((new_entry e h)\<lparr>hb_sessions := (hb_sessions h)(he_id e \<mapsto> hb_nentry h)\<rparr>) A"
    by (rule entries_added[OF assms(2)]) (simp_all add: added(1,2,4))
  then have "entries_ok h1 A" by (rule entries_frame) (simp_all add: added(7))
  then have "entries_ok h1 (add_mset (Began (hb_nentry h)) A)"
    by (intro entries_more[THEN conjunct2, THEN conjunct2]) (simp_all add: added(4,7))
  then show ?thesis by (simp add: added(8))
next
  case (refused e opened)
  have "entries_ok (new_entry e h) A" by (rule entries_new[OF assms(2)]) (use refused(1) in simp)
  then have "entries_ok h1 A" by (rule entries_frame) (simp_all add: refused(5))
  then show ?thesis by (simp add: refused(6) entries_idle idle_action_def)
qed

lemma turn_entries:
  assumes T: "hub_turn api now inp a h = Some (h1, as)" and D: "tidy h a inp" and E: "entries_ok h (add_mset a A)"
  shows "entries_ok h1 (mset as + A)"
proof (cases a)
  case (Enter name placed request state closed version native)
  with T enter_entries entries_drop[OF E] show ?thesis by simp
next
  case (MarkClosed k)
  show ?thesis
  proof (cases "he_closed (hb_entry h k)")
    case True
    with T MarkClosed entries_drop[OF E] show ?thesis by (simp add: mark_turn_def)
  next
    case False
    with T MarkClosed entries_mark[of h k A] E show ?thesis by (auto simp: mark_turn_def)
  qed
next
  case (ReleaseEntry k)
  have "entries_ok h1 A"
    by (rule entries_frame[OF entries_release[of h k A]]) (use T ReleaseEntry E in \<open>auto simp: release_turn_def Let_def split: if_splits\<close>)
  with T ReleaseEntry show ?thesis by (simp add: release_turn_def Let_def)
next
  case (RolledBack k f)
  then show ?thesis using entries_okD(4)[OF E, of k f] by simp
next
  case (Began k)
  then have "entries_ok h A" "k < hb_nentry h" "he_handed (hb_entry h k)"
    using entries_drop[OF E] entries_okD(5)[OF E, of k] by simp_all
  with T Began show ?thesis using entries_more[of h A k]
    by (auto simp: began_turn_def entries_idle idle_action_def add_mset_commute[of _ "Return _"] split: if_splits)
next
  case (CallClose k)
  then have "entries_ok h A" "k < hb_nentry h" "he_handed (hb_entry h k)"
    using entries_drop[OF E] entries_okD(5)[OF E, of k] by simp_all
  with T CallClose show ?thesis using entries_more[of h A k] by (auto simp: hub_close_turn_def split: if_splits)
next
  case (Rollback k)
  with D show ?thesis by (simp add: tidy_def)
qed (rule entries_quiet[OF E]; use T in \<open>auto simp: hub_turn_defs reserve_def unreserve_def idle_action_def
    split: if_splits option.splits sum.splits prod.splits hub_input.splits\<close>)+

lemma called_entries:
  assumes "hub_called h t" "entries_ok h A"
  shows "entries_ok h (mset t + A)"
  using assms(1)
  by cases (use entries_more[OF assms(2)] in \<open>simp_all add: entries_idle idle_action_def assms(2)\<close>)

text \<open>The store that an append and a history make: a failed append leaves it as it was.\<close>

definition store_of :: "('b \<Rightarrow> Entry \<Rightarrow> 'b option) \<Rightarrow> ('b \<Rightarrow> bytes \<Rightarrow> Entry list option) \<Rightarrow> 'b store_api" where
  "store_of append_entry history =
     \<lparr>sa_Append = (\<lambda>b e. case append_entry b e of Some b1 \<Rightarrow> b1 | None \<Rightarrow> b), sa_History = history\<rparr>"

text \<open>The store matches the registry, but for one session.\<close>

definition bound_ids :: "'b Hub \<Rightarrow> bool" where
  "bound_ids h \<longleftrightarrow> (\<forall>k < hb_nentry h. r_SessionID (he_binding (hb_entry h k)) \<in> {[], he_id (hb_entry h k)})"

definition store_but :: "('b \<Rightarrow> Entry list) \<Rightarrow> ('b \<Rightarrow> bool) \<Rightarrow> Entry list \<Rightarrow> bytes \<Rightarrow> 'b Hub \<Rightarrow> bool" where
  "store_but log invar log0 x h \<longleftrightarrow> bound_ids h \<and> (\<exists>b. hb_bindings h = Some b \<and> invar b \<and>
     (\<forall>sid. sid \<noteq> [] \<longrightarrow> sid \<noteq> x \<longrightarrow> log_matches (session_history log0 sid) (session_history (log b) sid) h sid))"

lemma bound_ids_record [simp]: "bound_ids (recordBinding api h r a n) = bound_ids h"
  by (simp add: bound_ids_def)

lemma log_matches_mono:
  assumes "log_matches hist0 hist h sid" "hb_sessions h1 sid = hb_sessions h sid" "hb_stopping h \<Longrightarrow> hb_stopping h1"
    "\<And>k. hb_sessions h sid = Some k \<Longrightarrow> he_binding (hb_entry h1 k) = he_binding (hb_entry h k)"
  shows "log_matches hist0 hist h1 sid"
  using assms by (cases "hb_sessions h sid") (auto simp: log_matches_def)

lemma store_but_mono:
  assumes S: "store_but log invar log0 x h" and B: "hb_bindings h1 = hb_bindings h" and I: "bound_ids h1" and X: "x \<in> {[], y}"
    and M: "\<And>sid. sid \<noteq> y \<Longrightarrow> hb_sessions h1 sid = hb_sessions h sid \<and>
      (\<forall>k. hb_sessions h sid = Some k \<longrightarrow> he_binding (hb_entry h1 k) = he_binding (hb_entry h k))"
    and T: "hb_stopping h \<Longrightarrow> hb_stopping h1"
  shows "store_but log invar log0 y h1"
proof -
  from S obtain b where b: "hb_bindings h = Some b" "invar b"
    "\<And>sid. sid \<noteq> [] \<Longrightarrow> sid \<noteq> x \<Longrightarrow> log_matches (session_history log0 sid) (session_history (log b) sid) h sid"
    by (auto simp: store_but_def)
  have "log_matches (session_history log0 sid) (session_history (log b) sid) h1 sid" if "sid \<noteq> []" "sid \<noteq> y" for sid
    using b(3)[of sid] that X M[of sid] T by (auto intro: log_matches_mono)
  with b(1,2) B I show ?thesis by (auto simp: store_but_def)
qed

lemma log_matches_bindings [simp]: "log_matches hist0 hist (h\<lparr>hb_bindings := b\<rparr>) sid = log_matches hist0 hist h sid"
  by (auto intro: log_matches_mono elim: log_matches_mono)

lemma store_but_more: "store_but log invar log0 [] h \<Longrightarrow> store_but log invar log0 x h"
  by (auto simp: store_but_def)

lemma store_but_frame:
  assumes "store_but log invar log0 x h" "hb_sessions h1 = hb_sessions h" "hb_entry h1 = hb_entry h" "hb_nentry h1 = hb_nentry h"
    "hb_bindings h1 = hb_bindings h" "hb_stopping h \<Longrightarrow> hb_stopping h1"
  shows "store_but log invar log0 x h1"
  by (rule store_but_mono[OF assms(1,5)]) (use assms in \<open>simp_all add: store_but_def bound_ids_def\<close>)

lemma store_but_mark:
  assumes "store_but log invar log0 x h"
  shows "store_but log invar log0 x (h\<lparr>hb_entry := (hb_entry h)(k := (hb_entry h k)\<lparr>he_closed := c\<rparr>)\<rparr>)"
  by (rule store_but_mono[OF assms]) (use assms in \<open>simp_all add: store_but_def bound_ids_def\<close>)

lemma store_but_new:
  assumes "store_but log invar log0 x h" "entries_ok h A" "r_SessionID (he_binding e) \<in> {[], he_id e}"
  shows "store_but log invar log0 x (new_entry e h)"
proof (rule store_but_mono[OF assms(1)])
  show "bound_ids (new_entry e h)" using assms(1,3) by (simp add: store_but_def bound_ids_def less_Suc_eq)
  fix sid show "hb_sessions (new_entry e h) sid = hb_sessions h sid \<and>
      (\<forall>k. hb_sessions h sid = Some k \<longrightarrow> he_binding (hb_entry (new_entry e h) k) = he_binding (hb_entry h k))"
    using entries_okD(3)[OF assms(2), of sid] by auto
qed (simp_all add: new_entry_def)

lemma store_but_add:
  assumes "store_but log invar log0 [] h"
  shows "store_but log invar log0 sid (h\<lparr>hb_sessions := (hb_sessions h)(sid := v)\<rparr>)"
  by (rule store_but_mono[OF assms]) (use assms in \<open>simp_all add: store_but_def bound_ids_def\<close>)

lemma store_but_remove:
  assumes "store_but log invar log0 [] h"
  shows "store_but log invar log0 sid (remove h sid k)"
  using store_but_add[OF assms] store_but_more[OF assms] by (simp add: remove_def)

lemma store_but_stopping:
  assumes "store_but log invar log0 x h" "hb_sessions h x = None" "hb_stopping h"
  shows "store_but log invar log0 [] h"
proof -
  have "log_matches hist0 hist h x" for hist0 hist using assms(2,3) by (simp add: log_matches_def)
  with assms(1) show ?thesis unfolding store_but_def by metis
qed

lemma registry_binding_id:
  assumes S: "store_but log invar log0 [] h" and R: "in_registry h k" and K: "k < hb_nentry h"
  shows "r_SessionID (he_binding (hb_entry h k)) = he_id (hb_entry h k)"
proof (cases "he_id (hb_entry h k) = []")
  case True
  then show ?thesis using S K by (auto simp: store_but_def bound_ids_def)
next
  case False
  then obtain b e where "State (session_history (log b) (he_id (hb_entry h k))) = Some e" "e_Record e = he_binding (hb_entry h k)"
    using S R by (auto simp: store_but_def log_matches_def in_registry_def dest!: spec[of _ "he_id (hb_entry h k)"])
  then show ?thesis using State_session by metis
qed

lemma openRecord_session: "hb_bindings h \<noteq> None \<Longrightarrow> r_SessionID (openRecord h name d v native state request) = st_SessionID state"
  by (auto simp: openRecord_def Let_def FromOpen_def split: option.split)

lemma Record_zero_session [simp]: "r_SessionID Record_zero = []"
  by (simp add: Record_zero_def FromOpen_def)

context binding_store
begin

lemma record_grows:
  assumes "hb_bindings h = Some b" "invar b" "\<And>e. good e" "r_SessionID r \<noteq> []"
  obtains b1 where "recordBinding (store_of append_entry history) h r a n = h\<lparr>hb_bindings := Some b1\<rparr>"
    "invar b1" "log b1 = log b @ [\<lparr>e_Action = a, e_TimeMS = n, e_Record = r\<rparr>]"
  using append_log[OF assms(2,3), of "\<lparr>e_Action = a, e_TimeMS = n, e_Record = r\<rparr>"] assms(1,4)
  by (auto simp: recordBinding_def store_of_def)

lemma record_store:
  assumes S: "store_but log invar log0 x h" and G: "\<And>e. good e"
    and M: "\<And>hist hist0. r_SessionID r \<noteq> y \<Longrightarrow> (r_SessionID r \<noteq> x \<Longrightarrow> log_matches hist0 hist h (r_SessionID r)) \<Longrightarrow>
      log_matches hist0 (hist @ [\<lparr>e_Action = a, e_TimeMS = n, e_Record = r\<rparr>]) h (r_SessionID r)"
    and X: "x \<in> {y, r_SessionID r}"
  shows "store_but log invar log0 y (recordBinding (store_of append_entry history) h r a n)"
proof (cases "r_SessionID r = []")
  case True
  then have "recordBinding (store_of append_entry history) h r a n = h" by (simp add: recordBinding_def split: option.split)
  moreover have "store_but log invar log0 y h" using S X True by (auto simp: store_but_def)
  ultimately show ?thesis by simp
next
  case False
  from S obtain b where b: "hb_bindings h = Some b" "invar b" "bound_ids h"
    "\<And>sid. sid \<noteq> [] \<Longrightarrow> sid \<noteq> x \<Longrightarrow> log_matches (session_history log0 sid) (session_history (log b) sid) h sid"
    by (auto simp: store_but_def)
  from record_grows[OF b(1,2) G False] obtain b1 where b1: "recordBinding (store_of append_entry history) h r a n = h\<lparr>hb_bindings := Some b1\<rparr>"
    "invar b1" "log b1 = log b @ [\<lparr>e_Action = a, e_TimeMS = n, e_Record = r\<rparr>]" by blast
  have "log_matches (session_history log0 sid) (session_history (log b1) sid) h sid" if "sid \<noteq> []" "sid \<noteq> y" for sid
    using M[of "session_history log0 sid" "session_history (log b) sid"] b(4)[of sid] that X
    by (cases "sid = r_SessionID r") (auto simp: b1(3) session_history_snoc)
  then show ?thesis using b b1 by (auto simp: store_but_def bound_ids_def)
qed

text \<open>A refusal leaves the state of every session as it was; an end of a session that is not in
  the registry and a beginning of one that just entered it restore the match.\<close>

lemma record_refused:
  assumes "store_but log invar log0 x h" "\<And>e. good e"
  shows "store_but log invar log0 x (recordBinding (store_of append_entry history) h r ActionRefused n)"
  by (rule record_store[OF assms]) (auto simp: log_matches_def State_snoc split: option.splits)

lemma record_any:
  assumes "store_but log invar log0 x h" "\<And>e. good e" "r_SessionID r = x"
  shows "store_but log invar log0 x (recordBinding (store_of append_entry history) h r a n)"
  by (rule record_store[OF assms(1,2)]) (use assms(3) in auto)

lemma record_closed:
  assumes "store_but log invar log0 x h" "\<And>e. good e" "r_SessionID r = x" "hb_sessions h x = None"
  shows "store_but log invar log0 [] (recordBinding (store_of append_entry history) h r ActionClosed n)"
  by (rule record_store[OF assms(1,2)])
    (use assms(3,4) in \<open>auto simp: log_matches_def State_snoc Live_def ActionClosed_def ActionOpened_def ActionReopened_def ActionRefused_def\<close>)

lemma record_began:
  assumes "store_but log invar log0 x h" "\<And>e. good e" "r_SessionID r = x" "hb_sessions h x = Some k" "he_binding (hb_entry h k) = r"
    "a = ActionOpened \<or> a = ActionReopened"
  shows "store_but log invar log0 [] (recordBinding (store_of append_entry history) h r a n)"
  by (rule record_store[OF assms(1,2)])
    (use assms(3-) in \<open>auto simp: log_matches_def State_snoc Live_def ActionOpened_def ActionReopened_def ActionRefused_def\<close>)

lemma enter_store:
  assumes T: "enter_turn (store_of append_entry history) now name placed request state closed version native h = Some (h1, as)"
    and S: "store_but log invar log0 [] h" and E: "entries_ok h A" and G: "\<And>e. good e"
    and D: "closed \<or> st_Status state = SessionClosed \<Longrightarrow> hb_sessions h (st_SessionID state) = None"
  shows "store_but log invar log0 [] h1"
  using T
proof (cases rule: enter_cases)
  case (settled e opened)
  have o: "r_SessionID opened = st_SessionID state" using S settled(6) by (auto simp: store_but_def intro: openRecord_session)
  have "store_but log invar log0 (st_SessionID state) (new_entry e h)"
    by (rule store_but_more[OF store_but_new[OF S E]]) (simp add: settled(3))
  from record_any[OF this G o] show ?thesis unfolding settled(7)
    by (rule record_closed[OF _ G o]) (simp add: D[OF settled(1)])
next
  case (added e opened)
  have o: "r_SessionID opened = st_SessionID state" using S added(6) by (auto simp: store_but_def intro: openRecord_session)
  have "store_but log invar log0 [] (new_entry e h)" by (rule store_but_new[OF S E]) (simp add: added(2,3) o)
  from store_but_add[OF this, of "st_SessionID state" "Some (hb_nentry h)"]
  show ?thesis unfolding added(7) added(2) new_entry_simps by (rule record_began[OF _ G o, where k = "hb_nentry h"]) (simp_all add: added(3))
next
  case (refused e opened)
  have o: "r_SessionID opened = st_SessionID state" using S refused(4) by (auto simp: store_but_def intro: openRecord_session)
  show ?thesis unfolding refused(5) by (rule record_refused[OF store_but_new[OF S E] G]) (simp add: refused(2,3) o)
qed

lemma release_store:
  assumes S: "store_but log invar log0 [] h" and E: "entries_ok h (add_mset (ReleaseEntry k) A)" and G: "\<And>e. good e"
    and T: "release_turn (store_of append_entry history) now k h = Some (h1, as)"
  shows "store_but log invar log0 [] h1"
proof -
  let ?sid = "he_id (hb_entry h k)" and ?r = "he_binding (hb_entry h k)"
  have k: "k < hb_nentry h" "in_registry h k \<or> ?r = Record_zero"
    using entries_okD(1,2)[OF E, of k] by simp_all
  show ?thesis
  proof (cases "in_registry h k")
    case False
    then have "remove h ?sid k = h" "?r = Record_zero" using k(2) by (simp_all add: in_registry_def remove_def)
    then have "h1 = h" using T by (auto simp: release_turn_def Let_def recordBinding_def split: option.splits if_splits)
    with S show ?thesis by simp
  next
    case True
    note id = registry_binding_id[OF S True k(1)]
    have gone: "hb_sessions (remove h ?sid k) ?sid = None" using True by (simp add: remove_def in_registry_def)
    have "hb_stopping h \<Longrightarrow> store_but log invar log0 [] (remove h ?sid k)"
      by (rule store_but_stopping[OF store_but_remove[OF S, of ?sid k] gone]) simp
    moreover have "store_but log invar log0 [] (recordBinding (store_of append_entry history) (remove h ?sid k) ?r ActionClosed now)"
      by (rule record_closed[OF store_but_remove[OF S, of ?sid k] G id gone])
    ultimately show ?thesis using T by (auto simp: release_turn_def Let_def split: if_splits)
  qed
qed

lemma turn_store:
  assumes T: "hub_turn (store_of append_entry history) now inp a h = Some (h1, as)" and D: "tidy h a inp"
    and S: "store_but log invar log0 [] h" and E: "entries_ok h (add_mset a A)" and G: "\<And>e. good e"
  shows "store_but log invar log0 [] h1"
proof (cases a)
  case (Enter name placed request state closed version native)
  show ?thesis
    by (rule enter_store[OF _ S entries_drop[OF E] G, of now name placed request state closed version native h1 as])
      (use T D Enter in \<open>auto simp: tidy_def\<close>)
next
  case (MarkClosed k)
  with T S store_but_mark[OF S, of k True] show ?thesis by (auto simp: mark_turn_def split: if_splits)
next
  case (ReleaseEntry k)
  with T release_store[OF S _ G] E show ?thesis by auto
next
  case (RolledBack k f)
  then show ?thesis using entries_okD(4)[OF E, of k f] by simp
next
  case (Reserve name directory request)
  show ?thesis
  proof (cases "oq_SessionID request \<noteq> [] \<and> reserve h (oq_SessionID request) = None")
    case True
    with T Reserve have "h1 = recordBinding (store_of append_entry history) h
        (FromOpen (oq_SessionID request) name [] [] (hb_home h) [] []) ActionRefused now"
      by (auto simp: reserve_turn_def Let_def)
    then show ?thesis using record_refused[OF S G] by simp
  next
    case False
    show ?thesis
      by (rule store_but_frame[OF S]) (use T Reserve False in \<open>auto simp: reserve_turn_def Let_def reserve_def split: if_splits option.splits\<close>)
  qed
qed (rule store_but_frame[OF S]; use T in \<open>auto simp: open_turn_def check_turn_def place_turn_def call_open_turn_def began_turn_def
    hub_close_turn_def rollback_turn_def unreserve_def Let_def split: if_splits option.splits sum.splits prod.splits hub_input.splits\<close>)+

text \<open>In every state that is reached, the entries are in order and the store matches the registry.\<close>

theorem hub_store:
  assumes "hub_serving (store_of append_entry history) tidy b0 (h, M)" "invar b0" "\<And>e. good e"
  shows "entries_ok h (acts M) \<and> store_but log invar (log b0) [] h"
  using assms(1)
proof (induction "(h, M)" arbitrary: h M rule: hub_serving.induct)
  case (hub_starts reg home)
  show ?case using assms(2)
    by (simp add: newHub_def entries_ok_def store_but_def bound_ids_def log_matches_def)
next
  case (hub_steps c)
  obtain h0 M0 where c: "c = (h0, M0)" by (cases c)
  note IH = hub_steps(2)[OF c]
  from hub_steps(3)[unfolded c] show ?case
  proof cases
    case (hub_takes now inp a as rest M1)
    have E: "entries_ok h0 (add_mset a (mset rest + acts M1))" using IH hub_takes by (simp add: ac_simps)
    show ?thesis
      using turn_entries[OF hub_takes(3,4) E] turn_store[OF hub_takes(3,4) _ E assms(3)] IH hub_takes(2) by (simp add: ac_simps)
  next
    case (hub_calls t)
    with IH called_entries[of h0 t "acts M0"] show ?thesis by simp
  next
    case (hub_directory name directory)
    have "entries_ok h (acts M0)" by (rule entries_frame[OF IH[THEN conjunct1]]) (simp_all add: hub_directory)
    moreover have "store_but log invar (log b0) [] h" by (rule store_but_frame[OF IH[THEN conjunct2]]) (simp_all add: hub_directory)
    ultimately show ?thesis by (simp add: hub_directory)
  qed
qed

end

end
