(* ===== verification/Serve_Bindings.thy ===== *)
theory Serve_Bindings
  imports Serve_Hub Binding_Page
begin

text \<open>
  The hub and its binding store: the traces that witness the properties, and the properties.
\<close>

section \<open>The listing of sessions\<close>

datatype SessionListState = SessionListLive | SessionListClosed

record SessionListEntry =
  sl_SessionID :: bytes
  sl_Adapter :: bytes
  sl_HarnessVersion :: bytes
  sl_State :: SessionListState
  sl_UpdatedAtMS :: int
  sl_Model :: bytes
  sl_Directory :: bytes

record SessionListResponse =
  sr_Sessions :: "SessionListEntry list"
  sr_NextCursor :: bytes

datatype history_error = ErrNoSessionHistory | ErrSessions | ErrPage page_error

definition list_entry :: "Entry \<Rightarrow> SessionListEntry" where
  "list_entry e = \<lparr>sl_SessionID = entry_session e, sl_Adapter = r_Adapter (e_Record e), sl_HarnessVersion = r_HarnessVersion (e_Record e),
     sl_State = (if Live e then SessionListLive else SessionListClosed), sl_UpdatedAtMS = e_TimeMS e, sl_Model = r_Model (e_Record e),
     sl_Directory = r_Directory (e_Record e)\<rparr>"

text \<open>\<open>sessions\<close>: the store's listing, which may fail.\<close>

definition SessionHistory :: "('b \<Rightarrow> Entry list option) \<Rightarrow> 'b Hub \<Rightarrow> bytes \<Rightarrow> int \<Rightarrow> history_error + SessionListResponse" where
  "SessionHistory sessions h cursor limit =
     (case hb_bindings h of
        None \<Rightarrow> Inl ErrNoSessionHistory
      | Some b \<Rightarrow>
          (case sessions b of
             None \<Rightarrow> Inl ErrSessions
           | Some ss \<Rightarrow>
               (case List_page ss cursor limit of
                  Inl err \<Rightarrow> Inl (ErrPage err)
                | Inr page \<Rightarrow> Inr \<lparr>sr_Sessions = map list_entry (pg_Entries page), sr_NextCursor = pg_NextCursor page\<rparr>)))"

lemma List_page_entries:
  assumes "List_page ss cursor limit = Inr page" "e \<in> set (pg_Entries page)"
  shows "e \<in> set ss"
  using assms by (auto simp: List_page_def Let_def split: if_splits sum.splits dest!: in_set_dropD in_set_takeD)

section \<open>Traces\<close>

text \<open>A trace says which goroutine takes its next action, when and with which answer of the
  adapter, and which calls come in; \<open>hub_play\<close> runs it.\<close>

datatype hub_event = HubTake nat int hub_input | HubCall "hub_action list"

definition callable :: "'b Hub \<Rightarrow> hub_action list \<Rightarrow> bool" where
  "callable h t =
     (case t of
        [OpenIn name directory request] \<Rightarrow> True
      | [MarkClosed k] \<Rightarrow> k < hb_nentry h \<and> he_handed (hb_entry h k)
      | [CallClose k] \<Rightarrow> k < hb_nentry h \<and> he_handed (hb_entry h k)
      | [Rollback k] \<Rightarrow> k < hb_nentry h \<and> he_handed (hb_entry h k)
      | [CloseSessions] \<Rightarrow> True
      | _ \<Rightarrow> False)"

definition hub_play1 :: "'b store_api \<Rightarrow> ('b Hub \<Rightarrow> hub_action \<Rightarrow> hub_input \<Rightarrow> bool) \<Rightarrow> hub_event \<Rightarrow>
    'b Hub \<times> hub_action list list \<Rightarrow> ('b Hub \<times> hub_action list list) option" where
  "hub_play1 api adm ev c =
     (case ev of
        HubCall t \<Rightarrow> if callable (fst c) t then Some (fst c, snd c @ [t]) else None
      | HubTake i now inp \<Rightarrow>
          if length (snd c) \<le> i then None
          else case snd c ! i of
            [] \<Rightarrow> None
          | a # rest \<Rightarrow>
              if \<not> adm (fst c) a inp then None
              else (case hub_turn api now inp a (fst c) of
                      None \<Rightarrow> None
                    | Some (h1, as) \<Rightarrow> Some (h1, (snd c)[i := as @ rest])))"

fun hub_play :: "'b store_api \<Rightarrow> ('b Hub \<Rightarrow> hub_action \<Rightarrow> hub_input \<Rightarrow> bool) \<Rightarrow> hub_event list \<Rightarrow>
    'b Hub \<times> hub_action list list \<Rightarrow> ('b Hub \<times> hub_action list list) option" where
  "hub_play api adm [] c = Some c"
| "hub_play api adm (ev # evs) c = (case hub_play1 api adm ev c of None \<Rightarrow> None | Some c1 \<Rightarrow> hub_play api adm evs c1)"

lemma callable_called: "callable h t \<Longrightarrow> hub_called h t"
  by (auto simp: callable_def intro: hub_called.intros split: list.splits hub_action.splits)

lemma hub_play1_step:
  assumes "hub_play1 api adm ev (h, ts) = Some (h1, ts1)"
  shows "hub_step api adm (h, mset ts) (h1, mset ts1)"
proof (cases ev)
  case (HubCall t)
  with assms have "callable h t" "h1 = h" "ts1 = ts @ [t]" by (auto simp: hub_play1_def split: if_splits)
  then show ?thesis using hub_calls[OF callable_called] by simp
next
  case (HubTake i now inp)
  with assms obtain a rest as where i: "i < length ts" "ts ! i = a # rest" "adm h a inp" "hub_turn api now inp a h = Some (h1, as)"
    "ts1 = ts[i := as @ rest]" by (auto simp: hub_play1_def split: if_splits list.splits option.splits)
  have "mset ts = add_mset (a # rest) (mset ts - {#a # rest#})" using i(1,2) by (metis insert_DiffM nth_mem_mset)
  moreover have "mset ts1 = add_mset (as @ rest) (mset ts - {#a # rest#})" using i by (simp add: mset_update)
  ultimately show ?thesis using hub_takes[of api now inp a h h1 as adm rest, OF i(4,3)] by metis
qed

lemma hub_play_serving:
  assumes "hub_play api adm evs (h, ts) = Some (h1, ts1)" "hub_serving api adm b (h, mset ts)"
  shows "hub_serving api adm b (h1, mset ts1)"
  using assms
proof (induction evs arbitrary: h ts)
  case (Cons ev evs)
  from Cons.prems(1) obtain h2 ts2 where "hub_play1 api adm ev (h, ts) = Some (h2, ts2)" "hub_play api adm evs (h2, ts2) = Some (h1, ts1)"
    by (auto split: option.splits)
  then show ?case using Cons.IH hub_steps[OF Cons.prems(2) hub_play1_step] by blast
qed simp

text \<open>The hub over the store in memory; an adapter \<^verbatim>\<open>a\<close> that answers every opening with a live
  session \<^verbatim>\<open>s\<close>.\<close>

definition mem_api :: "memoryStore store_api" where
  "mem_api = store_of mem_Append mem_History"

definition demo_hub :: "memoryStore Hub" where
  "demo_hub = newHub \<lparr>rg_adapters = [''a''], rg_directories = Map.empty, rg_templates = [], rg_placed = [], rg_toolSources = Map.empty\<rparr>
     (Some \<lparr>ms_entries = []\<rparr>) ''home''"

definition demo_request :: OpenRequest where
  "demo_request = \<lparr>oq_SessionID = ''s'', oq_Participant = [], oq_ToolSources = [], oq_Tools = [], oq_AllowDegradedFeatures = [], oq_Reopen = False, oq_NativeSessionID = [],
     oq_ReasoningLevel = [], oq_CompactionPolicy = None, oq_Adopted = False\<rparr>"

definition demo_state :: OpenState where
  "demo_state = \<lparr>st_SessionID = ''s'', st_Status = SessionIdle, st_ActiveRunID = [], st_ActiveRuns = [], st_UpdatedAtMS = 5,
     st_CurrentModelID = ''m''\<rparr>"

text \<open>Goroutine \<open>i\<close> opens \<^verbatim>\<open>s\<close>, up to its entry into the registry.\<close>

definition demo_open :: "nat \<Rightarrow> hub_event list" where
  "demo_open i = [HubCall [OpenIn ''a'' [] demo_request], HubTake i 1 Succeeds, HubTake i 1 Succeeds, HubTake i 1 Succeeds,
     HubTake i 1 Succeeds, HubTake i 1 (OpenedAs demo_state False ''v'' None), HubTake i 1 Succeeds]"

definition demo_finish :: "nat \<Rightarrow> hub_event list" where
  "demo_finish i = [HubTake i 1 Succeeds, HubTake i 1 Succeeds, HubTake i 1 Succeeds]"

text \<open>The session is opened, its rollback fails to close it, it is opened again, and only then
  the first entry is marked closed.\<close>

definition demo_stale :: "hub_event list" where
  "demo_stale = demo_open 0 @ demo_finish 0 @ [HubCall [Rollback 0], HubTake 1 2 Refuses, HubTake 1 3 Succeeds] @ demo_open 2 @
     demo_finish 2 @ [HubCall [MarkClosed 0], HubTake 3 4 Succeeds, HubTake 3 6 Succeeds]"

text \<open>What the store says of a session.\<close>

definition stored_state :: "memoryStore Hub \<Rightarrow> bytes \<Rightarrow> Entry option" where
  "stored_state h sid = (case hb_bindings h of None \<Rightarrow> None | Some b \<Rightarrow> State (session_history (ms_entries b) sid))"

lemma demo_served:
  assumes "hub_play api adm evs (demo_hub, []) = Some (h, ts)"
  shows "hub_serving api adm \<lparr>ms_entries = []\<rparr> (h, mset ts)"
  using hub_play_serving[OF assms] hub_starts[of api adm] by (simp add: demo_hub_def)

text \<open>An adapter that only ever fails to close a session that is rolled back.\<close>

definition rollback_fails :: "'b Hub \<Rightarrow> hub_action \<Rightarrow> hub_input \<Rightarrow> bool" where
  "rollback_fails h a inp = (case a of Rollback k \<Rightarrow> inp = Refuses | _ \<Rightarrow> True)"

section \<open>Properties\<close>

text \<open>C8. The reservations of session ids, in every interleaving of openings, closings,
  rollbacks and the shutdown, whatever the adapters answer and the store does: an id is
  reserved just when one goroutine still has to give it back, and never by two; when no
  goroutine is left, no id is.\<close>

theorem reservations_held:
  assumes "hub_serving api adm b (h, M)"
  shows "distinct (hb_opening h) \<and> (\<forall>sid. count (acts M) (Unreserve sid) = (if sid \<in> set (hb_opening h) then 1 else 0)) \<and>
    (M = {#} \<longrightarrow> hb_opening h = [])"
proof -
  have inv: "distinct (hb_opening h)" "count (acts M) (Unreserve sid) = (if sid \<in> set (hb_opening h) then 1 else 0)" for sid
    using hub_reservations[OF assms] by (simp_all add: reservations_inv_def)
  have "hb_opening h = []" if "M = {#}"
  proof (rule ccontr)
    assume "hb_opening h \<noteq> []"
    then show False using inv(2)[of "hd (hb_opening h)"] that by simp
  qed
  with inv show ?thesis by blast
qed

theorem reservations_held_witness:
  "\<exists>h M. hub_serving mem_api tidy \<lparr>ms_entries = []\<rparr> (h, M) \<and> hb_opening h = [''s''] \<and> count (acts M) (Unreserve ''s'') = 1"
proof -
  have "case hub_play mem_api tidy (demo_open 0) (demo_hub, []) of None \<Rightarrow> False | Some (h, ts) \<Rightarrow> hb_opening h = [''s'']" by code_simp
  then obtain h ts where p: "hub_play mem_api tidy (demo_open 0) (demo_hub, []) = Some (h, ts)" "hb_opening h = [''s'']"
    by (auto split: option.splits)
  have "count (acts (mset ts)) (Unreserve ''s'') = 1" using reservations_held[OF demo_served[OF p(1)]] p(2) by simp
  with demo_served[OF p(1)] p(2) show ?thesis by blast
qed

lemma registry_agrees:
  assumes "hub_serving mem_api tidy b0 (h, M)" "sid \<noteq> []"
  shows "case hb_sessions h sid of
      Some k \<Rightarrow> k < hb_nentry h \<and> he_id (hb_entry h k) = sid \<and>
        (\<exists>e. stored_state h sid = Some e \<and> Live e \<and> e_Record e = he_binding (hb_entry h k))
    | None \<Rightarrow> \<forall>e. stored_state h sid = Some e \<longrightarrow> Live e \<longrightarrow> hb_stopping h \<or> State (session_history (ms_entries b0) sid) = Some e"
proof -
  have inv: "entries_ok h (acts M)" "store_but ms_entries (\<lambda>_. True) (ms_entries b0) [] h"
    using mem.hub_store[OF assms(1)[unfolded mem_api_def]] by simp_all
  from inv(2) assms(2) obtain b where b: "hb_bindings h = Some b"
    "log_matches (session_history (ms_entries b0) sid) (session_history (ms_entries b) sid) h sid" by (auto simp: store_but_def)
  show ?thesis
    using b(2) entries_okD(3)[OF inv(1), of sid] by (cases "hb_sessions h sid") (simp_all add: log_matches_def stored_state_def b(1))
qed



text \<open>What a client is told: as long as the hub is not stopping, and on the same conditions,
  the listing of a hub that started with an empty store shows a session as live exactly if
  it is in the registry, and as closed exactly if it is not.\<close>

lemma listing_shows_registry:
  assumes "hub_serving mem_api tidy \<lparr>ms_entries = []\<rparr> (h, M)" "\<not> hb_stopping h"
    and "SessionHistory mem_Sessions h cursor limit = Inr page" "entry \<in> set (sr_Sessions page)" "sl_SessionID entry \<noteq> []"
  shows "sl_State entry = (if hb_sessions h (sl_SessionID entry) = None then SessionListClosed else SessionListLive)"
proof -
  from assms(3,4) obtain b pg e where b: "hb_bindings h = Some b" "List_page (Sessions (ms_entries b)) cursor limit = Inr pg"
    "e \<in> set (pg_Entries pg)" "entry = list_entry e"
    by (auto simp: SessionHistory_def mem_Sessions_def split: option.splits sum.splits)
  then have "stored_state h (entry_session e) = Some e"
    using List_page_entries[OF b(2)] by (auto simp: stored_state_def Sessions_set)
  then show ?thesis
    using registry_agrees[OF assms(1), of "entry_session e"] assms(2,5) b(4)
    by (auto simp: list_entry_def session_history_def State_def split: option.splits)
qed

text \<open>The same of the store in a file, as long as it is readable and its codec is exact.\<close>

lemma registry_matches_file:
  assumes "hub_serving (store_of (fs_append_fine m u) (\<lambda>s sid. sum_value (fs_History io_fine u s sid))) tidy b0 (h, M)"
    "fs_ok u b0" "\<And>e. codec_ok m u e" "sid \<noteq> []"
  obtains b where "hb_bindings h = Some b" "fs_ok u b"
    "log_matches (session_history (fs_log u b0) sid) (session_history (fs_log u b) sid) h sid"
  using fs.hub_store[OF assms(1-3)] assms(4) by (auto simp: store_but_def)

text \<open>C37. Without the first condition they need not agree.  A rollback whose close fails ends
  the binding and drops the entry, but the session behind the entry is still there; when it
  is marked closed later, after the id was opened again, the entry's release records the end
  of the session that is live now.\<close>

theorem rollback_ends_live_binding:
  "\<exists>h M k e. hub_serving mem_api rollback_fails \<lparr>ms_entries = []\<rparr> (h, M) \<and> hb_sessions h ''s'' = Some k \<and>
     \<not> he_closed (hb_entry h k) \<and> \<not> hb_stopping h \<and> stored_state h ''s'' = Some e \<and> e_Action e = ActionClosed"
proof -
  have "case hub_play mem_api rollback_fails demo_stale (demo_hub, []) of None \<Rightarrow> False
   | Some (h, ts) \<Rightarrow> hb_sessions h ''s'' = Some 1 \<and> \<not> he_closed (hb_entry h 1) \<and> \<not> hb_stopping h \<and>
       (case stored_state h ''s'' of None \<Rightarrow> False | Some e \<Rightarrow> e_Action e = ActionClosed)" by code_simp
  then obtain h ts e where p: "hub_play mem_api rollback_fails demo_stale (demo_hub, []) = Some (h, ts)" "hb_sessions h ''s'' = Some 1"
    "\<not> he_closed (hb_entry h 1)" "\<not> hb_stopping h" "stored_state h ''s'' = Some e" "e_Action e = ActionClosed"
    by (auto split: option.splits)
  show ?thesis using demo_served[OF p(1)] p(2-) by blast
qed

end
