(* ===== verification/Memory_Session.thy ===== *)
theory Memory_Session
  imports Adapter_Types Serve_Work Go_Codec
begin

text \<open>
  The reference adapter of \<^verbatim>\<open>go/adapter/memory.go\<close>: a session that plays a fixed script in
  every run (a tool call behind a permission or a call to a tool of the client, an input
  question, a final answer), with one run started and one reserved, steering, compaction,
  cancellation and a bounded journal.

  Every operation that drives a run holds \<^verbatim>\<open>opMu\<close> from its start to its end, so at most one is
  under way, and it is a function of the session here.  Requests that take only \<^verbatim>\<open>mu\<close> (to resume a
  stream, to switch the model, to change the settings), the other sessions of the adapter,
  which draw from the same ids, and the clock may intervene wherever the operation takes
  \<^verbatim>\<open>mu\<close>: \<open>ms_others\<close> schedules what they do there, and \<open>others\<close> lets it happen.  An event is
  sent to the subscribers of its run and journalled in one step: the sends are made under
  \<^verbatim>\<open>emitMu\<close>, and nobody else writes to a stream that is subscribed.  A send waits for its
  reader, so a stream is the list of what was sent to it; \<open>ms_panicked\<close> records a send on a closed
  channel or a second close.

  A pointer to a run is its id.  The subscribers of a run are kept beside the runs.  The session
  and run ids that every payload repeats are those of its event.  Sequence numbers are \<^typ>\<open>nat\<close>:
  a run would have to publish \<open>2 ^ 64\<close> events for its counter to wrap around.  JSON is outside: \<open>ms_encodes\<close>
  says of a payload whether \<^verbatim>\<open>json.Marshal\<close> encodes it.  \<open>ms_log\<close> is history: every event that was
  published.
\<close>

section \<open>Data\<close>

datatype RunStatus = RunQueued | RunRunning | RunWaitingForInput | RunCancelling | RunCompleted | RunFailed | RunCancelled

datatype scriptStage = stagePermission | stageCall | stageInput | stageTerminal

datatype call_kind = CallRequested | CallStarted | CallCompleted | CallFailed | CallCancelled

datatype CompactionReason = CompactionRequested | CompactionOverflow | CompactionThreshold

record ActionCallPayload =
  ac_InteractionID :: bytes
  ac_RequestID :: bytes
  ac_ToolCallID :: bytes
  ac_Name :: bytes
  ac_ArgumentsJSON :: bytes
  ac_Result :: bytes
  ac_Error :: "bytes option"
  ac_RequestedBy :: bytes
  ac_RespondedBy :: bytes
  ac_ExecutionOwner :: bytes
  ac_Source :: bytes

datatype payload =
    PRunStarted bytes int
  | PCompactionStarted bytes CompactionReason "64 word"
  | PCompactionEnded bytes bytes bytes "64 word"
  | PContentDelta bytes bytes
  | PActionCall call_kind ActionCallPayload
  | PPermissionRequested bytes bytes bytes
  | PPermissionResolved bytes bool bytes "bool option"
  | PInputRequested bytes bytes
  | PInputResolved bytes bool "InputAnswer list"
  | PStatusUpdated RunStatus bytes int
  | PSteerApplied bytes bytes "bytes list"
  | PSteerDropped bytes bytes
  | PRunCompleted bytes bytes bytes bytes bytes
  | PRunFailed bytes
  | PRunCancelled bytes

record mem_event =
  me_ID :: bytes
  me_Seq :: nat
  me_Time :: int
  me_Run :: bytes
  me_ToolCallID :: bytes
  me_Payload :: payload

record admittedControls =
  co_model :: bytes
  co_instructions :: bytes
  co_outputSchema :: bytes
  co_elected :: ToolDefinition
  co_callsTool :: bool

record pendingSteer =
  ps_submissionID :: bytes
  ps_requestID :: bytes
  ps_messages :: "bytes list"

record memoryRun =
  rn_status :: RunStatus
  rn_started :: bool
  rn_queuedAdmission :: bool
  rn_answered :: bool
  rn_pendingInteraction :: bytes
  rn_stage :: scriptStage
  rn_controls :: admittedControls
  rn_nextSequence :: nat
  rn_terminal :: bool
  rn_permissionID :: bytes
  rn_inputID :: bytes
  rn_toolCallID :: bytes
  rn_callID :: bytes
  rn_providedTool :: ToolDefinition
  rn_acknowledged :: bool
  rn_settledArm :: bytes
  rn_settledResult :: bytes
  rn_settledError :: "bytes option"
  rn_settledRequestID :: bytes
  rn_settlementID :: bytes
  rn_requestedBy :: bytes
  rn_respondedBy :: bytes
  rn_steers :: "pendingSteer list"
  rn_admittedSteers :: "bytes list"
  rn_compaction :: bool
  rn_compactContinue :: bool
  rn_compactFocus :: bytes
  rn_input :: "64 word"

record active_entry =
  ae_RunID :: bytes
  ae_Status :: RunStatus
  ae_AsOfSequence :: nat
  ae_PendingInteractions :: "bytes list"
  ae_AcknowledgedInteractions :: "bytes list"
  ae_AdmittedSubmitRequests :: "bytes list"
  ae_PendingSteers :: "(bytes \<times> bytes) list"
  ae_QueuePosition :: "nat option"

record mem_state =
  mt_SessionID :: bytes
  mt_Status :: SessionStatus
  mt_ActiveRunID :: bytes
  mt_ActiveRuns :: "active_entry list"
  mt_Settled :: "(bytes \<times> nat) list option"
  mt_TranscriptCursor :: bytes
  mt_UpdatedAtMS :: int
  mt_CurrentModelID :: bytes
  mt_CompactionPolicy :: "CompactionPolicy option"
  mt_Recovered :: bool
  mt_Sources :: "bytes list"

record stream =
  sm_run :: bytes
  sm_after :: nat
  sm_sent :: "mem_event list"
  sm_closed :: bool

text \<open>What may intervene: the clock advances, another session draws ids, a client resumes a run,
  switches the model or sets the compaction policy.\<close>

datatype mem_action =
    ClockIs int | OtherIDs nat | ResumeAt bytes nat | SwitchTo bytes bytes | PolicyTo bytes "CompactionPolicy option"

record memorySession =
  ms_participant :: bytes
  ms_state :: mem_state
  ms_attached :: "ToolSourceAttachment list"
  ms_provided :: "ToolDefinition list"
  ms_closed :: bool
  ms_active :: "bytes option"
  ms_reserved :: "bytes option"
  ms_runs :: "bytes \<rightharpoonup> memoryRun"
  ms_subscribers :: "bytes \<Rightarrow> nat list"
  ms_journal :: "mem_event list"
  ms_settled :: "(bytes \<times> nat) list"
  ms_threshold :: "64 word"
  ms_history :: "64 word"
  ms_capacity :: nat
  ms_ids :: nat
  ms_now :: int
  ms_encodes :: "payload \<Rightarrow> bool"
  ms_others :: "mem_action list list"
  ms_streams :: "nat \<Rightarrow> stream"
  ms_nstream :: nat
  ms_panicked :: bool
  ms_log :: "mem_event list"

datatype mem_error =
    MemContext | MemInvalidParticipant | MemInvalidSubmission | MemSessionClosed | MemRunNotFound | MemRunActive
  | MemUnsupported bytes bytes | MemModelNotFound bytes | MemInvalidSteerTarget bytes bytes "nat option"
  | MemInteractionResolved | MemInteractionNotFound | MemWrongResponder | MemInvalidResolution
  | MemRunTerminal bytes RunStatus | MemCursorFuture | MemReplayGap nat nat nat | MemUnknownSession
  | MemTerminalWon | MemEncode | MemPromotions

section \<open>Constants\<close>

definition ModelPrimary :: bytes where "ModelPrimary = ''reference-model-a''"
definition ModelSecondary :: bytes where "ModelSecondary = ''reference-model-b''"
definition fixedResult :: bytes where "fixedResult = ''{\"ok\":true}''"
definition scriptedTool :: bytes where "scriptedTool = ''scripted_tool''"
definition scriptedToolOwner :: bytes where "scriptedToolOwner = ''reference-adapter''"
definition scriptedSource :: bytes where "scriptedSource = ''reference-native''"
definition syntheticMCPSource :: bytes where "syntheticMCPSource = ''reference-mcp''"
definition endpointID :: bytes where "endpointID = ''reference.memory''"
definition maxProvidedTools :: nat where "maxProvidedTools = 2"
definition maxAttachedSources :: nat where "maxAttachedSources = 2"
definition referenceWindow :: "64 word" where "referenceWindow = 8192"
definition providedDialect :: bytes where "providedDialect = ''https://json-schema.org/draft/2020-12/schema''"
definition goldenArguments :: bytes where "goldenArguments = ''{\"operation\":\"golden\"}''"

definition scriptedCatalog :: "ToolDefinition list" where
  "scriptedCatalog = [\<lparr>td_Name = scriptedTool, td_ExecutionOwner = scriptedToolOwner, td_Source = scriptedSource,
     td_InputSchema = ''{\"type\":\"object\",\"properties\":{\"operation\":{\"type\":\"string\"}}}''\<rparr>]"

definition declaredSources :: "bytes list" where
  "declaredSources = [scriptedSource, syntheticMCPSource]"

definition attachTransports :: "bytes list" where
  "attachTransports = [ToolSourceProcess, ''local'']"

section \<open>Opening\<close>

text \<open>The tool sources and tools of an opening are admitted one by one; the first that is not ends the
  opening with the tool or source it names.\<close>

fun admit_sources :: "bytes set \<Rightarrow> ToolSourceAttachment list \<Rightarrow> mem_error option" where
  "admit_sources seen [] = None"
| "admit_sources seen (a # rest) =
     (let refuse = Some (MemUnsupported FeatureToolSourcesAttach (ta_ID a))
      in if ta_ID a = [] \<or> ta_Kind a = [] then refuse
         else if ta_ID a \<in> seen \<or> ta_ID a \<in> set declaredSources then refuse
         else if ta_Kind a \<notin> set attachTransports then refuse
         else if DuplicateEnvironmentName (ta_Environment a) \<noteq> [] then refuse
         else admit_sources (insert (ta_ID a) seen) rest)"

definition admitToolSources :: "OpenRequest \<Rightarrow> mem_error + ToolSourceAttachment list" where
  "admitToolSources request =
     (if oq_ToolSources request = [] then Inr []
      else if length (oq_ToolSources request) > maxAttachedSources
      then Inl (MemUnsupported FeatureToolSourcesAttach (ta_ID (oq_ToolSources request ! maxAttachedSources)))
      else case admit_sources {} (oq_ToolSources request) of
        Some err \<Rightarrow> Inl err
      | None \<Rightarrow> Inr (oq_ToolSources request))"

definition sessionSources :: "ToolSourceAttachment list \<Rightarrow> bytes list" where
  "sessionSources attached = declaredSources @ map ta_ID attached"

definition FeatureToolsProvide :: bytes where "FeatureToolsProvide = ''action.tools.provide''"

definition lower :: "char \<Rightarrow> bool" where "lower c \<longleftrightarrow> CHR ''a'' \<le> c \<and> c \<le> CHR ''z''"

definition digit :: "char \<Rightarrow> bool" where "digit c \<longleftrightarrow> CHR ''0'' \<le> c \<and> c \<le> CHR ''9''"

text \<open>\<^verbatim>\<open>providedNamePattern\<close>: a small letter, then small letters, digits and underscores.\<close>

definition providedName :: "bytes \<Rightarrow> bool" where
  "providedName name =
     (case name of [] \<Rightarrow> False | c # cs \<Rightarrow> lower c \<and> list_all (\<lambda>d. lower d \<or> digit d \<or> d = CHR ''_'') cs)"

text \<open>\<open>dialect\<close>: what the schema declares as its own schema, empty if nothing; \<^const>\<open>None\<close> if it is not
  an object.\<close>

definition admissibleDialect :: "(bytes \<Rightarrow> bytes option) \<Rightarrow> bytes \<Rightarrow> bool" where
  "admissibleDialect dialect schema =
     (if schema = [] then True
      else case dialect schema of None \<Rightarrow> False | Some declared \<Rightarrow> declared = [] \<or> declared = providedDialect)"

fun admit_tools :: "(bytes \<Rightarrow> bytes option) \<Rightarrow> bytes \<Rightarrow> bytes list \<Rightarrow> bytes set \<Rightarrow> ToolDefinition list \<Rightarrow> mem_error option" where
  "admit_tools dialect owner resolvable taken [] = None"
| "admit_tools dialect owner resolvable taken (t # rest) =
     (let refuse = Some (MemUnsupported FeatureToolsProvide (td_Name t))
      in if td_Name t = [] then refuse
         else if td_ExecutionOwner t \<noteq> owner then refuse
         else if td_Source t = [] then refuse
         else if td_Source t \<notin> set resolvable then refuse
         else if td_Name t \<in> taken then refuse
         else if \<not> providedName (td_Name t) then refuse
         else if \<not> admissibleDialect dialect (td_InputSchema t) then refuse
         else admit_tools dialect owner resolvable (insert (td_Name t) taken) rest)"

definition admitProvidedTools :: "(bytes \<Rightarrow> bytes option) \<Rightarrow> OpenRequest \<Rightarrow> ToolSourceAttachment list \<Rightarrow> mem_error + ToolDefinition list" where
  "admitProvidedTools dialect request attached =
     (if oq_Tools request = [] then Inr []
      else if length (oq_Tools request) > maxProvidedTools
      then Inl (MemUnsupported FeatureToolsProvide (td_Name (oq_Tools request ! maxProvidedTools)))
      else case admit_tools dialect (oq_Participant request) (sessionSources attached) (set (map td_Name scriptedCatalog)) (oq_Tools request) of
        Some err \<Rightarrow> Inl err
      | None \<Rightarrow> Inr (oq_Tools request))"

definition compactionThreshold :: "CompactionPolicy option \<Rightarrow> mem_error + 64 word" where
  "compactionThreshold policy =
     (let refuse = Inl (MemUnsupported FeatureCompactionPolicy ''compaction_policy'')
      in case policy of
        None \<Rightarrow> Inr (referenceWindow * 80 div 100)
      | Some p \<Rightarrow>
          if cp_Kind p = ''off'' then Inr (- 1)
          else if cp_Kind p = ''auto'' then Inr (referenceWindow * 80 div 100)
          else if cp_Kind p = ''share'' then
            (if 1 \<le> cp_SharePercent p \<and> cp_SharePercent p \<le> 100 then Inr (word_of_int (8192 * cp_SharePercent p div 100)) else refuse)
          else if cp_Kind p = ''tokens'' then (if 1 \<le> cp_Tokens p then Inr (word_of_int (cp_Tokens p)) else refuse)
          else refuse)"

definition effectivePolicy :: "CompactionPolicy option \<Rightarrow> CompactionPolicy" where
  "effectivePolicy policy =
     (case policy of
        None \<Rightarrow> \<lparr>cp_Kind = ''auto'', cp_SharePercent = 0, cp_Tokens = 0\<rparr>
      | Some p \<Rightarrow>
          if cp_Kind p = ''share'' then \<lparr>cp_Kind = cp_Kind p, cp_SharePercent = cp_SharePercent p, cp_Tokens = 0\<rparr>
          else if cp_Kind p = ''tokens'' then \<lparr>cp_Kind = cp_Kind p, cp_SharePercent = 0, cp_Tokens = cp_Tokens p\<rparr>
          else \<lparr>cp_Kind = cp_Kind p, cp_SharePercent = 0, cp_Tokens = 0\<rparr>)"

record keptSession =
  ks_model :: bytes
  ks_policy :: "CompactionPolicy option"

record Memory =
  mm_closed :: "bytes \<rightharpoonup> keptSession"
  mm_ids :: nat
  mm_now :: int
  mm_capacity :: nat
  mm_encodes :: "payload \<Rightarrow> bool"

text \<open>\<^verbatim>\<open>NewMemory\<close> with the ids of \<^verbatim>\<open>sequenceIDs\<close>.\<close>

definition NewMemory :: "int \<Rightarrow> (payload \<Rightarrow> bool) \<Rightarrow> int \<Rightarrow> Memory" where
  "NewMemory now encodes journalCapacity =
     \<lparr>mm_closed = Map.empty, mm_ids = 0, mm_now = now, mm_capacity = (if journalCapacity \<le> 0 then 64 else nat journalCapacity),
      mm_encodes = encodes\<rparr>"

definition claim_kept :: "Memory \<Rightarrow> bytes \<Rightarrow> bool \<Rightarrow> (mem_error + keptSession \<times> bool) \<times> Memory" where
  "claim_kept m sid reopen =
     (let kept = mm_closed m sid; m1 = m\<lparr>mm_closed := (mm_closed m)(sid := None)\<rparr>
      in if \<not> reopen then (Inr (\<lparr>ks_model = [], ks_policy = None\<rparr>, False), m1)
         else case kept of
           None \<Rightarrow> (Inl MemUnknownSession, m1)
         | Some session \<Rightarrow> (Inr (session, True), m1))"

definition keep :: "Memory \<Rightarrow> bytes \<Rightarrow> bytes \<Rightarrow> CompactionPolicy option \<Rightarrow> Memory" where
  "keep m sid model policy = m\<lparr>mm_closed := (mm_closed m)(sid \<mapsto> \<lparr>ks_model = model, ks_policy = policy\<rparr>)\<rparr>"

definition sequence_id :: "bytes \<Rightarrow> nat \<Rightarrow> bytes" where
  "sequence_id kind n = kind @ ''-'' @ dec_nat n"

definition new_session :: "Memory \<Rightarrow> bytes \<Rightarrow> OpenRequest \<Rightarrow> ToolSourceAttachment list \<Rightarrow> ToolDefinition list \<Rightarrow> 64 word \<Rightarrow>
    bytes \<Rightarrow> bool \<Rightarrow> CompactionPolicy option \<Rightarrow> memorySession" where
  "new_session m sid request attached provided threshold model recovered policy =
     \<lparr>ms_participant = oq_Participant request,
      ms_state = \<lparr>mt_SessionID = sid, mt_Status = SessionIdle, mt_ActiveRunID = [], mt_ActiveRuns = [], mt_Settled = None,
        mt_TranscriptCursor = [], mt_UpdatedAtMS = mm_now m, mt_CurrentModelID = model, mt_CompactionPolicy = Some (effectivePolicy policy),
        mt_Recovered = recovered, mt_Sources = sessionSources attached\<rparr>,
      ms_attached = attached, ms_provided = provided, ms_closed = False, ms_active = None, ms_reserved = None, ms_runs = Map.empty,
      ms_subscribers = (\<lambda>_. []), ms_journal = [], ms_settled = [], ms_threshold = threshold, ms_history = 0, ms_capacity = mm_capacity m,
      ms_ids = mm_ids m, ms_now = mm_now m, ms_encodes = mm_encodes m, ms_others = [],
      ms_streams = (\<lambda>_. \<lparr>sm_run = [], sm_after = 0, sm_sent = [], sm_closed = False\<rparr>), ms_nstream = 0, ms_panicked = False, ms_log = []\<rparr>"

definition mem_Open :: "(bytes \<Rightarrow> bytes option) \<Rightarrow> bool \<Rightarrow> OpenRequest \<Rightarrow> Memory \<Rightarrow> (mem_error + memorySession) \<times> Memory" where
  "mem_Open dialect cancelled request m =
     (if cancelled then (Inl MemContext, m)
      else if oq_Participant request = [] then (Inl MemInvalidParticipant, m)
      else case admitToolSources request of Inl err \<Rightarrow> (Inl err, m) | Inr attached \<Rightarrow>
        (case admitProvidedTools dialect request attached of Inl err \<Rightarrow> (Inl err, m) | Inr provided \<Rightarrow>
          let (sid, m1) = (if oq_SessionID request = [] then (sequence_id ''session'' (Suc (mm_ids m)), m\<lparr>mm_ids := Suc (mm_ids m)\<rparr>)
                           else (oq_SessionID request, m))
          in case compactionThreshold (oq_CompactionPolicy request) of Inl err \<Rightarrow> (Inl err, m1) | Inr threshold \<Rightarrow>
            (case claim_kept m1 sid (oq_Reopen request) of (Inl err, m2) \<Rightarrow> (Inl err, m2) | (Inr (kept, recovered), m2) \<Rightarrow>
              if oq_CompactionPolicy request = None \<and> ks_policy kept \<noteq> None
              then (case compactionThreshold (ks_policy kept) of
                      Inl err \<Rightarrow> (Inl err, m2)
                    | Inr threshold1 \<Rightarrow>
                        (Inr (new_session m2 sid request attached provided threshold1 (ks_model kept) recovered (ks_policy kept)), m2))
              else (Inr (new_session m2 sid request attached provided threshold (ks_model kept) recovered (oq_CompactionPolicy request)), m2))))"

definition mem_Admit :: "(bytes \<Rightarrow> bytes option) \<Rightarrow> OpenRequest \<Rightarrow> mem_error option" where
  "mem_Admit dialect request =
     (case admitToolSources request of Inl err \<Rightarrow> Some err | Inr attached \<Rightarrow>
       (case admitProvidedTools dialect request attached of Inl err \<Rightarrow> Some err | Inr provided \<Rightarrow>
         (case compactionThreshold (oq_CompactionPolicy request) of Inl err \<Rightarrow> Some err | Inr threshold \<Rightarrow> None)))"

section \<open>Requests that take only the session's lock\<close>

abbreviation run_of :: "memorySession \<Rightarrow> bytes \<Rightarrow> memoryRun" where
  "run_of s r \<equiv> the (ms_runs s r)"

definition upd_run :: "bytes \<Rightarrow> (memoryRun \<Rightarrow> memoryRun) \<Rightarrow> memorySession \<Rightarrow> memorySession" where
  "upd_run r f s = s\<lparr>ms_runs := (ms_runs s)(r := map_option f (ms_runs s r))\<rparr>"

definition upd_state :: "(mem_state \<Rightarrow> mem_state) \<Rightarrow> memorySession \<Rightarrow> memorySession" where
  "upd_state f s = s\<lparr>ms_state := f (ms_state s)\<rparr>"

definition upd_stream :: "nat \<Rightarrow> (stream \<Rightarrow> stream) \<Rightarrow> memorySession \<Rightarrow> memorySession" where
  "upd_stream k f s = s\<lparr>ms_streams := (ms_streams s)(k := f (ms_streams s k))\<rparr>"

definition new_stream :: "bytes \<Rightarrow> nat \<Rightarrow> mem_event list \<Rightarrow> bool \<Rightarrow> memorySession \<Rightarrow> memorySession" where
  "new_stream r after sent closed s =
     s\<lparr>ms_streams := (ms_streams s)(ms_nstream s := \<lparr>sm_run = r, sm_after = after, sm_sent = sent, sm_closed = closed\<rparr>),
       ms_nstream := Suc (ms_nstream s)\<rparr>"

definition subscribe_run :: "bytes \<Rightarrow> nat \<Rightarrow> memorySession \<Rightarrow> memorySession" where
  "subscribe_run r k s = s\<lparr>ms_subscribers := (ms_subscribers s)(r := ms_subscribers s r @ [k])\<rparr>"

record Recovery =
  rv_RequestedAfter :: nat
  rv_ReplayedFrom :: nat
  rv_ReplayedThrough :: nat
  rv_Stream :: nat

definition oldest_in :: "mem_event list \<Rightarrow> nat" where
  "oldest_in evs = (case evs of [] \<Rightarrow> 0 | e # _ \<Rightarrow> me_Seq e)"

definition mem_Resume :: "bool \<Rightarrow> bytes \<Rightarrow> nat \<Rightarrow> memorySession \<Rightarrow> (mem_error + Recovery) \<times> memorySession" where
  "mem_Resume cancelled r after s =
     (if cancelled then (Inl MemContext, s)
      else if ms_closed s then (Inl MemSessionClosed, s)
      else case ms_runs s r of
        None \<Rightarrow> (Inl MemRunNotFound, s)
      | Some run \<Rightarrow>
          let latest = rn_nextSequence run - 1
          in if after > latest then (Inl MemCursorFuture, s)
             else let retained = filter (\<lambda>e. me_Run e = r) (ms_journal s);
                      oldest = oldest_in retained;
                      suffix = filter (\<lambda>e. me_Seq e > after) retained;
                      gap = (after < latest \<and> (oldest = 0 \<or> after + 1 < oldest));
                      k = ms_nstream s
                  in if gap then (Inl (MemReplayGap after oldest latest), new_stream r after [] True s)
                     else (Inr \<lparr>rv_RequestedAfter = after, rv_ReplayedFrom = (if suffix = [] then after else me_Seq (hd suffix)),
                               rv_ReplayedThrough = (if suffix = [] then after else me_Seq (last suffix)), rv_Stream = k\<rparr>,
                           (if rn_terminal run then new_stream r after suffix True s
                            else subscribe_run r k (new_stream r after suffix False s))))"

definition mem_SwitchModel :: "bool \<Rightarrow> bytes \<Rightarrow> bytes \<Rightarrow> memorySession \<Rightarrow> (mem_error + bytes) \<times> memorySession" where
  "mem_SwitchModel cancelled sid model s =
     (if cancelled then (Inl MemContext, s)
      else if ms_closed s then (Inl MemSessionClosed, s)
      else if sid \<noteq> mt_SessionID (ms_state s) then (Inl MemInvalidSubmission, s)
      else if model \<noteq> ModelPrimary \<and> model \<noteq> ModelSecondary then (Inl (MemModelNotFound model), s)
      else (Inr (mt_CurrentModelID (ms_state s)), upd_state (\<lambda>t. t\<lparr>mt_CurrentModelID := model, mt_UpdatedAtMS := ms_now s\<rparr>) s))"

text \<open>\<^verbatim>\<open>UpdateSettings\<close>; \<open>level\<close>: whether a reasoning level is asked for, which the adapter does not
  advertise.\<close>

definition mem_UpdateSettings :: "bool \<Rightarrow> bytes \<Rightarrow> bool \<Rightarrow> CompactionPolicy option \<Rightarrow> memorySession \<Rightarrow> (mem_error + CompactionPolicy option) \<times> memorySession" where
  "mem_UpdateSettings cancelled sid level policy s =
     (if cancelled then (Inl MemContext, s)
      else if level then (Inl (MemUnsupported FeatureSessionReasoning ''reasoning_level''), s)
      else case compactionThreshold policy of
        Inl err \<Rightarrow> (Inl err, s)
      | Inr threshold \<Rightarrow>
          if ms_closed s then (Inl MemSessionClosed, s)
          else if sid \<noteq> mt_SessionID (ms_state s) then (Inl MemInvalidSubmission, s)
          else (Inr (mt_CompactionPolicy (ms_state s)),
                (upd_state (\<lambda>t. t\<lparr>mt_CompactionPolicy := Some (effectivePolicy policy), mt_UpdatedAtMS := ms_now s\<rparr>) s)\<lparr>ms_threshold := threshold\<rparr>))"

definition CapabilityRevision :: bytes where "CapabilityRevision = ''reference-memory-v17''"

definition modelCatalog :: "bytes list" where "modelCatalog = [ModelPrimary, ModelSecondary]"

text \<open>The queries: the state of a session, also of a closed one; its models; its tools and their sources, those of the
  session only if it is named.\<close>

definition mem_State :: "bool \<Rightarrow> memorySession \<Rightarrow> mem_error option \<times> mem_state option" where
  "mem_State cancelled s =
     (if cancelled then (Some MemContext, None) else (if ms_closed s then Some MemSessionClosed else None, Some (ms_state s)))"

record Catalog =
  ca_Revision :: bytes
  ca_SessionID :: bytes
  ca_CurrentModelID :: bytes
  ca_Models :: "bytes list"

definition mem_Models :: "bool \<Rightarrow> bytes \<Rightarrow> memorySession \<Rightarrow> mem_error + Catalog" where
  "mem_Models cancelled sid s =
     (if cancelled then Inl MemContext
      else if ms_closed s then Inl MemSessionClosed
      else if sid \<noteq> [] \<and> sid \<noteq> mt_SessionID (ms_state s) then Inl MemInvalidSubmission
      else Inr \<lparr>ca_Revision = CapabilityRevision, ca_SessionID = mt_SessionID (ms_state s), ca_CurrentModelID = mt_CurrentModelID (ms_state s),
                ca_Models = modelCatalog\<rparr>)"

record ToolCatalog =
  tl_Revision :: bytes
  tl_SessionID :: bytes
  tl_Sources :: "bytes list"
  tl_Tools :: "ToolDefinition list"

definition mem_Tools :: "bool \<Rightarrow> bytes \<Rightarrow> memorySession \<Rightarrow> mem_error + ToolCatalog" where
  "mem_Tools cancelled sid s =
     (if cancelled then Inl MemContext
      else if ms_closed s then Inl MemSessionClosed
      else if sid \<noteq> [] \<and> sid \<noteq> mt_SessionID (ms_state s) then Inl MemRunNotFound
      else Inr \<lparr>tl_Revision = CapabilityRevision, tl_SessionID = sid,
                tl_Sources = (if sid \<noteq> [] then sessionSources (ms_attached s) else declaredSources),
                tl_Tools = (if sid \<noteq> [] then scriptedCatalog @ ms_provided s else scriptedCatalog)\<rparr>)"

fun mem_act :: "mem_action \<Rightarrow> memorySession \<Rightarrow> memorySession" where
  "mem_act (ClockIs t) s = s\<lparr>ms_now := t\<rparr>"
| "mem_act (OtherIDs n) s = s\<lparr>ms_ids := ms_ids s + n\<rparr>"
| "mem_act (ResumeAt r after) s = snd (mem_Resume False r after s)"
| "mem_act (SwitchTo sid model) s = snd (mem_SwitchModel False sid model s)"
| "mem_act (PolicyTo sid policy) s = snd (mem_UpdateSettings False sid False policy s)"

definition others :: "memorySession \<Rightarrow> memorySession" where
  "others s = (case ms_others s of [] \<Rightarrow> s | acts # rest \<Rightarrow> fold mem_act acts (s\<lparr>ms_others := rest\<rparr>))"

section \<open>The state a client sees\<close>

abbreviation run_live :: "memorySession \<Rightarrow> bytes option \<Rightarrow> bool" where
  "run_live s p \<equiv> (case p of None \<Rightarrow> False | Some r \<Rightarrow> \<not> rn_terminal (run_of s r))"

definition reservationOf :: "memoryRun \<Rightarrow> bool" where
  "reservationOf run \<longleftrightarrow> rn_queuedAdmission run \<and> \<not> rn_started run"

definition pendingInteractions :: "memoryRun \<Rightarrow> bytes list" where
  "pendingInteractions run = (if rn_pendingInteraction run = [] then [] else [rn_pendingInteraction run])"

definition acknowledgedInteractions :: "memoryRun \<Rightarrow> bytes list" where
  "acknowledgedInteractions run =
     (if \<not> rn_acknowledged run \<or> rn_pendingInteraction run = [] \<or> rn_pendingInteraction run \<noteq> rn_callID run then [] else [rn_callID run])"

definition entryLocked :: "bytes \<Rightarrow> memoryRun \<Rightarrow> nat \<Rightarrow> active_entry" where
  "entryLocked r run position =
     \<lparr>ae_RunID = r, ae_Status = (if reservationOf run then RunQueued else rn_status run), ae_AsOfSequence = rn_nextSequence run - 1,
      ae_PendingInteractions = pendingInteractions run, ae_AcknowledgedInteractions = acknowledgedInteractions run,
      ae_AdmittedSubmitRequests = rn_admittedSteers run,
      ae_PendingSteers = map (\<lambda>t. (ps_submissionID t, ps_requestID t)) (rn_steers run),
      ae_QueuePosition = (if position > 0 then Some position else None)\<rparr>"

fun refresh_entries :: "memorySession \<Rightarrow> bytes option list \<Rightarrow> nat \<Rightarrow> active_entry list \<times> bytes option" where
  "refresh_entries s [] position = ([], None)"
| "refresh_entries s (p # ps) position =
     (if \<not> run_live s p \<or> \<not> rn_answered (run_of s (the p)) then refresh_entries s ps position
      else if \<not> reservationOf (run_of s (the p))
      then (case refresh_entries s ps position of (entries, started) \<Rightarrow>
              (entryLocked (the p) (run_of s (the p)) 0 # entries, if started = None then p else started))
      else (case refresh_entries s ps (Suc position) of (entries, started) \<Rightarrow>
              (entryLocked (the p) (run_of s (the p)) (Suc position) # entries, started)))"

definition refreshState :: "memorySession \<Rightarrow> memorySession" where
  "refreshState s =
     (case refresh_entries s [ms_active s, ms_reserved s] 0 of (entries, started) \<Rightarrow>
        upd_state (\<lambda>t. t\<lparr>mt_ActiveRuns := entries,
            mt_Settled := (if ms_settled s \<noteq> [] then Some (ms_settled s) else mt_Settled t),
            mt_Status := (case started of
                Some r \<Rightarrow> if rn_status (run_of s r) = RunWaitingForInput \<or> rn_pendingInteraction (run_of s r) \<noteq> []
                          then SessionWaitingForInput else SessionRunning
              | None \<Rightarrow> if entries \<noteq> [] then SessionQueued else SessionIdle),
            mt_ActiveRunID := (case started of Some r \<Rightarrow> r | None \<Rightarrow> [])\<rparr>) s)"

section \<open>Publication\<close>

type_synonym 'a mem_op = "memorySession \<Rightarrow> (mem_error + 'a) \<times> memorySession"

definition ret :: "'a \<Rightarrow> 'a mem_op" where "ret a s = (Inr a, s)"

definition bind_op :: "'a mem_op \<Rightarrow> ('a \<Rightarrow> 'b mem_op) \<Rightarrow> 'b mem_op" where
  "bind_op m f s = (case m s of (Inl err, s1) \<Rightarrow> (Inl err, s1) | (Inr a, s1) \<Rightarrow> f a s1)"

fun each_op :: "('a \<Rightarrow> unit mem_op) \<Rightarrow> 'a list \<Rightarrow> unit mem_op" where
  "each_op f [] = ret ()"
| "each_op f (x # xs) = bind_op (f x) (\<lambda>_. each_op f xs)"

definition NewID :: "bytes \<Rightarrow> bytes mem_op" where
  "NewID kind s = (Inr (sequence_id kind (Suc (ms_ids s))), s\<lparr>ms_ids := Suc (ms_ids s)\<rparr>)"

definition send :: "mem_event \<Rightarrow> nat \<Rightarrow> memorySession \<Rightarrow> memorySession" where
  "send e k s = (if sm_closed (ms_streams s k) then s\<lparr>ms_panicked := True\<rparr> else upd_stream k (\<lambda>t. t\<lparr>sm_sent := sm_sent t @ [e]\<rparr>) s)"

definition close_stream :: "nat \<Rightarrow> memorySession \<Rightarrow> memorySession" where
  "close_stream k s = (if sm_closed (ms_streams s k) then s\<lparr>ms_panicked := True\<rparr> else upd_stream k (\<lambda>t. t\<lparr>sm_closed := True\<rparr>) s)"

text \<open>The event types whose envelopes name the tool call.\<close>

definition names_tool :: "payload \<Rightarrow> bool" where
  "names_tool p = (case p of PActionCall k c \<Rightarrow> True | PPermissionRequested i t a \<Rightarrow> True | PInputRequested i t \<Rightarrow> True | _ \<Rightarrow> False)"

text \<open>What an event does to the interaction its run waits for.\<close>

definition stepped :: "payload \<Rightarrow> bytes \<Rightarrow> memoryRun \<Rightarrow> memoryRun" where
  "stepped p eid run =
     (case p of
        PPermissionRequested i t a \<Rightarrow> run\<lparr>rn_pendingInteraction := rn_permissionID run\<rparr>
      | PInputRequested i t \<Rightarrow> run\<lparr>rn_pendingInteraction := rn_inputID run\<rparr>
      | PPermissionResolved i c ch g \<Rightarrow> run\<lparr>rn_pendingInteraction := []\<rparr>
      | PInputResolved i c as \<Rightarrow> run\<lparr>rn_pendingInteraction := []\<rparr>
      | PActionCall k c \<Rightarrow>
          if k = CallRequested then (if rn_callID run \<noteq> [] then run\<lparr>rn_pendingInteraction := rn_callID run\<rparr> else run)
          else if k \<noteq> CallStarted \<and> rn_callID run \<noteq> [] \<and> rn_pendingInteraction run = rn_callID run
          then run\<lparr>rn_pendingInteraction := [], rn_settlementID := eid\<rparr>
          else run
      | _ \<Rightarrow> run)"

definition ended_run :: "payload \<Rightarrow> memoryRun \<Rightarrow> memoryRun" where
  "ended_run p run =
     run\<lparr>rn_terminal := True, rn_pendingInteraction := [],
       rn_status := (case p of PRunCompleted m t st md res \<Rightarrow> RunCompleted | PRunFailed c \<Rightarrow> RunFailed | PRunCancelled re \<Rightarrow> RunCancelled
                      | _ \<Rightarrow> rn_status run)\<rparr>"

definition promote :: "bytes \<Rightarrow> nat \<Rightarrow> memorySession \<Rightarrow> bytes option \<times> memorySession" where
  "promote r sequence s =
     (let active = (if ms_active s = Some r then None else ms_active s);
          reserved = (if ms_reserved s = Some r then None else ms_reserved s);
          s1 = s\<lparr>ms_settled := ms_settled s @ [(r, sequence)]\<rparr>
      in if active = None \<and> run_live s reserved
         then (reserved, s1\<lparr>ms_active := reserved, ms_reserved := None\<rparr>)
         else (None, s1\<lparr>ms_active := active, ms_reserved := reserved\<rparr>))"

text \<open>\<^verbatim>\<open>publishSettling\<close>, in the order of the code: the envelope, what the event does to its run, the journal
  and the cursor, and the delivery to the run's subscribers.\<close>

definition event_of :: "memorySession \<Rightarrow> bytes \<Rightarrow> bytes \<Rightarrow> memoryRun \<Rightarrow> payload \<Rightarrow> mem_event" where
  "event_of s eid r run p =
     \<lparr>me_ID = eid, me_Seq = rn_nextSequence run, me_Time = ms_now s, me_Run = r,
      me_ToolCallID = (if names_tool p \<and> co_callsTool (rn_controls run) then rn_toolCallID run else []), me_Payload = p\<rparr>"

definition published_run :: "payload \<Rightarrow> bool \<Rightarrow> bytes \<Rightarrow> bytes \<Rightarrow> memoryRun \<Rightarrow> memoryRun" where
  "published_run p terminal settled eid run =
     (let run1 = (stepped p eid run)\<lparr>rn_nextSequence := Suc (rn_nextSequence run)\<rparr>;
          run2 = (if terminal then ended_run p run1 else run1)
      in if settled = [] then run2 else run2\<lparr>rn_steers := filter (\<lambda>t. ps_submissionID t \<noteq> settled) (rn_steers run2)\<rparr>)"

definition record_event :: "mem_event \<Rightarrow> memoryRun \<Rightarrow> memorySession \<Rightarrow> memorySession" where
  "record_event e run s =
     (let journal = ms_journal s @ [e]
      in upd_state (\<lambda>t. t\<lparr>mt_TranscriptCursor := dec_nat (me_Seq e), mt_UpdatedAtMS := me_Time e\<rparr>)
           (s\<lparr>ms_journal := drop (length journal - ms_capacity s) journal, ms_log := ms_log s @ [e], ms_runs := (ms_runs s)(me_Run e \<mapsto> run)\<rparr>))"

definition deliver :: "mem_event \<Rightarrow> bool \<Rightarrow> memorySession \<Rightarrow> memorySession" where
  "deliver e terminal s =
     (let subscribers = ms_subscribers s (me_Run e);
          s1 = fold (send e) subscribers (if terminal then s\<lparr>ms_subscribers := (ms_subscribers s)(me_Run e := [])\<rparr> else s)
      in if terminal then fold close_stream subscribers s1 else s1)"

definition publish_event :: "bytes \<Rightarrow> payload \<Rightarrow> bool \<Rightarrow> bytes \<Rightarrow> memoryRun \<Rightarrow> bytes \<Rightarrow> bytes option mem_op" where
  "publish_event r p terminal settled run eid s =
     (if \<not> ms_encodes s p then (Inl MemEncode, s)
      else let e = event_of s eid r run p;
               s1 = record_event e (published_run p terminal settled eid run) s;
               (promoted, s2) = (if terminal then promote r (me_Seq e) s1 else (None, s1))
           in (Inr promoted, deliver e terminal (refreshState s2)))"

definition publishSettling :: "bytes \<Rightarrow> payload \<Rightarrow> bool \<Rightarrow> bytes \<Rightarrow> bytes option mem_op" where
  "publishSettling r p terminal settled s0 =
     (let s = others s0
      in if rn_terminal (run_of s r) then (Inl MemTerminalWon, s)
         else bind_op (NewID ''event'') (publish_event r p terminal settled (run_of s r)) s)"

section \<open>The script of a run\<close>

definition get :: "(memorySession \<Rightarrow> 'a) \<Rightarrow> 'a mem_op" where "get f s = (Inr (f s), s)"

text \<open>A section under the lock: others may have been there before.\<close>

definition section_op :: "(memorySession \<Rightarrow> memorySession) \<Rightarrow> unit mem_op" where
  "section_op f s = (Inr (), f (others s))"

definition settle_one :: "(pendingSteer \<Rightarrow> payload) \<Rightarrow> bytes \<Rightarrow> pendingSteer \<Rightarrow> unit mem_op" where
  "settle_one f r t s =
     (bind_op (publishSettling r (f t) False (ps_submissionID t)) (\<lambda>_. ret ())) s"

definition pendingSteers :: "bytes \<Rightarrow> pendingSteer list mem_op" where
  "pendingSteers r s =
     (bind_op (section_op (\<lambda>s. s)) (\<lambda>_. get (\<lambda>s. rn_steers (run_of s r)))) s"

definition settleSteers :: "bytes \<Rightarrow> unit mem_op" where
  "settleSteers r s =
     (bind_op (pendingSteers r)
     (each_op (settle_one (\<lambda>t. PSteerApplied (ps_submissionID t) (ps_requestID t) (ps_messages t)) r))) s"

definition dropSteers :: "bytes \<Rightarrow> unit mem_op" where
  "dropSteers r s =
     (bind_op (pendingSteers r)
     (each_op (settle_one (\<lambda>t. PSteerDropped (ps_submissionID t) (ps_requestID t)) r))) s"

text \<open>\<^verbatim>\<open>emit\<close>; \<open>promoted\<close> is \<^verbatim>\<open>emitInitial\<close> for the run that a terminal event promotes.\<close>

definition emit :: "(bytes \<Rightarrow> unit mem_op) \<Rightarrow> bytes \<Rightarrow> payload \<Rightarrow> bool \<Rightarrow> unit mem_op" where
  "emit initial r p terminal s =
     (bind_op (if terminal then dropSteers r else ret ()) (\<lambda>_.
     bind_op (publishSettling r p terminal []) (\<lambda>promoted.
     case promoted of Some q \<Rightarrow> initial q | None \<Rightarrow> ret ()))) s"

text \<open>\<^verbatim>\<open>errTerminalWon\<close> is no error where the code says so.\<close>

definition unless_won :: "unit mem_op \<Rightarrow> unit mem_op" where
  "unless_won m s = (case m s of (Inl MemTerminalWon, s1) \<Rightarrow> (Inr (), s1) | x \<Rightarrow> x)"

definition ignoring :: "unit mem_op \<Rightarrow> unit mem_op" where
  "ignoring m s = (Inr (), snd (m s))"

datatype content = TextContent bytes | PartsContent "(bytes \<times> bytes) list"

definition text_bytes :: "content \<Rightarrow> 64 word" where
  "text_bytes c =
     (case c of
        TextContent t \<Rightarrow> of_nat (length t)
      | PartsContent parts \<Rightarrow> foldl (\<lambda>n (kind, text). if kind = ''text'' then n + of_nat (length text) else n) 0 parts)"

definition historyTokens :: "content list \<Rightarrow> 64 word" where
  "historyTokens contents = (foldl (\<lambda>n c. n + text_bytes c) 0 contents + 3) div 4"

definition compaction_text :: "bytes \<Rightarrow> bytes" where
  "compaction_text focus =
     (if focus \<noteq> [] then ''The session so far, compacted with attention to: '' @ focus else ''The session so far, compacted.'')"

definition emitCompaction :: "(bytes \<Rightarrow> unit mem_op) \<Rightarrow> bytes \<Rightarrow> CompactionReason \<Rightarrow> bool mem_op" where
  "emitCompaction initial r reason s =
     (bind_op (NewID ''compaction'') (\<lambda>compaction.
     bind_op (section_op (\<lambda>s. s)) (\<lambda>_.
     bind_op (get ms_history) (\<lambda>before.
     bind_op (emit initial r (PCompactionStarted compaction reason before) False) (\<lambda>_.
     bind_op (get (\<lambda>s. compaction_text (rn_compactFocus (run_of s r)))) (\<lambda>text.
     bind_op (NewID ''message'') (\<lambda>message.
     bind_op (emit initial r (PCompactionEnded compaction message text (historyTokens [TextContent text])) False) (\<lambda>_.
     bind_op (section_op (\<lambda>s. s\<lparr>ms_history := historyTokens [TextContent text]\<rparr>)) (\<lambda>_.
     bind_op (get (\<lambda>s. run_of s r)) (\<lambda>run.
     if reason \<noteq> CompactionRequested \<or> rn_compactContinue run then ret False
     else bind_op (unless_won (emit initial r (PRunCompleted message text ''compacted'' (co_model (rn_controls run)) []) True)) (\<lambda>_. ret True))))))))))) s"

definition requestInput :: "(bytes \<Rightarrow> unit mem_op) \<Rightarrow> bytes \<Rightarrow> unit mem_op" where
  "requestInput initial r s =
     (bind_op (settleSteers r) (\<lambda>_.
     bind_op (get (\<lambda>s. run_of s r)) (\<lambda>run.
     bind_op (emit initial r (PInputRequested (rn_inputID run) (if co_callsTool (rn_controls run) then rn_toolCallID run else [])) False) (\<lambda>_.
     bind_op (get ms_now) (\<lambda>now.
     bind_op (section_op (\<lambda>s. if rn_terminal (run_of s r) then s
         else upd_state (\<lambda>t. t\<lparr>mt_UpdatedAtMS := now\<rparr>) (upd_run r (\<lambda>u. u\<lparr>rn_status := RunWaitingForInput\<rparr>) s))) (\<lambda>_.
     emit initial r (PStatusUpdated RunWaitingForInput (rn_inputID run) now) False)))))) s"

definition scripted_call :: "memoryRun \<Rightarrow> bytes \<Rightarrow> bytes \<Rightarrow> bytes \<Rightarrow> ActionCallPayload" where
  "scripted_call run arguments result respondedBy =
     \<lparr>ac_InteractionID = [], ac_RequestID = [], ac_ToolCallID = rn_toolCallID run, ac_Name = scriptedTool, ac_ArgumentsJSON = arguments,
      ac_Result = result, ac_Error = None, ac_RequestedBy = rn_requestedBy run, ac_RespondedBy = respondedBy,
      ac_ExecutionOwner = scriptedToolOwner, ac_Source = scriptedSource\<rparr>"

definition callPayload :: "memoryRun \<Rightarrow> bytes \<Rightarrow> ActionCallPayload" where
  "callPayload run requestID =
     \<lparr>ac_InteractionID = rn_callID run, ac_RequestID = requestID, ac_ToolCallID = rn_toolCallID run, ac_Name = td_Name (rn_providedTool run),
      ac_ArgumentsJSON = [], ac_Result = [], ac_Error = None, ac_RequestedBy = rn_requestedBy run, ac_RespondedBy = rn_respondedBy run,
      ac_ExecutionOwner = td_ExecutionOwner (rn_providedTool run), ac_Source = td_Source (rn_providedTool run)\<rparr>"

definition initial_text :: "memoryRun \<Rightarrow> bytes" where
  "initial_text run =
     (let text = (if co_callsTool (rn_controls run) then ''I will use the scripted tool.'' else ''I will answer without the scripted tool.'')
      in if co_instructions (rn_controls run) \<noteq> [] then co_instructions (rn_controls run) @ '' '' @ text else text)"

text \<open>What \<^verbatim>\<open>emitInitial\<close> does after the start and the compaction of the run.\<close>

definition emit_script :: "(bytes \<Rightarrow> unit mem_op) \<Rightarrow> bytes \<Rightarrow> unit mem_op" where
  "emit_script initial r s =
     (bind_op (get (\<lambda>s. run_of s r)) (\<lambda>run.
     bind_op (NewID ''message'') (\<lambda>message.
     bind_op (emit initial r (PContentDelta message (initial_text run)) False) (\<lambda>_.
     if \<not> co_callsTool (rn_controls run) then requestInput initial r
     else if rn_callID run \<noteq> []
     then emit initial r (PActionCall CallRequested ((callPayload run [])\<lparr>ac_ArgumentsJSON := goldenArguments\<rparr>)) False
     else bind_op (emit initial r (PActionCall CallRequested (scripted_call run goldenArguments [] [])) False) (\<lambda>_.
       emit initial r (PPermissionRequested (rn_permissionID run) (rn_toolCallID run) goldenArguments) False))))) s"

definition start_run :: "bytes \<Rightarrow> memorySession \<Rightarrow> memorySession" where
  "start_run r s =
     upd_run r (\<lambda>u. u\<lparr>rn_controls := (rn_controls u)\<lparr>co_model := (if co_model (rn_controls u) = [] then mt_CurrentModelID (ms_state s)
                                                              else co_model (rn_controls u))\<rparr>,
                      rn_started := True, rn_status := RunRunning\<rparr>) s"

definition compaction_due :: "memorySession \<Rightarrow> CompactionReason option" where
  "compaction_due s =
     (if referenceWindow \<le> ms_history s then Some CompactionOverflow
      else if ms_threshold s \<le> ms_history s then Some CompactionThreshold
      else None)"

text \<open>What follows once the run is marked as started; \<open>initial\<close> is \<^verbatim>\<open>emitInitial\<close> for a run that is promoted meanwhile.\<close>

definition emit_started :: "(bytes \<Rightarrow> unit mem_op) \<Rightarrow> bytes \<Rightarrow> unit mem_op" where
  "emit_started initial r s =
     (bind_op (get (\<lambda>s. (run_of s r, ms_now s))) (\<lambda>(run, now).
     bind_op (emit initial r (PRunStarted (co_model (rn_controls run)) now) False) (\<lambda>_.
     if rn_compaction run
     then bind_op (emitCompaction initial r CompactionRequested) (\<lambda>settled. if settled then ret () else emit_script initial r)
     else bind_op (section_op (\<lambda>s. s\<lparr>ms_history := ms_history s + rn_input run\<rparr>)) (\<lambda>_.
       bind_op (get compaction_due) (\<lambda>due.
       case due of
         Some reason \<Rightarrow> bind_op (emitCompaction initial r reason) (\<lambda>_. emit_script initial r)
       | None \<Rightarrow> emit_script initial r))))) s"

text \<open>\<^verbatim>\<open>emitInitial\<close>; the number bounds how many runs may be promoted one after the other: there is at most
  one reservation, and nothing is admitted while the operation holds \<^verbatim>\<open>opMu\<close>.\<close>

primrec emit_initial :: "nat \<Rightarrow> bytes \<Rightarrow> unit mem_op" where
  "emit_initial 0 r s = (Inl MemPromotions, s)"
| "emit_initial (Suc n) r s = bind_op (section_op (start_run r)) (\<lambda>_. emit_started (emit_initial n) r) s"

definition emitInitial :: "bytes \<Rightarrow> unit mem_op" where "emitInitial r s = emit_initial 2 r s"

definition answerRun :: "bytes \<Rightarrow> memorySession \<Rightarrow> memorySession" where
  "answerRun r s = refreshState (upd_run r (\<lambda>u. u\<lparr>rn_answered := True\<rparr>) (others s))"

section \<open>Submissions\<close>

record ToolChoice =
  tc_Allowed :: "bytes list option"
  tc_Disallowed :: "bytes list"

record mem_message =
  mg_ID :: bytes
  mg_Content :: content

text \<open>\<open>sq_ToolChoice\<close>: \<^const>\<open>Inl\<close> if the raw value is not the typed policy.\<close>

record MessageSubmitRequest =
  sq_SessionID :: bytes
  sq_TargetRunID :: bytes
  sq_Messages :: "mem_message list"
  sq_Delivery :: bytes
  sq_ModelID :: "bytes option"
  sq_Instructions :: "bytes option"
  sq_ToolChoice :: "unit + ToolChoice option"
  sq_OutputSchema :: bytes

record MessageSubmitResponse =
  sp_SubmissionID :: bytes
  sp_EffectiveDelivery :: bytes
  sp_DeliveryResolution :: bytes
  sp_Admission :: bytes
  sp_RunID :: bytes
  sp_Status :: RunStatus
  sp_ModelID :: bytes
  sp_TargetSequence :: "nat option"
  sp_MessageIDs :: "bytes list"

definition FeatureModelSelection :: bytes where "FeatureModelSelection = ''run.model_selection''"
definition FeatureInstructions :: bytes where "FeatureInstructions = ''run.instructions''"
definition FeatureToolSelection :: bytes where "FeatureToolSelection = ''run.tool_selection''"
definition FeatureStructuredOutput :: bytes where "FeatureStructuredOutput = ''run.structured_output''"

definition DeliveryKey :: "bytes \<Rightarrow> bytes" where "DeliveryKey mode = ''session.message.delivery.'' @ mode"

definition deliveryFeature :: "bytes \<Rightarrow> bytes" where
  "deliveryFeature mode = (if mode \<in> {''queue'', ''steer'', ''btw''} then DeliveryKey mode else [])"

definition Unsatisfiable :: "ToolChoice \<Rightarrow> bytes list \<Rightarrow> bytes option" where
  "Unsatisfiable c catalog = (case tc_Allowed c of None \<Rightarrow> None | Some names \<Rightarrow> find (\<lambda>name. name \<notin> set catalog) names)"

definition Permits :: "ToolChoice \<Rightarrow> bytes \<Rightarrow> bytes list \<Rightarrow> bool" where
  "Permits c name catalog =
     (if name \<notin> set catalog then False
      else if (case tc_Allowed c of None \<Rightarrow> False | Some names \<Rightarrow> name \<notin> set names) then False
      else name \<notin> set (tc_Disallowed c))"

definition callable_tools :: "ToolDefinition list \<Rightarrow> ToolDefinition list" where
  "callable_tools provided = scriptedCatalog @ provided"

definition catalog :: "ToolDefinition list \<Rightarrow> bytes list" where
  "catalog provided = map td_Name (callable_tools provided)"

definition elect_tool :: "ToolDefinition list \<Rightarrow> ToolChoice option \<Rightarrow> ToolDefinition option" where
  "elect_tool provided policy =
     find (\<lambda>tool. case policy of None \<Rightarrow> True | Some c \<Rightarrow> Permits c (td_Name tool) (catalog provided))
       (if provided \<noteq> [] then provided else callable_tools provided)"

definition no_tool :: ToolDefinition where
  "no_tool = \<lparr>td_Name = [], td_ExecutionOwner = [], td_Source = [], td_InputSchema = []\<rparr>"

text \<open>\<open>fits\<close>: whether the schema compiles and the fixed result satisfies it.  The refusal with the least
  feature key is the one that is reported.\<close>

definition admitControls :: "(bytes \<Rightarrow> bool) \<Rightarrow> ToolDefinition list \<Rightarrow> MessageSubmitRequest \<Rightarrow> mem_error + admittedControls" where
  "admitControls fits provided request =
     (let model_refusals = (case sq_ModelID request of
            Some m \<Rightarrow> if m \<noteq> ModelPrimary \<and> m \<noteq> ModelSecondary then [(FeatureModelSelection, MemModelNotFound m)] else []
          | None \<Rightarrow> []);
          (choice, choice_refusals) = (case sq_ToolChoice request of
            Inl _ \<Rightarrow> (None, [(FeatureToolSelection, MemUnsupported FeatureToolSelection [])])
          | Inr None \<Rightarrow> (None, [])
          | Inr (Some policy) \<Rightarrow> (case Unsatisfiable policy (catalog provided) of
                Some tool \<Rightarrow> (None, [(FeatureToolSelection, MemUnsupported FeatureToolSelection tool)])
              | None \<Rightarrow> (Some policy, [])));
          elected = elect_tool provided choice;
          schema_refusals = (if sq_OutputSchema request \<noteq> [] \<and> \<not> fits (sq_OutputSchema request)
            then [(FeatureStructuredOutput, MemUnsupported FeatureStructuredOutput ''output_schema'')] else [])
      in case sort_key fst (model_refusals @ choice_refusals @ schema_refusals) of
        (key, err) # _ \<Rightarrow> Inl err
      | [] \<Rightarrow> Inr \<lparr>co_model = (case sq_ModelID request of Some m \<Rightarrow> m | None \<Rightarrow> []),
                   co_instructions = (case sq_Instructions request of Some i \<Rightarrow> i | None \<Rightarrow> []),
                   co_outputSchema = sq_OutputSchema request,
                   co_elected = (case elected of Some tool \<Rightarrow> tool | None \<Rightarrow> no_tool), co_callsTool = (elected \<noteq> None)\<rparr>)"

definition refuseSteerControls :: "MessageSubmitRequest \<Rightarrow> mem_error option" where
  "refuseSteerControls request =
     (case sort ((if sq_Instructions request \<noteq> None then [FeatureInstructions] else []) @
                 (if sq_ModelID request \<noteq> None then [FeatureModelSelection] else []) @
                 (if sq_OutputSchema request \<noteq> [] then [FeatureStructuredOutput] else []) @
                 (if sq_ToolChoice request \<noteq> Inr None then [FeatureToolSelection] else [])) of
        [] \<Rightarrow> None
      | key # _ \<Rightarrow> Some (MemUnsupported key []))"

definition steerTarget :: "memorySession \<Rightarrow> bytes \<Rightarrow> bytes option \<times> bytes" where
  "steerTarget s target =
     (if target \<noteq> [] then
        (case ms_runs s target of
           None \<Rightarrow> (None, ''unknown_target'')
         | Some run \<Rightarrow>
             if rn_terminal run then (Some target, ''terminal'')
             else if rn_status run = RunCancelling then (Some target, ''not_steerable'')
             else if \<not> rn_started run then (Some target, ''queued'')
             else (Some target, []))
      else case find (\<lambda>p. case p of None \<Rightarrow> False | Some r \<Rightarrow> rn_started (run_of s r) \<and> \<not> rn_terminal (run_of s r))
                  [ms_active s, ms_reserved s] of
        Some (Some r) \<Rightarrow> if rn_status (run_of s r) = RunCancelling then (Some r, ''not_steerable'') else (Some r, [])
      | _ \<Rightarrow> (None, ''no_active_run''))"

fun message_ids :: "mem_message list \<Rightarrow> bytes list mem_op" where
  "message_ids [] = ret []"
| "message_ids (m # ms) =
     bind_op (if mg_ID m = [] then NewID ''message'' else ret (mg_ID m)) (\<lambda>i. bind_op (message_ids ms) (\<lambda>is. ret (i # is)))"

definition mem_steer :: "bytes \<Rightarrow> MessageSubmitRequest \<Rightarrow> MessageSubmitResponse mem_op" where
  "mem_steer envelopeID request s0 =
     (if sq_SessionID request = [] \<or> sq_Messages request = [] then (Inl MemInvalidSubmission, s0)
      else case refuseSteerControls request of Some err \<Rightarrow> (Inl err, s0) | None \<Rightarrow>
        let s = others s0
        in if ms_closed s then (Inl MemSessionClosed, s)
           else if sq_SessionID request \<noteq> mt_SessionID (ms_state s) then (Inl MemRunNotFound, s)
           else (case steerTarget s (sq_TargetRunID request) of
               (target, reason) \<Rightarrow>
                 if reason \<noteq> []
                 then (Inl (MemInvalidSteerTarget (sq_TargetRunID request) reason
                        (map_option (\<lambda>r. rn_nextSequence (run_of s r) - 1) target)), s)
                 else bind_op (message_ids (sq_Messages request)) (\<lambda>mids.
                      bind_op (NewID ''submission'') (\<lambda>submission s1.
                        let r = the target; run = run_of s1 r;
                            s2 = upd_run r (\<lambda>u. u\<lparr>rn_steers := rn_steers u @ [\<lparr>ps_submissionID = submission, ps_requestID = envelopeID, ps_messages = mids\<rparr>],
                                                  rn_admittedSteers := rn_admittedSteers u @ [envelopeID]\<rparr>) s1
                        in (Inr \<lparr>sp_SubmissionID = submission, sp_EffectiveDelivery = ''steer'', sp_DeliveryResolution = [], sp_Admission = ''steered'',
                                sp_RunID = r, sp_Status = rn_status run, sp_ModelID = [], sp_TargetSequence = Some (rn_nextSequence run - 1),
                                sp_MessageIDs = mids\<rparr>,
                            refreshState (upd_state (\<lambda>t. t\<lparr>mt_UpdatedAtMS := ms_now s2\<rparr>) s2)))) s))"

definition no_controls :: admittedControls where
  "no_controls = \<lparr>co_model = [], co_instructions = [], co_outputSchema = [], co_elected = no_tool, co_callsTool = False\<rparr>"

definition blank_run :: "memorySession \<Rightarrow> memoryRun" where
  "blank_run s = \<lparr>rn_status = RunRunning, rn_started = False, rn_queuedAdmission = False, rn_answered = False, rn_pendingInteraction = [],
     rn_stage = stageInput, rn_controls = no_controls, rn_nextSequence = 1, rn_terminal = False, rn_permissionID = [], rn_inputID = [],
     rn_toolCallID = [], rn_callID = [], rn_providedTool = no_tool, rn_acknowledged = False, rn_settledArm = [], rn_settledResult = [],
     rn_settledError = None, rn_settledRequestID = [], rn_settlementID = [], rn_requestedBy = endpointID, rn_respondedBy = ms_participant s,
     rn_steers = [], rn_admittedSteers = [], rn_compaction = False, rn_compactContinue = False, rn_compactFocus = [], rn_input = 0\<rparr>"

text \<open>The run of a submission and the run of a compaction, with the ids they draw.\<close>

definition submit_run :: "admittedControls \<Rightarrow> 64 word \<Rightarrow> (bytes \<times> memoryRun) mem_op" where
  "submit_run controls input s =
     (bind_op (NewID ''run'') (\<lambda>r.
     bind_op (NewID ''permission'') (\<lambda>permission.
     bind_op (NewID ''input'') (\<lambda>question.
     bind_op (NewID ''tool-call'') (\<lambda>call.
     bind_op (get (\<lambda>s. (blank_run s)\<lparr>rn_stage := stagePermission, rn_controls := controls, rn_permissionID := permission, rn_inputID := question,
         rn_toolCallID := call, rn_input := input\<rparr>)) (\<lambda>run.
     bind_op (get ms_provided) (\<lambda>provided.
     if \<not> co_callsTool controls then ret (r, run\<lparr>rn_stage := stageInput\<rparr>)
     else if provided \<noteq> []
     then bind_op (NewID ''call'') (\<lambda>c. ret (r, run\<lparr>rn_stage := stageCall, rn_callID := c, rn_providedTool := co_elected controls\<rparr>))
     else ret (r, run)))))))) s"

definition compact_run :: "bytes \<Rightarrow> bool \<Rightarrow> bytes \<Rightarrow> (bytes \<times> memoryRun) mem_op" where
  "compact_run model continue focus s =
     (bind_op (NewID ''run'') (\<lambda>r.
     bind_op (NewID ''input'') (\<lambda>question.
     get (\<lambda>s. (r, (blank_run s)\<lparr>rn_controls := no_controls\<lparr>co_model := model\<rparr>, rn_inputID := question, rn_compaction := True,
       rn_compactContinue := continue, rn_compactFocus := focus\<rparr>))))) s"

text \<open>A run is entered: with its stream, as the reservation if the session is busy.\<close>

definition enter_run :: "bool \<Rightarrow> bool \<Rightarrow> bytes \<Rightarrow> memoryRun \<Rightarrow> memorySession \<Rightarrow> memorySession" where
  "enter_run busy reservation r run s =
     (let k = ms_nstream s;
          run1 = run\<lparr>rn_queuedAdmission := reservation, rn_status := (if reservation then RunQueued else rn_status run)\<rparr>;
          s1 = subscribe_run r k (new_stream r 0 [] False s);
          s2 = s1\<lparr>ms_runs := (ms_runs s1)(r \<mapsto> run1)\<rparr>;
          s3 = (if busy then s2\<lparr>ms_reserved := Some r\<rparr> else s2\<lparr>ms_active := Some r\<rparr>)
      in upd_state (\<lambda>t. t\<lparr>mt_UpdatedAtMS := ms_now s\<rparr>) (refreshState s3))"

text \<open>The rest of \<^verbatim>\<open>Submit\<close> and \<^verbatim>\<open>Compact\<close> after the run was entered; the answer is marked whatever
  the script brings.\<close>

definition start_entered :: "bool \<Rightarrow> bytes \<Rightarrow> 'a \<Rightarrow> 'a mem_op" where
  "start_entered busy r answer s =
     (if busy then (Inr answer, answerRun r s)
      else case emitInitial r s of (Inl err, s1) \<Rightarrow> (Inl err, answerRun r s1) | (Inr _, s1) \<Rightarrow> (Inr answer, answerRun r s1))"

definition admission :: "bool \<Rightarrow> bool \<Rightarrow> bytes \<Rightarrow> bytes \<Rightarrow> bytes \<Rightarrow> bytes list \<Rightarrow> MessageSubmitResponse" where
  "admission busy reservation submission r model mids =
     \<lparr>sp_SubmissionID = submission, sp_EffectiveDelivery = (if reservation then ''queue'' else ''start''),
      sp_DeliveryResolution = (if busy then ''session_busy'' else ''session_idle''),
      sp_Admission = (if reservation then ''queued'' else ''started''), sp_RunID = r,
      sp_Status = (if reservation then RunQueued else RunRunning), sp_ModelID = model, sp_TargetSequence = None, sp_MessageIDs = mids\<rparr>"

definition admit_run :: "bool \<Rightarrow> bool \<Rightarrow> bytes \<Rightarrow> mem_message list \<Rightarrow> bytes \<times> memoryRun \<Rightarrow> MessageSubmitResponse mem_op" where
  "admit_run busy reservation model messages entered s =
     (case entered of (r, run) \<Rightarrow>
        bind_op (message_ids messages) (\<lambda>mids.
        bind_op (NewID ''submission'') (\<lambda>submission.
        start_entered busy r (admission busy reservation submission r model mids)))
          (enter_run busy reservation r run s))"

definition mem_Submit :: "(bytes \<Rightarrow> bool) \<Rightarrow> bool \<Rightarrow> bytes \<Rightarrow> MessageSubmitRequest \<Rightarrow> MessageSubmitResponse mem_op" where
  "mem_Submit fits cancelled envelopeID request s0 =
     (if cancelled then (Inl MemContext, s0)
      else if sq_Delivery request = ''steer'' then mem_steer envelopeID request s0
      else case admitControls fits (ms_provided s0) request of Inl err \<Rightarrow> (Inl err, s0) | Inr controls0 \<Rightarrow>
        if sq_SessionID request = [] \<or> sq_Messages request = [] then (Inl MemInvalidSubmission, s0)
        else if sq_Delivery request \<notin> {[], ''auto'', ''queue''}
        then (Inl (if deliveryFeature (sq_Delivery request) \<noteq> [] then MemUnsupported (deliveryFeature (sq_Delivery request)) []
                   else MemInvalidSubmission), s0)
        else let s = others s0; busy = run_live s (ms_active s)
             in if ms_closed s then (Inl MemSessionClosed, s)
                else if sq_SessionID request \<noteq> mt_SessionID (ms_state s) then (Inl MemRunNotFound, s)
                else if busy \<and> run_live s (ms_reserved s) then (Inl MemRunActive, s)
                else let queue = (sq_Delivery request = ''queue'');
                         controls = (if \<not> busy \<and> \<not> queue \<and> co_model controls0 = []
                                     then controls0\<lparr>co_model := mt_CurrentModelID (ms_state s)\<rparr> else controls0);
                         reservation = (busy \<or> queue)
                     in bind_op (submit_run controls (historyTokens (map mg_Content (sq_Messages request))))
                          (admit_run busy reservation (co_model controls) (sq_Messages request)) s)"

definition mem_Compact :: "bool \<Rightarrow> bytes \<Rightarrow> bytes \<Rightarrow> bytes option \<Rightarrow> bool \<Rightarrow> MessageSubmitResponse mem_op" where
  "mem_Compact cancelled sid delivery focus continue s0 =
     (if cancelled then (Inl MemContext, s0)
      else if delivery \<notin> {[], ''auto'', ''queue''} then (Inl (MemUnsupported (DeliveryKey delivery) []), s0)
      else if sid = [] then (Inl MemInvalidSubmission, s0)
      else let s = others s0; busy = run_live s (ms_active s)
           in if ms_closed s then (Inl MemSessionClosed, s)
              else if sid \<noteq> mt_SessionID (ms_state s) then (Inl MemRunNotFound, s)
              else if busy \<and> run_live s (ms_reserved s) then (Inl MemRunActive, s)
              else let queue = (delivery = ''queue''); reservation = (busy \<or> queue);
                       model = (if \<not> busy \<and> \<not> queue then mt_CurrentModelID (ms_state s) else [])
                   in bind_op (compact_run model continue (case focus of Some f \<Rightarrow> f | None \<Rightarrow> [])) 
                        (admit_run busy reservation [] []) s)"

section \<open>Answers\<close>

record PermissionResolveRequest =
  pr_InteractionID :: bytes
  pr_RequestedBy :: bytes
  pr_RespondedBy :: bytes
  pr_SessionID :: bytes
  pr_RunID :: bytes
  pr_ChoiceID :: bytes
  pr_Granted :: bool

record UserInputResolveRequest =
  ur_InteractionID :: bytes
  ur_RequestedBy :: bytes
  ur_RespondedBy :: bytes
  ur_SessionID :: bytes
  ur_RunID :: bytes
  ur_Answers :: "InputAnswer list"

record InteractionResolution =
  ir_RunID :: bytes
  ir_RespondedBy :: bytes
  ir_Permission :: "PermissionResolveRequest option"
  ir_Input :: "UserInputResolveRequest option"

definition goldenInputQuestion :: InputQuestion where
  "goldenInputQuestion = \<lparr>iq_ID = ''choice'', iq_Kind = InputSingleChoice, iq_Required = True, iq_Options = [''yes'']\<rparr>"

definition offeredPermissionChoice :: "bytes \<Rightarrow> bool option" where
  "offeredPermissionChoice choice = (if choice = ''approve'' then Some True else if choice = ''deny'' then Some False else None)"

definition finalText :: bytes where "finalText = ''The golden script completed.''"

definition resolvePermission :: "bytes \<Rightarrow> PermissionResolveRequest \<Rightarrow> unit mem_op" where
  "resolvePermission r request s =
     (bind_op (get (\<lambda>s. run_of s r)) (\<lambda>run.
     bind_op (emit emitInitial r (PPermissionResolved (rn_permissionID run) True (pr_ChoiceID request) (Some (pr_Granted request))) False) (\<lambda>_.
     if \<not> pr_Granted request
     then bind_op (emit emitInitial r (PActionCall CallCancelled (scripted_call run [] [] (rn_respondedBy run))) False) (\<lambda>_.
          emit emitInitial r (PRunFailed ''permission_denied'') True)
     else bind_op (emit emitInitial r (PActionCall CallStarted (scripted_call run goldenArguments [] [])) False) (\<lambda>_.
          bind_op (emit emitInitial r (PActionCall CallCompleted (scripted_call run [] fixedResult [])) False) (\<lambda>_.
          requestInput emitInitial r))))) s"

definition resolveInput :: "bytes \<Rightarrow> UserInputResolveRequest \<Rightarrow> unit mem_op" where
  "resolveInput r request s =
     (bind_op (get (\<lambda>s. run_of s r)) (\<lambda>run.
     bind_op (emit emitInitial r (PInputResolved (rn_inputID run) True (ur_Answers request)) False) (\<lambda>_.
     bind_op (NewID ''message'') (\<lambda>message.
     bind_op (emit emitInitial r (PContentDelta message finalText) False) (\<lambda>_.
     bind_op (section_op (\<lambda>s. s\<lparr>ms_history := ms_history s + historyTokens [TextContent finalText]\<rparr>)) (\<lambda>_ s.
     case emit emitInitial r (PRunCompleted message finalText ''end_turn'' (co_model (rn_controls run))
            (if co_outputSchema (rn_controls run) \<noteq> [] then fixedResult else [])) True s of
       (Inl MemTerminalWon, s1) \<Rightarrow>
         section_op (\<lambda>s. s\<lparr>ms_history := ms_history s - historyTokens [TextContent finalText]\<rparr>) s1
     | x \<Rightarrow> x)))))) s"

definition mem_Resolve :: "bool \<Rightarrow> InteractionResolution \<Rightarrow> unit mem_op" where
  "mem_Resolve cancelled resolution s0 =
     (if cancelled then (Inl MemContext, s0)
      else let s = others s0; r = ir_RunID resolution; sid = mt_SessionID (ms_state s)
           in if ms_closed s then (Inl MemSessionClosed, s)
              else case ms_runs s r of
                None \<Rightarrow> (Inl MemRunNotFound, s)
              | Some run \<Rightarrow>
                  if rn_terminal run then (Inl MemInteractionResolved, s)
                  else if \<not> rn_started run then (Inl MemInteractionNotFound, s)
                  else if ir_RespondedBy resolution \<noteq> rn_respondedBy run then (Inl MemWrongResponder, s)
                  else (case rn_stage run of
                      stagePermission \<Rightarrow>
                        (case ir_Permission resolution of
                           None \<Rightarrow> (Inl MemInvalidResolution, s)
                         | Some p \<Rightarrow>
                             if ir_Input resolution \<noteq> None \<or> pr_InteractionID p \<noteq> rn_permissionID run \<or> pr_SessionID p \<noteq> sid \<or> pr_RunID p \<noteq> r
                             then (Inl MemInvalidResolution, s)
                             else if pr_RequestedBy p \<noteq> rn_requestedBy run \<or> pr_RespondedBy p \<noteq> rn_respondedBy run then (Inl MemInvalidResolution, s)
                             else if offeredPermissionChoice (pr_ChoiceID p) \<noteq> Some (pr_Granted p) then (Inl MemInvalidResolution, s)
                             else resolvePermission r p (upd_run r (\<lambda>u. u\<lparr>rn_stage := stageInput\<rparr>) s))
                    | stageInput \<Rightarrow>
                        (case ir_Input resolution of
                           None \<Rightarrow> (Inl MemInvalidResolution, s)
                         | Some p \<Rightarrow>
                             if ir_Permission resolution \<noteq> None \<or> ur_InteractionID p \<noteq> rn_inputID run \<or> ur_SessionID p \<noteq> sid \<or> ur_RunID p \<noteq> r
                             then (Inl MemInvalidResolution, s)
                             else if ur_RequestedBy p \<noteq> rn_requestedBy run \<or> ur_RespondedBy p \<noteq> rn_respondedBy run then (Inl MemInvalidResolution, s)
                             else if length (ur_Answers p) \<noteq> 1 \<or> \<not> ValidateInputAnswer goldenInputQuestion (ur_Answers p ! 0)
                             then (Inl MemInvalidResolution, s)
                             else resolveInput r p (upd_run r (\<lambda>u. u\<lparr>rn_stage := stageTerminal\<rparr>) s))
                    | stageCall \<Rightarrow> (Inl MemInteractionNotFound, s)
                    | stageTerminal \<Rightarrow> (Inl MemInteractionResolved, s)))"

record ActionCallResolveRequest =
  cr_InteractionID :: bytes
  cr_SessionID :: bytes
  cr_RunID :: bytes
  cr_ToolCallID :: bytes
  cr_RequestedBy :: bytes
  cr_RespondedBy :: bytes
  cr_Started :: bool
  cr_Result :: "bytes option"
  cr_Error :: "bytes option"

definition Arm :: "ActionCallResolveRequest \<Rightarrow> bytes" where
  "Arm c =
     (case (cr_Started c, cr_Result c, cr_Error c) of
        (True, None, None) \<Rightarrow> ''started'' | (False, Some x, None) \<Rightarrow> ''result'' | (False, None, Some e) \<Rightarrow> ''error'' | _ \<Rightarrow> [])"

datatype call_answer = CallAccepted | CallRefused bytes bytes

definition settleCall :: "bytes \<Rightarrow> bool \<Rightarrow> unit mem_op" where
  "settleCall r acknowledged s =
     (bind_op (get (\<lambda>s. run_of s r)) (\<lambda>run.
     bind_op (if acknowledged then ret ()
              else emit emitInitial r (PActionCall CallStarted ((callPayload run (rn_settledRequestID run))\<lparr>ac_ArgumentsJSON := goldenArguments\<rparr>)) False) (\<lambda>_.
     bind_op (if rn_settledArm run = ''error''
              then emit emitInitial r (PActionCall CallFailed ((callPayload run (rn_settledRequestID run))\<lparr>ac_Error := rn_settledError run\<rparr>)) False
              else emit emitInitial r (PActionCall CallCompleted ((callPayload run (rn_settledRequestID run))\<lparr>ac_Result := rn_settledResult run\<rparr>)) False) (\<lambda>_.
     requestInput emitInitial r)))) s"

definition mem_ResolveCall :: "bool \<Rightarrow> bytes \<Rightarrow> ActionCallResolveRequest \<Rightarrow> call_answer mem_op" where
  "mem_ResolveCall cancelled requestID request s0 =
     (if cancelled then (Inl MemContext, s0)
      else let s = others s0; r = cr_RunID request; arm = Arm request
           in if ms_closed s then (Inl MemSessionClosed, s)
              else case ms_runs s r of
                None \<Rightarrow> (Inr (CallRefused ''unknown_interaction'' []), s)
              | Some run \<Rightarrow>
                  if rn_callID run = [] \<or> cr_InteractionID request \<noteq> rn_callID run \<or> cr_SessionID request \<noteq> mt_SessionID (ms_state s)
                  then (Inr (CallRefused ''unknown_interaction'' []), s)
                  else if cr_RespondedBy request \<noteq> rn_respondedBy run \<or> cr_RequestedBy request \<noteq> rn_requestedBy run \<or>
                    cr_ToolCallID request \<noteq> rn_toolCallID run
                  then (Inr (CallRefused ''wrong_responder'' []), s)
                  else if arm = [] then (Inr (CallRefused ''unknown_interaction'' []), s)
                  else if rn_settledArm run \<noteq> [] then
                    (if arm = ''started'' \<and> rn_settlementID run = [] then (Inr (CallRefused ''late_acknowledgement'' []), s)
                     else (Inr (CallRefused ''already_resolved''
                        (if rn_settlementID run = [] then rn_settledRequestID run else rn_settlementID run)), s))
                  else if rn_terminal run \<or> rn_stage run \<noteq> stageCall then (Inr (CallRefused ''already_resolved'' (rn_settlementID run)), s)
                  else if arm = ''started'' \<and> rn_acknowledged run then (Inr (CallRefused ''repeated_acknowledgement'' []), s)
                  else if arm = ''started''
                  then bind_op (unless_won (emit emitInitial r
                         (PActionCall CallStarted ((callPayload run requestID)\<lparr>ac_ArgumentsJSON := goldenArguments\<rparr>)) False))
                       (\<lambda>_. ret CallAccepted) (upd_run r (\<lambda>u. u\<lparr>rn_acknowledged := True\<rparr>) s)
                  else bind_op (unless_won (settleCall r (rn_acknowledged run))) (\<lambda>_. ret CallAccepted)
                       (upd_run r (\<lambda>u. u\<lparr>rn_settledArm := arm, rn_settledRequestID := requestID,
                          rn_settledResult := (case cr_Result request of Some x \<Rightarrow> x | None \<Rightarrow> []), rn_settledError := cr_Error request,
                          rn_stage := stageInput\<rparr>) s))"

section \<open>Cancellation and closing\<close>

definition cancel_started :: "bytes \<Rightarrow> unit mem_op" where
  "cancel_started r s =
     (bind_op (get (\<lambda>s. run_of s r)) (\<lambda>run.
     bind_op (get ms_now) (\<lambda>now.
     bind_op (unless_won (emit emitInitial r (PStatusUpdated RunCancelling [] now) False)) (\<lambda>_.
     bind_op (if rn_stage run = stageCall
              then ignoring (emit emitInitial r (PActionCall CallCancelled (callPayload run [])) False) else ret ()) (\<lambda>_.
     bind_op (if rn_stage run = stagePermission
              then bind_op (ignoring (emit emitInitial r (PPermissionResolved (rn_permissionID run) False [] None) False)) (\<lambda>_.
                   ignoring (emit emitInitial r (PActionCall CallCancelled (scripted_call run [] [] (rn_respondedBy run))) False))
              else if rn_stage run = stageInput
              then ignoring (emit emitInitial r (PInputResolved (rn_inputID run) False []) False)
              else ret ()) (\<lambda>_.
     ignoring (emit emitInitial r (PRunCancelled ''cancel confirmed'') True))))))) s"

definition mem_Cancel :: "bool \<Rightarrow> bytes \<Rightarrow> RunStatus mem_op" where
  "mem_Cancel cancelled r s0 =
     (if cancelled then (Inl MemContext, s0)
      else let s = others s0
           in if ms_closed s then (Inl MemSessionClosed, s)
              else case ms_runs s r of
                None \<Rightarrow> (Inl MemRunNotFound, s)
              | Some run \<Rightarrow>
                  if rn_terminal run
                  then (if rn_status run = RunCancelled then Inr RunCancelled else Inl (MemRunTerminal r (rn_status run)), s)
                  else if rn_status run = RunCancelling then (Inr RunCancelling, s)
                  else bind_op (if \<not> rn_started run then ignoring (emit emitInitial r (PRunCancelled ''reservation cancelled before promotion'') True)
                                else cancel_started r)
                         (\<lambda>_. ret RunCancelling) (upd_run r (\<lambda>u. u\<lparr>rn_status := RunCancelling\<rparr>) s))"

text \<open>\<open>runs\<close>: the ids of the runs, in the order in which the map happens to list them.\<close>

definition mem_Close :: "bool \<Rightarrow> bytes list \<Rightarrow> Memory \<Rightarrow> memorySession \<Rightarrow> mem_error option \<times> Memory \<times> memorySession" where
  "mem_Close cancelled runs m s0 =
     (if cancelled then (Some MemContext, m, s0)
      else let s = others s0
           in if ms_closed s then (None, m, s)
              else if run_live s (ms_active s) \<or> run_live s (ms_reserved s) then (Some MemRunActive, m, s)
              else let s1 = upd_state (\<lambda>t. t\<lparr>mt_Status := SessionClosed, mt_ActiveRunID := [], mt_UpdatedAtMS := ms_now s\<rparr>) (s\<lparr>ms_closed := True\<rparr>);
                       subscribers = concat (map (ms_subscribers s1) runs)
                   in (None, keep m (mt_SessionID (ms_state s1)) (mt_CurrentModelID (ms_state s1)) (mt_CompactionPolicy (ms_state s1)),
                       fold close_stream subscribers (s1\<lparr>ms_subscribers := (\<lambda>r. if r \<in> set runs then [] else ms_subscribers s1 r)\<rparr>)))"

end
