(* ===== verification/Memory_Trace.thy ===== *)
theory Memory_Trace
  imports Memory_Session
begin

text \<open>
  The sessions of the reference adapter that can be reached, and what holds of their events and
  streams whatever clients ask, in whatever order, and whatever intervenes: the numbering of the
  events, the one terminal event, the journal, and what every stream was sent.
\<close>

section \<open>Reachable sessions\<close>

datatype mem_call =
    CallSubmit bytes MessageSubmitRequest
  | CallCompact bytes bytes "bytes option" bool
  | CallResolve InteractionResolution
  | CallResolveCall bytes ActionCallResolveRequest
  | CallCancel bytes
  | CallAct mem_action

definition run_call :: "(bytes \<Rightarrow> bool) \<Rightarrow> mem_call \<Rightarrow> memorySession \<Rightarrow> memorySession" where
  "run_call fits c s =
     (case c of
        CallSubmit envelopeID request \<Rightarrow> snd (mem_Submit fits False envelopeID request s)
      | CallCompact sid delivery focus continue \<Rightarrow> snd (mem_Compact False sid delivery focus continue s)
      | CallResolve resolution \<Rightarrow> snd (mem_Resolve False resolution s)
      | CallResolveCall requestID request \<Rightarrow> snd (mem_ResolveCall False requestID request s)
      | CallCancel r \<Rightarrow> snd (mem_Cancel False r s)
      | CallAct a \<Rightarrow> mem_act a s)"

text \<open>\<open>acts\<close> is what intervenes while the call runs.\<close>

inductive mem_reach :: "(bytes \<Rightarrow> bool) \<Rightarrow> memorySession \<Rightarrow> bool" for fits where
  mem_opened: "mem_Open dialect False request m = (Inr s, m1) \<Longrightarrow> mem_reach fits s"
| mem_called: "mem_reach fits s \<Longrightarrow> mem_reach fits (run_call fits c (s\<lparr>ms_others := acts\<rparr>))"
| mem_closed: "mem_reach fits s \<Longrightarrow> set runs = dom (ms_runs s) \<Longrightarrow> distinct runs \<Longrightarrow>
    mem_Close False runs m (s\<lparr>ms_others := acts\<rparr>) = (err, m1, s1) \<Longrightarrow> mem_reach fits s1"

section \<open>The invariant\<close>

definition events :: "memorySession \<Rightarrow> bytes \<Rightarrow> mem_event list" where
  "events s r = filter (\<lambda>e. me_Run e = r) (ms_log s)"

definition terminal_payload :: "payload \<Rightarrow> bool" where
  "terminal_payload p = (case p of PRunCompleted m t st md res \<Rightarrow> True | PRunFailed c \<Rightarrow> True | PRunCancelled re \<Rightarrow> True | _ \<Rightarrow> False)"

abbreviation terminal_event :: "mem_event \<Rightarrow> bool" where
  "terminal_event e \<equiv> terminal_payload (me_Payload e)"

definition run_ok :: "mem_event list \<Rightarrow> memoryRun \<Rightarrow> bool" where
  "run_ok evs run \<longleftrightarrow> map me_Seq evs = [1..<rn_nextSequence run] \<and> 1 \<le> rn_nextSequence run \<and>
     (\<forall>e \<in> set (butlast evs). \<not> terminal_event e) \<and> (rn_terminal run \<longleftrightarrow> evs \<noteq> [] \<and> terminal_event (last evs))"

definition stream_ok :: "memorySession \<Rightarrow> nat \<Rightarrow> bool" where
  "stream_ok s k \<longleftrightarrow>
     (let t = ms_streams s k; evs = filter (\<lambda>e. me_Seq e > sm_after t) (events s (sm_run t))
      in (\<exists>run. ms_runs s (sm_run t) = Some run \<and> sm_after t < rn_nextSequence run \<and> (sm_closed t \<longrightarrow> sm_sent t = [] \<or> rn_terminal run)) \<and>
         (sm_sent t = evs \<or> sm_closed t \<and> sm_sent t = []) \<and>
         (\<not> sm_closed t \<longrightarrow> sm_sent t = evs \<and> k \<in> set (ms_subscribers s (sm_run t))))"

definition subscribers_ok :: "memorySession \<Rightarrow> bytes \<Rightarrow> bool" where
  "subscribers_ok s r \<longleftrightarrow> distinct (ms_subscribers s r) \<and>
     (\<forall>k \<in> set (ms_subscribers s r). k < ms_nstream s \<and> sm_run (ms_streams s k) = r \<and> \<not> sm_closed (ms_streams s k) \<and>
        (\<exists>run. ms_runs s r = Some run \<and> \<not> rn_terminal run))"

definition core :: "memorySession \<Rightarrow> bool" where
  "core s \<longleftrightarrow>
     (\<forall>r run. ms_runs s r = Some run \<longrightarrow> run_ok (events s r) run) \<and> (\<forall>e \<in> set (ms_log s). me_Run e \<in> dom (ms_runs s)) \<and>
     (\<forall>r \<in> dom (ms_runs s). \<exists>n \<le> ms_ids s. r = sequence_id ''run'' n) \<and>
     ms_journal s = drop (length (ms_log s) - ms_capacity s) (ms_log s) \<and>
     (\<forall>k < ms_nstream s. stream_ok s k) \<and> (\<forall>r. subscribers_ok s r) \<and>
     set_option (ms_active s) \<union> set_option (ms_reserved s) \<subseteq> dom (ms_runs s) \<and> \<not> ms_panicked s \<and>
     (\<forall>r run. ms_runs s r = Some run \<longrightarrow> \<not> rn_terminal run \<longrightarrow> r \<in> set_option (ms_active s) \<union> set_option (ms_reserved s))"

text \<open>What the invariant depends on.\<close>

definition same_runs :: "(bytes \<rightharpoonup> memoryRun) \<Rightarrow> (bytes \<rightharpoonup> memoryRun) \<Rightarrow> bool" where
  "same_runs R R1 \<longleftrightarrow> (\<forall>r. map_option (\<lambda>u. (rn_nextSequence u, rn_terminal u)) (R r) = map_option (\<lambda>u. (rn_nextSequence u, rn_terminal u)) (R1 r))"

lemma same_runs_refl [simp]: "same_runs R R"
  by (simp add: same_runs_def)

lemma same_runs_at: "same_runs R R1 \<Longrightarrow>
    map_option (\<lambda>u. (rn_nextSequence u, rn_terminal u)) (R r) = map_option (\<lambda>u. (rn_nextSequence u, rn_terminal u)) (R1 r)"
  by (simp add: same_runs_def)

lemma same_runs_dom:
  assumes "same_runs R R1"
  shows "dom R1 = dom R"
proof (rule set_eqI)
  fix r show "r \<in> dom R1 \<longleftrightarrow> r \<in> dom R" using same_runs_at[OF assms, of r] by (cases "R r"; cases "R1 r") auto
qed

lemma same_runs_Some:
  assumes "same_runs R R1" "R1 r = Some run"
  obtains run0 where "R r = Some run0" "rn_nextSequence run0 = rn_nextSequence run" "rn_terminal run0 = rn_terminal run"
  using same_runs_at[OF assms(1), of r] assms(2) that by (cases "R r") auto

lemma same_runs_SomeD:
  assumes "same_runs R R1" "R r = Some run" "\<not> rn_terminal run"
  shows "\<exists>run1. R1 r = Some run1 \<and> \<not> rn_terminal run1"
  using same_runs_at[OF assms(1), of r] assms(2,3) by (cases "R1 r") auto

lemma same_runs_upd:
  assumes "\<And>u. rn_nextSequence (f u) = rn_nextSequence u" "\<And>u. rn_terminal (f u) = rn_terminal u"
  shows "same_runs R (R(r := map_option f (R r)))"
  using assms by (simp add: same_runs_def option.map_comp comp_def)

lemma run_ok_cong:
  "run_ok evs u \<Longrightarrow> rn_nextSequence v = rn_nextSequence u \<Longrightarrow> rn_terminal v = rn_terminal u \<Longrightarrow> run_ok evs v"
  by (simp add: run_ok_def)

lemma coreI:
  assumes "\<And>r run. ms_runs s r = Some run \<Longrightarrow> run_ok (events s r) run" "\<And>e. e \<in> set (ms_log s) \<Longrightarrow> me_Run e \<in> dom (ms_runs s)"
    "\<And>r. r \<in> dom (ms_runs s) \<Longrightarrow> \<exists>n \<le> ms_ids s. r = sequence_id ''run'' n"
    "ms_journal s = drop (length (ms_log s) - ms_capacity s) (ms_log s)" "\<And>k. k < ms_nstream s \<Longrightarrow> stream_ok s k" "\<And>r. subscribers_ok s r"
    "set_option (ms_active s) \<union> set_option (ms_reserved s) \<subseteq> dom (ms_runs s)" "\<not> ms_panicked s"
    "\<And>r run. ms_runs s r = Some run \<Longrightarrow> \<not> rn_terminal run \<Longrightarrow> r \<in> set_option (ms_active s) \<union> set_option (ms_reserved s)"
  shows "core s"
  using assms unfolding core_def by blast

lemma coreD:
  assumes "core s"
  shows "ms_runs s r = Some run \<Longrightarrow> run_ok (events s r) run" and "e \<in> set (ms_log s) \<Longrightarrow> me_Run e \<in> dom (ms_runs s)"
    and "r \<in> dom (ms_runs s) \<Longrightarrow> \<exists>n \<le> ms_ids s. r = sequence_id ''run'' n"
    and "ms_journal s = drop (length (ms_log s) - ms_capacity s) (ms_log s)" and "k < ms_nstream s \<Longrightarrow> stream_ok s k" and "subscribers_ok s r"
    and "set_option (ms_active s) \<union> set_option (ms_reserved s) \<subseteq> dom (ms_runs s)" and "\<not> ms_panicked s"
    and "ms_runs s r = Some run \<Longrightarrow> \<not> rn_terminal run \<Longrightarrow> r \<in> set_option (ms_active s) \<union> set_option (ms_reserved s)"
  using assms unfolding core_def by blast+

lemma subscribers_okD:
  assumes "subscribers_ok s r"
  shows "distinct (ms_subscribers s r)" and "k \<in> set (ms_subscribers s r) \<Longrightarrow> k < ms_nstream s \<and> sm_run (ms_streams s k) = r \<and> \<not> sm_closed (ms_streams s k)"
    and "k \<in> set (ms_subscribers s r) \<Longrightarrow> \<exists>run. ms_runs s r = Some run \<and> \<not> rn_terminal run"
  using assms unfolding subscribers_ok_def by blast+

lemma core_frame:
  assumes C: "core s" and R: "same_runs (ms_runs s) (ms_runs s1)"
    and F: "ms_log s1 = ms_log s" "ms_journal s1 = ms_journal s" "ms_capacity s1 = ms_capacity s" "ms_streams s1 = ms_streams s"
      "ms_nstream s1 = ms_nstream s" "ms_subscribers s1 = ms_subscribers s" "ms_panicked s1 = ms_panicked s"
      "ms_active s1 = ms_active s" "ms_reserved s1 = ms_reserved s" "ms_ids s \<le> ms_ids s1"
  shows "core s1"
proof (rule coreI)
  have ev: "events s1 r = events s r" for r by (simp add: events_def F)
  have d: "dom (ms_runs s1) = dom (ms_runs s)" using same_runs_dom[OF R] .
  show "run_ok (events s1 r) run" if run: "ms_runs s1 r = Some run" for r run
  proof -
    obtain run0 where "ms_runs s r = Some run0" "rn_nextSequence run0 = rn_nextSequence run" "rn_terminal run0 = rn_terminal run"
      using same_runs_Some[OF R run] .
    then show ?thesis using run_ok_cong[OF coreD(1)[OF C]] by (simp add: ev)
  qed
  show "stream_ok s1 k" if "k < ms_nstream s1" for k
  proof -
    have "\<exists>u. ms_runs s1 q = Some u \<and> n < rn_nextSequence u \<and> (b \<longrightarrow> c \<or> rn_terminal u)"
      if "\<exists>u. ms_runs s q = Some u \<and> n < rn_nextSequence u \<and> (b \<longrightarrow> c \<or> rn_terminal u)" for q n b c
      using that same_runs_at[OF R, of q] by (cases "ms_runs s1 q") auto
    then show ?thesis using coreD(5)[OF C, of k] that unfolding stream_ok_def Let_def ev F by blast
  qed
  show "subscribers_ok s1 r" for r
  proof -
    have "\<exists>run. ms_runs s1 r = Some run \<and> \<not> rn_terminal run" if "k \<in> set (ms_subscribers s r)" for k
      using subscribers_okD(3)[OF coreD(6)[OF C] that] same_runs_SomeD[OF R] by blast
    then show ?thesis using subscribers_okD(1,2)[OF coreD(6)[OF C, of r]] unfolding subscribers_ok_def F by blast
  qed
  show "\<exists>n \<le> ms_ids s1. r = sequence_id ''run'' n" if "r \<in> dom (ms_runs s1)" for r
    using coreD(3)[OF C, of r] that F(10) le_trans unfolding d by blast
  show "me_Run e \<in> dom (ms_runs s1)" if "e \<in> set (ms_log s1)" for e using coreD(2)[OF C, of e] that by (simp add: F d)
  show "set_option (ms_active s1) \<union> set_option (ms_reserved s1) \<subseteq> dom (ms_runs s1)" using coreD(7)[OF C] by (simp add: F d)
  show "r \<in> set_option (ms_active s1) \<union> set_option (ms_reserved s1)" if run: "ms_runs s1 r = Some run" "\<not> rn_terminal run" for r run
    using same_runs_Some[OF R run(1)] coreD(9)[OF C, of r] run(2) unfolding F by metis
qed (use coreD(4,8)[OF C] in \<open>simp_all add: F\<close>)

section \<open>Streams and resumption\<close>

lemma core_new_stream:
  assumes C: "core s" and R: "ms_runs s r = Some run" and E: "sent = filter (\<lambda>e. me_Seq e > after) (events s r) \<or> closed \<and> sent = []"
    and L: "\<not> closed \<Longrightarrow> \<not> rn_terminal run" "closed \<Longrightarrow> sent = [] \<or> rn_terminal run" and A: "after < rn_nextSequence run"
  shows "core (if closed then new_stream r after sent True s else subscribe_run r (ms_nstream s) (new_stream r after sent False s))"
    (is "core ?s")
proof (rule coreI)
  let ?k = "ms_nstream s"
  have ev: "events ?s q = events s q" for q by (simp add: events_def new_stream_def subscribe_run_def)
  have runs: "ms_runs ?s = ms_runs s" and n: "ms_nstream ?s = Suc ?k"
    and str: "ms_streams ?s j = (if j = ?k then \<lparr>sm_run = r, sm_after = after, sm_sent = sent, sm_closed = closed\<rparr> else ms_streams s j)"
    and subs: "ms_subscribers ?s q = (if q = r \<and> \<not> closed then ms_subscribers s r @ [?k] else ms_subscribers s q)" for j q
    by (simp_all add: new_stream_def subscribe_run_def)
  have old: "k \<in> set (ms_subscribers s q) \<Longrightarrow> k < ?k" for k q using subscribers_okD(2)[OF coreD(6)[OF C, of q]] by blast
  show "stream_ok ?s k" if "k < ms_nstream ?s" for k
  proof (cases "k = ?k")
    case True
    then show ?thesis using R E A L by (auto simp: stream_ok_def Let_def str ev runs subs)
  next
    case False
    then have "stream_ok s k" using that n coreD(5)[OF C, of k] by simp
    then show ?thesis using False by (auto simp: stream_ok_def Let_def str ev runs subs)
  qed
  show "subscribers_ok ?s q" for q
  proof -
    note ok = subscribers_okD[OF coreD(6)[OF C, of q]]
    have "distinct (ms_subscribers ?s q)" using ok(1) old[of ?k q] by (auto simp: subs)
    moreover have "k < ms_nstream ?s \<and> sm_run (ms_streams ?s k) = q \<and> \<not> sm_closed (ms_streams ?s k) \<and>
        (\<exists>run. ms_runs ?s q = Some run \<and> \<not> rn_terminal run)" if "k \<in> set (ms_subscribers ?s q)" for k
    proof (cases "k = ?k")
      case True
      then have "q = r" "\<not> closed" using that old[of ?k q] by (auto simp: subs split: if_splits)
      then show ?thesis using True R L by (simp add: new_stream_def subscribe_run_def)
    next
      case False
      then have k: "k \<in> set (ms_subscribers s q)" using that by (auto simp: subs split: if_splits)
      show ?thesis using ok(2)[OF k] ok(3)[OF k] False n runs by (simp add: str)
    qed
    ultimately show ?thesis unfolding subscribers_ok_def by blast
  qed
  show "run_ok (events ?s q) u" if "ms_runs ?s q = Some u" for q u using coreD(1)[OF C, of q u] that unfolding ev runs by simp
  have log: "ms_log ?s = ms_log s" and ids: "ms_ids ?s = ms_ids s" by (simp_all add: new_stream_def subscribe_run_def)
  show "me_Run e \<in> dom (ms_runs ?s)" if "e \<in> set (ms_log ?s)" for e using coreD(2)[OF C, of e] that unfolding runs log by simp
  show "\<exists>n \<le> ms_ids ?s. q = sequence_id ''run'' n" if "q \<in> dom (ms_runs ?s)" for q using coreD(3)[OF C, of q] that unfolding runs ids by simp
  show "q \<in> set_option (ms_active ?s) \<union> set_option (ms_reserved ?s)" if "ms_runs ?s q = Some u" "\<not> rn_terminal u" for q u
    using coreD(9)[OF C, of q u] that runs by (simp add: new_stream_def subscribe_run_def)
qed (use coreD(4,7,8)[OF C] in \<open>simp_all add: events_def new_stream_def subscribe_run_def\<close>)

lemma run_ok_sorted: "run_ok evs run \<Longrightarrow> sorted_wrt (\<lambda>e f. me_Seq e < me_Seq f) evs"
  by (metis run_ok_def sorted_wrt_map strict_sorted_iff sorted_upt distinct_upt)

lemma run_ok_bounds: "run_ok evs run \<Longrightarrow> e \<in> set evs \<Longrightarrow> 1 \<le> me_Seq e \<and> me_Seq e < rn_nextSequence run"
proof -
  assume ok: "run_ok evs run" and e: "e \<in> set evs"
  have "me_Seq e \<in> set (map me_Seq evs)" using e by simp
  moreover have "map me_Seq evs = [1..<rn_nextSequence run]" using ok by (simp add: run_ok_def)
  ultimately have "me_Seq e \<in> set [1..<rn_nextSequence run]" by metis
  then show ?thesis by simp
qed

text \<open>What the journal retains of a run, beyond a cursor that leaves no gap, is everything.\<close>

lemma retained_suffix:
  assumes C: "core s" and R: "ms_runs s r = Some run"
    and G: "\<not> (after < rn_nextSequence run - 1 \<and>
        (oldest_in (filter (\<lambda>e. me_Run e = r) (ms_journal s)) = 0 \<or> after + 1 < oldest_in (filter (\<lambda>e. me_Run e = r) (ms_journal s))))"
  shows "filter (\<lambda>e. me_Seq e > after) (filter (\<lambda>e. me_Run e = r) (ms_journal s)) = filter (\<lambda>e. me_Seq e > after) (events s r)"
proof -
  let ?old = "filter (\<lambda>e. me_Run e = r) (take (length (ms_log s) - ms_capacity s) (ms_log s))"
  let ?new = "filter (\<lambda>e. me_Run e = r) (ms_journal s)"
  have ev: "events s r = ?old @ ?new"
    unfolding events_def coreD(4)[OF C] filter_append[symmetric] by simp
  note ok = coreD(1)[OF C R]
  have "filter (\<lambda>e. me_Seq e > after) ?old = []"
  proof (cases "after < rn_nextSequence run - 1")
    case False
    have "me_Seq e \<le> after" if "e \<in> set ?old" for e
      using run_ok_bounds[OF ok, of e] that False unfolding ev by auto
    then show ?thesis by (fastforce simp: filter_empty_conv)
  next
    case True
    with G obtain y ys where y: "?new = y # ys" "me_Seq y \<le> after + 1"
      by (cases ?new) (auto simp: oldest_in_def)
    have "me_Seq e < me_Seq y" if "e \<in> set ?old" for e
      using run_ok_sorted[OF ok] that unfolding ev y(1) by (auto simp: sorted_wrt_append)
    with y(2) show ?thesis by (fastforce simp: filter_empty_conv)
  qed
  then show ?thesis unfolding ev by simp
qed

lemma resume_core:
  assumes C: "core s"
  shows "core (snd (mem_Resume cancelled r after s))"
proof (cases "cancelled \<or> ms_closed s \<or> ms_runs s r = None")
  case True
  then show ?thesis using C by (auto simp: mem_Resume_def)
next
  case False
  then obtain run where run: "ms_runs s r = Some run" by auto
  let ?ret = "filter (\<lambda>e. me_Run e = r) (ms_journal s)"
  have n: "1 \<le> rn_nextSequence run" using coreD(1)[OF C run] by (simp add: run_ok_def)
  show ?thesis
  proof (cases "rn_nextSequence run - 1 < after")
    case True
    then show ?thesis using C False run by (simp add: mem_Resume_def)
  next
    case ok: False
    then have a: "after < rn_nextSequence run" using n by linarith
    show ?thesis
    proof (cases "after < rn_nextSequence run - 1 \<and> (oldest_in ?ret = 0 \<or> after + 1 < oldest_in ?ret)")
    case True
      then show ?thesis using core_new_stream[OF C run, of "[]" after True] False run ok a by (simp add: mem_Resume_def Let_def)
    next
      case gap: False
      let ?suf = "filter (\<lambda>e. me_Seq e > after) ?ret"
      have "?suf = filter (\<lambda>e. me_Seq e > after) (events s r)" by (rule retained_suffix[OF C run gap])
      then have "core (if rn_terminal run then new_stream r after ?suf True s else subscribe_run r (ms_nstream s) (new_stream r after ?suf False s))"
        by (intro core_new_stream[OF C run]) (simp_all add: a)
      moreover have "snd (mem_Resume cancelled r after s) =
          (if rn_terminal run then new_stream r after ?suf True s else subscribe_run r (ms_nstream s) (new_stream r after ?suf False s))"
        using False run ok gap by (auto simp: mem_Resume_def Let_def)
      ultimately show ?thesis by simp
    qed
  qed
qed

lemma act_core: "core s \<Longrightarrow> core (mem_act a s)"
proof (cases a)
  case (ResumeAt r after)
  then show "core s \<Longrightarrow> core (mem_act a s)" by (simp add: resume_core)
qed (auto simp: mem_SwitchModel_def mem_UpdateSettings_def upd_state_def split: sum.split elim!: core_frame)

lemma acts_core: "core s \<Longrightarrow> core (fold mem_act acts s)"
  by (induction acts arbitrary: s) (simp_all add: act_core)

lemma others_core: "core s \<Longrightarrow> core (others s)"
  by (auto simp: others_def intro!: acts_core elim: core_frame split: list.split)

lemma resume_runs [simp]: "ms_runs (snd (mem_Resume c r a s)) = ms_runs s"
  by (simp add: mem_Resume_def Let_def new_stream_def subscribe_run_def split: option.split)

lemma act_runs [simp]: "ms_runs (mem_act a s) = ms_runs s"
  by (cases a) (simp_all add: mem_SwitchModel_def mem_UpdateSettings_def upd_state_def split: sum.split)

lemma acts_runs [simp]: "ms_runs (fold mem_act acts s) = ms_runs s"
  by (induction acts arbitrary: s) simp_all

lemma others_runs [simp]: "ms_runs (others s) = ms_runs s"
  by (simp add: others_def split: list.split)

lemma act_grows [simp]: "ms_closed (mem_act a s) = ms_closed s" "ms_nstream s \<le> ms_nstream (mem_act a s)"
  by (cases a; simp add: mem_SwitchModel_def mem_UpdateSettings_def upd_state_def mem_Resume_def Let_def new_stream_def subscribe_run_def
      split: sum.split option.split)+

lemma acts_grows [simp]: "ms_closed (fold mem_act acts s) = ms_closed s" "ms_nstream s \<le> ms_nstream (fold mem_act acts s)"
  by (induction acts arbitrary: s) (simp_all, metis act_grows(2) le_trans)

lemma others_grows [simp]: "ms_closed (others s) = ms_closed s" "ms_nstream s \<le> ms_nstream (others s)"
  using acts_grows(2)[of "s\<lparr>ms_others := rest\<rparr>" for rest] by (simp_all add: others_def split: list.split)

lemma act_slots [simp]:
  "ms_active (mem_act a s) = ms_active s" "ms_reserved (mem_act a s) = ms_reserved s" "ms_log (mem_act a s) = ms_log s" "ms_ids s \<le> ms_ids (mem_act a s)"
  by (cases a; simp add: mem_SwitchModel_def mem_UpdateSettings_def upd_state_def mem_Resume_def Let_def new_stream_def subscribe_run_def
      split: sum.split option.split)+

lemma acts_slots [simp]:
  "ms_active (fold mem_act acts s) = ms_active s" "ms_reserved (fold mem_act acts s) = ms_reserved s"
  "ms_log (fold mem_act acts s) = ms_log s"
  by (induction acts arbitrary: s) simp_all

lemma others_slots [simp]:
  "ms_active (others s) = ms_active s" "ms_reserved (others s) = ms_reserved s" "ms_log (others s) = ms_log s"
  by (simp_all add: others_def split: list.split)

text \<open>The runs that may be driven: the reserved one waits for its promotion.\<close>

definition known :: "memorySession \<Rightarrow> bytes set" where
  "known s = dom (ms_runs s) - set_option (ms_reserved s)"

text \<open>What the operations leave of a session: its runs, its streams, and whether it is closed.\<close>

definition grows :: "memorySession \<Rightarrow> memorySession \<Rightarrow> bool" where
  "grows s s1 \<longleftrightarrow> dom (ms_runs s) \<subseteq> dom (ms_runs s1) \<and> known s \<subseteq> known s1 \<and> ms_nstream s \<le> ms_nstream s1 \<and> ms_closed s1 = ms_closed s"

lemma session_grows_refl [simp]: "grows s s"
  by (simp add: grows_def)

lemma session_grows_trans [trans]: "grows s s1 \<Longrightarrow> grows s1 s2 \<Longrightarrow> grows s s2"
  unfolding grows_def by (intro conjI; elim conjE) (auto intro: le_trans)

lemma grows_others [simp]: "grows s (others s)"
  by (simp add: grows_def known_def)

lemma grows_frame [simp]:
  "grows s (s1\<lparr>ms_ids := n\<rparr>) = grows s s1" "grows s (s1\<lparr>ms_history := h\<rparr>) = grows s s1" "grows s (upd_state f s1) = grows s s1"
  "grows s (refreshState s1) = grows s s1"
  by (simp_all add: grows_def known_def upd_state_def refreshState_def split: prod.split)

lemma grows_known: "grows s s1 \<Longrightarrow> R \<subseteq> known s \<Longrightarrow> R \<subseteq> known s1"
  unfolding grows_def by blast

lemma grows_dom: "grows s s1 \<Longrightarrow> r \<in> dom (ms_runs s) \<Longrightarrow> r \<in> dom (ms_runs s1)"
  unfolding grows_def by blast

section \<open>Publication\<close>

lemma refresh_fields [simp]:
  "ms_runs (refreshState s) = ms_runs s" "ms_log (refreshState s) = ms_log s" "ms_journal (refreshState s) = ms_journal s"
  "ms_capacity (refreshState s) = ms_capacity s" "ms_streams (refreshState s) = ms_streams s" "ms_nstream (refreshState s) = ms_nstream s"
  "ms_subscribers (refreshState s) = ms_subscribers s" "ms_panicked (refreshState s) = ms_panicked s" "ms_active (refreshState s) = ms_active s"
  "ms_reserved (refreshState s) = ms_reserved s" "ms_ids (refreshState s) = ms_ids s" "ms_closed (refreshState s) = ms_closed s"
  by (simp_all add: refreshState_def upd_state_def split: prod.split)

lemma fold_send:
  assumes "\<forall>k \<in> set ks. \<not> sm_closed (ms_streams s k)" "distinct ks"
  shows "fold (send e) ks s = s\<lparr>ms_streams := (\<lambda>k. if k \<in> set ks then (ms_streams s k)\<lparr>sm_sent := sm_sent (ms_streams s k) @ [e]\<rparr> else ms_streams s k)\<rparr>"
  using assms
proof (induction ks arbitrary: s)
  case (Cons k ks)
  have "\<forall>j \<in> set ks. \<not> sm_closed (ms_streams (send e k s) j)" using Cons.prems by (auto simp: send_def upd_stream_def)
  from Cons.IH[OF this] Cons.prems show ?case
    by (auto simp: send_def upd_stream_def fun_eq_iff intro!: memorySession.equality)
qed simp

lemma fold_close:
  assumes "\<forall>k \<in> set ks. \<not> sm_closed (ms_streams s k)" "distinct ks"
  shows "fold close_stream ks s = s\<lparr>ms_streams := (\<lambda>k. if k \<in> set ks then (ms_streams s k)\<lparr>sm_closed := True\<rparr> else ms_streams s k)\<rparr>"
  using assms
proof (induction ks arbitrary: s)
  case (Cons k ks)
  have "\<forall>j \<in> set ks. \<not> sm_closed (ms_streams (close_stream k s) j)" using Cons.prems by (auto simp: close_stream_def upd_stream_def)
  from Cons.IH[OF this] Cons.prems show ?case
    by (auto simp: close_stream_def upd_stream_def fun_eq_iff intro!: memorySession.equality)
qed simp

lemma stepped_fields [simp]:
  "rn_nextSequence (stepped p i u) = rn_nextSequence u" "rn_terminal (stepped p i u) = rn_terminal u" "rn_steers (stepped p i u) = rn_steers u"
  by (simp_all add: stepped_def split: payload.split)

lemma promote_fields:
  "ms_runs (snd (promote r n s)) = ms_runs s" "ms_log (snd (promote r n s)) = ms_log s" "ms_journal (snd (promote r n s)) = ms_journal s"
  "ms_capacity (snd (promote r n s)) = ms_capacity s" "ms_streams (snd (promote r n s)) = ms_streams s"
  "ms_nstream (snd (promote r n s)) = ms_nstream s" "ms_subscribers (snd (promote r n s)) = ms_subscribers s"
  "ms_panicked (snd (promote r n s)) = ms_panicked s" "ms_ids (snd (promote r n s)) = ms_ids s"
  "set_option (ms_active (snd (promote r n s))) \<union> set_option (ms_reserved (snd (promote r n s))) = set_option (ms_active s) \<union> set_option (ms_reserved s) - {r}"
  "set_option (fst (promote r n s)) \<subseteq> set_option (ms_reserved s) - set_option (ms_reserved (snd (promote r n s)))"
  "set_option (ms_reserved (snd (promote r n s))) \<subseteq> set_option (ms_reserved s)"
  by (auto simp: promote_def Let_def split: if_splits)

lemma drop_snoc:
  "drop (length (drop (length xs - c) xs @ [e]) - c) (drop (length xs - c) xs @ [e]) = drop (length (xs @ [e]) - c) (xs @ [e])"
proof (cases "c \<le> length xs")
  case True
  then have "length (drop (length xs - c) xs @ [e]) - c = 1" "length (xs @ [e]) - c = Suc (length xs - c)" by simp_all
  then show ?thesis by (cases "c = 0") (simp_all add: Suc_diff_le drop_Suc tl_drop flip: drop_Suc)
qed simp

text \<open>The streams and subscribers after an event of a run was sent, and the run ended or not.\<close>

definition sent_streams :: "bytes \<Rightarrow> mem_event \<Rightarrow> bool \<Rightarrow> memorySession \<Rightarrow> nat \<Rightarrow> stream" where
  "sent_streams r e terminal s k =
     (if k \<in> set (ms_subscribers s r)
      then (ms_streams s k)\<lparr>sm_sent := sm_sent (ms_streams s k) @ [e], sm_closed := (terminal \<or> sm_closed (ms_streams s k))\<rparr>
      else ms_streams s k)"

lemma core_published:
  assumes C: "core s" and R: "ms_runs s r = Some run" and L: "\<not> rn_terminal run"
    and e: "me_Run e = r" "me_Seq e = rn_nextSequence run" and T: "terminal = terminal_event e"
    and run1: "rn_nextSequence run1 = Suc (rn_nextSequence run)" "rn_terminal run1 = terminal"
    and F: "ms_runs s1 = (ms_runs s)(r \<mapsto> run1)" "ms_log s1 = ms_log s @ [e]"
      "ms_journal s1 = drop (length (ms_journal s @ [e]) - ms_capacity s) (ms_journal s @ [e])" "ms_capacity s1 = ms_capacity s"
      "ms_streams s1 = sent_streams r e terminal s" "ms_nstream s1 = ms_nstream s"
      "ms_subscribers s1 = (if terminal then (ms_subscribers s)(r := []) else ms_subscribers s)" "ms_panicked s1 = ms_panicked s" "ms_ids s \<le> ms_ids s1"
      "set_option (ms_active s1) \<union> set_option (ms_reserved s1) = set_option (ms_active s) \<union> set_option (ms_reserved s) - (if terminal then {r} else {})"
  shows "core s1"
proof (rule coreI)
  have ev: "events s1 q = events s q @ (if q = r then [e] else [])" for q by (simp add: events_def F e)
  have d: "dom (ms_runs s1) = dom (ms_runs s)" using R by (auto simp: F)
  note ok = coreD(1)[OF C R]
  have none: "\<forall>x \<in> set (events s r). \<not> terminal_event x"
  proof (cases "events s r = []")
    case False
    then have "set (events s r) = insert (last (events s r)) (set (butlast (events s r)))"
      by (metis append_butlast_last_id list.set(1,2) set_append Un_insert_right sup_bot_right)
    then show ?thesis using ok L by (auto simp: run_ok_def)
  qed simp
  have "run_ok (events s r @ [e]) run1" using ok none by (auto simp: run_ok_def e run1 T)
  then show "run_ok (events s1 q) u" if "ms_runs s1 q = Some u" for q u
    using that coreD(1)[OF C, of q] by (auto simp: F ev split: if_splits)
  show "ms_journal s1 = drop (length (ms_log s1) - ms_capacity s1) (ms_log s1)"
    unfolding F(2,3,4) coreD(4)[OF C] by (rule drop_snoc)
  show "stream_ok s1 k" if "k < ms_nstream s1" for k
  proof -
    have old: "stream_ok s k" using coreD(5)[OF C, of k] that F(6) by simp
    let ?t = "ms_streams s k"
    note subs = subscribers_okD[OF coreD(6)[OF C, of "sm_run ?t"]]
    show ?thesis
    proof (cases "k \<in> set (ms_subscribers s r)")
      case True
      then have t: "sm_run ?t = r" "\<not> sm_closed ?t" using subscribers_okD(2)[OF coreD(6)[OF C, of r] True] by simp_all
      have "sm_sent ?t = filter (\<lambda>x. sm_after ?t < me_Seq x) (events s r)" using old t by (simp add: stream_ok_def Let_def)
      moreover have "sm_after ?t < me_Seq e" using old t R e by (simp add: stream_ok_def Let_def)
      ultimately show ?thesis using True t R e by (auto simp: stream_ok_def Let_def F(1,5,7) sent_streams_def ev run1)
    next
      case False
      show ?thesis
      proof (cases "sm_run ?t = r")
        case True
        then have "sm_closed ?t" "sm_sent ?t = []" using old False R L by (auto simp: stream_ok_def Let_def)
        then show ?thesis using old False True R by (auto simp: stream_ok_def Let_def F(1,5) sent_streams_def run1)
      next
        case ne: False
        then show ?thesis using old False by (auto simp: stream_ok_def Let_def F(1,5,7) sent_streams_def ev)
      qed
    qed
  qed
  show "subscribers_ok s1 q" for q
  proof -
    note subs = subscribers_okD[OF coreD(6)[OF C, of q]]
    have same: "sm_run (ms_streams s1 k) = sm_run (ms_streams s k)" for k by (simp add: F(5) sent_streams_def)
    have "\<not> sm_closed (ms_streams s1 k) \<and> (\<exists>u. ms_runs s1 q = Some u \<and> \<not> rn_terminal u)"
      if k: "k \<in> set (ms_subscribers s1 q)" for k
    proof -
      have k0: "k \<in> set (ms_subscribers s q)" and qr: "q = r \<Longrightarrow> \<not> terminal" using k by (auto simp: F(7) split: if_splits)
      have "q \<noteq> r \<Longrightarrow> k \<notin> set (ms_subscribers s r)"
        using subs(2)[OF k0] subscribers_okD(2)[OF coreD(6)[OF C, of r], of k] by auto
      then show ?thesis using subs(2)[OF k0] subs(3)[OF k0] qr by (cases "q = r") (auto simp: F(1,5) sent_streams_def run1)
    qed
    moreover have "distinct (ms_subscribers s1 q)" "set (ms_subscribers s1 q) \<subseteq> set (ms_subscribers s q)" using subs(1) by (auto simp: F(7))
    ultimately show ?thesis using subs(2) unfolding subscribers_ok_def same F(6) by blast
  qed
  show "q \<in> set_option (ms_active s1) \<union> set_option (ms_reserved s1)" if "ms_runs s1 q = Some u" "\<not> rn_terminal u" for q u
  proof (cases "q = r")
    case True
    then have "\<not> terminal" using that run1(2) F(1) by auto
    then show ?thesis using True coreD(9)[OF C R L] unfolding F(10) by simp
  next
    case False
    then show ?thesis using that coreD(9)[OF C, of q u] unfolding F(10) by (auto simp: F(1))
  qed
  show "set_option (ms_active s1) \<union> set_option (ms_reserved s1) \<subseteq> dom (ms_runs s1)" using coreD(7)[OF C] unfolding F(10) d by blast
  show "\<exists>n \<le> ms_ids s1. q = sequence_id ''run'' n" if "q \<in> dom (ms_runs s1)" for q
    using coreD(3)[OF C, of q] that F(9) le_trans unfolding d by blast
  show "me_Run x \<in> dom (ms_runs s1)" if "x \<in> set (ms_log s1)" for x using coreD(2)[OF C, of x] that R unfolding d F(2) by (auto simp: e)
qed (use coreD(8)[OF C] in \<open>simp add: F\<close>)

lemma event_of_fields [simp]:
  "me_Run (event_of s eid r run p) = r" "me_Seq (event_of s eid r run p) = rn_nextSequence run" "me_Payload (event_of s eid r run p) = p"
  by (simp_all add: event_of_def)

lemma published_run_fields [simp]:
  "rn_nextSequence (published_run p terminal settled eid run) = Suc (rn_nextSequence run)"
  "rn_terminal (published_run p terminal settled eid run) = (terminal \<or> rn_terminal run)"
  by (simp_all add: published_run_def Let_def ended_run_def)

lemma record_event_fields [simp]:
  "ms_runs (record_event e run s) = (ms_runs s)(me_Run e \<mapsto> run)" "ms_log (record_event e run s) = ms_log s @ [e]"
  "ms_journal (record_event e run s) = drop (length (ms_journal s @ [e]) - ms_capacity s) (ms_journal s @ [e])"
  "ms_capacity (record_event e run s) = ms_capacity s" "ms_streams (record_event e run s) = ms_streams s"
  "ms_nstream (record_event e run s) = ms_nstream s" "ms_subscribers (record_event e run s) = ms_subscribers s"
  "ms_panicked (record_event e run s) = ms_panicked s" "ms_active (record_event e run s) = ms_active s"
  "ms_reserved (record_event e run s) = ms_reserved s" "ms_ids (record_event e run s) = ms_ids s"
  by (simp_all add: record_event_def Let_def upd_state_def)

lemma deliver_exact:
  assumes "distinct (ms_subscribers s (me_Run e))" "\<forall>k \<in> set (ms_subscribers s (me_Run e)). \<not> sm_closed (ms_streams s k)"
  shows "deliver e terminal s = s\<lparr>ms_subscribers := (if terminal then (ms_subscribers s)(me_Run e := []) else ms_subscribers s),
     ms_streams := sent_streams (me_Run e) e terminal s\<rparr>"
  using assms by (auto simp: deliver_def Let_def fold_send fold_close sent_streams_def fun_eq_iff intro!: memorySession.equality)

lemma publish_core:
  assumes C: "core s" and R: "r \<in> dom (ms_runs s)" and T: "terminal = terminal_payload p"
  shows "core (snd (publishSettling r p terminal settled s)) \<and> grows s (snd (publishSettling r p terminal settled s)) \<and>
    set_option (case fst (publishSettling r p terminal settled s) of Inr q \<Rightarrow> q | Inl err \<Rightarrow> None) \<subseteq> known (snd (publishSettling r p terminal settled s))"
proof -
  let ?s = "others s"
  have C1: "core ?s" by (rule others_core[OF C])
  obtain run where run: "ms_runs ?s r = Some run" using R by auto
  show ?thesis
  proof (cases "rn_terminal run \<or> \<not> ms_encodes ?s p")
    case True
    then show ?thesis using C1 run
      by (auto simp: publishSettling_def publish_event_def Let_def bind_op_def NewID_def elim!: core_frame)
  next
    case False
    define eid s1 where "eid = sequence_id ''event'' (Suc (ms_ids ?s))" and s1: "s1 = ?s\<lparr>ms_ids := Suc (ms_ids ?s)\<rparr>"
    define e run1 where e: "e = event_of s1 eid r run p" and run1: "run1 = published_run p terminal settled eid run"
    define s3 where s3: "s3 = (if terminal then snd (promote r (rn_nextSequence run) (record_event e run1 s1)) else record_event e run1 s1)"
    have out: "snd (publishSettling r p terminal settled s) = deliver e terminal (refreshState s3)"
      and res: "set_option (case fst (publishSettling r p terminal settled s) of Inr q \<Rightarrow> q | Inl err \<Rightarrow> None) \<subseteq> set_option (ms_reserved ?s) - set_option (ms_reserved s3)"
      using False run promote_fields(11)[of r "rn_nextSequence run" "record_event e run1 s1"]
      by (auto simp: publishSettling_def publish_event_def Let_def bind_op_def NewID_def eid_def s1 s3 e run1 split: prod.split)
    have F: "ms_runs s3 = (ms_runs ?s)(r \<mapsto> run1)" "ms_log s3 = ms_log ?s @ [e]"
      "ms_journal s3 = drop (length (ms_journal ?s @ [e]) - ms_capacity ?s) (ms_journal ?s @ [e])" "ms_capacity s3 = ms_capacity ?s"
      "ms_streams s3 = ms_streams ?s" "ms_nstream s3 = ms_nstream ?s" "ms_subscribers s3 = ms_subscribers ?s"
      "ms_panicked s3 = ms_panicked ?s" "ms_ids s3 = Suc (ms_ids ?s)"
      "set_option (ms_active s3) \<union> set_option (ms_reserved s3) = set_option (ms_active ?s) \<union> set_option (ms_reserved ?s) - (if terminal then {r} else {})"
      by (simp_all add: s3 s1 e promote_fields)
    have e1: "me_Run e = r" "me_Seq e = rn_nextSequence run" "terminal = terminal_event e"
      and r1: "rn_nextSequence run1 = Suc (rn_nextSequence run)" "rn_terminal run1 = terminal"
      using False T by (simp_all add: e run1)
    have d: "deliver e terminal (refreshState s3) = (refreshState s3)\<lparr>ms_subscribers := (if terminal then (ms_subscribers ?s)(r := []) else ms_subscribers ?s),
        ms_streams := sent_streams r e terminal ?s\<rparr>"
      using subscribers_okD(1,2)[OF coreD(6)[OF C1, of r]]
      by (subst deliver_exact) (auto simp: F(5,7) e1(1) sent_streams_def fun_eq_iff intro!: memorySession.equality)
    have "core (deliver e terminal (refreshState s3))"
      by (rule core_published[OF C1 run _ e1 r1]) (use False F in \<open>simp_all add: d\<close>)
    have "ms_closed s3 = ms_closed s" by (simp add: s3 s1 record_event_def promote_def Let_def upd_state_def)
    moreover have "set_option (ms_reserved s3) \<subseteq> set_option (ms_reserved s)"
      using promote_fields(12)[of r "rn_nextSequence run" "record_event e run1 s1"] by (auto simp: s3 s1)
    ultimately have "grows s (deliver e terminal (refreshState s3))" using run by (auto simp: grows_def known_def d F(1,6))
    moreover have "set_option (ms_reserved s) - set_option (ms_reserved s3) \<subseteq> known (deliver e terminal (refreshState s3))"
      using coreD(7)[OF C] by (auto simp: known_def d F(1))
    ultimately show ?thesis using res \<open>core (deliver e terminal (refreshState s3))\<close> unfolding out others_slots by blast
  qed
qed

section \<open>Other steps\<close>

lemma core_upd_run:
  assumes "core s" "\<And>u. rn_nextSequence (f u) = rn_nextSequence u" "\<And>u. rn_terminal (f u) = rn_terminal u"
  shows "core (upd_run r f s) \<and> grows s (upd_run r f s)"
proof -
  have R: "same_runs (ms_runs s) (ms_runs (upd_run r f s))" unfolding upd_run_def by (simp add: same_runs_upd assms)
  show ?thesis using core_frame[OF assms(1) R] same_runs_dom[OF R] by (simp add: upd_run_def grows_def known_def)
qed

lemma core_state [simp]:
  "core (upd_state f s) = core s" "core (s\<lparr>ms_history := h\<rparr>) = core s" "core (s\<lparr>ms_others := a\<rparr>) = core s" "core (refreshState s) = core s"
  by (auto simp: upd_state_def elim!: core_frame)

lemma state_runs [simp]: "ms_runs (upd_state f s) = ms_runs s"
  by (simp add: upd_state_def)

lemma sequence_id_inject [simp]: "sequence_id kind n = sequence_id kind m \<longleftrightarrow> n = m"
proof
  assume "sequence_id kind n = sequence_id kind m"
  then have "dec_nat n = dec_nat m" by (simp add: sequence_id_def)
  then show "n = m" by (metis digits_value_dec_nat)
qed simp

lemma core_entered:
  assumes C: "core s" and n: "n \<le> ms_ids s" "r = sequence_id ''run'' n" "r \<notin> dom (ms_runs s)"
    and run: "rn_nextSequence run = 1" "\<not> rn_terminal run"
    and slot: "busy \<Longrightarrow> \<not> run_live s (ms_reserved s)" "\<not> busy \<Longrightarrow> \<not> run_live s (ms_active s)"
  shows "core (enter_run busy reservation r run s) \<and> r \<in> dom (ms_runs (enter_run busy reservation r run s))"
proof -
  define run1 where run1: "run1 = run\<lparr>rn_queuedAdmission := reservation, rn_status := (if reservation then RunQueued else rn_status run)\<rparr>"
  define k s1 where "k = ms_nstream s" and s1: "s1 = (if busy then s\<lparr>ms_reserved := Some r\<rparr> else s\<lparr>ms_active := Some r\<rparr>)
    \<lparr>ms_runs := (ms_runs s)(r \<mapsto> run1)\<rparr>"
  have f: "ms_runs s1 = (ms_runs s)(r \<mapsto> run1)" "ms_log s1 = ms_log s" "ms_streams s1 = ms_streams s" "ms_nstream s1 = ms_nstream s"
    "ms_subscribers s1 = ms_subscribers s" "events s1 = events s" "ms_ids s1 = ms_ids s" "ms_journal s1 = ms_journal s"
    "ms_capacity s1 = ms_capacity s" "ms_panicked s1 = ms_panicked s"
    by (simp_all add: s1 events_def fun_eq_iff)
  have r1: "rn_nextSequence run1 = 1" "\<not> rn_terminal run1" using run by (simp_all add: run1)
  have none: "events s r = []" using coreD(2)[OF C] n(3) by (auto simp: events_def filter_empty_conv)
  have "core s1"
  proof (rule coreI)
    show "run_ok (events s1 q) u" if "ms_runs s1 q = Some u" for q u
      using that coreD(1)[OF C, of q u] r1 none by (auto simp: f run_ok_def split: if_splits)
    show "stream_ok s1 j" if "j < ms_nstream s1" for j
      using coreD(5)[OF C, of j] that n(3) unfolding stream_ok_def Let_def f by (auto simp: domIff)
    show "subscribers_ok s1 q" for q
      using coreD(6)[OF C, of q] n(3) unfolding subscribers_ok_def f by (auto simp: domIff)
    show "q \<in> set_option (ms_active s1) \<union> set_option (ms_reserved s1)" if "ms_runs s1 q = Some u" "\<not> rn_terminal u" for q u
      using that coreD(9)[OF C, of q u] slot by (cases busy) (auto simp: s1 split: if_splits option.splits)
    show "set_option (ms_active s1) \<union> set_option (ms_reserved s1) \<subseteq> dom (ms_runs s1)" using coreD(7)[OF C] by (auto simp: s1)
    show "\<exists>m \<le> ms_ids s1. q = sequence_id ''run'' m" if "q \<in> dom (ms_runs s1)" for q
      using coreD(3)[OF C, of q] that n(1,2) unfolding f by (cases "q = r") auto
    show "me_Run e \<in> dom (ms_runs s1)" if "e \<in> set (ms_log s1)" for e using coreD(2)[OF C, of e] that by (auto simp: f)
  qed (use coreD(4,8)[OF C] in \<open>simp_all add: f\<close>)
  then have "core (subscribe_run r k (new_stream r 0 [] False s1))"
    using core_new_stream[of s1 r run1 "[]" 0 False] none r1 by (simp add: f k_def)
  moreover have "enter_run busy reservation r run s = upd_state (\<lambda>t. t\<lparr>mt_UpdatedAtMS := ms_now s\<rparr>) (refreshState (subscribe_run r k (new_stream r 0 [] False s1)))"
    unfolding enter_run_def Let_def s1 k_def run1
    by (cases busy) (auto simp: subscribe_run_def new_stream_def intro!: arg_cong[where f = refreshState] arg_cong[where f = "upd_state _"] memorySession.equality)
  ultimately show ?thesis by (simp add: subscribe_run_def new_stream_def f)
qed

lemma all_ended:
  assumes C: "core s" and L: "\<not> run_live s (ms_active s)" "\<not> run_live s (ms_reserved s)"
  shows "ms_subscribers s r = []"
proof (rule ccontr)
  assume "ms_subscribers s r \<noteq> []"
  then obtain run where run: "ms_runs s r = Some run" "\<not> rn_terminal run"
    using subscribers_okD(3)[OF coreD(6)[OF C, of r], of "hd (ms_subscribers s r)"] by auto
  then show False using coreD(9)[OF C run] L by (auto split: option.splits)
qed

lemma new_session_core: "core (new_session m sid request attached provided threshold model recovered policy)"
  by (rule coreI) (simp_all add: new_session_def subscribers_ok_def)

end
