(* ===== verification/Memory_Order.thy ===== *)
theory Memory_Order
  imports Memory_Trace
begin

text \<open>
  The order a session of the reference adapter keeps: one run is driven and at most one waits
  behind it, steering requests are settled in the order in which they were admitted, and the compaction policy
  a client sees is the one in force.  The invariant of \<^verbatim>\<open>Memory_Trace\<close> and this one are carried
  through every operation together, and the properties of the reachable sessions follow.
\<close>

section \<open>The invariant\<close>

text \<open>The steering request that an event settles: its submission and its envelope.\<close>

definition settlement :: "payload \<Rightarrow> (bytes \<times> bytes) option" where
  "settlement p = (case p of PSteerApplied sub req mids \<Rightarrow> Some (sub, req) | PSteerDropped sub req \<Rightarrow> Some (sub, req) | _ \<Rightarrow> None)"

definition settlements :: "memorySession \<Rightarrow> bytes \<Rightarrow> (bytes \<times> bytes) list" where
  "settlements s r = List.map_filter (\<lambda>e. settlement (me_Payload e)) (events s r)"

abbreviation steer_ids :: "pendingSteer list \<Rightarrow> (bytes \<times> bytes) list" where
  "steer_ids ts \<equiv> map (\<lambda>t. (ps_submissionID t, ps_requestID t)) ts"

definition steers_ok :: "nat \<Rightarrow> (bytes \<times> bytes) list \<Rightarrow> memoryRun \<Rightarrow> bool" where
  "steers_ok n settled run \<longleftrightarrow>
     (let all = settled @ steer_ids (rn_steers run)
      in distinct (map fst all) \<and> map snd all = rn_admittedSteers run \<and> (\<forall>i \<in> set (map fst all). \<exists>m \<le> n. i = sequence_id ''submission'' m)) \<and>
     (rn_terminal run \<longrightarrow> rn_steers run = [])"

definition slots_ok :: "memorySession \<Rightarrow> bool" where
  "slots_ok s \<longleftrightarrow>
     (\<forall>a. ms_active s = Some a \<longrightarrow> \<not> rn_terminal (run_of s a)) \<and>
     (\<forall>q. ms_reserved s = Some q \<longrightarrow> ms_active s \<noteq> None \<and> ms_active s \<noteq> Some q \<and> \<not> rn_terminal (run_of s q) \<and>
        \<not> rn_started (run_of s q) \<and> rn_steers (run_of s q) = [])"

definition policy_ok :: "memorySession \<Rightarrow> bool" where
  "policy_ok s \<longleftrightarrow> (\<exists>p. mt_CompactionPolicy (ms_state s) = Some (effectivePolicy p) \<and> compactionThreshold p = Inr (ms_threshold s))"

definition valid :: "memorySession \<Rightarrow> bool" where
  "valid s \<longleftrightarrow> core s \<and> (\<forall>r run. ms_runs s r = Some run \<longrightarrow> steers_ok (ms_ids s) (settlements s r) run) \<and> slots_ok s \<and> policy_ok s"

lemma validI:
  assumes "core s" "\<And>r run. ms_runs s r = Some run \<Longrightarrow> steers_ok (ms_ids s) (settlements s r) run" "slots_ok s" "policy_ok s"
  shows "valid s"
  using assms unfolding valid_def by blast

lemma validD:
  assumes "valid s"
  shows "core s" "ms_runs s r = Some run \<Longrightarrow> steers_ok (ms_ids s) (settlements s r) run" "slots_ok s" "policy_ok s"
  using assms unfolding valid_def by blast+

lemma slots_okD:
  assumes "slots_ok s"
  shows "ms_active s = Some a \<Longrightarrow> \<not> rn_terminal (run_of s a)"
    and "ms_reserved s = Some q \<Longrightarrow> ms_active s \<noteq> None \<and> ms_active s \<noteq> Some q"
    and "ms_reserved s = Some q \<Longrightarrow> \<not> rn_terminal (run_of s q) \<and> \<not> rn_started (run_of s q) \<and> rn_steers (run_of s q) = []"
  using assms unfolding slots_ok_def by blast+

lemma steers_ok_mono: "steers_ok n settled run \<Longrightarrow> n \<le> m \<Longrightarrow> steers_ok m settled run"
  unfolding steers_ok_def Let_def by (meson le_trans)

text \<open>The part of a run that this invariant reads, beside whether a reserved one was started.\<close>

abbreviation order_of :: "memoryRun \<Rightarrow> bool \<times> pendingSteer list \<times> bytes list" where
  "order_of u \<equiv> (rn_terminal u, rn_steers u, rn_admittedSteers u)"

lemma valid_frame:
  assumes V: "valid s" and C: "core s1" and R: "\<And>r. map_option order_of (ms_runs s1 r) = map_option order_of (ms_runs s r)"
    and N: "\<And>q. ms_reserved s = Some q \<Longrightarrow> rn_started (run_of s1 q) = rn_started (run_of s q)"
    and F: "ms_log s1 = ms_log s" "ms_active s1 = ms_active s" "ms_reserved s1 = ms_reserved s" "ms_ids s \<le> ms_ids s1"
      "mt_CompactionPolicy (ms_state s1) = mt_CompactionPolicy (ms_state s)" "ms_threshold s1 = ms_threshold s"
  shows "valid s1"
proof (rule validI[OF C])
  have ev: "events s1 r = events s r" for r by (simp add: events_def F)
  have at: "ms_runs s1 r = Some u \<Longrightarrow> \<exists>v. ms_runs s r = Some v \<and> order_of v = order_of u" for r u
    using R[of r] by (cases "ms_runs s r") auto
  show "steers_ok (ms_ids s1) (settlements s1 r) run" if run: "ms_runs s1 r = Some run" for r run
  proof -
    obtain v where v: "ms_runs s r = Some v" "order_of v = order_of run" using at[OF run] by blast
    have "steers_ok (ms_ids s1) (settlements s r) v" by (rule steers_ok_mono[OF validD(2)[OF V v(1)] F(4)])
    then show ?thesis using v(2) by (simp add: steers_ok_def settlements_def ev)
  qed
  have same: "order_of (run_of s1 r) = order_of (run_of s r)" if "r \<in> dom (ms_runs s)" for r
    using R[of r] that by (cases "ms_runs s1 r") auto
  have d: "r \<in> dom (ms_runs s)" if "ms_active s = Some r \<or> ms_reserved s = Some r" for r
    using coreD(7)[OF validD(1)[OF V]] that by auto
  show "slots_ok s1" using validD(3)[OF V] same d N unfolding slots_ok_def F by simp
  show "policy_ok s1" using validD(4)[OF V] unfolding policy_ok_def F .
qed

lemma valid_upd_run:
  assumes V: "valid s" and f: "\<And>u. order_of (f u) = order_of u" "\<And>u. rn_nextSequence (f u) = rn_nextSequence u"
    and N: "ms_reserved s = Some r \<Longrightarrow> \<forall>u. rn_started (f u) = rn_started u"
  shows "valid (upd_run r f s) \<and> grows s (upd_run r f s)"
proof -
  have "core (upd_run r f s) \<and> grows s (upd_run r f s)" using core_upd_run[OF validD(1)[OF V]] f by simp
  moreover have "map_option order_of (ms_runs (upd_run r f s) q) = map_option order_of (ms_runs s q)" for q
    using f(1) by (simp add: upd_run_def option.map_comp comp_def)
  moreover have "rn_started (run_of (upd_run r f s) q) = rn_started (run_of s q)" if q: "ms_reserved s = Some q" for q
    using N q coreD(7)[OF validD(1)[OF V]] by (auto simp: upd_run_def)
  ultimately show ?thesis using valid_frame[OF V, of "upd_run r f s"] by (simp add: upd_run_def)
qed

lemma valid_history: "valid s \<Longrightarrow> valid (s\<lparr>ms_history := h\<rparr>)"
  by (rule valid_frame) (simp_all add: validD(1))

lemma valid_schedule: "valid s \<Longrightarrow> valid (s\<lparr>ms_others := acts\<rparr>)"
  by (rule valid_frame) (simp_all add: validD(1))

lemma valid_ids: "valid s \<Longrightarrow> ms_ids s \<le> n \<Longrightarrow> valid (s\<lparr>ms_ids := n\<rparr>)"
  by (rule valid_frame) (auto intro: core_frame dest: validD(1))

lemma valid_upd_state:
  assumes "valid s" "mt_CompactionPolicy (f (ms_state s)) = mt_CompactionPolicy (ms_state s)"
  shows "valid (upd_state f s)"
  using assms(1)
proof (rule valid_frame)
  show "core (upd_state f s)" by (simp add: validD(1)[OF assms(1)])
qed (simp_all add: upd_state_def assms(2))

lemma refresh_policy [simp]:
  "mt_CompactionPolicy (ms_state (refreshState s)) = mt_CompactionPolicy (ms_state s)" "ms_threshold (refreshState s) = ms_threshold s"
  by (simp_all add: refreshState_def upd_state_def case_prod_beta del: refresh_entries.simps)

lemma valid_refresh [simp]: "valid s \<Longrightarrow> valid (refreshState s)"
  by (rule valid_frame) (simp_all add: validD(1))

section \<open>What may intervene\<close>

lemma threshold_effective: "compactionThreshold policy = Inr t \<Longrightarrow> compactionThreshold (Some (effectivePolicy policy)) = Inr t"
  by (cases policy) (auto simp: compactionThreshold_def effectivePolicy_def Let_def split: if_splits)

lemma act_valid:
  assumes V: "valid s"
  shows "valid (mem_act a s)"
proof -
  have C: "core (mem_act a s)" by (rule act_core[OF validD(1)[OF V]])
  show ?thesis
  proof (cases a)
    case (PolicyTo sid policy)
    show ?thesis
    proof (cases "mem_act a s = s")
      case False
      then obtain t where t: "compactionThreshold policy = Inr t" "mt_CompactionPolicy (ms_state (mem_act a s)) = Some (effectivePolicy policy)"
          "ms_threshold (mem_act a s) = t"
        using PolicyTo by (auto simp: mem_UpdateSettings_def upd_state_def split: sum.splits if_splits)
      have "slots_ok (mem_act a s)" using validD(3)[OF V] by (simp add: slots_ok_def events_def)
      moreover have "policy_ok (mem_act a s)" using t by (auto simp: policy_ok_def)
      moreover have "steers_ok (ms_ids (mem_act a s)) (settlements (mem_act a s) r) run" if "ms_runs (mem_act a s) r = Some run" for r run
        using steers_ok_mono[OF validD(2)[OF V, of r run] act_slots(4)] that by (simp add: settlements_def events_def)
      ultimately show ?thesis by (intro validI[OF C]) simp_all
    qed (use V in simp)
  qed (use valid_frame[OF V C] in \<open>auto simp: mem_SwitchModel_def mem_Resume_def Let_def upd_state_def new_stream_def subscribe_run_def split: option.splits\<close>)
qed

lemma acts_valid: "valid s \<Longrightarrow> valid (fold mem_act acts s)"
  by (induction acts arbitrary: s) (simp_all add: act_valid)

lemma others_valid: "valid s \<Longrightarrow> valid (others s)"
  by (simp add: others_def acts_valid valid_schedule split: list.split)

section \<open>Publication\<close>

text \<open>What an event may be: it settles the steering request at the head, or none, and a terminal event leaves none.\<close>

definition in_order :: "memoryRun \<Rightarrow> payload \<Rightarrow> bool \<Rightarrow> bytes \<Rightarrow> bool" where
  "in_order run p terminal settled \<longleftrightarrow> terminal = terminal_payload p \<and> (terminal \<longrightarrow> rn_steers run = []) \<and>
     (case settlement p of
        None \<Rightarrow> settled = []
      | Some (sub, req) \<Rightarrow> settled = sub \<and> (\<exists>t ts. rn_steers run = t # ts \<and> ps_submissionID t = sub \<and> ps_requestID t = req))"

lemma sequence_id_nonempty [simp]: "sequence_id ''submission'' n \<noteq> []"
  by (simp add: sequence_id_def)

lemma published_order:
  "rn_started (published_run p terminal settled eid run) = rn_started run"
  "rn_admittedSteers (published_run p terminal settled eid run) = rn_admittedSteers run"
  "rn_steers (published_run p terminal settled eid run) =
     (if settled = [] then rn_steers run else filter (\<lambda>t. ps_submissionID t \<noteq> settled) (rn_steers run))"
  by (auto simp: published_run_def Let_def ended_run_def stepped_def split: payload.split)

lemma filter_settled:
  "distinct (map fst (settled @ steer_ids (t # ts))) \<Longrightarrow> filter (\<lambda>u. ps_submissionID u \<noteq> ps_submissionID t) (t # ts) = ts"
proof -
  assume "distinct (map fst (settled @ steer_ids (t # ts)))"
  then have "ps_submissionID t \<notin> ps_submissionID ` set ts" by (simp add: comp_def image_image)
  then show ?thesis by (simp add: filter_id_conv) (metis image_eqI)
qed

lemma published_steers:
  assumes S: "steers_ok n done run" and O: "in_order run p terminal settled" and L: "\<not> rn_terminal run"
  shows "steers_ok n (done @ (case settlement p of None \<Rightarrow> [] | Some x \<Rightarrow> [x])) (published_run p terminal settled eid run) \<and>
    rn_steers (published_run p terminal settled eid run) = (if settlement p = None then rn_steers run else tl (rn_steers run))"
proof (cases "settlement p")
  case None
  then have "settled = []" using O by (simp add: in_order_def)
  then show ?thesis using S O L None by (simp add: steers_ok_def in_order_def published_order)
next
  case (Some x)
  obtain sub req where x: "x = (sub, req)" by fastforce
  obtain t ts where t: "rn_steers run = t # ts" "ps_submissionID t = sub" "ps_requestID t = req" "settled = sub"
    using O Some x by (auto simp: in_order_def)
  have d: "distinct (map fst (done @ steer_ids (t # ts)))" and i: "\<exists>m. sub = sequence_id ''submission'' m"
    using S t by (auto simp: steers_ok_def Let_def)
  have "rn_steers (published_run p terminal settled eid run) = ts"
    using filter_settled[OF d] i t sequence_id_nonempty by (metis published_order(3))
  moreover have "terminal \<Longrightarrow> ts = []" using O t(1) by (simp add: in_order_def)
  ultimately show ?thesis using S t Some x L by (auto simp: steers_ok_def Let_def published_order)
qed

lemma deliver_fields [simp]:
  "ms_runs (deliver e terminal s) = ms_runs s" "ms_log (deliver e terminal s) = ms_log s" "ms_ids (deliver e terminal s) = ms_ids s"
  "ms_active (deliver e terminal s) = ms_active s" "ms_reserved (deliver e terminal s) = ms_reserved s"
  "ms_state (deliver e terminal s) = ms_state s" "ms_threshold (deliver e terminal s) = ms_threshold s"
proof -
  have send: "P (fold (send e) ks s) = P s" if "\<And>k s. P (send e k s) = P s" for P :: "memorySession \<Rightarrow> 'b" and ks s
    using that by (induction ks arbitrary: s) simp_all
  have close: "P (fold close_stream ks s) = P s" if "\<And>k s. P (close_stream k s) = P s" for P :: "memorySession \<Rightarrow> 'b" and ks s
    using that by (induction ks arbitrary: s) simp_all
  have s: "ms_runs (send e k s) = ms_runs s" "ms_log (send e k s) = ms_log s" "ms_ids (send e k s) = ms_ids s" "ms_active (send e k s) = ms_active s"
      "ms_reserved (send e k s) = ms_reserved s" "ms_state (send e k s) = ms_state s" "ms_threshold (send e k s) = ms_threshold s" for k s
    by (simp_all add: send_def upd_stream_def)
  have c: "ms_runs (close_stream k s) = ms_runs s" "ms_log (close_stream k s) = ms_log s" "ms_ids (close_stream k s) = ms_ids s"
      "ms_active (close_stream k s) = ms_active s" "ms_reserved (close_stream k s) = ms_reserved s" "ms_state (close_stream k s) = ms_state s"
      "ms_threshold (close_stream k s) = ms_threshold s" for k s
    by (simp_all add: close_stream_def upd_stream_def)
  show "ms_runs (deliver e terminal s) = ms_runs s" "ms_log (deliver e terminal s) = ms_log s" "ms_ids (deliver e terminal s) = ms_ids s"
    "ms_active (deliver e terminal s) = ms_active s" "ms_reserved (deliver e terminal s) = ms_reserved s"
    "ms_state (deliver e terminal s) = ms_state s" "ms_threshold (deliver e terminal s) = ms_threshold s"
    unfolding deliver_def Let_def by (simp_all add: send close s c)
qed

lemma promote_slots:
  "ms_active (snd (promote r n s)) = (let a = if ms_active s = Some r then None else ms_active s; q = if ms_reserved s = Some r then None else ms_reserved s
     in if a = None \<and> run_live s q then q else a)"
  "ms_reserved (snd (promote r n s)) = (let a = if ms_active s = Some r then None else ms_active s; q = if ms_reserved s = Some r then None else ms_reserved s
     in if a = None \<and> run_live s q then None else q)"
  "ms_state (snd (promote r n s)) = ms_state s" "ms_threshold (snd (promote r n s)) = ms_threshold s"
  by (simp_all add: promote_def Let_def)

text \<open>The slots after an event of a run that goes on, and after its terminal event.\<close>

lemma slots_published:
  assumes S: "slots_ok s" and C: "core s" and R: "ms_runs s r = Some run" and L: "\<not> rn_terminal run"
    and run1: "rn_terminal run1 = terminal" "rn_started run1 = rn_started run" "rn_steers run = [] \<Longrightarrow> rn_steers run1 = []"
    and F: "ms_runs s1 = (ms_runs s)(r \<mapsto> run1)"
    and N: "\<not> terminal \<Longrightarrow> ms_active s1 = ms_active s \<and> ms_reserved s1 = ms_reserved s"
    and P: "terminal \<Longrightarrow> ms_active s1 = (let a = if ms_active s = Some r then None else ms_active s; q = if ms_reserved s = Some r then None else ms_reserved s
       in if a = None \<and> run_live s1 q then q else a)"
      "terminal \<Longrightarrow> ms_reserved s1 = (let a = if ms_active s = Some r then None else ms_active s; q = if ms_reserved s = Some r then None else ms_reserved s
       in if a = None \<and> run_live s1 q then None else q)"
  shows "slots_ok s1"
proof (cases terminal)
  case False
  then show ?thesis using S N[OF False] run1 R unfolding slots_ok_def F by auto
next
  case True
  note slots = slots_okD[OF S]
  from coreD(9)[OF C R L] consider "ms_active s = Some r" | "ms_reserved s = Some r" "ms_active s \<noteq> Some r" by auto
  then show ?thesis
  proof cases
    case 1
    then have q: "ms_reserved s \<noteq> Some r" using slots(2) by blast
    show ?thesis
    proof (cases "ms_reserved s")
      case None
      then show ?thesis using P[OF True] 1 by (simp add: slots_ok_def)
    next
      case (Some q)
      then have "q \<noteq> r" "\<not> rn_terminal (run_of s q)" using q slots(3) by auto
      then have "ms_active s1 = Some q" "ms_reserved s1 = None" using P[OF True] 1 Some F by simp_all
      then show ?thesis using \<open>q \<noteq> r\<close> \<open>\<not> rn_terminal (run_of s q)\<close> F by (simp add: slots_ok_def)
    qed
  next
    case 2
    then obtain a where a: "ms_active s = Some a" "a \<noteq> r" using slots(2) by auto
    then have "ms_active s1 = Some a" "ms_reserved s1 = None" using P[OF True] 2 by simp_all
    then show ?thesis using a F slots(1)[OF a(1)] by (simp add: slots_ok_def)
  qed
qed

lemma publish_valid:
  assumes V: "valid s" and R: "ms_runs s r = Some run" and O: "in_order run p terminal settled"
  shows "valid (snd (publishSettling r p terminal settled s)) \<and> grows s (snd (publishSettling r p terminal settled s)) \<and>
    (\<forall>q. fst (publishSettling r p terminal settled s) = Inr q \<longrightarrow> set_option q \<subseteq> known (snd (publishSettling r p terminal settled s)) \<and>
      rn_steers (run_of (snd (publishSettling r p terminal settled s)) r) = (if settlement p = None then rn_steers run else tl (rn_steers run)))"
proof -
  let ?s = "others s"
  obtain res out where pub0: "publishSettling r p terminal settled s = (res, out)" by fastforce
  have V1: "valid ?s" by (rule others_valid[OF V])
  have run: "ms_runs ?s r = Some run" using R by simp
  have T: "terminal = terminal_payload p" using O by (simp add: in_order_def)
  have P: "core out \<and> grows s out \<and> set_option (case res of Inr q \<Rightarrow> q | Inl err \<Rightarrow> None) \<subseteq> known out"
    using publish_core[OF validD(1)[OF V] domI[of "ms_runs s", OF R] T, of settled] unfolding pub0 by simp
  have "valid out \<and> grows s out \<and> (\<forall>q. res = Inr q \<longrightarrow> set_option q \<subseteq> known out \<and>
      rn_steers (run_of out r) = (if settlement p = None then rn_steers run else tl (rn_steers run)))" (is ?goal)
  proof (cases "rn_terminal run \<or> \<not> ms_encodes ?s p")
    case True
    have "(\<exists>err. res = Inl err) \<and> valid out"
    proof (cases "rn_terminal run")
      case True
      then have "publishSettling r p terminal settled s = (Inl MemTerminalWon, ?s)" using run by (simp add: publishSettling_def Let_def)
      then show ?thesis using pub0 V1 by simp
    next
      case False
      then have "\<not> ms_encodes ?s p" using True by simp
      then have "publishSettling r p terminal settled s = (Inl MemEncode, ?s\<lparr>ms_ids := Suc (ms_ids ?s)\<rparr>)"
        using run False by (simp add: publishSettling_def publish_event_def Let_def bind_op_def NewID_def)
      then show ?thesis using pub0 valid_ids[OF V1, of "Suc (ms_ids ?s)"] by simp
    qed
    then show ?goal using P by blast
  next
    case False
    define eid s1 where eid: "eid = sequence_id ''event'' (Suc (ms_ids ?s))" and s1: "s1 = ?s\<lparr>ms_ids := Suc (ms_ids ?s)\<rparr>"
    define e run1 where e: "e = event_of s1 eid r run p" and run1: "run1 = published_run p terminal settled eid run"
    define s3 where s3: "s3 = (if terminal then snd (promote r (rn_nextSequence run) (record_event e run1 s1)) else record_event e run1 s1)"
    have "snd (publishSettling r p terminal settled s) = deliver e terminal (refreshState s3)"
      using False run by (auto simp: publishSettling_def publish_event_def Let_def bind_op_def NewID_def eid s1 s3 e run1 split: prod.split)
    then have out: "out = deliver e terminal (refreshState s3)" using pub0 by simp
    have F: "ms_runs out = (ms_runs ?s)(r \<mapsto> run1)" "ms_log out = ms_log ?s @ [e]" "ms_ids out = Suc (ms_ids ?s)"
      "ms_active out = ms_active s3" "ms_reserved out = ms_reserved s3"
      "mt_CompactionPolicy (ms_state out) = mt_CompactionPolicy (ms_state ?s)" "ms_threshold out = ms_threshold ?s"
      unfolding out by (simp_all add: s3 s1 e promote_fields promote_slots) (simp_all add: record_event_def Let_def upd_state_def)
    have ev: "events out q = events ?s q @ (if q = r then [e] else [])" for q by (simp add: events_def F(2) e)
    note pub = published_steers[OF validD(2)[OF V1 run] O, of eid, folded run1]
    have L: "\<not> rn_terminal run" using False by simp
    have "slots_ok out"
    proof (rule slots_published[OF validD(3)[OF V1] validD(1)[OF V1] run L])
      show "ms_active out = ms_active ?s \<and> ms_reserved out = ms_reserved ?s" if "\<not> terminal" using that F(4,5) by (simp add: s3 s1)
      show "terminal \<Longrightarrow> ms_active out = (let a = if ms_active ?s = Some r then None else ms_active ?s; q = if ms_reserved ?s = Some r then None else ms_reserved ?s
         in if a = None \<and> run_live out q then q else a)"
        "terminal \<Longrightarrow> ms_reserved out = (let a = if ms_active ?s = Some r then None else ms_active ?s; q = if ms_reserved ?s = Some r then None else ms_reserved ?s
         in if a = None \<and> run_live out q then None else q)"
        unfolding F(4,5) by (simp_all add: s3 s1 e promote_slots F(1) Let_def split: option.split)
    qed (use L pub in \<open>simp_all add: F(1) run1 published_order\<close>)
    moreover have "policy_ok out" using validD(4)[OF V1] by (simp add: policy_ok_def F(6,7))
    moreover have "steers_ok (ms_ids out) (settlements out q) u" if u: "ms_runs out q = Some u" for q u
    proof (cases "q = r")
      case True
      then have "u = run1" "settlements out q = settlements ?s r @ (case settlement p of None \<Rightarrow> [] | Some x \<Rightarrow> [x])"
        using u F(1) by (auto simp: settlements_def ev e map_filter_def split: option.split)
      then show ?thesis using pub L steers_ok_mono[of "ms_ids ?s" _ run1 "Suc (ms_ids ?s)"] F(3) by simp
    next
      case False
      then have "ms_runs ?s q = Some u" using u F(1) by simp
      from validD(2)[OF V1 this] show ?thesis using False steers_ok_mono[of "ms_ids ?s" _ u "Suc (ms_ids ?s)"] by (simp add: settlements_def ev F(3))
    qed
    ultimately have "valid out" using P by (intro validI) simp_all
    moreover have "run_of out r = run1" using F(1) by simp
    moreover have "set_option q \<subseteq> known out" if "res = Inr q" for q using P that by simp
    ultimately show ?goal using P pub[OF L] by simp
  qed
  then show ?thesis unfolding pub0 fst_conv snd_conv .
qed

section \<open>Operations keep the invariant\<close>

text \<open>An operation on the runs \<open>R\<close>, and one that may start a run.\<close>

definition okay :: "bytes set \<Rightarrow> 'a mem_op \<Rightarrow> bool" where
  "okay R m \<longleftrightarrow> (\<forall>s. valid s \<longrightarrow> R \<subseteq> dom (ms_runs s) \<longrightarrow> valid (snd (m s)) \<and> grows s (snd (m s)))"

definition starts :: "(bytes \<Rightarrow> 'a mem_op) \<Rightarrow> bool" where
  "starts m \<longleftrightarrow> (\<forall>q s. valid s \<longrightarrow> q \<in> known s \<longrightarrow> valid (snd (m q s)) \<and> grows s (snd (m q s)))"

named_theorems okay_intros "operations of a session that keep its invariant"

lemma okayI: "(\<And>s. valid s \<Longrightarrow> R \<subseteq> dom (ms_runs s) \<Longrightarrow> valid (snd (m s)) \<and> grows s (snd (m s))) \<Longrightarrow> okay R m"
  unfolding okay_def by blast

lemma okayD: "okay R m \<Longrightarrow> valid s \<Longrightarrow> R \<subseteq> dom (ms_runs s) \<Longrightarrow> valid (snd (m s))"
  "okay R m \<Longrightarrow> valid s \<Longrightarrow> R \<subseteq> dom (ms_runs s) \<Longrightarrow> grows s (snd (m s))"
  unfolding okay_def by blast+

lemma startsD: "starts m \<Longrightarrow> valid s \<Longrightarrow> q \<in> known s \<Longrightarrow> valid (snd (m q s)) \<and> grows s (snd (m q s))"
  unfolding starts_def by blast

lemma okay_bind [okay_intros]:
  assumes m: "okay R m" and f: "\<And>a. okay R (f a)"
  shows "okay R (bind_op m f)"
proof (rule okayI)
  fix s assume s: "valid s" "R \<subseteq> dom (ms_runs s)"
  obtain res s1 where m1: "m s = (res, s1)" by fastforce
  note k = okayD[OF m s, unfolded m1 snd_conv]
  have R: "R \<subseteq> dom (ms_runs s1)" using grows_dom[OF k(2)] s(2) by blast
  show "valid (snd (bind_op m f s)) \<and> grows s (snd (bind_op m f s))"
    using k okayD[OF f k(1) R] session_grows_trans[OF k(2)] m1 by (cases res) (simp_all add: bind_op_def)
qed

lemma okay_ret [okay_intros]: "okay R (ret a)"
  by (rule okayI) (simp add: ret_def)

lemma okay_get [okay_intros]: "okay R (get f)"
  by (rule okayI) (simp add: get_def)

lemma okay_if [okay_intros]: "(b \<Longrightarrow> okay R m) \<Longrightarrow> (\<not> b \<Longrightarrow> okay R n) \<Longrightarrow> okay R (if b then m else n)"
  by simp

lemma okay_case_option [okay_intros]: "okay R m \<Longrightarrow> (\<And>x. okay R (n x)) \<Longrightarrow> okay R (case x of None \<Rightarrow> m | Some x \<Rightarrow> n x)"
  by (cases x) simp_all

lemma okay_case_prod [okay_intros]: "(\<And>x y. okay R (m x y)) \<Longrightarrow> okay R (case x of (x, y) \<Rightarrow> m x y)"
  by (cases x) simp

lemma okay_NewID [okay_intros]: "okay R (NewID kind)"
  by (rule okayI) (simp add: NewID_def valid_ids)

lemma okay_section [okay_intros]:
  assumes "\<And>s. valid s \<Longrightarrow> R \<subseteq> dom (ms_runs s) \<Longrightarrow> valid (f s) \<and> grows s (f s)"
  shows "okay R (section_op f)"
proof (rule okayI)
  fix s assume s: "valid s" "R \<subseteq> dom (ms_runs s)"
  then show "valid (snd (section_op f s)) \<and> grows s (snd (section_op f s))"
    using assms[of "others s"] others_valid[of s] session_grows_trans[OF grows_others] by (simp add: section_op_def)
qed

lemma unless_won_state [simp]: "snd (unless_won m s) = snd (m s)"
  by (simp add: unless_won_def split: prod.split sum.split mem_error.split)

lemma ignoring_state [simp]: "snd (ignoring m s) = snd (m s)"
  by (simp add: ignoring_def)

lemma okay_unless_won [okay_intros]: "okay R m \<Longrightarrow> okay R (unless_won m)"
  by (simp add: okay_def)

lemma okay_ignoring [okay_intros]: "okay R m \<Longrightarrow> okay R (ignoring m)"
  by (simp add: okay_def)

text \<open>The steering requests that wait are settled one by one; if nothing fails, none waits any more.\<close>

lemma settle_each:
  assumes f: "\<And>t. settlement (f t) = Some (ps_submissionID t, ps_requestID t)" "\<And>t. \<not> terminal_payload (f t)"
  shows "valid s \<Longrightarrow> ms_runs s r = Some run \<Longrightarrow> rn_steers run = ts \<Longrightarrow>
    valid (snd (each_op (settle_one f r) ts s)) \<and> grows s (snd (each_op (settle_one f r) ts s)) \<and>
    (\<forall>u. fst (each_op (settle_one f r) ts s) = Inr u \<longrightarrow> rn_steers (run_of (snd (each_op (settle_one f r) ts s)) r) = [])"
proof (induction ts arbitrary: s run)
  case Nil
  then show ?case by (simp add: ret_def)
next
  case (Cons t ts)
  obtain res s1 where p: "publishSettling r (f t) False (ps_submissionID t) s = (res, s1)" by fastforce
  have "in_order run (f t) False (ps_submissionID t)" using Cons.prems(3) f by (simp add: in_order_def)
  note P = publish_valid[OF Cons.prems(1,2) this, unfolded p fst_conv snd_conv]
  show ?case
  proof (cases res)
    case (Inl err)
    then show ?thesis using P p by (simp add: bind_op_def settle_one_def)
  next
    case (Inr q)
    obtain run1 where run1: "ms_runs s1 r = Some run1" using grows_dom[of s s1 r] P Cons.prems(2) by blast
    have "rn_steers run1 = ts" using P Inr run1 Cons.prems(3) f(1) by simp
    from Cons.IH[OF _ run1 this] P session_grows_trans[of s s1] show ?thesis using p Inr by (simp add: bind_op_def settle_one_def ret_def)
  qed
qed

lemma steers_settled:
  assumes V: "valid s" and R: "r \<in> dom (ms_runs s)" and m: "m = settleSteers r \<or> m = dropSteers r"
  shows "valid (snd (m s)) \<and> grows s (snd (m s)) \<and> (\<forall>u. fst (m s) = Inr u \<longrightarrow> rn_steers (run_of (snd (m s)) r) = [])"
proof -
  obtain f where f: "m s = each_op (settle_one f r) (rn_steers (run_of s r)) (others s)"
      "\<And>t. settlement (f t) = Some (ps_submissionID t, ps_requestID t)" "\<And>t. \<not> terminal_payload (f t)"
    using m by (auto simp: settleSteers_def dropSteers_def pendingSteers_def bind_op_def section_op_def get_def settlement_def terminal_payload_def)
  obtain run where run: "ms_runs s r = Some run" using R by blast
  show ?thesis using settle_each[OF f(2,3) others_valid[OF V], of r run] session_grows_trans[OF grows_others] run by (simp add: f(1))
qed

lemma okay_settleSteers [okay_intros]: "okay {r} (settleSteers r)"
  using steers_settled by (intro okayI) blast

lemma okay_emit [okay_intros]:
  assumes I: "starts initial" and p: "terminal = terminal_payload p" "settlement p = None"
  shows "okay {r} (emit initial r p terminal)"
proof (rule okayI)
  fix s assume s: "valid s" "{r} \<subseteq> dom (ms_runs s)"
  obtain res s1 where d: "(if terminal then dropSteers r else ret ()) s = (res, s1)" by fastforce
  have D: "valid s1 \<and> grows s s1 \<and> (terminal \<longrightarrow> (\<forall>u. res = Inr u \<longrightarrow> rn_steers (run_of s1 r) = []))"
    using steers_settled[OF s(1), of r "dropSteers r"] s d by (cases terminal) (auto simp: ret_def)
  obtain run where run: "ms_runs s1 r = Some run" using grows_dom[of s s1 r] D s(2) by blast
  obtain res1 s2 where q: "publishSettling r p terminal [] s1 = (res1, s2)" by fastforce
  show "valid (snd (emit initial r p terminal s)) \<and> grows s (snd (emit initial r p terminal s))"
  proof (cases res)
    case (Inl err)
    then show ?thesis using D d by (simp add: emit_def bind_op_def)
  next
    case (Inr u)
    then have "in_order run p terminal []" using D p run by (simp add: in_order_def)
    note P = publish_valid[OF conjunct1[OF D] run this, unfolded q fst_conv snd_conv]
    have g: "grows s s2" using D P session_grows_trans by blast
    show ?thesis
    proof (cases "\<exists>x. res1 = Inr (Some x)")
      case True
      then obtain x where x: "res1 = Inr (Some x)" by blast
      then have "x \<in> known s2" using P by simp
      from startsD[OF I _ this] P session_grows_trans[OF g] show ?thesis using d q Inr x by (simp add: emit_def bind_op_def)
    next
      case False
      then have "snd (emit initial r p terminal s) = s2" using d q Inr by (cases res1) (auto simp: emit_def bind_op_def ret_def)
      then show ?thesis using P g by simp
    qed
  qed
qed

lemmas payload_kind = terminal_payload_def settlement_def

lemma okay_emitCompaction [okay_intros]: "starts initial \<Longrightarrow> okay {r} (emitCompaction initial r reason)"
  unfolding emitCompaction_def[abs_def] by (intro okay_intros) (simp_all add: payload_kind valid_history)

lemma okay_requestInput [okay_intros]: "starts initial \<Longrightarrow> okay {r} (requestInput initial r)"
  unfolding requestInput_def[abs_def]
  by (intro okay_intros) (auto simp: payload_kind valid_upd_run intro!: valid_upd_state)

lemma okay_emit_script [okay_intros]: "starts initial \<Longrightarrow> okay {r} (emit_script initial r)"
  unfolding emit_script_def[abs_def] by (intro okay_intros) (simp_all add: payload_kind)

lemma okay_emit_started [okay_intros]: "starts initial \<Longrightarrow> okay {r} (emit_started initial r)"
  unfolding emit_started_def[abs_def] by (intro okay_intros) (simp_all add: payload_kind valid_history)

lemma start_run_valid: "valid s \<Longrightarrow> r \<in> known s \<Longrightarrow> valid (start_run r s) \<and> grows s (start_run r s)"
  unfolding start_run_def by (rule valid_upd_run) (auto simp: known_def)

lemma starts_emit_initial: "starts (emit_initial n)"
proof (induction n)
  case 0
  show ?case by (simp add: starts_def)
next
  case (Suc n)
  have "valid (snd (emit_initial (Suc n) r s)) \<and> grows s (snd (emit_initial (Suc n) r s))" if s: "valid s" "r \<in> known s" for r s
  proof -
    have rest: "okay {r} (emit_started (emit_initial n) r)" by (intro okay_intros Suc)
    have r: "r \<in> known (others s)" using s(2) by (simp add: known_def)
    note S = start_run_valid[OF others_valid[OF s(1)] r]
    have d: "{r} \<subseteq> dom (ms_runs (start_run r (others s)))" using r by (auto simp: start_run_def upd_run_def known_def)
    show ?thesis using S okayD[OF rest _ d] session_grows_trans[of s "others s"] session_grows_trans[of s "start_run r (others s)"]
      by (simp add: bind_op_def section_op_def)
  qed
  then show ?case unfolding starts_def by blast
qed

lemma starts_emitInitial [okay_intros]: "starts emitInitial"
  using starts_emit_initial[of 2] by (simp add: starts_def emitInitial_def)

lemma okay_resolvePermission [okay_intros]: "okay {r} (resolvePermission r request)"
  unfolding resolvePermission_def[abs_def] by (intro okay_intros) (simp_all add: payload_kind)

lemma okay_won_case [okay_intros]:
  assumes "okay R m" "okay R n"
  shows "okay R (\<lambda>s. case m s of (Inl MemTerminalWon, s1) \<Rightarrow> n s1 | x \<Rightarrow> x)"
proof (rule okayI)
  fix s assume s: "valid s" "R \<subseteq> dom (ms_runs s)"
  obtain res s1 where m: "m s = (res, s1)" by fastforce
  note k = okayD[OF assms(1) s, unfolded m snd_conv]
  have R: "R \<subseteq> dom (ms_runs s1)" using grows_dom[OF k(2)] s(2) by blast
  note l = okayD[OF assms(2) k(1) R]
  show "valid (snd (case m s of (Inl MemTerminalWon, s1) \<Rightarrow> n s1 | x \<Rightarrow> x)) \<and>
      grows s (snd (case m s of (Inl MemTerminalWon, s1) \<Rightarrow> n s1 | x \<Rightarrow> x))"
    using k l session_grows_trans[OF k(2)] m by (auto split: sum.split mem_error.split)
qed

lemma okay_resolveInput [okay_intros]: "okay {r} (resolveInput r request)"
  unfolding resolveInput_def[abs_def] by (intro okay_intros) (simp_all add: payload_kind valid_history)

lemma okay_settleCall [okay_intros]: "okay {r} (settleCall r acknowledged)"
  unfolding settleCall_def[abs_def] by (intro okay_intros) (simp_all add: payload_kind)

lemma okay_cancel_started [okay_intros]: "okay {r} (cancel_started r)"
  unfolding cancel_started_def[abs_def] by (intro okay_intros) (simp_all add: payload_kind)

lemma okay_message_ids [okay_intros]: "okay R (message_ids ms)"
  by (induction ms) (auto intro!: okay_intros)

section \<open>The requests of a session\<close>

lemma okay_changed:
  assumes "okay {r} m" "valid s" "ms_runs s r = Some run" "\<And>u. order_of (f u) = order_of u" "\<And>u. rn_nextSequence (f u) = rn_nextSequence u"
    "\<And>u. rn_started (f u) = rn_started u"
  shows "valid (snd (m (upd_run r f s)))"
proof -
  have "valid (upd_run r f s) \<and> grows s (upd_run r f s)" using valid_upd_run[OF assms(2)] assms(4-6) by simp
  then show ?thesis using okayD(1)[OF assms(1), of "upd_run r f s"] grows_dom[of s "upd_run r f s" r] assms(3) by blast
qed

lemma Resolve_valid:
  assumes "valid s"
  shows "valid (snd (mem_Resolve cancelled resolution s))"
proof -
  have C: "valid (others s)" by (rule others_valid[OF assms])
  show ?thesis unfolding mem_Resolve_def Let_def
    using assms C okay_changed[OF okay_resolvePermission C] okay_changed[OF okay_resolveInput C]
    by (auto split: option.split scriptStage.split)
qed

lemma ResolveCall_valid:
  assumes "valid s"
  shows "valid (snd (mem_ResolveCall cancelled requestID request s))"
proof -
  have C: "valid (others s)" by (rule others_valid[OF assms])
  have 1: "okay {r} (bind_op (unless_won (settleCall r b)) (\<lambda>_. ret x))" for r b and x :: call_answer by (intro okay_intros)
  have 2: "okay {r} (bind_op (unless_won (emit emitInitial r (PActionCall k c) False)) (\<lambda>_. ret x))" for r k c and x :: call_answer
    by (intro okay_intros) (simp_all add: payload_kind)
  show ?thesis unfolding mem_ResolveCall_def Let_def
    using assms C okay_changed[OF 1 C] okay_changed[OF 2 C] by (auto split: option.split)
qed

lemma Cancel_valid:
  assumes "valid s"
  shows "valid (snd (mem_Cancel cancelled r s))"
proof -
  have C: "valid (others s)" by (rule others_valid[OF assms])
  have 1: "okay {r} (bind_op (ignoring (emit emitInitial r (PRunCancelled x) True)) (\<lambda>_. ret y))" for x and y :: RunStatus
    by (intro okay_intros) (simp_all add: payload_kind)
  have 2: "okay {r} (bind_op (cancel_started r) (\<lambda>_. ret y))" for y :: RunStatus by (intro okay_intros)
  show ?thesis unfolding mem_Cancel_def Let_def
    using assms C okay_changed[OF 1 C] okay_changed[OF 2 C] by (auto split: option.split)
qed

lemma steers_okI:
  assumes "all = settled @ steer_ids (rn_steers run)" "distinct (map fst all)" "map snd all = rn_admittedSteers run"
    "\<And>i. i \<in> set (map fst all) \<Longrightarrow> \<exists>m \<le> n. i = sequence_id ''submission'' m" "rn_terminal run \<longrightarrow> rn_steers run = []"
  shows "steers_ok n settled run"
  using assms(2-5) unfolding steers_ok_def Let_def assms(1) by blast

lemma steers_ok_append:
  assumes S: "steers_ok n settled run" and L: "\<not> rn_terminal run"
  shows "steers_ok (Suc n) settled (run\<lparr>rn_steers := rn_steers run @ [\<lparr>ps_submissionID = sequence_id ''submission'' (Suc n), ps_requestID = req,
     ps_messages = mids\<rparr>], rn_admittedSteers := rn_admittedSteers run @ [req]\<rparr>)"
proof -
  let ?all = "settled @ steer_ids (rn_steers run)" and ?x = "(sequence_id ''submission'' (Suc n), req)"
  have ids: "\<exists>m \<le> n. i = sequence_id ''submission'' m" if "i \<in> set (map fst ?all)" for i using S that unfolding steers_ok_def Let_def by blast
  have "sequence_id ''submission'' (Suc n) \<notin> set (map fst ?all)" using ids[of "sequence_id ''submission'' (Suc n)"] by auto
  then have "distinct (map fst (?all @ [?x]))" using S by (simp add: steers_ok_def Let_def)
  moreover have "map snd (?all @ [?x]) = rn_admittedSteers run @ [req]" using S by (simp add: steers_ok_def Let_def)
  moreover have "\<exists>m \<le> Suc n. i = sequence_id ''submission'' m" if "i \<in> set (map fst (?all @ [?x]))" for i
  proof (cases "i \<in> set (map fst ?all)")
    case True
    then show ?thesis using ids le_SucI by blast
  next
    case False
    then have "i = sequence_id ''submission'' (Suc n)" using that by simp
    then show ?thesis by blast
  qed
  ultimately show ?thesis using L by (intro steers_okI[of "?all @ [?x]"]) simp_all
qed

lemma steered_valid:
  assumes V: "valid (s\<lparr>ms_ids := n\<rparr>)" and R: "ms_runs s r = Some run" "rn_started run" "\<not> rn_terminal run"
    and f: "f = (\<lambda>u. u\<lparr>rn_steers := rn_steers u @ [\<lparr>ps_submissionID = sequence_id ''submission'' (Suc n), ps_requestID = req, ps_messages = mids\<rparr>],
      rn_admittedSteers := rn_admittedSteers u @ [req]\<rparr>)"
  shows "valid (upd_run r f (s\<lparr>ms_ids := Suc n\<rparr>))" (is "valid ?s")
proof (rule validI)
  have V1: "valid (s\<lparr>ms_ids := Suc n\<rparr>)" using valid_ids[OF V, of "Suc n"] by simp
  show "core ?s" using core_upd_run[OF validD(1)[OF V1], of f r] by (simp add: f)
  have ev: "settlements ?s q = settlements s q" for q by (simp add: settlements_def events_def upd_run_def)
  show "steers_ok (ms_ids ?s) (settlements ?s q) u" if u: "ms_runs ?s q = Some u" for q u
  proof (cases "q = r")
    case False
    then have "ms_runs s q = Some u" using u by (simp add: upd_run_def)
    then show ?thesis using validD(2)[OF V1, of q u] ev[of q] by (simp add: upd_run_def settlements_def events_def)
  next
    case True
    have "steers_ok n (settlements s r) run" using validD(2)[OF V, of r run] R(1) by (simp add: settlements_def events_def)
    then have "steers_ok (Suc n) (settlements s r) (f run)" unfolding f using R(3) by (intro steers_ok_append)
    then show ?thesis using True u R(1) by (simp add: ev) (simp add: upd_run_def)
  qed
  have "ms_reserved s \<noteq> Some r" using slots_okD(3)[OF validD(3)[OF V], of r] R by auto
  then show "slots_ok ?s" using validD(3)[OF V1] by (auto simp: slots_ok_def upd_run_def f R(1))
  show "policy_ok ?s" using validD(4)[OF V1] by (simp add: policy_ok_def upd_run_def)
qed

lemma steerTarget_run:
  assumes C: "core s" and T: "steerTarget s target = (x, [])"
  shows "\<exists>r run. x = Some r \<and> ms_runs s r = Some run \<and> rn_started run \<and> \<not> rn_terminal run"
proof (cases "target = []")
  case False
  then show ?thesis using T by (auto simp: steerTarget_def split: option.splits if_splits)
next
  case True
  then show ?thesis using T coreD(7)[OF C] by (auto simp: steerTarget_def split: option.splits if_splits) metis
qed

lemma message_ids_state: "\<exists>ids n. message_ids ms s = (Inr ids, s\<lparr>ms_ids := n\<rparr>) \<and> ms_ids s \<le> n"
proof (induction ms arbitrary: s)
  case Nil
  show ?case by (intro exI[of _ "[]"] exI[of _ "ms_ids s"]) (simp add: ret_def)
next
  case (Cons m ms)
  obtain i k where m: "(if mg_ID m = [] then NewID ''message'' else ret (mg_ID m)) s = (Inr i, s\<lparr>ms_ids := k\<rparr>)" "ms_ids s \<le> k"
  proof (cases "mg_ID m = []")
    case False
    then show thesis using that[of "mg_ID m" "ms_ids s"] by (simp add: ret_def)
  qed (use that[of "sequence_id ''message'' (Suc (ms_ids s))" "Suc (ms_ids s)"] in \<open>simp add: NewID_def\<close>)
  obtain ids n where "message_ids ms (s\<lparr>ms_ids := k\<rparr>) = (Inr ids, s\<lparr>ms_ids := n\<rparr>)" "k \<le> n" using Cons.IH[of "s\<lparr>ms_ids := k\<rparr>"] by auto
  then show ?case using m by (auto simp: bind_op_def ret_def)
qed

lemma steer_valid:
  assumes V: "valid s"
  shows "valid (snd (mem_steer envelopeID request s))"
proof -
  have V1: "valid (others s)" by (rule others_valid[OF V])
  obtain ids n where m: "message_ids (sq_Messages request) (others s) = (Inr ids, (others s)\<lparr>ms_ids := n\<rparr>)" "ms_ids (others s) \<le> n"
    using message_ids_state by blast
  have "valid (upd_run r (\<lambda>u. u\<lparr>rn_steers := rn_steers u @ [\<lparr>ps_submissionID = sequence_id ''submission'' (Suc n), ps_requestID = envelopeID, ps_messages = ids\<rparr>],
      rn_admittedSteers := rn_admittedSteers u @ [envelopeID]\<rparr>) ((others s)\<lparr>ms_ids := Suc n\<rparr>))"
    if "steerTarget (others s) target = (Some r, [])" for target r
    using steerTarget_run[OF validD(1)[OF V1] that] steered_valid[OF valid_ids[OF V1 m(2)] _ _ _ refl] by auto
  moreover have "\<exists>r. x = Some r" if "steerTarget (others s) target = (x, [])" for target x
    using steerTarget_run[OF validD(1)[OF V1] that] by blast
  ultimately show ?thesis unfolding mem_steer_def Let_def
    using V V1 m(1) by (fastforce simp: bind_op_def NewID_def intro!: valid_refresh valid_upd_state split: option.split prod.split)
qed

section \<open>Entering a run\<close>

text \<open>The run of a submission has a fresh id and has published nothing.\<close>

definition fresh_run :: "memorySession \<Rightarrow> bytes \<Rightarrow> memoryRun \<Rightarrow> memorySession \<Rightarrow> bool" where
  "fresh_run s r run s1 \<longleftrightarrow> r = sequence_id ''run'' (Suc (ms_ids s)) \<and> rn_nextSequence run = 1 \<and> \<not> rn_started run \<and> order_of run = (False, [], []) \<and>
     ms_ids s < ms_ids s1 \<and> s1 = s\<lparr>ms_ids := ms_ids s1\<rparr>"

lemma submit_run_fresh: "\<exists>r run s1. submit_run controls input s = (Inr (r, run), s1) \<and> fresh_run s r run s1"
  by (simp add: submit_run_def bind_op_def NewID_def get_def ret_def fresh_run_def blank_run_def)

lemma compact_run_fresh: "\<exists>r run s1. compact_run model continue focus s = (Inr (r, run), s1) \<and> fresh_run s r run s1"
  by (simp add: compact_run_def bind_op_def NewID_def get_def ret_def fresh_run_def blank_run_def)

lemma enter_run_fields:
  "ms_runs (enter_run busy reservation r run s) = (ms_runs s)(r \<mapsto> run\<lparr>rn_queuedAdmission := reservation, rn_status := (if reservation then RunQueued else rn_status run)\<rparr>)"
  "ms_log (enter_run busy reservation r run s) = ms_log s" "ms_ids (enter_run busy reservation r run s) = ms_ids s"
  "ms_active (enter_run busy reservation r run s) = (if busy then ms_active s else Some r)"
  "ms_reserved (enter_run busy reservation r run s) = (if busy then Some r else ms_reserved s)"
  "mt_CompactionPolicy (ms_state (enter_run busy reservation r run s)) = mt_CompactionPolicy (ms_state s)"
  "ms_threshold (enter_run busy reservation r run s) = ms_threshold s" "ms_nstream (enter_run busy reservation r run s) = Suc (ms_nstream s)"
  "ms_closed (enter_run busy reservation r run s) = ms_closed s"
  by (simp_all add: enter_run_def Let_def new_stream_def subscribe_run_def upd_state_def)

lemma fresh_entered:
  assumes V: "valid s" and F: "fresh_run s r run s1" and B: "busy = run_live s (ms_active s)" "\<not> (busy \<and> run_live s (ms_reserved s))"
  shows "valid (enter_run busy reservation r run s1) \<and> r \<in> dom (ms_runs (enter_run busy reservation r run s1)) \<and>
    (\<not> busy \<longrightarrow> r \<in> known (enter_run busy reservation r run s1))"
proof -
  let ?s = "enter_run busy reservation r run s1"
  obtain n where n: "ms_ids s < n" "s1 = s\<lparr>ms_ids := n\<rparr>" and r: "r = sequence_id ''run'' (Suc (ms_ids s))"
    and run: "rn_nextSequence run = 1" "\<not> rn_terminal run" "\<not> rn_started run" "rn_steers run = []" "rn_admittedSteers run = []"
    using F unfolding fresh_run_def by auto
  note C = validD(1)[OF V] and slots = slots_okD[OF validD(3)[OF V]]
  have V1: "valid s1" using valid_ids[OF V, of n] n by simp
  have fresh: "r \<notin> dom (ms_runs s)"
  proof
    assume "r \<in> dom (ms_runs s)"
    then obtain m where "m \<le> ms_ids s" "r = sequence_id ''run'' m" using coreD(3)[OF C, of r] by auto
    then show False using r by simp
  qed
  have slot: "\<not> busy \<Longrightarrow> ms_active s = None" "\<not> busy \<Longrightarrow> ms_reserved s = None" "busy \<Longrightarrow> ms_reserved s = None"
    using B slots by (cases "ms_active s"; cases "ms_reserved s"; fastforce)+
  have "core ?s \<and> r \<in> dom (ms_runs ?s)"
    using validD(1)[OF V1] n r run fresh slot by (intro core_entered[where n = "Suc (ms_ids s)"]) (auto split: option.splits)
  moreover have "steers_ok (ms_ids ?s) (settlements ?s q) u" if u: "ms_runs ?s q = Some u" for q u
  proof (cases "q = r")
    case True
    have "events s r = []" using coreD(2)[OF C] fresh by (auto simp: events_def filter_empty_conv)
    then show ?thesis using True u run n(2) by (auto simp: settlements_def events_def enter_run_fields steers_ok_def map_filter_simps)
  next
    case False
    then show ?thesis using u validD(2)[OF V1, of q u] by (simp add: enter_run_fields settlements_def events_def)
  qed
  moreover have "slots_ok ?s"
  proof (cases busy)
    case True
    then obtain a where a: "ms_active s = Some a" "\<not> rn_terminal (run_of s a)" using B(1) by (auto split: option.splits)
    have "a \<noteq> r" using a(1) coreD(7)[OF C] fresh by auto
    then show ?thesis using True a run n(2) by (simp add: slots_ok_def enter_run_fields)
  next
    case False
    then show ?thesis using slot run n(2) by (simp add: slots_ok_def enter_run_fields)
  qed
  moreover have "policy_ok ?s" using validD(4)[OF V1] by (simp add: policy_ok_def enter_run_fields)
  ultimately show ?thesis using slot(2) n(2) by (auto intro!: validI simp: known_def enter_run_fields)
qed

lemma answerRun_valid: "valid s \<Longrightarrow> valid (answerRun r s) \<and> grows s (answerRun r s)"
proof -
  assume V: "valid s"
  have "valid (upd_run r (\<lambda>u. u\<lparr>rn_answered := True\<rparr>) (others s)) \<and> grows (others s) (upd_run r (\<lambda>u. u\<lparr>rn_answered := True\<rparr>) (others s))"
    by (rule valid_upd_run[OF others_valid[OF V]]) simp_all
  then show ?thesis using session_grows_trans[OF grows_others] by (simp add: answerRun_def)
qed

lemma start_entered_valid:
  assumes V: "valid s" and R: "r \<in> dom (ms_runs s)" "\<not> busy \<Longrightarrow> r \<in> known s"
  shows "valid (snd (start_entered busy r answer s)) \<and> grows s (snd (start_entered busy r answer s))"
proof (cases busy)
  case True
  then show ?thesis using answerRun_valid[OF V] by (simp add: start_entered_def)
next
  case False
  obtain res s1 where e: "emitInitial r s = (res, s1)" by fastforce
  have k: "valid s1" "grows s s1" using startsD[OF starts_emitInitial V R(2)[OF False]] e by simp_all
  show ?thesis using False e answerRun_valid[OF k(1)] session_grows_trans[OF k(2)] by (cases res) (simp_all add: start_entered_def)
qed

text \<open>A run that was admitted is there, with a stream, whatever became of its script.\<close>

lemma admit_run_valid:
  assumes V: "valid s" and F: "fresh_run s r run s1" and B: "busy = run_live s (ms_active s)" "\<not> (busy \<and> run_live s (ms_reserved s))"
    and A: "s2 = snd (admit_run busy reservation model messages (r, run) s1)"
  shows "valid s2 \<and> r \<in> dom (ms_runs s2) \<and> 0 < ms_nstream s2 \<and> ms_closed s2 = ms_closed s"
proof -
  let ?e = "enter_run busy reservation r run s1"
  note E = fresh_entered[OF V F B, of reservation]
  obtain ids n where m: "message_ids messages ?e = (Inr ids, ?e\<lparr>ms_ids := n\<rparr>)" "ms_ids ?e \<le> n" using message_ids_state by blast
  let ?f = "?e\<lparr>ms_ids := Suc n\<rparr>"
  have f: "valid ?f" "r \<in> dom (ms_runs ?f)" "\<not> busy \<Longrightarrow> r \<in> known ?f"
    using E m(2) valid_ids[of ?e "Suc n"] by (simp_all add: known_def)
  have "s2 = snd (start_entered busy r (admission busy reservation (sequence_id ''submission'' (Suc n)) r model ids) ?f)"
    using m(1) by (simp add: A admit_run_def bind_op_def NewID_def)
  then have "valid s2 \<and> grows ?f s2" using start_entered_valid[OF f] by simp
  moreover have "ms_closed s1 = ms_closed s"
  proof -
    obtain n where "s1 = s\<lparr>ms_ids := n\<rparr>" using F unfolding fresh_run_def by blast
    then show ?thesis by simp
  qed
  ultimately show ?thesis using grows_dom[of ?f s2 r] f(2) by (simp add: grows_def enter_run_fields)
qed

lemma Submit_valid:
  assumes V: "valid s"
  shows "valid (snd (mem_Submit fits cancelled envelopeID request s))"
proof -
  have C: "valid (others s)" by (rule others_valid[OF V])
  have "valid (snd (bind_op (submit_run controls input) (admit_run busy reservation model ms) (others s)))"
    if "busy = run_live (others s) (ms_active (others s))" "\<not> (busy \<and> run_live (others s) (ms_reserved (others s)))"
    for controls input ms busy reservation model
    using submit_run_fresh[of controls input "others s"] admit_run_valid[OF C _ that refl] by (auto simp: bind_op_def)
  then show ?thesis unfolding mem_Submit_def Let_def
    using V C steer_valid[OF V] by (auto split: sum.split)
qed

lemma Compact_valid:
  assumes V: "valid s"
  shows "valid (snd (mem_Compact cancelled sid delivery focus continue s))"
proof -
  have C: "valid (others s)" by (rule others_valid[OF V])
  have "valid (snd (bind_op (compact_run m b f) (admit_run busy reservation model ms) (others s)))"
    if "busy = run_live (others s) (ms_active (others s))" "\<not> (busy \<and> run_live (others s) (ms_reserved (others s)))"
    for m b f ms busy reservation model
    using compact_run_fresh[of m b f "others s"] admit_run_valid[OF C _ that refl] by (auto simp: bind_op_def)
  then show ?thesis unfolding mem_Compact_def Let_def using V C by auto
qed

lemma call_valid: "valid s \<Longrightarrow> valid (run_call fits c s)"
  by (cases c) (simp_all add: run_call_def Submit_valid Compact_valid Resolve_valid ResolveCall_valid Cancel_valid act_valid)

text \<open>Closing: only a session without live runs closes, and then nobody is subscribed any more.\<close>

lemma Close_outcome:
  assumes V: "valid s" and C: "mem_Close cancelled runs m s = (err, m1, s1)"
  shows "((err \<noteq> None \<or> ms_closed s) \<and> m1 = m \<and> (s1 = s \<or> s1 = others s)) \<or>
    (\<not> ms_closed s \<and> err = None \<and> m1 = keep m (mt_SessionID (ms_state (others s))) (mt_CurrentModelID (ms_state (others s))) (mt_CompactionPolicy (ms_state (others s))) \<and>
     s1 = upd_state (\<lambda>t. t\<lparr>mt_Status := SessionClosed, mt_ActiveRunID := [], mt_UpdatedAtMS := ms_now (others s)\<rparr>) ((others s)\<lparr>ms_closed := True\<rparr>))"
proof (cases "cancelled \<or> ms_closed s \<or> run_live (others s) (ms_active (others s)) \<or> run_live (others s) (ms_reserved (others s))")
  case True
  then show ?thesis using C by (auto simp: mem_Close_def Let_def split: if_splits)
next
  case False
  have none: "ms_subscribers (others s) = (\<lambda>_. [])"
    using all_ended[OF validD(1)[OF others_valid[OF V]]] False by (intro ext) blast
  have "concat (map (\<lambda>_. []) runs) = ([] :: nat list)" by simp
  then have nobody: "fold close_stream (concat (map (\<lambda>_. []) runs)) s2 = s2" for s2 by (simp only: fold.simps id_apply)
  have same: "x\<lparr>ms_subscribers := (\<lambda>_. [])\<rparr> = x" if "ms_subscribers x = (\<lambda>_. [])" for x :: memorySession
    by (rule memorySession.equality) (simp_all add: that)
  let ?x = "upd_state (\<lambda>t. t\<lparr>mt_Status := SessionClosed, mt_ActiveRunID := [], mt_UpdatedAtMS := ms_now (others s)\<rparr>) ((others s)\<lparr>ms_closed := True\<rparr>)"
  have x: "ms_subscribers ?x = (\<lambda>_. [])" by (simp add: upd_state_def none)
  have "mem_Close cancelled runs m s = (None, keep m (mt_SessionID (ms_state ?x)) (mt_CurrentModelID (ms_state ?x)) (mt_CompactionPolicy (ms_state ?x)), ?x)"
    unfolding mem_Close_def Let_def x using False by (simp add: nobody same[OF x])
  then show ?thesis using C False by (simp add: upd_state_def)
qed

lemma Close_valid: "valid s \<Longrightarrow> mem_Close cancelled runs m s = (err, m1, s1) \<Longrightarrow> valid s1"
proof -
  assume V: "valid s" and C: "mem_Close cancelled runs m s = (err, m1, s1)"
  have V1: "valid (others s)" by (rule others_valid[OF V])
  have "valid ((others s)\<lparr>ms_closed := True\<rparr>)"
    by (rule valid_frame[OF V1]) (auto intro: core_frame[OF validD(1)[OF V1]])
  then have "valid (upd_state (\<lambda>t. t\<lparr>mt_Status := SessionClosed, mt_ActiveRunID := [], mt_UpdatedAtMS := x\<rparr>) ((others s)\<lparr>ms_closed := True\<rparr>))" for x
    by (rule valid_upd_state) simp
  then show ?thesis using Close_outcome[OF V C] V V1 by auto
qed

lemma new_session_valid:
  assumes "compactionThreshold policy = Inr threshold"
  shows "valid (new_session m sid request attached provided threshold model recovered policy)"
  by (rule validI[OF new_session_core]) (use assms in \<open>auto simp: new_session_def slots_ok_def policy_ok_def\<close>)

lemma Open_valid: "mem_Open dialect cancelled request m = (Inr s, m1) \<Longrightarrow> valid s"
  by (auto simp: mem_Open_def Let_def new_session_valid split: if_splits sum.splits prod.splits)

theorem reach_valid: "mem_reach fits s \<Longrightarrow> valid s"
proof (induction rule: mem_reach.induct)
  case (mem_opened dialect request m s m1)
  then show ?case by (rule Open_valid)
next
  case (mem_called s c acts)
  then show ?case by (intro call_valid valid_schedule)
next
  case (mem_closed s runs m acts err m1 s1)
  from Close_valid[OF valid_schedule[OF mem_closed.IH] mem_closed.hyps(4)] show ?case .
qed

section \<open>What holds of every session\<close>

text \<open>C13. In every session that can be reached, by whatever calls in whatever order and whatever intervenes,
  the events of a run are numbered 1, 2, 3 and so on without a gap, and exactly the last of them is
  terminal once the run has ended, and none before.\<close>

theorem memory_events_sound:
  assumes "mem_reach fits s" "ms_runs s r = Some run"
  shows "map me_Seq (events s r) = [1..<rn_nextSequence run] \<and> (\<forall>e \<in> set (butlast (events s r)). \<not> terminal_event e) \<and>
    (rn_terminal run \<longleftrightarrow> events s r \<noteq> [] \<and> terminal_event (last (events s r)))"
  using coreD(1)[OF validD(1)[OF reach_valid[OF assms(1)]] assms(2)] by (simp add: run_ok_def)


text \<open>C24. Resuming a run of a session that is open, from a cursor the run has reached: if every event beyond the
  cursor is still in the journal, the stream is given exactly those events, and it stays subscribed if
  the run goes on; if one of them was dropped from the journal, the gap is reported with the oldest event that
  is retained, and the stream is closed and empty.\<close>

theorem memory_resume_exact:
  assumes S: "mem_reach fits s" "\<not> ms_closed s" and R: "ms_runs s r = Some run" and A: "after < rn_nextSequence run"
  shows "let evs = filter (\<lambda>e. me_Seq e > after) (events s r); (res, s1) = mem_Resume False r after s; t = ms_streams s1 (ms_nstream s)
    in if set evs \<subseteq> set (ms_journal s)
       then (\<exists>rv. res = Inr rv \<and> rv_Stream rv = ms_nstream s) \<and> sm_sent t = evs \<and> sm_closed t = rn_terminal run
       else res = Inl (MemReplayGap after (oldest_in (filter (\<lambda>e. me_Run e = r) (ms_journal s))) (rn_nextSequence run - 1)) \<and>
         sm_sent t = [] \<and> sm_closed t"
proof -
  note C = validD(1)[OF reach_valid[OF S(1)]]
  let ?new = "filter (\<lambda>e. me_Run e = r) (ms_journal s)" and ?evs = "filter (\<lambda>e. me_Seq e > after) (events s r)"
  let ?gap = "after < rn_nextSequence run - 1 \<and> (oldest_in ?new = 0 \<or> after + 1 < oldest_in ?new)"
  note ok = coreD(1)[OF C R]
  have sub: "set ?new \<subseteq> set (events s r)" using coreD(4)[OF C] by (auto simp: events_def dest: in_set_dropD)
  have gap: "set ?evs \<subseteq> set (ms_journal s) \<longleftrightarrow> \<not> ?gap"
  proof
    assume all: "set ?evs \<subseteq> set (ms_journal s)"
    show "\<not> ?gap"
    proof
      assume g: ?gap
      have "after + 1 \<in> set (map me_Seq (events s r))" using g ok by (auto simp: run_ok_def)
      then obtain e where e: "e \<in> set (events s r)" "me_Seq e = after + 1" by auto
      then have new: "e \<in> set ?new" using all by (auto simp: events_def)
      then obtain y ys where y: "?new = y # ys" by (cases ?new) auto
      have "events s r = filter (\<lambda>e. me_Run e = r) (take (length (ms_log s) - ms_capacity s) (ms_log s)) @ ?new"
        unfolding events_def coreD(4)[OF C] filter_append[symmetric] by simp
      then have "sorted_wrt (\<lambda>e f. me_Seq e < me_Seq f) ?new" using run_ok_sorted[OF ok] by (simp add: sorted_wrt_append)
      then have "me_Seq y \<le> me_Seq e" using new y by auto
      moreover have "1 \<le> me_Seq y" using run_ok_bounds[OF ok, of y] sub y by auto
      ultimately show False using g e y by (simp add: oldest_in_def)
    qed
  next
    assume "\<not> ?gap"
    then have "?evs = filter (\<lambda>e. me_Seq e > after) ?new" using retained_suffix[OF C R] by simp
    then have "set ?evs = set (filter (\<lambda>e. me_Seq e > after) ?new)" by simp
    then show "set ?evs \<subseteq> set (ms_journal s)" by auto
  qed
  show ?thesis
  proof (cases ?gap)
    case True
    then show ?thesis using gap S R A by (simp add: mem_Resume_def Let_def new_stream_def)
  next
    case False
    then show ?thesis using gap S R A retained_suffix[OF C R False] by (simp add: mem_Resume_def Let_def new_stream_def subscribe_run_def)
  qed
qed

text \<open>C16. One run at a time: of the runs of a reachable session that have not ended, one is active, and at most one more is
  reserved, behind an active one that has not ended either; only the active one has been started.\<close>

theorem memory_one_run:
  assumes "mem_reach fits s" "ms_runs s r = Some run" "\<not> rn_terminal run"
  shows "(rn_started run \<longrightarrow> ms_active s = Some r) \<and>
    (ms_active s = Some r \<or> ms_reserved s = Some r \<and> (\<exists>a. ms_active s = Some a \<and> a \<noteq> r \<and> \<not> rn_terminal (run_of s a)))"
proof -
  note V = reach_valid[OF assms(1)]
  note slots = slots_okD[OF validD(3)[OF V]]
  have "ms_active s = Some r \<or> ms_reserved s = Some r" using coreD(9)[OF validD(1)[OF V] assms(2,3)] by auto
  moreover have "\<not> rn_started run" if "ms_reserved s = Some r" using slots(3)[OF that] assms(2) by simp
  moreover have "\<exists>a. ms_active s = Some a \<and> a \<noteq> r \<and> \<not> rn_terminal (run_of s a)" if "ms_reserved s = Some r"
    using slots(1) slots(2)[OF that] by auto
  ultimately show ?thesis by blast
qed

text \<open>C15. Steering requests: those of a run that were admitted are settled in the order in which they were admitted, each
  exactly once, the rest is pending, and when the run has ended nothing is pending: no steering request is lost, whatever fails
  and whatever intervenes.\<close>

theorem memory_steers_settled:
  assumes "mem_reach fits s" "ms_runs s r = Some run"
  shows "distinct (map fst (settlements s r)) \<and> map snd (settlements s r) @ map ps_requestID (rn_steers run) = rn_admittedSteers run \<and>
    (rn_terminal run \<longrightarrow> map snd (settlements s r) = rn_admittedSteers run)"
  using validD(2)[OF reach_valid[OF assms(1)] assms(2)] by (auto simp: steers_ok_def Let_def comp_def)

lemma effectivePolicy_idem [simp]: "effectivePolicy (Some (effectivePolicy p)) = effectivePolicy p"
  by (cases p) (simp_all add: effectivePolicy_def)

text \<open>C25. A session that was closed can be reopened once: the new session has the model and the compaction policy that the
  closed one ended with, and the threshold in force is the one of that policy; a second reopening is refused.\<close>

theorem memory_reopen_restores:
  assumes S: "mem_reach fits s" "\<not> ms_closed s" and C: "mem_Close False runs m s = (None, m1, s1)"
    and Q: "oq_Reopen request" "oq_SessionID request = mt_SessionID (ms_state s1)" "oq_SessionID request \<noteq> []"
      "oq_CompactionPolicy request = None" "oq_Participant request \<noteq> []" "mem_Admit dialect request = None"
  shows "\<exists>s2 m2. mem_Open dialect False request m1 = (Inr s2, m2) \<and> \<not> ms_closed s2 \<and> mt_Recovered (ms_state s2) \<and>
    mt_CurrentModelID (ms_state s2) = mt_CurrentModelID (ms_state s1) \<and> mt_CompactionPolicy (ms_state s2) = mt_CompactionPolicy (ms_state s1) \<and>
    ms_threshold s2 = ms_threshold s1 \<and> fst (mem_Open dialect False request m2) = Inl MemUnknownSession"
proof -
  note V = reach_valid[OF S(1)]
  have K: "m1 = keep m (oq_SessionID request) (mt_CurrentModelID (ms_state s1)) (mt_CompactionPolicy (ms_state s1))"
    using Close_outcome[OF V C] S(2) Q(2) by (auto simp: upd_state_def)
  obtain p where p: "mt_CompactionPolicy (ms_state s1) = Some (effectivePolicy p)" "compactionThreshold p = Inr (ms_threshold s1)"
    using validD(4)[OF Close_valid[OF V C]] by (auto simp: policy_ok_def)
  obtain attached provided where A: "admitToolSources request = Inr attached" "admitProvidedTools dialect request attached = Inr provided"
    using Q(6) by (auto simp: mem_Admit_def split: sum.splits)
  let ?m2 = "m\<lparr>mm_closed := (mm_closed m)(oq_SessionID request := None)\<rparr>"
  let ?s2 = "new_session ?m2 (oq_SessionID request) request attached provided (ms_threshold s1) (mt_CurrentModelID (ms_state s1)) True (Some (effectivePolicy p))"
  have "mem_Open dialect False request m1 = (Inr ?s2, ?m2)"
    using Q A threshold_effective[OF p(2)] by (simp add: mem_Open_def K keep_def claim_kept_def Let_def p(1) compactionThreshold_def[of None])
  moreover have "fst (mem_Open dialect False request ?m2) = Inl MemUnknownSession"
    using Q A by (simp add: mem_Open_def claim_kept_def Let_def compactionThreshold_def)
  ultimately show ?thesis using p(1) by (intro exI[of _ ?s2] exI[of _ ?m2]) (simp add: new_session_def)
qed

section \<open>An instance\<close>

text \<open>A session is opened and compacted, closed or reopened.\<close>

definition demo_opening :: OpenRequest where
  "demo_opening = \<lparr>oq_SessionID = ''s'', oq_Participant = ''user'', oq_ToolSources = [], oq_Tools = [], oq_AllowDegradedFeatures = [],
     oq_Reopen = False, oq_NativeSessionID = [], oq_ReasoningLevel = [], oq_CompactionPolicy = None, oq_Adopted = False\<rparr>"

definition demo_opened :: memorySession where
  "demo_opened = new_session (NewMemory 0 (\<lambda>_. True) 3) ''s'' demo_opening [] [] (referenceWindow * 80 div 100) [] False None"

definition demo_compacted :: memorySession where
  "demo_compacted = run_call (\<lambda>_. True) (CallCompact ''s'' [] None False) demo_opened"

lemma demo_opened_reach: "mem_reach (\<lambda>_. True) demo_opened"
  by (rule mem_opened[of "\<lambda>_. None" demo_opening "NewMemory 0 (\<lambda>_. True) 3" _ "NewMemory 0 (\<lambda>_. True) 3"])
    (simp add: demo_opened_def demo_opening_def NewMemory_def mem_Open_def admitToolSources_def admitProvidedTools_def
      claim_kept_def compactionThreshold_def new_session_def)

lemma demo_compacted_reach: "mem_reach (\<lambda>_. True) demo_compacted"
proof -
  have "demo_opened\<lparr>ms_others := []\<rparr> = demo_opened" by (simp add: demo_opened_def new_session_def)
  then show ?thesis using mem_called[OF demo_opened_reach, of "CallCompact ''s'' [] None False" "[]"] by (simp add: demo_compacted_def)
qed

lemma demo_compacted_run: "sequence_id ''run'' 1 \<in> dom (ms_runs demo_compacted) \<and> 0 < ms_nstream demo_compacted \<and> \<not> ms_closed demo_compacted"
proof -
  obtain r run s1 where c: "compact_run [] False [] demo_opened = (Inr (r, run), s1)" "fresh_run demo_opened r run s1"
    using compact_run_fresh by blast
  have r: "r = sequence_id ''run'' 1" using c(2) by (simp add: fresh_run_def demo_opened_def new_session_def NewMemory_def)
  have "others demo_opened = demo_opened" by (simp add: others_def demo_opened_def new_session_def)
  then have "demo_compacted = snd (admit_run False False [] [] (r, run) s1)"
    using c(1) by (simp add: demo_compacted_def run_call_def mem_Compact_def Let_def bind_op_def demo_opened_def new_session_def)
  from admit_run_valid[OF reach_valid[OF demo_opened_reach] c(2) _ _ this] r show ?thesis
    by (simp add: demo_opened_def new_session_def)
qed

theorem memory_events_sound_witness:
  "let r = sequence_id ''run'' 1; run = run_of demo_compacted r
   in mem_reach (\<lambda>_. True) demo_compacted \<and> ms_runs demo_compacted r = Some run \<and>
     map me_Seq (events demo_compacted r) = [1..<rn_nextSequence run] \<and> (\<forall>e \<in> set (butlast (events demo_compacted r)). \<not> terminal_event e) \<and>
     (rn_terminal run \<longleftrightarrow> events demo_compacted r \<noteq> [] \<and> terminal_event (last (events demo_compacted r)))"
proof -
  obtain run where "ms_runs demo_compacted (sequence_id ''run'' 1) = Some run" using demo_compacted_run by blast
  then show ?thesis using memory_events_sound[OF demo_compacted_reach, of "sequence_id ''run'' 1" run] demo_compacted_reach
    by (simp add: Let_def)
qed


theorem memory_resume_exact_witness:
  "let r = sequence_id ''run'' 1; run = run_of demo_compacted r; evs = filter (\<lambda>e. me_Seq e > 0) (events demo_compacted r);
     (res, s1) = mem_Resume False r 0 demo_compacted; t = ms_streams s1 (ms_nstream demo_compacted)
   in if set evs \<subseteq> set (ms_journal demo_compacted)
      then (\<exists>rv. res = Inr rv \<and> rv_Stream rv = ms_nstream demo_compacted) \<and> sm_sent t = evs \<and> sm_closed t = rn_terminal run
      else res = Inl (MemReplayGap 0 (oldest_in (filter (\<lambda>e. me_Run e = r) (ms_journal demo_compacted))) (rn_nextSequence run - 1)) \<and>
        sm_sent t = [] \<and> sm_closed t"
proof -
  obtain run where run: "ms_runs demo_compacted (sequence_id ''run'' 1) = Some run" using demo_compacted_run by blast
  have "0 < rn_nextSequence run" using coreD(1)[OF validD(1)[OF reach_valid[OF demo_compacted_reach]] run] by (simp add: run_ok_def)
  moreover have "\<not> ms_closed demo_compacted" "run_of demo_compacted (sequence_id ''run'' 1) = run" using demo_compacted_run run by simp_all
  ultimately show ?thesis using memory_resume_exact[OF demo_compacted_reach _ run] unfolding Let_def by presburger
qed

text \<open>A session with a tool of the client: two submissions, the second one reserved behind the first.\<close>

definition demo_tool :: ToolDefinition where
  "demo_tool = \<lparr>td_Name = ''t'', td_ExecutionOwner = ''u'', td_Source = scriptedSource, td_InputSchema = []\<rparr>"

definition demo_tools :: OpenRequest where
  "demo_tools = demo_opening\<lparr>oq_Participant := ''u'', oq_Tools := [demo_tool]\<rparr>"

definition demo_message :: MessageSubmitRequest where
  "demo_message = \<lparr>sq_SessionID = ''s'', sq_TargetRunID = [], sq_Messages = [\<lparr>mg_ID = ''m'', mg_Content = TextContent ''go''\<rparr>], sq_Delivery = [],
     sq_ModelID = None, sq_Instructions = None, sq_ToolChoice = Inr None, sq_OutputSchema = []\<rparr>"

definition demo_controls :: admittedControls where
  "demo_controls = \<lparr>co_model = [], co_instructions = [], co_outputSchema = [], co_elected = demo_tool, co_callsTool = True\<rparr>"

definition demo_provided :: memorySession where
  "demo_provided = new_session (NewMemory 0 (\<lambda>_. True) 3) ''s'' demo_tools [] [demo_tool] (referenceWindow * 80 div 100) [] False None"

definition demo_run :: "nat \<Rightarrow> memoryRun" where
  "demo_run n = (blank_run demo_provided)\<lparr>rn_stage := stageCall, rn_controls := demo_controls, rn_permissionID := sequence_id ''permission'' (n + 2),
     rn_inputID := sequence_id ''input'' (n + 3), rn_toolCallID := sequence_id ''tool-call'' (n + 4), rn_input := 1,
     rn_callID := sequence_id ''call'' (n + 5), rn_providedTool := demo_tool\<rparr>"

definition demo_started :: memorySession where
  "demo_started = answerRun ''run-1'' (snd (emitInitial ''run-1'' ((enter_run False False ''run-1'' (demo_run 0) (demo_provided\<lparr>ms_ids := 5\<rparr>))\<lparr>ms_ids := 6\<rparr>)))"

lemma demo_provided_reach: "mem_reach (\<lambda>_. True) demo_provided"
proof (rule mem_opened[of "\<lambda>_. None" demo_tools "NewMemory 0 (\<lambda>_. True) 3" _ "NewMemory 0 (\<lambda>_. True) 3"])
  have "admitProvidedTools (\<lambda>_. None) demo_tools [] = Inr [demo_tool]" by code_simp
  then show "mem_Open (\<lambda>_. None) False demo_tools (NewMemory 0 (\<lambda>_. True) 3) = (Inr demo_provided, NewMemory 0 (\<lambda>_. True) 3)"
    by (simp add: demo_provided_def demo_tools_def demo_opening_def NewMemory_def mem_Open_def admitToolSources_def claim_kept_def compactionThreshold_def new_session_def)
qed

lemma start_entered_state: "snd (start_entered busy r answer s) = answerRun r (if busy then s else snd (emitInitial r s))"
  by (simp add: start_entered_def split: prod.split sum.split)

lemma submit_demo:
  assumes "ms_provided s = [demo_tool]" "ms_participant s = ''u''" "ms_others s = []" "\<not> ms_closed s" "mt_SessionID (ms_state s) = ''s''"
    "mt_CurrentModelID (ms_state s) = []" "busy = run_live s (ms_active s)" "\<not> (busy \<and> run_live s (ms_reserved s))" "ms_ids s = n" "sequence_id ''run'' (Suc n) = r"
  shows "run_call (\<lambda>_. True) (CallSubmit e demo_message) s =
    answerRun r ((if busy then id else (\<lambda>s. snd (emitInitial r s))) ((enter_run busy busy r (demo_run n) (s\<lparr>ms_ids := n + 5\<rparr>))\<lparr>ms_ids := n + 6\<rparr>))"
proof -
  have c: "admitControls (\<lambda>_. True) [demo_tool] demo_message = Inr demo_controls" by code_simp
  have h: "historyTokens (map mg_Content (sq_Messages demo_message)) = 1" by code_simp
  have o: "others s = s" by (simp add: others_def assms(3))
  have f: "sq_Delivery demo_message = []" "sq_SessionID demo_message = ''s''" "message_ids (sq_Messages demo_message) = ret [''m'']" "sq_Messages demo_message \<noteq> []"
    by (simp_all add: demo_message_def ret_def bind_op_def fun_eq_iff)
  have b: "blank_run (s\<lparr>ms_ids := k\<rparr>) = blank_run demo_provided" for k
    by (simp add: blank_run_def assms(2) demo_provided_def new_session_def demo_tools_def)
  have m: "co_model demo_controls = []" "demo_controls\<lparr>co_model := []\<rparr> = demo_controls" "co_callsTool demo_controls" "co_elected demo_controls = demo_tool"
    by (simp_all add: demo_controls_def)
  have run: "submit_run demo_controls 1 s = (Inr (r, demo_run n), s\<lparr>ms_ids := n + 5\<rparr>)"
    using assms(1,9,10) by (simp add: submit_run_def bind_op_def NewID_def get_def ret_def b demo_run_def m eval_nat_numeral)
  have "snd (bind_op (submit_run demo_controls 1) (admit_run busy busy [] (sq_Messages demo_message)) s) =
      answerRun r ((if busy then id else (\<lambda>s. snd (emitInitial r s))) ((enter_run busy busy r (demo_run n) (s\<lparr>ms_ids := n + 5\<rparr>))\<lparr>ms_ids := n + 6\<rparr>))"
    by (simp add: bind_op_def[of "submit_run _ _"] run admit_run_def f(3)) (simp add: bind_op_def ret_def NewID_def start_entered_state enter_run_fields add.commute[of 6])
  then show ?thesis
    using assms(1,4-8) by (cases busy) (simp_all add: run_call_def mem_Submit_def Let_def o c h f(1,2,4) m)
qed

lemma demo_started_reach: "mem_reach (\<lambda>_. True) demo_started"
proof -
  have o: "demo_provided\<lparr>ms_others := []\<rparr> = demo_provided" by (simp add: demo_provided_def new_session_def)
  have "sequence_id ''run'' (Suc 0) = ''run-1''" by code_simp
  then have "run_call (\<lambda>_. True) (CallSubmit ''e1'' demo_message) demo_provided = demo_started"
    using submit_demo[of demo_provided False 0 "''run-1''" "''e1''"] by (simp add: demo_started_def demo_provided_def new_session_def demo_tools_def NewMemory_def)
  then show ?thesis using mem_called[OF demo_provided_reach, of "CallSubmit ''e1'' demo_message" "[]"] o by simp
qed

definition demo_view :: "memorySession \<Rightarrow> _" where
  "demo_view s = (ms_provided s, ms_participant s, ms_others s, ms_closed s, mt_SessionID (ms_state s), mt_CurrentModelID (ms_state s),
     run_live s (ms_active s), run_live s (ms_reserved s), ms_ids s)"

lemma demo_started_fields:
  "ms_provided demo_started = [demo_tool]" "ms_participant demo_started = ''u''" "ms_others demo_started = []" "\<not> ms_closed demo_started"
  "mt_SessionID (ms_state demo_started) = ''s''" "mt_CurrentModelID (ms_state demo_started) = []" "run_live demo_started (ms_active demo_started)"
  "\<not> run_live demo_started (ms_reserved demo_started)" "ms_ids demo_started = 10"
proof -
  have "demo_view demo_started = ([demo_tool], ''u'', [], False, ''s'', [], True, False, 10)" by code_simp
  then show "ms_provided demo_started = [demo_tool]" "ms_participant demo_started = ''u''" "ms_others demo_started = []" "\<not> ms_closed demo_started"
    "mt_SessionID (ms_state demo_started) = ''s''" "mt_CurrentModelID (ms_state demo_started) = []" "run_live demo_started (ms_active demo_started)"
    "\<not> run_live demo_started (ms_reserved demo_started)" "ms_ids demo_started = 10"
    unfolding demo_view_def by (simp_all only: prod.inject simp_thms)
qed

definition demo_queued :: memorySession where
  "demo_queued = answerRun ''run-11'' ((enter_run True True ''run-11'' (demo_run 10) (demo_started\<lparr>ms_ids := 15\<rparr>))\<lparr>ms_ids := 16\<rparr>)"

lemma demo_queued_reach: "mem_reach (\<lambda>_. True) demo_queued"
proof -
  have "sequence_id ''run'' (Suc 10) = ''run-11''" by code_simp
  then have "run_call (\<lambda>_. True) (CallSubmit ''e2'' demo_message) demo_started = demo_queued"
    using submit_demo[OF demo_started_fields(1-6) _ _ demo_started_fields(9), of True "''run-11''" "''e2''"] demo_started_fields(7,8) by (simp add: demo_queued_def)
  moreover have "demo_started\<lparr>ms_others := []\<rparr> = demo_started" by (rule memorySession.equality) (simp_all add: demo_started_fields(3))
  ultimately show ?thesis using mem_called[OF demo_started_reach, of "CallSubmit ''e2'' demo_message" "[]"] by simp
qed

text \<open>The client answers the call of the reserved run, which was not made yet.\<close>

definition demo_acknowledgement :: ActionCallResolveRequest where
  "demo_acknowledgement = \<lparr>cr_InteractionID = ''call-15'', cr_SessionID = ''s'', cr_RunID = ''run-11'', cr_ToolCallID = ''tool-call-14'',
     cr_RequestedBy = endpointID, cr_RespondedBy = ''u'', cr_Started = True, cr_Result = None, cr_Error = None\<rparr>"

definition demo_early :: memorySession where
  "demo_early = run_call (\<lambda>_. True) (CallResolveCall ''e3'' demo_acknowledgement) demo_queued"

definition call_started :: "mem_event \<Rightarrow> bool" where
  "call_started e = (case me_Payload e of PActionCall CallStarted c \<Rightarrow> True | _ \<Rightarrow> False)"

definition demo_early_view :: "memorySession \<Rightarrow> (bytes option \<times> bool option \<times> bool list)" where
  "demo_early_view s = (ms_reserved s, map_option rn_started (ms_runs s ''run-11''), map call_started (events s ''run-11''))"

text \<open>C35. A client can answer the call of a run that has not been started: \<^verbatim>\<open>ResolveCall\<close> does not ask whether the run was
  started, as \<^verbatim>\<open>Resolve\<close> does, so a reserved run publishes the start of a tool call that nobody requested, before its own start.\<close>

theorem unstarted_call_answered:
  "\<exists>s r run e. mem_reach (\<lambda>_. True) s \<and> ms_runs s r = Some run \<and> ms_reserved s = Some r \<and> \<not> rn_started run \<and> events s r = [e] \<and> call_started e"
proof -
  have "demo_queued\<lparr>ms_others := []\<rparr> = demo_queued"
  proof (rule memorySession.equality)
    have "ms_others demo_queued = []" by code_simp
    then show "ms_others (demo_queued\<lparr>ms_others := []\<rparr>) = ms_others demo_queued" by simp
  qed simp_all
  then have reach: "mem_reach (\<lambda>_. True) demo_early"
    using mem_called[OF demo_queued_reach, of "CallResolveCall ''e3'' demo_acknowledgement" "[]"] by (simp add: demo_early_def)
  have "demo_early_view demo_early = (Some ''run-11'', Some False, [True])" by code_simp
  then have "ms_reserved demo_early = Some ''run-11''" "map_option rn_started (ms_runs demo_early ''run-11'') = Some False"
      "map call_started (events demo_early ''run-11'') = [True]"
    unfolding demo_early_view_def by (simp_all only: prod.inject)
  then show ?thesis using reach by (auto simp: map_eq_Cons_conv)
qed

theorem memory_one_run_witness:
  "let s = demo_queued; r = ''run-11''; run = run_of s r
   in mem_reach (\<lambda>_. True) s \<and> ms_runs s r = Some run \<and> \<not> rn_terminal run \<and> (rn_started run \<longrightarrow> ms_active s = Some r) \<and>
     (ms_active s = Some r \<or> ms_reserved s = Some r \<and> (\<exists>a. ms_active s = Some a \<and> a \<noteq> r \<and> \<not> rn_terminal (run_of s a)))"
proof -
  have "map_option rn_terminal (ms_runs demo_queued ''run-11'') = Some False" by code_simp
  then obtain run where run: "ms_runs demo_queued ''run-11'' = Some run" "\<not> rn_terminal run" by auto
  then show ?thesis using memory_one_run[OF demo_queued_reach run] demo_queued_reach unfolding Let_def by simp
qed

definition demo_reopening :: OpenRequest where
  "demo_reopening = demo_opening\<lparr>oq_Reopen := True\<rparr>"

theorem memory_reopen_restores_witness:
  "\<exists>m1 s1 s2 m2. mem_Close False [] (NewMemory 0 (\<lambda>_. True) 3) demo_opened = (None, m1, s1) \<and>
    mem_Open (\<lambda>_. None) False demo_reopening m1 = (Inr s2, m2) \<and> mt_Recovered (ms_state s2) \<and>
    mt_CurrentModelID (ms_state s2) = mt_CurrentModelID (ms_state s1) \<and> mt_CompactionPolicy (ms_state s2) = mt_CompactionPolicy (ms_state s1) \<and>
    ms_threshold s2 = ms_threshold s1 \<and> fst (mem_Open (\<lambda>_. None) False demo_reopening m2) = Inl MemUnknownSession"
proof -
  have o: "\<not> ms_closed demo_opened" by (simp add: demo_opened_def new_session_def)
  obtain m1 s1 where c: "mem_Close False [] (NewMemory 0 (\<lambda>_. True) 3) demo_opened = (None, m1, s1)" and sid: "mt_SessionID (ms_state s1) = ''s''"
    by (simp add: mem_Close_def Let_def others_def demo_opened_def new_session_def upd_state_def)
  have a: "mem_Admit (\<lambda>_. None) demo_reopening = None" by code_simp
  have f: "oq_Reopen demo_reopening" "oq_SessionID demo_reopening = mt_SessionID (ms_state s1)" "oq_SessionID demo_reopening \<noteq> []"
      "oq_CompactionPolicy demo_reopening = None" "oq_Participant demo_reopening \<noteq> []"
    by (simp_all add: demo_reopening_def demo_opening_def sid)
  from memory_reopen_restores[OF demo_opened_reach o c f a] c show ?thesis by blast
qed

definition demo_steered :: memorySession where
  "demo_steered = run_call (\<lambda>_. True) (CallSubmit ''e9'' (demo_message\<lparr>sq_Delivery := ''steer''\<rparr>)) demo_started"

theorem memory_steers_settled_witness:
  "let s = demo_steered; r = ''run-1''; run = run_of s r
   in mem_reach (\<lambda>_. True) s \<and> rn_admittedSteers run = [''e9''] \<and> distinct (map fst (settlements s r)) \<and>
     map snd (settlements s r) @ map ps_requestID (rn_steers run) = rn_admittedSteers run \<and>
     (rn_terminal run \<longrightarrow> map snd (settlements s r) = rn_admittedSteers run)"
proof -
  have "demo_started\<lparr>ms_others := []\<rparr> = demo_started" by (rule memorySession.equality) (simp_all add: demo_started_fields(3))
  then have reach: "mem_reach (\<lambda>_. True) demo_steered"
    using mem_called[OF demo_started_reach, of "CallSubmit ''e9'' (demo_message\<lparr>sq_Delivery := ''steer''\<rparr>)" "[]"] by (simp add: demo_steered_def)
  have "map_option rn_admittedSteers (ms_runs demo_steered ''run-1'') = Some [''e9'']" by code_simp
  then obtain run where run: "ms_runs demo_steered ''run-1'' = Some run" "rn_admittedSteers run = [''e9'']" by auto
  then show ?thesis using memory_steers_settled[OF reach run(1)] reach unfolding Let_def by simp
qed

end
