(* ===== verification/Memory_Bound.thy ===== *)
theory Memory_Bound
  imports Memory_Order
begin

text \<open>
  The bound on promotions is enough: a run that is started while nothing is reserved promotes nobody, so the script of a run
  is the same with every larger bound, and no request of a session ever reaches the bound.
\<close>

section \<open>Operations that promote nobody\<close>

text \<open>With nothing reserved the operation does not depend on what starts a promoted run.\<close>

definition unpromoting :: "((bytes \<Rightarrow> unit mem_op) \<Rightarrow> 'a mem_op) \<Rightarrow> bool" where
  "unpromoting f \<longleftrightarrow> (\<forall>s i j. ms_reserved s = None \<longrightarrow> f i s = f j s \<and> ms_reserved (snd (f i s)) = None \<and> fst (f i s) \<noteq> Inl MemPromotions)"

named_theorems unpromoting_intros "operations that promote nobody"

lemma unpromotingI:
  "(\<And>s i j. ms_reserved s = None \<Longrightarrow> f i s = f j s \<and> ms_reserved (snd (f i s)) = None \<and> fst (f i s) \<noteq> Inl MemPromotions) \<Longrightarrow> unpromoting f"
  unfolding unpromoting_def by blast

lemma unpromotingD:
  assumes "unpromoting f" "ms_reserved s = None"
  shows "f i s = f j s" "ms_reserved (snd (f i s)) = None" "fst (f i s) \<noteq> Inl MemPromotions"
  using assms unfolding unpromoting_def by blast+

lemma unpromoting_bind [unpromoting_intros]:
  assumes m: "unpromoting m" and f: "\<And>a. unpromoting (\<lambda>i. f i a)"
  shows "unpromoting (\<lambda>i. bind_op (m i) (f i))"
proof (rule unpromotingI)
  fix s :: memorySession and i j assume s: "ms_reserved s = None"
  obtain res s1 where m1: "m i s = (res, s1)" by fastforce
  have "m j s = (res, s1)" using unpromotingD(1)[OF m s, of j i] m1 by simp
  moreover have "ms_reserved s1 = None" "res \<noteq> Inl MemPromotions" using unpromotingD(2,3)[OF m s, of i] m1 by simp_all
  ultimately show "bind_op (m i) (f i) s = bind_op (m j) (f j) s \<and> ms_reserved (snd (bind_op (m i) (f i) s)) = None \<and>
      fst (bind_op (m i) (f i) s) \<noteq> Inl MemPromotions"
    using m1 unpromotingD[OF f] by (cases res) (simp_all add: bind_op_def)
qed

lemma unpromoting_ret [unpromoting_intros]: "unpromoting (\<lambda>_. ret a)"
  by (rule unpromotingI) (simp add: ret_def)

lemma unpromoting_get [unpromoting_intros]: "unpromoting (\<lambda>_. get f)"
  by (rule unpromotingI) (simp add: get_def)

lemma unpromoting_NewID [unpromoting_intros]: "unpromoting (\<lambda>_. NewID kind)"
  by (rule unpromotingI) (simp add: NewID_def)

lemma unpromoting_section [unpromoting_intros]: "(\<And>s. ms_reserved (f s) = ms_reserved s) \<Longrightarrow> unpromoting (\<lambda>_. section_op f)"
  by (rule unpromotingI) (simp add: section_op_def)

lemma unpromoting_if [unpromoting_intros]: "unpromoting m \<Longrightarrow> unpromoting n \<Longrightarrow> unpromoting (\<lambda>i. if b then m i else n i)"
  by (cases b) simp_all

lemma unpromoting_option [unpromoting_intros]:
  "unpromoting m \<Longrightarrow> (\<And>x. unpromoting (\<lambda>i. n i x)) \<Longrightarrow> unpromoting (\<lambda>i. case x of None \<Rightarrow> m i | Some x \<Rightarrow> n i x)"
  by (cases x) simp_all

lemma unpromoting_prod [unpromoting_intros]: "(\<And>x y. unpromoting (\<lambda>i. m i x y)) \<Longrightarrow> unpromoting (\<lambda>i. case x of (x, y) \<Rightarrow> m i x y)"
  by (cases x) simp

lemma unless_won_eq: "unless_won m s = (if fst (m s) = Inl MemTerminalWon then (Inr (), snd (m s)) else m s)"
  by (auto simp: unless_won_def split: prod.split sum.split mem_error.split)

lemma unpromoting_unless_won [unpromoting_intros]:
  assumes m: "unpromoting m"
  shows "unpromoting (\<lambda>i. unless_won (m i))"
proof (rule unpromotingI)
  fix s :: memorySession and i j assume s: "ms_reserved s = None"
  note D = unpromotingD[OF m s]
  show "unless_won (m i) s = unless_won (m j) s \<and> ms_reserved (snd (unless_won (m i) s)) = None \<and> fst (unless_won (m i) s) \<noteq> Inl MemPromotions"
    using D(1)[of i j] D(2,3)[of i] by (simp add: unless_won_eq)
qed

lemma unpromoting_each [unpromoting_intros]: "(\<And>x. unpromoting (\<lambda>_. f x)) \<Longrightarrow> unpromoting (\<lambda>_. each_op f xs)"
  by (induction xs) (auto intro!: unpromoting_intros)

lemma promote_nobody: "ms_reserved s = None \<Longrightarrow> fst (promote r n s) = None \<and> ms_reserved (snd (promote r n s)) = None"
  by (simp add: promote_def Let_def)

lemma publish_event_slots:
  "ms_reserved s = None \<Longrightarrow> ms_reserved (snd (publish_event r p terminal settled run eid s)) = None \<and>
    fst (publish_event r p terminal settled run eid s) \<in> {Inl MemEncode, Inr None}"
  by (cases terminal; cases "ms_encodes s p") (simp_all add: publish_event_def Let_def case_prod_beta promote_nobody)

lemma publish_slots:
  assumes "ms_reserved s = None"
  shows "ms_reserved (snd (publishSettling r p terminal settled s)) = None \<and>
    fst (publishSettling r p terminal settled s) \<in> {Inl MemTerminalWon, Inl MemEncode, Inr None}"
  using assms publish_event_slots[of "(others s)\<lparr>ms_ids := Suc (ms_ids (others s))\<rparr>"]
  by (simp add: publishSettling_def Let_def bind_op_def NewID_def)

lemma unpromoting_settle [unpromoting_intros]: "unpromoting (\<lambda>_. settle_one f r t)"
proof (rule unpromotingI)
  fix s :: memorySession assume "ms_reserved s = None"
  from publish_slots[OF this, of r "f t" False "ps_submissionID t"]
  show "settle_one f r t s = settle_one f r t s \<and> ms_reserved (snd (settle_one f r t s)) = None \<and> fst (settle_one f r t s) \<noteq> Inl MemPromotions"
    by (auto simp: settle_one_def bind_op_def ret_def split: prod.split sum.split)
qed

lemma unpromoting_steers [unpromoting_intros]: "unpromoting (\<lambda>_. settleSteers r)" "unpromoting (\<lambda>_. dropSteers r)"
  unfolding settleSteers_def[abs_def] dropSteers_def[abs_def] pendingSteers_def[abs_def] by (intro unpromoting_intros refl)+

lemma unpromoting_emit [unpromoting_intros]: "unpromoting (\<lambda>i. emit i r p terminal)"
proof (rule unpromotingI)
  fix s :: memorySession and i j :: "bytes \<Rightarrow> unit mem_op" assume s: "ms_reserved s = None"
  have d: "unpromoting (\<lambda>_ :: bytes \<Rightarrow> unit mem_op. if terminal then dropSteers r else ret ())" by (intro unpromoting_intros)
  obtain res s1 where d1: "(if terminal then dropSteers r else ret ()) s = (res, s1)" by fastforce
  have s1: "ms_reserved s1 = None" "res \<noteq> Inl MemPromotions" using unpromotingD(2,3)[OF d s] d1 by simp_all
  show "emit i r p terminal s = emit j r p terminal s \<and> ms_reserved (snd (emit i r p terminal s)) = None \<and> fst (emit i r p terminal s) \<noteq> Inl MemPromotions"
    using d1 s1 publish_slots[OF s1(1), of r p terminal "[]"]
    by (cases res) (auto simp: emit_def bind_op_def ret_def split: prod.split sum.split)
qed

lemma unpromoting_emitCompaction [unpromoting_intros]: "unpromoting (\<lambda>i. emitCompaction i r reason)"
  unfolding emitCompaction_def[abs_def] by (intro unpromoting_intros) simp_all

lemma unpromoting_requestInput [unpromoting_intros]: "unpromoting (\<lambda>i. requestInput i r)"
  unfolding requestInput_def[abs_def] by (intro unpromoting_intros) (simp add: upd_state_def upd_run_def)

lemma unpromoting_emit_script [unpromoting_intros]: "unpromoting (\<lambda>i. emit_script i r)"
  unfolding emit_script_def[abs_def] by (intro unpromoting_intros)

lemma unpromoting_emit_started [unpromoting_intros]: "unpromoting (\<lambda>i. emit_started i r)"
  unfolding emit_started_def[abs_def] by (intro unpromoting_intros) simp_all

text \<open>With nothing reserved the bound does not matter.\<close>

lemma emit_initial_bound:
  assumes "ms_reserved s = None"
  shows "emit_initial (Suc n) r s = emit_initial 1 r s" "fst (emit_initial (Suc n) r s) \<noteq> Inl MemPromotions"
proof -
  have "unpromoting (\<lambda>i. bind_op (section_op (start_run r)) (\<lambda>_. emit_started i r))"
    by (intro unpromoting_intros) (simp add: start_run_def upd_run_def)
  from unpromotingD[OF this assms] show "emit_initial (Suc n) r s = emit_initial 1 r s" "fst (emit_initial (Suc n) r s) \<noteq> Inl MemPromotions"
    by (simp_all add: unpromotingD(1)[of "\<lambda>i. emit_started i r" _ "emit_initial n" "emit_initial 0"])
qed

section \<open>No request reaches the bound\<close>

definition bounded :: "'a mem_op \<Rightarrow> bool" where
  "bounded m \<longleftrightarrow> (\<forall>s. fst (m s) \<noteq> Inl MemPromotions)"

named_theorems bounded_intros "operations that never reach the bound on promotions"

lemma boundedD: "bounded m \<Longrightarrow> fst (m s) \<noteq> Inl MemPromotions"
  unfolding bounded_def by blast

lemma bounded_bind [bounded_intros]: "bounded m \<Longrightarrow> (\<And>a. bounded (f a)) \<Longrightarrow> bounded (bind_op m f)"
  by (auto simp: bounded_def bind_op_def split: prod.split sum.split) (metis fst_conv)

lemma bounded_steps [bounded_intros]: "bounded (ret a)" "bounded (get f)" "bounded (NewID kind)" "bounded (section_op g)" "bounded (ignoring m)"
  by (simp_all add: bounded_def ret_def get_def NewID_def section_op_def ignoring_def)

lemma bounded_if [bounded_intros]: "bounded m \<Longrightarrow> bounded n \<Longrightarrow> bounded (if b then m else n)"
  by simp

lemma bounded_unless_won [bounded_intros]: "bounded m \<Longrightarrow> bounded (unless_won m)"
  by (simp add: bounded_def unless_won_eq)

lemma publish_bounded [bounded_intros]: "bounded (publishSettling r p terminal settled)"
  by (simp add: bounded_def publishSettling_def publish_event_def Let_def bind_op_def NewID_def case_prod_beta)

lemma bounded_each [bounded_intros]: "(\<And>x. bounded (f x)) \<Longrightarrow> bounded (each_op f xs)"
  by (induction xs) (auto intro!: bounded_intros)

lemma bounded_steers [bounded_intros]: "bounded (settleSteers r)" "bounded (dropSteers r)"
  unfolding settleSteers_def[abs_def] dropSteers_def[abs_def] pendingSteers_def[abs_def] settle_one_def[abs_def] by (intro bounded_intros)+

lemma promoted_alone: "fst (publishSettling r p terminal settled s) = Inr (Some q) \<Longrightarrow> ms_reserved (snd (publishSettling r p terminal settled s)) = None"
proof -
  have "fst (promote r n x) = Some q \<Longrightarrow> ms_reserved (snd (promote r n x)) = None" for n x by (auto simp: promote_def Let_def split: if_splits)
  then show "fst (publishSettling r p terminal settled s) = Inr (Some q) \<Longrightarrow> ?thesis"
    by (auto simp: publishSettling_def publish_event_def Let_def bind_op_def NewID_def case_prod_beta split: if_splits)
qed

lemma bounded_emit [bounded_intros]: "bounded (emit emitInitial r p terminal)"
  unfolding bounded_def
proof
  fix s
  have d: "bounded (if terminal then dropSteers r else ret ())" by (intro bounded_intros)
  obtain res s1 where d1: "(if terminal then dropSteers r else ret ()) s = (res, s1)" by fastforce
  obtain res1 s2 where p: "publishSettling r p terminal [] s1 = (res1, s2)" by fastforce
  have "fst (emitInitial q s2) \<noteq> Inl MemPromotions" if "res1 = Inr (Some q)" for q
    using promoted_alone[of r p terminal "[]" s1 q] emit_initial_bound(2)[of s2 1 q] p that by (simp add: emitInitial_def numeral_2_eq_2)
  then show "fst (emit emitInitial r p terminal s) \<noteq> Inl MemPromotions"
    using boundedD[OF d, of s] boundedD[OF publish_bounded, of r p terminal "[]" s1] d1 p
    by (auto simp: emit_def bind_op_def ret_def split: sum.split option.split)
qed

lemma bounded_requestInput [bounded_intros]: "bounded (requestInput emitInitial r)"
  unfolding requestInput_def[abs_def] by (intro bounded_intros)

lemma bounded_resolvePermission [bounded_intros]: "bounded (resolvePermission r request)"
  unfolding resolvePermission_def[abs_def] by (intro bounded_intros)

lemma bounded_won_case [bounded_intros]:
  "bounded m \<Longrightarrow> bounded n \<Longrightarrow> bounded (\<lambda>s. case m s of (Inl MemTerminalWon, s1) \<Rightarrow> n s1 | x \<Rightarrow> x)"
proof -
  assume m: "bounded m" and n: "bounded n"
  have "(case m s of (Inl MemTerminalWon, s1) \<Rightarrow> n s1 | x \<Rightarrow> x) = (if fst (m s) = Inl MemTerminalWon then n (snd (m s)) else m s)" for s
    by (auto split: prod.split sum.split mem_error.split)
  then show ?thesis using m n by (simp add: bounded_def)
qed

lemma bounded_resolveInput [bounded_intros]: "bounded (resolveInput r request)"
  unfolding resolveInput_def[abs_def] by (intro bounded_intros)

lemma bounded_settleCall [bounded_intros]: "bounded (settleCall r acknowledged)"
  unfolding settleCall_def[abs_def] by (intro bounded_intros)

lemma bounded_cancel_started [bounded_intros]: "bounded (cancel_started r)"
  unfolding cancel_started_def[abs_def] by (intro bounded_intros)

lemma bounded_message_ids [bounded_intros]: "bounded (message_ids ms)"
  by (induction ms) (auto intro!: bounded_intros)

text \<open>A run is entered to be started only while nothing is reserved.\<close>

lemma admit_run_bounded:
  assumes V: "valid s" and F: "fresh_run s r run s1" and B: "busy = run_live s (ms_active s)"
  shows "fst (admit_run busy reservation model messages (r, run) s1) \<noteq> Inl MemPromotions"
proof -
  let ?e = "enter_run busy reservation r run s1"
  obtain ids n where m: "message_ids messages ?e = (Inr ids, ?e\<lparr>ms_ids := n\<rparr>)" using message_ids_state by blast
  obtain k where k: "s1 = s\<lparr>ms_ids := k\<rparr>" using F unfolding fresh_run_def by blast
  let ?f = "?e\<lparr>ms_ids := Suc n\<rparr>"
  have out: "fst (admit_run busy reservation model messages (r, run) s1) =
      fst (start_entered busy r (admission busy reservation (sequence_id ''submission'' (Suc n)) r model ids) ?f)"
    using m by (simp add: admit_run_def bind_op_def NewID_def)
  show ?thesis
  proof (cases busy)
    case True
    then show ?thesis unfolding out by (simp add: start_entered_def)
  next
    case False
    have "ms_active s = None" using B False slots_okD(1)[OF validD(3)[OF V]] by (auto split: option.splits)
    then have "ms_reserved ?f = None" using slots_okD(2)[OF validD(3)[OF V]] False k by (cases "ms_reserved s") (simp_all add: enter_run_fields)
    from emit_initial_bound(2)[OF this, of 1 r] show ?thesis
      unfolding out by (auto simp: start_entered_def emitInitial_def numeral_2_eq_2 split: prod.splits sum.splits if_splits)
  qed
qed

lemma admitControls_error: "admitControls fits provided request \<noteq> Inl MemPromotions"
proof -
  have "snd x \<noteq> MemPromotions" if "sort_key fst xs = x # ys" "\<forall>y \<in> set xs. snd y \<noteq> MemPromotions" for xs x and ys :: "(bytes \<times> mem_error) list"
    using that by (metis list.set_intros(1) set_sort)
  then show ?thesis unfolding admitControls_def Let_def
    by (auto split: prod.splits list.splits sum.splits option.splits if_splits)
qed

lemma refuseSteerControls_error: "refuseSteerControls request \<noteq> Some MemPromotions"
  by (simp add: refuseSteerControls_def split: list.split)



end
